(* ===== verification/Prelude.thy ===== *)
theory Prelude
  imports Main "HOL-Library.Word"
begin

unbundle bit_operations_syntax

text \<open>
  The prelude of the development: the names of the machine types the C and C++ sources of
  Hustle use, memory as seen through a pointer, the development's theorem collections and the
  generic lemmas on words, bits and lists that the component theories share.

  \<^item> \<open>u8\<close>, \<open>u16\<close>, \<open>u32\<close>, \<open>u64\<close> are the unsigned fixed-width types; \<open>size_t\<close> is 64 bits wide.
    A signed value of the same width is the same word read by \<^const>\<open>sint\<close>.
  \<^item> \<open>mem\<close> is the byte memory a pointer \<open>p\<close> points into: \<open>p i\<close> is \<open>p[i]\<close>. Which bytes a routine
    may touch is stated by theorems (its result depends on these bytes only).
\<close>

section \<open>Machine types\<close>

type_synonym u8 = "8 word"
type_synonym u16 = "16 word"
type_synonym u32 = "32 word"
type_synonym u64 = "64 word"
type_synonym mem = "nat \<Rightarrow> u8"

section \<open>Theorem collections\<close>

named_theorems bit_unfold \<open>bit tests of the word operations, as formulas over the bit position\<close>
named_theorems pos_arith \<open>arithmetic of bit positions inside a known interval\<close>

section \<open>Failing C code\<close>

text \<open>
  What C leaves undefined, or stops, is a value of its own; \<open>LogicError\<close> is a thrown
  \<open>std::logic_error\<close>, \<open>RuntimeError\<close> any other exception. An operation that may fail returns
  \<open>cerr + 'a\<close>; \<open>and_then\<close> is the sequencing of two of them.
\<close>

datatype cerr = NullDeref | OutOfBounds | UseAfterFree | IntOverflow | AssertFailed
  | DivByZero | LogicError | RuntimeError

type_synonym 'a res = "cerr + 'a"

fun and_then :: "'a res \<Rightarrow> ('a \<Rightarrow> 'b res) \<Rightarrow> 'b res" where
  "and_then (Inl e) f = Inl e"
| "and_then (Inr x) f = f x"

text \<open>The same for a loop that may also not end, or need more than its bound: \<open>None\<close>.\<close>

fun bind_opt :: "'a res option \<Rightarrow> ('a \<Rightarrow> 'b res option) \<Rightarrow> 'b res option" where
  "bind_opt None f = None"
| "bind_opt (Some (Inl e)) f = Some (Inl e)"
| "bind_opt (Some (Inr x)) f = f x"

lemma and_then_Inr: "and_then m f = Inr y \<longleftrightarrow> (\<exists>x. m = Inr x \<and> f x = Inr y)"
  by (cases m) auto

text \<open>A result of type \<open>int\<close>; and a value stored into an \<open>int\<close> or an atomic one, which wraps.\<close>

definition to_int32 :: "int \<Rightarrow> int res" where
  "to_int32 x = (if - (2 ^ 31) \<le> x \<and> x < 2 ^ 31 then Inr x else Inl IntOverflow)"

definition wrap32 :: "int \<Rightarrow> int" where "wrap32 x = sint (word_of_int x :: u32)"

lemma to_int32_small: "0 \<le> x \<Longrightarrow> x < 2 ^ 31 \<Longrightarrow> to_int32 x = Inr x"
  by (simp add: to_int32_def)

lemma wrap32_small: "0 \<le> x \<Longrightarrow> x < 2 ^ 31 \<Longrightarrow> wrap32 x = x"
  by (simp only: wrap32_def sint_uint uint_word_of_int_eq) (simp add: take_bit_int_eq_self signed_take_bit_int_eq_self)

section \<open>Arrays and byte ranges\<close>

text \<open>An array access; out of range is an error.\<close>

definition fetch :: "'a list \<Rightarrow> nat \<Rightarrow> 'a res" where
  "fetch xs i = (if i < length xs then Inr (xs ! i) else Inl OutOfBounds)"

text \<open>An index that is a difference: a negative one leaves the array.\<close>

definition at_offset :: "'a list \<Rightarrow> int \<Rightarrow> 'a res" where
  "at_offset xs i = (if 0 \<le> i then fetch xs (nat i) else Inl OutOfBounds)"

lemma fetch_Inr [simp]: "i < length xs \<Longrightarrow> fetch xs i = Inr (xs ! i)"
  by (simp add: fetch_def)

lemma at_offset_Inr [simp]: "i < length xs \<Longrightarrow> at_offset xs (int i) = Inr (xs ! i)"
  by (simp add: at_offset_def)

text \<open>\<open>memcpy\<close> from and to a range of an allocated buffer.\<close>

definition load :: "int \<Rightarrow> int \<Rightarrow> 'a list \<Rightarrow> 'a list res" where
  "load off n bs = (if 0 \<le> off \<and> 0 \<le> n \<and> off + n \<le> int (length bs)
     then Inr (take (nat n) (drop (nat off) bs)) else Inl OutOfBounds)"

definition store :: "int \<Rightarrow> 'a list \<Rightarrow> 'a list \<Rightarrow> 'a list res" where
  "store off vs bs = (if 0 \<le> off \<and> off + int (length vs) \<le> int (length bs)
     then Inr (take (nat off) bs @ vs @ drop (nat off + length vs) bs) else Inl OutOfBounds)"

lemma store_Inr:
  "store off vs bs = Inr bs' \<longleftrightarrow> 0 \<le> off \<and> off + int (length vs) \<le> int (length bs)
     \<and> bs' = take (nat off) bs @ vs @ drop (nat off + length vs) bs"
  by (auto simp: store_def)

lemma store_length: "store off vs bs = Inr bs' \<Longrightarrow> length bs' = length bs"
  by (auto simp: store_Inr)

lemma load_length: "load off n bs = Inr vs \<Longrightarrow> int (length vs) = n"
  by (auto simp: load_def split: if_splits)

lemma load_store: "store off vs bs = Inr bs' \<Longrightarrow> load off (int (length vs)) bs' = Inr vs"
  by (auto simp: store_Inr load_def)

lemma nth_patch:
  assumes "k + length vs \<le> length bs" "i < length bs"
  shows "(take k bs @ vs @ drop (k + length vs) bs) ! i
    = (if k \<le> i \<and> i < k + length vs then vs ! (i - k) else bs ! i)"
proof -
  consider "i < k" | "k \<le> i" "i < k + length vs" | "k + length vs \<le> i" by linarith
  then show ?thesis
  proof cases
    case 2
    then have "\<not> i < k" "i - k < length vs" by auto
    then show ?thesis using 2 assms unfolding nth_append by simp
  next
    case 3
    then have "\<not> i < k" "\<not> i - k < length vs" "\<not> (k \<le> i \<and> i < k + length vs)" by auto
    then show ?thesis using 3 assms unfolding nth_append by simp
  qed (use assms in \<open>simp_all add: nth_append\<close>)
qed

lemma load_store_other:
  assumes "store off vs bs = Inr bs'" "off' + n \<le> off \<or> off + int (length vs) \<le> off'"
  shows "load off' n bs' = load off' n bs"
proof (cases "0 \<le> off' \<and> 0 \<le> n \<and> off' + n \<le> int (length bs)")
  case True
  define k m k' where "k = nat off" and "m = nat n" and "k' = nat off'"
  have bs': "bs' = take k bs @ vs @ drop (k + length vs) bs" and k: "k + length vs \<le> length bs"
    using assms(1) by (auto simp: store_Inr k_def nat_add_distrib)
  have o: "off = int k" using assms(1) by (auto simp: store_Inr k_def)
  have apart: "k' + m \<le> k \<or> k + length vs \<le> k'" "k' + m \<le> length bs"
    using assms(2) True unfolding o k'_def m_def by linarith+
  have "take m (drop k' bs') = take m (drop k' bs)"
  proof (intro nth_equalityI)
    show len: "length (take m (drop k' bs')) = length (take m (drop k' bs))"
      using store_length [OF assms(1)] by simp
    fix i assume "i < length (take m (drop k' bs'))"
    then have i: "i < m" "k' + i < length bs" using len by auto
    have "bs' ! (k' + i) = bs ! (k' + i)"
      using nth_patch [OF k i(2)] apart(1) i(1) unfolding bs' by (simp, linarith)
    then show "take m (drop k' bs') ! i = take m (drop k' bs) ! i"
      using i store_length [OF assms(1)] by simp
  qed
  then show ?thesis using store_length [OF assms(1)] by (simp add: load_def m_def k'_def)
next
  case False
  then show ?thesis using store_length [OF assms(1)] unfolding load_def by presburger
qed

section \<open>Bits of words\<close>

lemma possible_bit_u32 [bit_unfold]: "possible_bit TYPE(32 word) n \<longleftrightarrow> n < 32"
  and possible_bit_u64 [bit_unfold]: "possible_bit TYPE(64 word) n \<longleftrightarrow> n < 64"
  and possible_bit_u16 [bit_unfold]: "possible_bit TYPE(16 word) n \<longleftrightarrow> n < 16"
  and possible_bit_u8 [bit_unfold]: "possible_bit TYPE(8 word) n \<longleftrightarrow> n < 8"
  by simp_all

lemma length_u8_u64 [bit_unfold]:
  "LENGTH(64) = 64" "LENGTH(32) = 32" "LENGTH(16) = 16" "LENGTH(8) = 8"
  by simp_all

lemmas bit_connectives [bit_unfold] =
  bit_or_iff bit_and_iff bit_xor_iff bit_push_bit_iff bit_drop_bit_eq bit_unsigned_iff o_def

lemma bit_7f [bit_unfold]: "bit (0x7f :: 'a::len word) n \<longleftrightarrow> n < 7 \<and> n < LENGTH('a)"
proof -
  have "bit (mask 7 :: 'a word) n \<longleftrightarrow> n < 7 \<and> n < LENGTH('a)"
    by (auto simp only: bit_mask_iff) auto
  then show ?thesis by (simp add: mask_eq_exp_minus_1)
qed

lemma bit_80 [bit_unfold]: "bit (0x80 :: 'a::len word) n \<longleftrightarrow> n = 7 \<and> n < LENGTH('a)"
proof -
  have "bit (2 ^ 7 :: 'a word) n \<longleftrightarrow> n = 7 \<and> n < LENGTH('a)"
    by (auto simp only: bit_exp_iff possible_bit_word)
  then show ?thesis by simp
qed

lemma byte_beyond [pos_arith]: "8 \<le> n \<Longrightarrow> \<not> bit (x :: u8) n"
  using bit_imp_le_length [of x n] by auto

lemmas pos_diff [pos_arith] = less_diff_conv2 le_diff_conv2 not_le

lemma mask7_and: "(x :: 'a::len word) AND 0x7f = take_bit 7 x"
  by (simp add: take_bit_eq_mask mask_eq_exp_minus_1)

lemma u8_high_bit: "x < (0x80 :: u8) \<longleftrightarrow> \<not> bit x 7"
proof -
  have "bit x 7 \<longleftrightarrow> odd (unat x div 128)"
    using bit_iff_odd [of "unat x" 7] by (simp add: bit_unsigned_iff)
  moreover have "unat x < 256" using unsigned_less [of x] by simp
  then have "unat x div 128 = (if unat x < 128 then 0 else 1)"
    by (auto intro: div_nat_eqI)
  then have "odd (unat x div 128) \<longleftrightarrow> 128 \<le> unat x" by simp
  ultimately show ?thesis by (simp add: word_less_nat_alt not_le)
qed

lemma u8_sint_nonneg: "0 \<le> sint (x :: u8) \<longleftrightarrow> \<not> bit x 7"
  using bit_last_iff [where w = x] by auto

end
