(* ===== verification/BitUtils.thy ===== *)
theory BitUtils
  imports Prelude
begin

text \<open>
  \<open>src/src/utils/bit_utils.h\<close>: packing booleans into a bitmap, eight to a byte, and reversing the
  bytes of a value in place, which turns the big-endian integers of an SQLite record into
  little-endian ones. \<open>get_bit\<close> is the reader of bitmaps of \<open>bloom_filter.h\<close>.
\<close>

unbundle bit_operations_syntax

section \<open>Packing\<close>

text \<open>\<open>set_if\<close> is \<open>*src_byte++ ? current_byte | mask : current_byte\<close>.\<close>

definition set_if :: "u8 \<Rightarrow> u8 \<Rightarrow> u8 \<Rightarrow> u8" where
  "set_if src_byte bit_mask current_byte = (if src_byte \<noteq> 0 then current_byte OR bit_mask else current_byte)"

definition pack_byte :: "u8 list \<Rightarrow> u8" where
  "pack_byte s =
    (let current_byte = 0;
         current_byte = set_if (s ! 0) 0x01 current_byte;
         current_byte = set_if (s ! 1) 0x02 current_byte;
         current_byte = set_if (s ! 2) 0x04 current_byte;
         current_byte = set_if (s ! 3) 0x08 current_byte;
         current_byte = set_if (s ! 4) 0x10 current_byte;
         current_byte = set_if (s ! 5) 0x20 current_byte;
         current_byte = set_if (s ! 6) 0x40 current_byte
     in set_if (s ! 7) 0x80 current_byte)"

text \<open>The first loop: the bytes written and what is left of the source.\<close>

fun pack_bytes :: "nat \<Rightarrow> u8 list \<Rightarrow> (u8 list \<times> u8 list) res" where
  "pack_bytes 0 s = Inr ([], s)"
| "pack_bytes (Suc remaining_bytes) s =
    (if length s < 8 then Inl OutOfBounds
     else and_then (pack_bytes remaining_bytes (drop 8 s)) (\<lambda>(out, s'). Inr (pack_byte s # out, s')))"

text \<open>The second loop.\<close>

fun pack_bits :: "nat \<Rightarrow> u8 \<Rightarrow> u8 \<Rightarrow> u8 list \<Rightarrow> u8 res" where
  "pack_bits 0 bit_mask current_byte s = Inr current_byte"
| "pack_bits (Suc remaining_bits) bit_mask current_byte s =
    (case s of [] \<Rightarrow> Inl OutOfBounds
     | src_byte # s' \<Rightarrow> pack_bits remaining_bits (push_bit 1 bit_mask) (set_if src_byte bit_mask current_byte) s')"

definition pack :: "nat \<Rightarrow> u8 list \<Rightarrow> u8 list res" where
  "pack len arr =
    and_then (pack_bytes (len div 8) arr) (\<lambda>(out, s).
      let remaining_bits = len mod 8 in
      if remaining_bits = 0 then Inr out
      else and_then (pack_bits remaining_bits 0x01 0 s) (\<lambda>current_byte. Inr (out @ [current_byte])))"

definition get_bit :: "u8 list \<Rightarrow> u64 \<Rightarrow> bool res" where
  "get_bit bits i = and_then (fetch bits (unat (drop_bit 3 i))) (\<lambda>b.
     Inr (drop_bit (unat (i AND 0x07)) b AND 1 \<noteq> 0))"

section \<open>Reversing\<close>

function swap_loop :: "nat \<Rightarrow> nat \<Rightarrow> u8 list \<Rightarrow> u8 list res" where
  "swap_loop start_index end_index arr =
    (if start_index < end_index then
       and_then (fetch arr start_index) (\<lambda>temp_value.
       and_then (fetch arr end_index) (\<lambda>v.
         swap_loop (start_index + 1) (end_index - 1) (arr[start_index := v, end_index := temp_value])))
     else Inr arr)"
  by pat_completeness auto
termination by (relation "measure (\<lambda>(s, e, _). e - s)") auto

declare swap_loop.simps [simp del]

definition reverse_bytes :: "u8 list \<Rightarrow> nat \<Rightarrow> u8 list res" where
  "reverse_bytes arr num_bytes = (if num_bytes = 0 then Inr arr else swap_loop 0 (num_bytes - 1) arr)"

section \<open>Reversing reverses\<close>

lemma swap_loop_rev:
  assumes "length ys = e + 1 - s" "s \<le> e" "length xs = s"
  shows "swap_loop s e (xs @ ys @ zs) = Inr (xs @ rev ys @ zs)"
  using assms
proof (induction "e - s" arbitrary: s e xs ys zs rule: less_induct)
  case less
  show ?case
  proof (cases "s < e")
    case False
    then have "length ys = 1" using less.prems by simp
    then obtain y where "ys = [y]" by (auto simp: length_Suc_conv)
    then show ?thesis using False by (simp add: swap_loop.simps)
  next
    case True
    then obtain y t where yt: "ys = y # t" "t \<noteq> []"
      using less.prems by (cases ys; cases "tl ys") auto
    then obtain m z where "t = m @ [z]" by (metis rev_exhaust)
    with yt have ys: "ys = y # m @ [z]" by simp
    have e: "e = s + length m + 1" using less.prems ys by simp
    have "(xs @ ys @ zs)[s := z, e := y] = (xs @ [z]) @ m @ (y # zs)"
      using less.prems(3) by (simp add: ys e list_update_append)
    moreover have "(xs @ ys @ zs) ! s = y" "(xs @ ys @ zs) ! e = z" "e < length (xs @ ys @ zs)"
      using less.prems(3) by (simp_all add: ys e nth_append)
    ultimately have step: "swap_loop s e (xs @ ys @ zs) = swap_loop (s + 1) (e - 1) ((xs @ [z]) @ m @ (y # zs))"
      using True by (subst swap_loop.simps) (simp add: fetch_def)
    show ?thesis
    proof (cases "m = []")
      case True
      then show ?thesis using step e ys by (simp add: swap_loop.simps)
    next
      case False
      then have "swap_loop (s + 1) (e - 1) ((xs @ [z]) @ m @ (y # zs)) = Inr ((xs @ [z]) @ rev m @ (y # zs))"
        using less.prems e by (intro less.hyps) (auto simp: Suc_le_eq)
      then show ?thesis using step ys by simp
    qed
  qed
qed

lemma reverse_bytes_eq:
  "n \<le> length arr \<Longrightarrow> reverse_bytes arr n = Inr (rev (take n arr) @ drop n arr)"
  using swap_loop_rev [of "take n arr" "n - 1" 0 "[]" "drop n arr"]
  by (cases n) (auto simp: reverse_bytes_def)

section \<open>Packed bits\<close>

lemma set_if_bit: "bit (set_if x (2 ^ k) c) i \<longleftrightarrow> bit c i \<or> x \<noteq> 0 \<and> i = k \<and> k < 8"
  by (auto simp: set_if_def bit_or_iff bit_exp_iff)

lemma pack_byte_bit:
  assumes "i < 8"
  shows "bit (pack_byte s) i \<longleftrightarrow> s ! i \<noteq> 0"
proof -
  note m = set_if_bit [where k = 0, simplified] set_if_bit [where k = 1, simplified] set_if_bit [where k = 2, simplified]
    set_if_bit [where k = 3, simplified] set_if_bit [where k = 4, simplified] set_if_bit [where k = 5, simplified]
    set_if_bit [where k = 6, simplified] set_if_bit [where k = 7, simplified]
  have "i \<in> {0, 1, 2, 3, 4, 5, 6, 7}" using assms by auto
  then show ?thesis by (elim insertE emptyE) (simp_all add: pack_byte_def m)
qed

lemma pack_bytes_ok:
  "8 * k \<le> length s \<Longrightarrow> \<exists>out. pack_bytes k s = Inr (out, drop (8 * k) s) \<and> length out = k
    \<and> (\<forall>i < 8 * k. bit (out ! (i div 8)) (i mod 8) \<longleftrightarrow> s ! i \<noteq> 0)"
proof (induction k arbitrary: s)
  case (Suc k)
  then have "8 * k \<le> length (drop 8 s)" by simp
  from Suc.IH [OF this] obtain out where out: "pack_bytes k (drop 8 s) = Inr (out, drop (8 * k) (drop 8 s))"
    "length out = k" "\<forall>i < 8 * k. bit (out ! (i div 8)) (i mod 8) \<longleftrightarrow> drop 8 s ! i \<noteq> 0" by blast
  have "bit ((pack_byte s # out) ! (i div 8)) (i mod 8) \<longleftrightarrow> s ! i \<noteq> 0" if "i < 8 * Suc k" for i
  proof (cases "i < 8")
    case True
    then show ?thesis by (simp add: pack_byte_bit)
  next
    case False
    then obtain j where j: "i = 8 + j" by (metis le_iff_add not_le)
    have "(8 + j) div 8 = Suc (j div 8)" by simp
    then show ?thesis using out(3) that Suc.prems j by simp
  qed
  then show ?case using Suc.prems out by (simp add: add.commute)
qed simp

lemma pack_bits_ok:
  "n \<le> length s \<Longrightarrow> k + n \<le> 8 \<Longrightarrow> \<exists>c'. pack_bits n (2 ^ k) c s = Inr c'
    \<and> (\<forall>i < 8. bit c' i \<longleftrightarrow> bit c i \<or> k \<le> i \<and> i < k + n \<and> s ! (i - k) \<noteq> 0)"
proof (induction n arbitrary: k c s)
  case (Suc n)
  then obtain x s' where s: "s = x # s'" by (cases s) auto
  have p: "push_bit 1 (2 ^ k) = (2 ^ Suc k :: u8)" by (simp add: push_bit_eq_mult)
  obtain c' where c': "pack_bits n (2 ^ Suc k) (set_if x (2 ^ k) c) s' = Inr c'"
    "\<forall>i < 8. bit c' i \<longleftrightarrow> bit (set_if x (2 ^ k) c) i \<or> Suc k \<le> i \<and> i < Suc k + n \<and> s' ! (i - Suc k) \<noteq> 0"
    using Suc.IH [of s' "Suc k" "set_if x (2 ^ k) c"] Suc.prems s by auto
  have eq: "(bit (set_if x (2 ^ k) c) i \<or> Suc k \<le> i \<and> i < Suc k + n \<and> s' ! (i - Suc k) \<noteq> 0)
      \<longleftrightarrow> bit c i \<or> k \<le> i \<and> i < k + Suc n \<and> s ! (i - k) \<noteq> 0" if "i < 8" for i
  proof (cases "i = k")
    case True
    then show ?thesis using Suc.prems s by (auto simp: set_if_bit)
  next
    case False
    then have "k \<le> i \<longleftrightarrow> Suc k \<le> i" by auto
    moreover have "Suc k \<le> i \<Longrightarrow> s ! (i - k) = s' ! (i - Suc k)" using s by (simp add: Suc_diff_le Suc_diff_Suc)
    ultimately show ?thesis using False by (auto simp: set_if_bit)
  qed
  have "pack_bits (Suc n) (2 ^ k) c s = Inr c'" unfolding s pack_bits.simps list.case p by (rule c'(1))
  moreover have "\<forall>i < 8. bit c' i \<longleftrightarrow> bit c i \<or> k \<le> i \<and> i < k + Suc n \<and> s ! (i - k) \<noteq> 0"
    using c'(2) eq by blast
  ultimately show ?case by blast
qed auto

lemma unat_and_7: "unat (i AND 0x07 :: u64) = unat i mod 8"
proof -
  have "i AND 0x07 = take_bit 3 i" by (simp add: take_bit_eq_mask mask_eq_exp_minus_1)
  then show ?thesis by (simp add: take_bit_eq_mod unat_mod_distrib)
qed

lemma get_bit_eq:
  assumes "unat i div 8 < length bits"
  shows "get_bit bits i = Inr (bit (bits ! (unat i div 8)) (unat i mod 8))"
proof -
  have "unat (drop_bit 3 i) = unat i div 8" by (simp add: drop_bit_eq_div unat_div_distrib)
  moreover have "drop_bit n b AND 1 \<noteq> 0 \<longleftrightarrow> bit b n" for n and b :: u8
    by (simp add: and_one_eq bit_iff_odd_drop_bit odd_iff_mod_2_eq_one)
  ultimately show ?thesis using assms by (simp add: get_bit_def fetch_def unat_and_7)
qed

lemma pack_ok:
  assumes "n \<le> length arr"
  shows "\<exists>out. pack n arr = Inr out \<and> length out = (n + 7) div 8
    \<and> (\<forall>i < n. bit (out ! (i div 8)) (i mod 8) \<longleftrightarrow> arr ! i \<noteq> 0)"
proof -
  let ?k = "n div 8" and ?r = "n mod 8"
  have n: "n = 8 * ?k + ?r" by simp
  have le: "8 * ?k \<le> length arr" using assms n by linarith
  note n = n le
  obtain out where out: "pack_bytes ?k arr = Inr (out, drop (8 * ?k) arr)" "length out = ?k"
    "\<forall>i < 8 * ?k. bit (out ! (i div 8)) (i mod 8) \<longleftrightarrow> arr ! i \<noteq> 0"
    using pack_bytes_ok [OF n(2)] by blast
  show ?thesis
  proof (cases "?r = 0")
    case True
    then have "8 * ?k = n" "(n + 7) div 8 = ?k" using n(1) by (auto simp: div_eq_dividend_iff)
    then show ?thesis using out True by (simp add: pack_def)
  next
    case False
    have r: "?r \<le> length (drop (8 * ?k) arr)" "0 + ?r \<le> 8" using n assms by (simp_all, linarith)
    obtain c where c: "pack_bits ?r (2 ^ 0) 0 (drop (8 * ?k) arr) = Inr c"
      "\<forall>i < 8. bit c i \<longleftrightarrow> i < ?r \<and> drop (8 * ?k) arr ! i \<noteq> 0"
      using pack_bits_ok [OF r, of 0] by auto
    have "bit ((out @ [c]) ! (i div 8)) (i mod 8) \<longleftrightarrow> arr ! i \<noteq> 0" if "i < n" for i
    proof (cases "i < 8 * ?k")
      case True
      then have "i div 8 < ?k" by (simp add: less_mult_imp_div_less mult.commute)
      then show ?thesis using out True by (simp add: nth_append)
    next
      case False
      then obtain j where j: "i = 8 * ?k + j" by (metis le_iff_add not_le)
      moreover from this have "j < ?r" using that n(1) by linarith
      moreover from this have "j < 8" using mod_less_divisor [of 8 n] by linarith
      ultimately have "i div 8 = ?k" "i mod 8 = j" "i = 8 * ?k + i mod 8" by auto
      moreover from this have "i mod 8 < ?r" using that n(1) by linarith
      ultimately show ?thesis using c(2) n(2) out(2) by (simp add: nth_append)
    qed
    moreover have "(n + 7) div 8 = ?k + 1"
    proof -
      have "?r + 7 = 8 + (?r - 1)" "?r - 1 < 8" using False mod_less_divisor [of 8 n] by linarith+
      then have "(?r + 7) div 8 = 1" by simp
      moreover have "(8 * ?k + (?r + 7)) div 8 = ?k + (?r + 7) div 8" by (rule div_mult_self4) simp
      moreover have "n + 7 = 8 * ?k + (?r + 7)" using n(1) by linarith
      ultimately show ?thesis by presburger
    qed
    ultimately show ?thesis using out(1,2) c(1) False by (simp add: pack_def Let_def)
  qed
qed

section \<open>Properties\<close>

text \<open>Packing booleans and reading them back with \<open>get_bit\<close> gives the booleans; the bitmap
  takes one byte for every eight of them and no byte behind the source is read.\<close>

theorem pack_get_bit:
  assumes "n \<le> length arr" "n < 2 ^ 64"
  shows "\<exists>out. pack n arr = Inr out \<and> length out = (n + 7) div 8
    \<and> (\<forall>i < n. get_bit out (of_nat i) = Inr (arr ! i \<noteq> 0))"
proof -
  obtain out where out: "pack n arr = Inr out" "length out = (n + 7) div 8"
    "\<forall>i < n. bit (out ! (i div 8)) (i mod 8) \<longleftrightarrow> arr ! i \<noteq> 0" using pack_ok [OF assms(1)] by blast
  have "get_bit out (of_nat i) = Inr (arr ! i \<noteq> 0)" if "i < n" for i
  proof -
    have "unat (of_nat i :: u64) = i" using that assms(2) by (simp add: unat_of_nat)
    moreover have "i div 8 < length out"
    proof -
      have "i div 8 < (i + 8) div 8" by simp
      also have "\<dots> \<le> (n + 7) div 8" using that by (intro div_le_mono) auto
      finally show ?thesis using out(2) by simp
    qed
    ultimately show ?thesis using get_bit_eq [of "of_nat i" out] out(3) that by simp
  qed
  then show ?thesis using out by blast
qed

theorem pack_get_bit_witness:
  "\<exists>out. pack 10 [1, 0, 0, 5, 0, 0, 0, 0, 0, 7] = Inr out \<and> get_bit out 9 = Inr True"
proof -
  have "(10 :: nat) \<le> length [1, 0, 0, 5, 0, 0, 0, 0, 0, 7 :: u8]" "(10 :: nat) < 2 ^ 64" by simp_all
  from pack_get_bit [OF this] obtain out where out: "pack 10 [1, 0, 0, 5, 0, 0, 0, 0, 0, 7] = Inr out"
    "\<forall>i < 10. get_bit out (of_nat i) = Inr ([1, 0, 0, 5, 0, 0, 0, 0, 0, 7 :: u8] ! i \<noteq> 0)" by blast
  have "(9 :: nat) < 10" by simp
  with out(2) have "get_bit out (of_nat 9) = Inr ([1, 0, 0, 5, 0, 0, 0, 0, 0, 7 :: u8] ! 9 \<noteq> 0)" by blast
  then show ?thesis using out(1) by simp
qed

end
