(* ===== verification/BloomFilter.thy ===== *)
theory BloomFilter
  imports BitUtils Complex_Main
begin

text \<open>
  The Bloom filter of the lookahead joins and the histogram of its hit rates
  (\<open>src/src/utils/bloom_filter.h\<close>, \<open>histogram.h\<close>): construction, insertion, probing, and the
  statistics over a window of batches. First all operations, then membership, then the window.
\<close>

unbundle bit_operations_syntax

section \<open>Histogram\<close>

text \<open>
  A \<open>double\<close> is the real number it stands for; \<open>rnd\<close> rounds an exact result to a \<open>double\<close>. It is a
  parameter: it is monotone and exact on the integers an \<open>int\<close> can hold. An \<open>int\<close> that leaves its
  range is \<open>IntOverflow\<close>.
\<close>

type_synonym rounding = "real \<Rightarrow> real"

definition rounding_ok :: "rounding \<Rightarrow> bool" where
  "rounding_ok rnd \<longleftrightarrow> mono rnd \<and> (\<forall>k :: int. \<bar>k\<bar> \<le> 2 ^ 31 \<longrightarrow> rnd (of_int k) = of_int k)"

record Histogram =
  num_bins :: int
  bin_min :: int
  bin_max :: int
  bin_range :: real
  counts :: "int list"
  cumulative :: "int list"
  num_values :: int
  q_rank :: int
  r_rank :: real

definition Histogram_new :: "rounding \<Rightarrow> int \<Rightarrow> int \<Rightarrow> int \<Rightarrow> Histogram res" where
  "Histogram_new rnd n lo hi =
    and_then (to_int32 (hi - lo)) (\<lambda>range. Inr
      \<lparr>num_bins = n, bin_min = lo, bin_max = hi, bin_range = of_int range, counts = replicate (nat n) 0,
       cumulative = replicate (nat n) 0, num_values = 0, q_rank = 75, r_rank = rnd (of_int 75 / 100)\<rparr>)"

definition find_bin :: "rounding \<Rightarrow> real \<Rightarrow> Histogram \<Rightarrow> int res" where
  "find_bin rnd v h =
    (let bin = rnd (rnd (rnd (v / bin_range h) * of_int (num_bins h)) - 1);
         bin = (if bin < 0 then 0 else bin)
     in to_int32 \<lfloor>bin\<rfloor>)"

definition hist_insert :: "rounding \<Rightarrow> real \<Rightarrow> Histogram \<Rightarrow> Histogram res" where
  "hist_insert rnd v h =
    and_then (find_bin rnd v h) (\<lambda>bin.
    and_then (fetch (counts h) (nat bin)) (\<lambda>c.
    and_then (to_int32 (c + 1)) (\<lambda>c.
    and_then (to_int32 (num_values h + 1)) (\<lambda>n.
      Inr (h\<lparr>counts := (counts h)[nat bin := c], num_values := n\<rparr>)))))"

text \<open>The scan from the right: \<open>i\<close> bins are left.\<close>

fun scan_bins :: "real \<Rightarrow> int list \<Rightarrow> nat \<Rightarrow> int \<Rightarrow> int" where
  "scan_bins limit cs 0 acc = - 1"
| "scan_bins limit cs (Suc i) acc =
    (let acc = acc + cs ! i in if of_int acc > limit then int i + 1 else scan_bins limit cs i acc)"

definition get_quantile :: "rounding \<Rightarrow> int \<Rightarrow> Histogram \<Rightarrow> real" where
  "get_quantile rnd q h =
    (let limit = rnd (rnd (1 - r_rank h) * of_int (num_values h));
         q_bin = scan_bins limit (counts h) (nat (num_bins h)) 0
     in rnd (of_int q_bin / of_int (num_bins h)))"

section \<open>Bloom filter\<close>

definition MAX_SEED :: int where "MAX_SEED = 65535"

definition reduce :: "u32 \<Rightarrow> u32 \<Rightarrow> u32" where
  "reduce x N = ucast (drop_bit 32 ((ucast x :: u64) * ucast N))"

record BloomFilter =
  num_cells :: int
  num_hash :: nat
  seeds :: "int list"
  bloom_cells :: "u8 list"
  hit_count :: int
  probe_count :: int
  hit_count_queue :: "int list"
  probe_count_queue :: "int list"
  queue_index :: int
  hit_count_queue_sum :: int
  probe_count_queue_sum :: int
  memory :: int
  hist :: Histogram
  fk_name :: string

text \<open>
  The arrays of the statistics exist once \<open>set_memory\<close> was called; before that they are empty here.
  \<open>rand\<close> gives the successive results of \<open>rand()\<close>.
\<close>

definition BloomFilter_new :: "rounding \<Rightarrow> (nat \<Rightarrow> int) \<Rightarrow> int \<Rightarrow> BloomFilter res" where
  "BloomFilter_new rnd rand num_vals =
    and_then (to_int32 (num_vals * 100)) (\<lambda>num_cells.
      let num_bytes = sint (word_of_int (uint (word_of_int num_cells :: u64) div 8 + 1) :: 32 word) in
      and_then (Histogram_new rnd 100 0 1) (\<lambda>h. Inr
        \<lparr>num_cells = num_cells, num_hash = 3, seeds = map (\<lambda>i. rand i mod MAX_SEED) [0..<3],
         bloom_cells = replicate (nat num_bytes) 0, hit_count = 0, probe_count = 0, hit_count_queue = [], probe_count_queue = [],
         queue_index = 0, hit_count_queue_sum = 0, probe_count_queue_sum = 0, memory = 0, hist = h, fk_name = ''''\<rparr>))"

text \<open>The seed is not used.\<close>

definition bloom_hash :: "u64 \<Rightarrow> int \<Rightarrow> u32" where
  "bloom_hash x seed = ucast (x * 0x9e3779b1)"

definition insert_one :: "u64 \<Rightarrow> int \<Rightarrow> BloomFilter \<Rightarrow> BloomFilter res" where
  "insert_one v seed b =
    (let index = sint (reduce (bloom_hash v seed) (word_of_int (num_cells b))) in
     if index < 0 then Inl OutOfBounds
     else and_then (fetch (bloom_cells b) (nat (index div 8))) (\<lambda>c.
       Inr (b\<lparr>bloom_cells := (bloom_cells b)[nat (index div 8) := c OR push_bit (nat (index mod 8)) 1]\<rparr>)))"

fun insert_loop :: "u64 \<Rightarrow> int list \<Rightarrow> BloomFilter \<Rightarrow> BloomFilter res" where
  "insert_loop v [] b = Inr b"
| "insert_loop v (seed # ss) b = and_then (insert_one v seed b) (insert_loop v ss)"

definition bloom_insert :: "u64 \<Rightarrow> BloomFilter \<Rightarrow> BloomFilter res" where
  "bloom_insert v b = insert_loop v (take (num_hash b) (seeds b)) b"

fun probe_loop :: "u64 \<Rightarrow> int list \<Rightarrow> BloomFilter \<Rightarrow> bool res" where
  "probe_loop v [] b = Inr True"
| "probe_loop v (seed # ss) b =
    and_then (get_bit (bloom_cells b) (ucast (reduce (bloom_hash v seed) (word_of_int (num_cells b))))) (\<lambda>set.
      if \<not> set then Inr False else probe_loop v ss b)"

definition bloom_probe :: "u64 \<Rightarrow> BloomFilter \<Rightarrow> bool res" where
  "bloom_probe v b = probe_loop v (take (num_hash b) (seeds b)) b"

definition get_hit_rate :: "rounding \<Rightarrow> BloomFilter \<Rightarrow> real" where
  "get_hit_rate rnd b =
    (if probe_count_queue_sum b > 0 then rnd (of_int (hit_count_queue_sum b) / of_int (probe_count_queue_sum b)) else 1)"

definition get_hit_rate_q :: "rounding \<Rightarrow> int \<Rightarrow> BloomFilter \<Rightarrow> real" where
  "get_hit_rate_q rnd q b = get_quantile rnd q (hist b)"

definition get_hit_rate_estimate :: "rounding \<Rightarrow> int \<Rightarrow> BloomFilter \<Rightarrow> real" where
  "get_hit_rate_estimate rnd q b =
    (let frac = rnd (of_int q / 100)
     in rnd (rnd (frac * get_hit_rate rnd b) + rnd (rnd (1 - frac) * get_hit_rate_q rnd q b)))"

definition compare :: "rounding \<Rightarrow> BloomFilter \<Rightarrow> BloomFilter \<Rightarrow> bool" where
  "compare rnd lhs rhs \<longleftrightarrow> get_hit_rate rnd lhs < get_hit_rate rnd rhs"

definition compare2 :: "rounding \<Rightarrow> BloomFilter \<Rightarrow> BloomFilter \<Rightarrow> bool" where
  "compare2 rnd lhs rhs \<longleftrightarrow> get_hit_rate_estimate rnd 75 lhs < get_hit_rate_estimate rnd 75 rhs"

definition set_memory :: "int \<Rightarrow> BloomFilter \<Rightarrow> BloomFilter" where
  "set_memory m b = b\<lparr>memory := m, hit_count_queue := replicate (nat m) 0, probe_count_queue := replicate (nat m) 0,
     queue_index := m - 1\<rparr>"

definition slot :: "int list \<Rightarrow> int \<Rightarrow> int res" where
  "slot q i = (if i < 0 then Inl OutOfBounds else fetch q (nat i))"

definition bloom_update :: "rounding \<Rightarrow> BloomFilter \<Rightarrow> BloomFilter res" where
  "bloom_update rnd b =
    and_then (slot (hit_count_queue b) (queue_index b)) (\<lambda>h0.
    and_then (slot (probe_count_queue b) (queue_index b)) (\<lambda>p0.
    and_then (to_int32 (hit_count_queue_sum b - h0)) (\<lambda>hs.
    and_then (to_int32 (probe_count_queue_sum b - p0)) (\<lambda>ps.
    let i = nat (queue_index b);
        q = queue_index b - 1;
        q = (if q < 0 then memory b - 1 else q)
    in
    and_then (to_int32 (hs + hit_count b)) (\<lambda>hs.
    and_then (to_int32 (ps + probe_count b)) (\<lambda>ps.
    let b = b\<lparr>hit_count_queue := (hit_count_queue b)[i := hit_count b], probe_count_queue := (probe_count_queue b)[i := probe_count b],
              queue_index := q, hit_count_queue_sum := hs, probe_count_queue_sum := ps, hit_count := 0, probe_count := 0\<rparr>
    in and_then (hist_insert rnd (get_hit_rate rnd b) (hist b)) (\<lambda>h. Inr (b\<lparr>hist := h\<rparr>))))))))"

definition Reset :: "BloomFilter \<Rightarrow> BloomFilter" where
  "Reset b = b\<lparr>hit_count := 0, probe_count := 0, hit_count_queue_sum := 0, probe_count_queue_sum := 0\<rparr>"

definition set_fact_fk_name :: "string \<Rightarrow> BloomFilter \<Rightarrow> BloomFilter" where "set_fact_fk_name n b = b\<lparr>fk_name := n\<rparr>"
definition get_fact_fk_name :: "BloomFilter \<Rightarrow> string" where "get_fact_fk_name b = fk_name b"

section \<open>Membership\<close>

definition bucket :: "BloomFilter \<Rightarrow> u64 \<Rightarrow> nat" where
  "bucket b v = unat (reduce (bloom_hash v 0) (word_of_int (num_cells b)))"

definition filter_ok :: "BloomFilter \<Rightarrow> bool" where
  "filter_ok b \<longleftrightarrow> 0 \<le> num_cells b \<and> num_cells b < 2 ^ 31 \<and> length (bloom_cells b) = nat (num_cells b) div 8 + 1
     \<and> num_hash b = 3 \<and> length (seeds b) = 3"

definition bit_at :: "BloomFilter \<Rightarrow> nat \<Rightarrow> bool" where
  "bit_at b i \<longleftrightarrow> bit (bloom_cells b ! (i div 8)) (i mod 8)"

lemma unat_up: "unat (ucast (x :: u32) :: u64) = unat x"
proof -
  have "unat x < 2 ^ 32" using unsigned_less [of x, where 'a = nat] by simp
  then have "unat x < 2 ^ 64" by simp
  then show ?thesis by (simp add: unsigned_ucast_eq take_bit_nat_eq_self_iff)
qed

lemma sint_small: "unat (x :: u32) < 2 ^ 31 \<Longrightarrow> sint x = int (unat x)"
proof -
  assume x: "unat x < 2 ^ 31"
  have "int (unat x) < int (2 ^ 31)" using x by (simp only: of_nat_less_iff)
  then have "int (unat x) < 2 ^ 31" by (simp only: of_nat_power of_nat_numeral)
  moreover have "- (2 ^ 31) \<le> int (unat x)" by (rule order_trans [of _ 0]) simp_all
  ultimately have "signed_take_bit 31 (int (unat x)) = int (unat x)" by (intro signed_take_bit_int_eq_self)
  then show ?thesis by (simp only: sint_uint uint_nat) simp
qed

lemma unat_reduce: "unat (reduce x N) = unat x * unat N div 2 ^ 32"
proof -
  have x: "unat x < 2 ^ 32" and n: "unat N < 2 ^ 32" using unsigned_less [of x, where 'a = nat] unsigned_less [of N, where 'a = nat] by simp_all
  then have m: "unat x * unat N < 2 ^ 64" using mult_strict_mono [of "unat x" "2 ^ 32" "unat N" "2 ^ 32"] by simp
  have "unat ((ucast x :: u64) * ucast N) = unat x * unat N"
    using m by (simp add: unat_word_ariths unat_up)
  then have "unat (drop_bit 32 ((ucast x :: u64) * ucast N)) = unat x * unat N div 2 ^ 32" unfolding unat_drop_bit_eq by (simp add: drop_bit_eq_div)
  moreover have "unat x * unat N div 2 ^ 32 < 2 ^ 32" using m by (simp add: less_mult_imp_div_less)
  ultimately show ?thesis by (simp add: reduce_def unsigned_ucast_eq take_bit_nat_eq_self_iff)
qed

lemma bucket_le:
  assumes "filter_ok b"
  shows "bucket b v \<le> nat (num_cells b)" "bucket b v < 2 ^ 31" "bucket b v div 8 < length (bloom_cells b)"
proof -
  let ?N = "word_of_int (num_cells b) :: u32" and ?x = "bloom_hash v 0"
  have N: "unat ?N = nat (num_cells b)" using assms by (simp add: filter_ok_def unat_eq_nat_uint uint_word_of_int_eq take_bit_int_eq_self)
  have "unat ?x * unat ?N \<le> 2 ^ 32 * unat ?N" using unsigned_less [of ?x, where 'a = nat] by simp
  then have "unat ?x * unat ?N div 2 ^ 32 \<le> unat ?N" by (metis div_le_mono nonzero_mult_div_cancel_left power_not_zero zero_neq_numeral)
  then show le: "bucket b v \<le> nat (num_cells b)" by (simp add: bucket_def unat_reduce N)
  then show "bucket b v < 2 ^ 31" using assms by (simp add: filter_ok_def) linarith
  show "bucket b v div 8 < length (bloom_cells b)" using div_le_mono [OF le, of 8] assms by (simp add: filter_ok_def)
qed

lemma insert_one_ok:
  assumes f: "filter_ok b"
  shows "\<exists>b'. insert_one v seed b = Inr b' \<and> filter_ok b' \<and> b' = b\<lparr>bloom_cells := bloom_cells b'\<rparr>
    \<and> (\<forall>i. i div 8 < length (bloom_cells b) \<longrightarrow> (bit_at b' i \<longleftrightarrow> bit_at b i \<or> i = bucket b v))"
proof -
  let ?k = "bucket b v"
  have h: "bloom_hash v seed = bloom_hash v 0" by (simp add: bloom_hash_def)
  have "sint (reduce (bloom_hash v seed) (word_of_int (num_cells b))) = int ?k"
    using sint_small bucket_le(2) [OF f, of v] unfolding h bucket_def by blast
  then have e: "insert_one v seed b = Inr (b\<lparr>bloom_cells := (bloom_cells b)[?k div 8 := bloom_cells b ! (?k div 8) OR push_bit (?k mod 8) 1]\<rparr>)"
    using bucket_le(3) [OF f, of v] by (simp add: insert_one_def fetch_def nat_div_distrib nat_mod_distrib)
  have "bit_at (b\<lparr>bloom_cells := (bloom_cells b)[?k div 8 := bloom_cells b ! (?k div 8) OR push_bit (?k mod 8) 1]\<rparr>) i \<longleftrightarrow> bit_at b i \<or> i = ?k"
    if "i div 8 < length (bloom_cells b)" for i
  proof (cases "i div 8 = ?k div 8")
    case True
    have "bit (push_bit (?k mod 8) 1 :: u8) (i mod 8) \<longleftrightarrow> i mod 8 = ?k mod 8" unfolding bit_push_bit_iff bit_1_iff by auto
    moreover have "i = ?k \<longleftrightarrow> i mod 8 = ?k mod 8" using True by (metis div_mult_mod_eq)
    ultimately show ?thesis using True that by (simp add: bit_at_def bit_or_iff)
  qed (auto simp: bit_at_def)
  then show ?thesis using e f by (auto simp: filter_ok_def)
qed

lemma insert_loop_ok:
  "filter_ok b \<Longrightarrow> \<exists>b'. insert_loop v ss b = Inr b' \<and> filter_ok b' \<and> b' = b\<lparr>bloom_cells := bloom_cells b'\<rparr>
    \<and> (\<forall>i. i div 8 < length (bloom_cells b) \<longrightarrow> (bit_at b' i \<longleftrightarrow> bit_at b i \<or> ss \<noteq> [] \<and> i = bucket b v))"
proof (induction ss arbitrary: b)
  case (Cons s ss)
  obtain b1 where b1: "insert_one v s b = Inr b1" "filter_ok b1" "b1 = b\<lparr>bloom_cells := bloom_cells b1\<rparr>"
    "\<forall>i. i div 8 < length (bloom_cells b) \<longrightarrow> (bit_at b1 i \<longleftrightarrow> bit_at b i \<or> i = bucket b v)" using insert_one_ok [OF Cons.prems] by blast
  have "num_cells b1 = num_cells b" by (subst b1(3)) simp
  then have bk: "bucket b1 v = bucket b v" "length (bloom_cells b1) = length (bloom_cells b)"
    using b1(2) Cons.prems by (simp_all add: bucket_def filter_ok_def)
  obtain b2 where b2: "insert_loop v ss b1 = Inr b2" "filter_ok b2" "b2 = b1\<lparr>bloom_cells := bloom_cells b2\<rparr>"
    "\<forall>i. i div 8 < length (bloom_cells b1) \<longrightarrow> (bit_at b2 i \<longleftrightarrow> bit_at b1 i \<or> ss \<noteq> [] \<and> i = bucket b1 v)" using Cons.IH [OF b1(2)] by blast
  have "b2 = b\<lparr>bloom_cells := bloom_cells b2\<rparr>" by (subst b2(3), subst b1(3)) simp
  then show ?case using b1 b2 bk by auto
qed simp

lemma get_bit_at:
  assumes "filter_ok b"
  shows "get_bit (bloom_cells b) (ucast (reduce (bloom_hash v s) (word_of_int (num_cells b)))) = Inr (bit_at b (bucket b v))"
proof -
  let ?r = "reduce (bloom_hash v 0) (word_of_int (num_cells b))"
  have h: "bloom_hash v s = bloom_hash v 0" by (simp add: bloom_hash_def)
  have u: "unat (ucast ?r :: u64) = bucket b v" by (simp add: bucket_def unat_up)
  have "unat (drop_bit 3 (ucast ?r :: u64)) = bucket b v div 8" using u unfolding unat_drop_bit_eq by (simp add: drop_bit_eq_div)
  moreover have "unat ((ucast ?r :: u64) AND 7) = bucket b v mod 8"
  proof -
    have "(ucast ?r :: u64) AND 7 = take_bit 3 (ucast ?r)" by (simp add: take_bit_eq_mask mask_eq_exp_minus_1)
    then have "unat ((ucast ?r :: u64) AND 7) = take_bit 3 (unat (ucast ?r :: u64))" by (simp only: unsigned_take_bit_eq)
    then show ?thesis unfolding u by (simp add: take_bit_eq_mod)
  qed
  moreover have "drop_bit k c AND 1 \<noteq> 0 \<longleftrightarrow> bit c k" for c :: u8 and k
    by (simp add: bit_iff_odd_drop_bit and_one_eq odd_iff_mod_2_eq_one)
  ultimately show ?thesis using bucket_le(3) [OF assms, of v] by (simp add: h get_bit_def fetch_def bit_at_def)
qed

lemma probe_loop_ok: "filter_ok b \<Longrightarrow> ss \<noteq> [] \<Longrightarrow> probe_loop v ss b = Inr (bit_at b (bucket b v))"
proof (induction ss)
  case (Cons s ss)
  then show ?case by (cases "ss = []") (simp_all add: get_bit_at)
qed simp

fun insert_all :: "u64 list \<Rightarrow> BloomFilter \<Rightarrow> BloomFilter res" where
  "insert_all [] b = Inr b"
| "insert_all (v # vs) b = and_then (bloom_insert v b) (insert_all vs)"


lemma bloom_insert_ok:
  assumes "filter_ok b"
  shows "\<exists>b'. bloom_insert v b = Inr b' \<and> filter_ok b' \<and> b' = b\<lparr>bloom_cells := bloom_cells b'\<rparr>
    \<and> (\<forall>i. i div 8 < length (bloom_cells b) \<longrightarrow> (bit_at b' i \<longleftrightarrow> bit_at b i \<or> i = bucket b v))"
proof -
  have "take (num_hash b) (seeds b) \<noteq> []" using assms by (cases "seeds b") (auto simp: filter_ok_def)
  then show ?thesis using insert_loop_ok [OF assms, of v "take (num_hash b) (seeds b)"] by (simp add: bloom_insert_def)
qed

lemma insert_all_ok:
  "filter_ok b \<Longrightarrow> \<exists>b'. insert_all vs b = Inr b' \<and> filter_ok b' \<and> b' = b\<lparr>bloom_cells := bloom_cells b'\<rparr>
    \<and> (\<forall>i. i div 8 < length (bloom_cells b) \<longrightarrow> (bit_at b' i \<longleftrightarrow> bit_at b i \<or> i \<in> bucket b ` set vs))"
proof (induction vs arbitrary: b)
  case (Cons v vs)
  obtain b1 where b1: "bloom_insert v b = Inr b1" "filter_ok b1" "b1 = b\<lparr>bloom_cells := bloom_cells b1\<rparr>"
    "\<forall>i. i div 8 < length (bloom_cells b) \<longrightarrow> (bit_at b1 i \<longleftrightarrow> bit_at b i \<or> i = bucket b v)" using bloom_insert_ok [OF Cons.prems] by blast
  have n: "num_cells b1 = num_cells b" by (subst b1(3)) simp
  then have bk: "bucket b1 = bucket b" "length (bloom_cells b1) = length (bloom_cells b)"
    using b1(2) Cons.prems by (auto simp: bucket_def filter_ok_def fun_eq_iff)
  obtain b2 where b2: "insert_all vs b1 = Inr b2" "filter_ok b2" "b2 = b1\<lparr>bloom_cells := bloom_cells b2\<rparr>"
    "\<forall>i. i div 8 < length (bloom_cells b1) \<longrightarrow> (bit_at b2 i \<longleftrightarrow> bit_at b1 i \<or> i \<in> bucket b1 ` set vs)" using Cons.IH [OF b1(2)] by blast
  have "b2 = b\<lparr>bloom_cells := bloom_cells b2\<rparr>" by (subst b2(3), subst b1(3)) simp
  then show ?case using b1 b2 bk by auto
qed simp

lemma BloomFilter_new_ok:
  assumes "0 \<le> n" "n * 100 < 2 ^ 31"
  shows "\<exists>b. BloomFilter_new rnd rand n = Inr b \<and> filter_ok b \<and> num_cells b = n * 100 \<and> (\<forall>i. i div 8 < length (bloom_cells b) \<longrightarrow> \<not> bit_at b i)"
proof -
  let ?m = "n * 100 div 8 + 1"
  have "n * 100 < 2 ^ 64" using assms(2) by (rule less_trans) simp
  then have u: "uint (word_of_int (n * 100) :: u64) = n * 100" using assms(1) by (simp only: uint_word_of_int_eq) (simp add: take_bit_int_eq_self)
  have p: "(2 :: int) ^ 31 = 2147483648" by simp
  have m: "0 \<le> ?m" "?m < 2 ^ 31" using assms unfolding p by linarith+
  have "sint (word_of_int ?m :: u32) = ?m" by (simp only: sint_uint uint_word_of_int_eq) (use m in \<open>simp add: take_bit_int_eq_self signed_take_bit_int_eq_self\<close>)
  then have "nat (sint (word_of_int (uint (word_of_int (n * 100) :: u64) div 8 + 1) :: u32)) = nat (n * 100) div 8 + 1"
    using assms(1) unfolding u by (simp add: nat_add_distrib nat_div_distrib)
  moreover have "to_int32 (n * 100) = Inr (n * 100)" using assms by (simp add: to_int32_def)
  ultimately show ?thesis using assms
    by (auto simp: BloomFilter_new_def Histogram_new_def to_int32_def filter_ok_def bit_at_def Let_def simp del: replicate.simps)
qed

lemma insert_all_probe:
  assumes "0 \<le> n" "n * 100 < 2 ^ 31" "BloomFilter_new rnd rand n = Inr b"
  shows "\<exists>b'. insert_all vs b = Inr b' \<and> b' = b\<lparr>bloom_cells := bloom_cells b'\<rparr>
    \<and> (\<forall>v. bloom_probe v b' = Inr (\<exists>u \<in> set vs. reduce (bloom_hash u 0) (word_of_int (n * 100)) = reduce (bloom_hash v 0) (word_of_int (n * 100))))"
proof -
  have b: "filter_ok b" "num_cells b = n * 100" "\<forall>i. i div 8 < length (bloom_cells b) \<longrightarrow> \<not> bit_at b i"
    using BloomFilter_new_ok [OF assms(1,2), of rnd rand] assms(3) by auto
  obtain b' where b': "insert_all vs b = Inr b'" "filter_ok b'" "b' = b\<lparr>bloom_cells := bloom_cells b'\<rparr>"
    "\<forall>i. i div 8 < length (bloom_cells b) \<longrightarrow> (bit_at b' i \<longleftrightarrow> bit_at b i \<or> i \<in> bucket b ` set vs)" using insert_all_ok [OF b(1)] by blast
  have n: "num_cells b' = num_cells b" by (subst b'(3)) simp
  have t: "take (num_hash b') (seeds b') \<noteq> []" using b'(2) by (cases "seeds b'") (auto simp: filter_ok_def)
  have "bloom_probe v b' = Inr (\<exists>u \<in> set vs. reduce (bloom_hash u 0) (word_of_int (n * 100)) = reduce (bloom_hash v 0) (word_of_int (n * 100)))" for v
  proof -
    have "bucket b' v = bucket b v" using n by (simp add: bucket_def)
    then have "bloom_probe v b' = Inr (bit_at b' (bucket b v))" using probe_loop_ok [OF b'(2) t] by (simp add: bloom_probe_def)
    moreover have "bit_at b' (bucket b v) \<longleftrightarrow> bucket b v \<in> bucket b ` set vs" using b'(4) b(3) bucket_le(3) [OF b(1)] by blast
    moreover have "bucket b v = bucket b u \<longleftrightarrow> reduce (bloom_hash u 0) (word_of_int (n * 100)) = reduce (bloom_hash v 0) (word_of_int (n * 100))" for u
      by (auto simp: bucket_def b(2) word_unat_eq_iff)
    ultimately show ?thesis by (auto simp: image_iff)
  qed
  then show ?thesis using b'(1,3) by blast
qed

text \<open>A new filter after inserting any values: no access leaves the array, and a probe answers whether
  some inserted value falls into the same bucket. So there are no false negatives; the seeds of the
  three hash functions play no part.
\<close>

theorem bloom_membership:
  assumes "0 \<le> n" "n * 100 < 2 ^ 31"
  shows "\<exists>b b'. BloomFilter_new rnd rand n = Inr b \<and> insert_all vs b = Inr b'
    \<and> bloom_probe v b' = Inr (\<exists>u \<in> set vs. reduce (bloom_hash u 0) (word_of_int (n * 100)) = reduce (bloom_hash v 0) (word_of_int (n * 100)))"
proof -
  obtain b where b: "BloomFilter_new rnd rand n = Inr b" using BloomFilter_new_ok [OF assms] by blast
  from insert_all_probe [OF assms b, of vs] b show ?thesis by blast
qed

theorem bloom_membership_witness:
  "\<exists>b b'. BloomFilter_new (\<lambda>x. x) (\<lambda>i. 7) 10 = Inr b \<and> insert_all [5, 6] b = Inr b' \<and> bloom_probe 6 b' = Inr True"
proof -
  have "(0 :: int) \<le> 10" "(10 :: int) * 100 < 2 ^ 31" by simp_all
  from bloom_membership [OF this, of "\<lambda>x. x" "\<lambda>i. 7" "[5, 6]" 6] show ?thesis by auto
qed

section \<open>The window of the statistics\<close>

definition hist_ok :: "nat \<Rightarrow> Histogram \<Rightarrow> bool" where
  "hist_ok k h \<longleftrightarrow> num_bins h = 100 \<and> bin_range h = 1 \<and> length (counts h) = 100 \<and> num_values h = int k
     \<and> (\<forall>c \<in> set (counts h). 0 \<le> c \<and> c \<le> int k)"

lemma find_bin_range:
  assumes r: "rounding_ok rnd" and h: "hist_ok k h" and v: "0 \<le> v" "v \<le> 1"
  shows "\<exists>bin. find_bin rnd v h = Inr bin \<and> 0 \<le> bin \<and> bin < 100"
proof -
  have m: "x \<le> y \<Longrightarrow> rnd x \<le> rnd y" for x y using r by (auto simp: rounding_ok_def monoD)
  have i: "rnd 0 = 0" "rnd 1 = 1" "rnd 100 = 100" "rnd 99 = 99"
    using r [unfolded rounding_ok_def, THEN conjunct2, rule_format, of 0] r [unfolded rounding_ok_def, THEN conjunct2, rule_format, of 1]
      r [unfolded rounding_ok_def, THEN conjunct2, rule_format, of 100] r [unfolded rounding_ok_def, THEN conjunct2, rule_format, of 99] by simp_all
  have a: "rnd v \<le> 1" using m [OF v(2)] i by simp
  then have "rnd v * 100 \<le> 100" by simp
  then have "rnd (rnd v * 100) - 1 \<le> 99" using m [of "rnd v * 100" 100] i by simp
  then have b: "rnd (rnd (rnd v * 100) - 1) \<le> 99" using m i by metis
  let ?b = "rnd (rnd (rnd v * 100) - 1)"
  have "0 \<le> \<lfloor>if ?b < 0 then 0 else ?b\<rfloor>" "\<lfloor>if ?b < 0 then 0 else ?b\<rfloor> < 100" using b by (auto simp: floor_less_iff)
  then show ?thesis using h by (simp add: find_bin_def hist_ok_def to_int32_def Let_def)
qed

lemma hist_insert_ok:
  assumes r: "rounding_ok rnd" and h: "hist_ok k h" and v: "0 \<le> v" "v \<le> 1" and k: "int k + 1 < 2 ^ 31"
  shows "\<exists>h'. hist_insert rnd v h = Inr h' \<and> hist_ok (Suc k) h'"
proof -
  obtain bin where bin: "find_bin rnd v h = Inr bin" "0 \<le> bin" "bin < 100" using find_bin_range [OF assms(1-4)] by blast
  let ?c = "counts h ! nat bin"
  have l: "nat bin < length (counts h)" using bin h by (simp add: hist_ok_def)
  then have c: "0 \<le> ?c" "?c \<le> int k" using h nth_mem by (auto simp: hist_ok_def)
  then have "to_int32 (?c + 1) = Inr (?c + 1)" "to_int32 (int k + 1) = Inr (int k + 1)" unfolding to_int32_def using k by auto
  then have "hist_insert rnd v h = Inr (h\<lparr>counts := (counts h)[nat bin := ?c + 1], num_values := int k + 1\<rparr>)"
    using bin l h by (simp add: hist_insert_def fetch_def hist_ok_def)
  moreover have "hist_ok (Suc k) (h\<lparr>counts := (counts h)[nat bin := ?c + 1], num_values := int k + 1\<rparr>)"
    using h c by (fastforce simp: hist_ok_def dest: set_update_subset_insert [THEN subsetD])
  ultimately show ?thesis by blast
qed

text \<open>A ring of \<open>m\<close> values with the oldest one at \<open>i\<close>: going up from there they are the newest first.\<close>

definition ring :: "nat \<Rightarrow> nat \<Rightarrow> int list \<Rightarrow> int list \<Rightarrow> bool" where
  "ring m i hs q \<longleftrightarrow> length q = m \<and> i < m \<and> (\<forall>j < m. q ! ((i + 1 + j) mod m) = (hs @ replicate m 0) ! j)"

definition window_sum :: "nat \<Rightarrow> int list \<Rightarrow> int" where "window_sum m hs = sum_list (take m hs)"

lemma ring_oldest: "ring m i hs q \<Longrightarrow> q ! i = (hs @ replicate m 0) ! (m - 1)"
proof -
  assume r: "ring m i hs q"
  have "(i + 1 + (m - 1)) mod m = i" using r by (simp add: ring_def)
  then show ?thesis using r unfolding ring_def by (metis diff_less gr_zeroI less_nat_zero_code zero_less_one)
qed

lemma ring_put:
  assumes r: "ring m i hs q"
  shows "ring m (if i = 0 then m - 1 else i - 1) (x # hs) (q[i := x])"
proof -
  let ?i = "if i = 0 then m - 1 else i - 1"
  have m: "i < m" "length q = m" using r by (auto simp: ring_def)
  have "q[i := x] ! ((?i + 1 + j) mod m) = (x # hs @ replicate m 0) ! j" if j: "j < m" for j
  proof (cases j)
    case 0
    then have "(?i + 1 + j) mod m = i" using m by auto
    then show ?thesis using 0 m by simp
  next
    case (Suc k)
    have e: "(?i + 1 + j) mod m = (i + 1 + k) mod m"
    proof (cases "i = 0")
      case True
      then have "?i + 1 + j = m + j" using m by simp
      then show ?thesis using True Suc by (simp only: mod_add_self1) simp
    next
      case False
      then have "?i + 1 + j = i + 1 + k" using Suc by simp
      then show ?thesis by simp
    qed
    have "(i + 1 + k) mod m \<noteq> i"
    proof
      assume "(i + 1 + k) mod m = i"
      then have "(i + 1 + k) mod m = i mod m" using m(1) by simp
      then have "(1 + k) mod m = 0" by (metis add.assoc add_diff_cancel_left' mod_eq_dvd_iff_nat dvd_imp_mod_0 le_add1)
      then show False using j Suc by simp
    qed
    then show ?thesis using r j Suc e by (simp add: ring_def)
  qed
  moreover have "?i < m" using m(1) by (cases "i = 0") simp_all
  ultimately show ?thesis unfolding ring_def append_Cons length_list_update using m(2) by blast
qed

lemma window_sum_push:
  assumes "0 < m"
  shows "window_sum m (x # hs) = window_sum m hs - (hs @ replicate m 0) ! (m - 1) + x"
proof -
  obtain k where m: "m = Suc k" using assms by (cases m) auto
  have "sum_list (take (Suc k) hs) = sum_list (take k hs) + (hs @ replicate (Suc k) 0) ! k"
    by (cases "k < length hs") (auto simp: take_Suc_conv_app_nth nth_append simp del: replicate.simps)
  then show ?thesis by (simp add: window_sum_def m)
qed

definition stats_ok :: "nat \<Rightarrow> (int \<times> int) list \<Rightarrow> BloomFilter \<Rightarrow> bool" where
  "stats_ok m hs b \<longleftrightarrow> memory b = int m \<and> 0 \<le> queue_index b
     \<and> ring m (nat (queue_index b)) (map fst hs) (hit_count_queue b) \<and> ring m (nat (queue_index b)) (map snd hs) (probe_count_queue b)
     \<and> hit_count_queue_sum b = window_sum m (map fst hs) \<and> probe_count_queue_sum b = window_sum m (map snd hs)
     \<and> hist_ok (length hs) (hist b)"

lemma window_bounds:
  "list_all (\<lambda>(h, p). 0 \<le> h \<and> h \<le> p) hs \<Longrightarrow> 0 \<le> window_sum m (map fst hs) \<and> window_sum m (map fst hs) \<le> window_sum m (map snd hs)
    \<and> window_sum m (map snd hs) \<le> sum_list (map snd hs)"
proof (induction hs arbitrary: m)
  case (Cons x hs)
  obtain h p where x: "x = (h, p)" by (cases x)
  have l: "list_all (\<lambda>(h, p). 0 \<le> h \<and> h \<le> p) hs" "0 \<le> h" "h \<le> p" using Cons.prems by (auto simp: x)
  have "0 \<le> sum_list (map snd hs)" using Cons.IH [OF l(1), of 0] by (simp add: window_sum_def)
  then show ?case using Cons.IH [OF l(1), of "m - 1"] l(2,3) by (cases m) (auto simp: window_sum_def x)
qed (simp add: window_sum_def)

lemma rate_range:
  assumes "rounding_ok rnd" "0 \<le> hit_count_queue_sum b" "hit_count_queue_sum b \<le> probe_count_queue_sum b"
  shows "0 \<le> get_hit_rate rnd b" "get_hit_rate rnd b \<le> 1"
proof -
  have m: "x \<le> y \<Longrightarrow> rnd x \<le> rnd y" for x y using assms(1) by (auto simp: rounding_ok_def monoD)
  have i: "rnd 0 = 0" "rnd 1 = 1"
    using assms(1) [unfolded rounding_ok_def, THEN conjunct2, rule_format, of 0] assms(1) [unfolded rounding_ok_def, THEN conjunct2, rule_format, of 1] by simp_all
  let ?x = "of_int (hit_count_queue_sum b) / of_int (probe_count_queue_sum b) :: real"
  have "0 \<le> ?x" "0 < probe_count_queue_sum b \<Longrightarrow> ?x \<le> 1" using assms(2,3) by simp_all
  then show "0 \<le> get_hit_rate rnd b" "get_hit_rate rnd b \<le> 1" using m [of 0 ?x] m [of ?x 1] i by (auto simp: get_hit_rate_def)
qed

lemma bloom_update_ok:
  assumes r: "rounding_ok rnd" and st: "stats_ok m hs b" and x: "hit_count b = h" "probe_count b = p"
    and hs: "list_all (\<lambda>(h, p). 0 \<le> h \<and> h \<le> p) ((h, p) # hs)" and bd: "sum_list (map snd ((h, p) # hs)) < 2 ^ 31" "int (length hs) + 1 < 2 ^ 31"
  shows "\<exists>b'. bloom_update rnd b = Inr b' \<and> stats_ok m ((h, p) # hs) b'"
proof -
  let ?i = "nat (queue_index b)" and ?q = "if queue_index b - 1 < 0 then memory b - 1 else queue_index b - 1"
  have s: "memory b = int m" "0 \<le> queue_index b" "ring m ?i (map fst hs) (hit_count_queue b)" "ring m ?i (map snd hs) (probe_count_queue b)"
    "hit_count_queue_sum b = window_sum m (map fst hs)" "probe_count_queue_sum b = window_sum m (map snd hs)" "hist_ok (length hs) (hist b)"
    using st by (auto simp: stats_ok_def)
  have i: "?i < m" "length (hit_count_queue b) = m" "length (probe_count_queue b) = m" using s(3,4) by (auto simp: ring_def)
  have q: "nat ?q = (if ?i = 0 then m - 1 else ?i - 1)" "0 \<le> ?q" using s(1,2) i(1) by auto
  let ?h0 = "hit_count_queue b ! ?i" and ?p0 = "probe_count_queue b ! ?i"
  have ph: "window_sum m (map fst ((h, p) # hs)) = hit_count_queue_sum b - ?h0 + h"
    "window_sum m (map snd ((h, p) # hs)) = probe_count_queue_sum b - ?p0 + p"
    using window_sum_push [of m h "map fst hs"] window_sum_push [of m p "map snd hs"] ring_oldest [OF s(3)] ring_oldest [OF s(4)] i(1) s(5,6) by simp_all
  note w0 = window_bounds [of hs m] and w1 = window_bounds [OF hs, of m] and wm = window_bounds [of hs "m - 1"]
  have hs': "list_all (\<lambda>(h, p). 0 \<le> h \<and> h \<le> p) hs" "0 \<le> h" "h \<le> p" using hs by auto
  have rest: "hit_count_queue_sum b - ?h0 = window_sum (m - 1) (map fst hs)" "probe_count_queue_sum b - ?p0 = window_sum (m - 1) (map snd hs)"
    using ph i(1) by (cases m; simp add: window_sum_def)+
  let ?b = "b\<lparr>hit_count_queue := (hit_count_queue b)[?i := h], probe_count_queue := (probe_count_queue b)[?i := p], queue_index := ?q,
      hit_count_queue_sum := window_sum m (map fst ((h, p) # hs)), probe_count_queue_sum := window_sum m (map snd ((h, p) # hs)), hit_count := 0, probe_count := 0\<rparr>"
  have rt: "0 \<le> get_hit_rate rnd ?b" "get_hit_rate rnd ?b \<le> 1" using rate_range [OF r, of ?b] w1 by simp_all
  obtain hi where hi: "hist_insert rnd (get_hit_rate rnd ?b) (hist b) = Inr hi" "hist_ok (Suc (length hs)) hi"
    using hist_insert_ok [OF r s(7) rt bd(2)] by blast
  have i32: "to_int32 z = Inr z" if "0 \<le> z" "z < 2 ^ 31" for z unfolding to_int32_def using that by auto
  have pp: "sum_list (map snd hs) \<le> sum_list (map snd ((h, p) # hs))" using hs' by simp
  have "to_int32 (hit_count_queue_sum b - ?h0) = Inr (hit_count_queue_sum b - ?h0)" "to_int32 (probe_count_queue_sum b - ?p0) = Inr (probe_count_queue_sum b - ?p0)"
    unfolding rest using wm hs'(1) pp bd(1) by (intro i32; linarith)+
  moreover have "to_int32 (window_sum m (map fst ((h, p) # hs))) = Inr (window_sum m (map fst ((h, p) # hs)))"
    "to_int32 (window_sum m (map snd ((h, p) # hs))) = Inr (window_sum m (map snd ((h, p) # hs)))"
    using w1 bd(1) by (intro i32; linarith)+
  moreover have "slot (hit_count_queue b) (queue_index b) = Inr ?h0" "slot (probe_count_queue b) (queue_index b) = Inr ?p0"
    using s(2) i by (simp_all add: slot_def fetch_def)
  ultimately have "bloom_update rnd b = Inr (?b\<lparr>hist := hi\<rparr>)"
    unfolding bloom_update_def x using hi(1) by (simp only: and_then.simps Let_def ph [symmetric]) simp
  moreover have "stats_ok m ((h, p) # hs) (?b\<lparr>hist := hi\<rparr>)"
    using s(1) q ring_put [OF s(3), of h] ring_put [OF s(4), of p] hi(2) by (simp add: stats_ok_def)
  ultimately show ?thesis by blast
qed


text \<open>Batches: what the probes of a batch add up to, then \<open>update\<close>.\<close>

fun run_batches :: "rounding \<Rightarrow> (int \<times> int) list \<Rightarrow> BloomFilter \<Rightarrow> BloomFilter res" where
  "run_batches rnd [] b = Inr b"
| "run_batches rnd ((h, p) # bs) b = and_then (bloom_update rnd (b\<lparr>hit_count := h, probe_count := p\<rparr>)) (run_batches rnd bs)"

lemma run_batches_ok:
  assumes r: "rounding_ok rnd"
  shows "stats_ok m hs b \<Longrightarrow> list_all (\<lambda>(h, p). 0 \<le> h \<and> h \<le> p) (bs @ hs) \<Longrightarrow> sum_list (map snd (bs @ hs)) < 2 ^ 31
    \<Longrightarrow> int (length (bs @ hs)) < 2 ^ 31 \<Longrightarrow> \<exists>b'. run_batches rnd bs b = Inr b' \<and> stats_ok m (rev bs @ hs) b'"
proof (induction bs arbitrary: hs b)
  case (Cons x bs)
  obtain h p where x: "x = (h, p)" by (cases x)
  let ?b = "b\<lparr>hit_count := h, probe_count := p\<rparr>"
  have st: "stats_ok m hs ?b" using Cons.prems(1) by (simp add: stats_ok_def)
  have l: "list_all (\<lambda>(h, p). 0 \<le> h \<and> h \<le> p) bs" "list_all (\<lambda>(h, p). 0 \<le> h \<and> h \<le> p) ((h, p) # hs)" using Cons.prems(2) by (auto simp: x)
  have "0 \<le> sum_list (map snd bs)" using window_bounds [OF l(1), of 0] by (simp add: window_sum_def)
  then have "sum_list (map snd ((h, p) # hs)) < 2 ^ 31" "int (length hs) + 1 < 2 ^ 31" using Cons.prems(3,4) by (simp_all add: x)
  then obtain b1 where b1: "bloom_update rnd ?b = Inr b1" "stats_ok m ((h, p) # hs) b1"
    using bloom_update_ok [OF r st _ _ l(2)] by auto
  from Cons.IH [OF b1(2)] show ?case using Cons.prems(2-4) b1(1) by (auto simp: x algebra_simps)
qed simp

lemma set_memory_ok:
  assumes "0 < m" "BloomFilter_new rnd rand n = Inr b"
  shows "stats_ok m [] (set_memory (int m) b)"
proof -
  have "hist_ok 0 (hist b)" "hit_count_queue_sum b = 0" "probe_count_queue_sum b = 0"
    using assms(2) by (auto simp: BloomFilter_new_def Histogram_new_def to_int32_def hist_ok_def Let_def split: if_splits simp del: replicate.simps)
  then show ?thesis using assms(1) by (simp add: stats_ok_def set_memory_def ring_def window_sum_def nat_diff_distrib)
qed

text \<open>C33: The statistics after any batches: the sums of hits and probes are those of the last \<open>memory\<close>
  batches, the hit rate is between 0 and 1, and every update entered it in a bin of the histogram
  that exists.
\<close>

theorem bloom_window:
  assumes "rounding_ok rnd" "0 < m" "BloomFilter_new rnd rand n = Inr b" "list_all (\<lambda>(h, p). 0 \<le> h \<and> h \<le> p) bs"
    and "sum_list (map snd bs) < 2 ^ 31" "int (length bs) < 2 ^ 31"
  shows "\<exists>b'. run_batches rnd bs (set_memory (int m) b) = Inr b'
    \<and> hit_count_queue_sum b' = sum_list (map fst (take m (rev bs))) \<and> probe_count_queue_sum b' = sum_list (map snd (take m (rev bs)))
    \<and> 0 \<le> get_hit_rate rnd b' \<and> get_hit_rate rnd b' \<le> 1 \<and> num_values (hist b') = int (length bs)"
proof -
  obtain b' where b': "run_batches rnd bs (set_memory (int m) b) = Inr b'" "stats_ok m (rev bs) b'"
    using run_batches_ok [OF assms(1) set_memory_ok [OF assms(2,3)], of bs] assms(4-6) by auto
  have "list_all (\<lambda>(h, p). 0 \<le> h \<and> h \<le> p) (rev bs)" using assms(4) by (simp add: list_all_iff)
  then have "0 \<le> hit_count_queue_sum b'" "hit_count_queue_sum b' \<le> probe_count_queue_sum b'"
    using b'(2) window_bounds [of "rev bs" m] by (simp_all add: stats_ok_def)
  then show ?thesis using b' rate_range [OF assms(1), of b'] by (simp add: stats_ok_def window_sum_def take_map hist_ok_def)
qed

theorem bloom_window_witness:
  "\<exists>b b'. BloomFilter_new (\<lambda>x. x) (\<lambda>i. 7) 10 = Inr b \<and> run_batches (\<lambda>x. x) [(1, 2), (3, 4), (5, 6)] (set_memory 2 b) = Inr b'
    \<and> hit_count_queue_sum b' = 8 \<and> probe_count_queue_sum b' = 10"
proof -
  obtain b where b: "BloomFilter_new (\<lambda>x. x) (\<lambda>i. 7) 10 = Inr b" using BloomFilter_new_ok [of 10 "\<lambda>x. x" "\<lambda>i. 7"] by auto
  have r: "rounding_ok (\<lambda>x. x)" by (simp add: rounding_ok_def mono_def)
  show ?thesis using bloom_window [OF r _ b, of 2 "[(1, 2), (3, 4), (5, 6)]"] b by (auto simp: numeral_2_eq_2)
qed

end
