(* ===== verification/OperatorData.thy ===== *)
theory OperatorData
  imports Prelude
begin

text \<open>
  What the relational operators hand to each other: references to columns, join predicates and their
  graph (\<open>reference_structs.h\<close>, \<open>predicate_structs.h\<close>, \<open>join_graph.cc\<close>), views of tables
  (\<open>lazy_table.cc\<close>) and results, which are lists of views (\<open>operator_result.cc\<close>).
\<close>

section \<open>Columns and predicates\<close>

text \<open>
  A table is the address of its \<open>DBTable\<close>. A column has one chunk per block of its table; its values are
  the 64-bit integers the join operators work on.
\<close>

type_synonym table_ptr = nat
type_synonym chunked = "u64 list list"

datatype CompareOperator = EQUAL | NOT_EQUAL | GREATER | GREATER_EQUAL | LESS | LESS_EQUAL

record RecordID =
  rid_index :: u32
  rid_chunk :: u16

record ColumnReference =
  ref_table :: table_ptr
  col_name :: string

definition column_eq :: "ColumnReference \<Rightarrow> ColumnReference \<Rightarrow> bool" where
  "column_eq a b \<longleftrightarrow> ref_table a = ref_table b \<and> col_name a = col_name b"

definition column_neq :: "ColumnReference \<Rightarrow> ColumnReference \<Rightarrow> bool" where
  "column_neq a b \<longleftrightarrow> ref_table a \<noteq> ref_table b \<or> col_name a \<noteq> col_name b"

record JoinPredicate =
  left_col :: ColumnReference
  comparator :: CompareOperator
  right_col :: ColumnReference

definition predicate_eq :: "JoinPredicate \<Rightarrow> JoinPredicate \<Rightarrow> bool" where
  "predicate_eq p q \<longleftrightarrow> (column_eq (left_col p) (left_col q) \<and> column_eq (right_col p) (right_col q)) \<and> comparator p = comparator q"

definition predicate_neq :: "JoinPredicate \<Rightarrow> JoinPredicate \<Rightarrow> bool" where
  "predicate_neq p q \<longleftrightarrow> (column_neq (left_col p) (left_col q) \<or> column_neq (right_col p) (right_col q)) \<or> comparator p \<noteq> comparator q"

section \<open>Join graph\<close>

record JoinGraph =
  graph_tables :: "table_ptr list"
  adj :: "JoinPredicate list list"
  num_predicates :: u64

fun position :: "'a \<Rightarrow> 'a list \<Rightarrow> nat" where
  "position x [] = 0"
| "position x (y # ys) = (if y = x then 0 else Suc (position x ys))"

fun add_groups :: "nat \<Rightarrow> JoinPredicate list list \<Rightarrow> JoinGraph \<Rightarrow> JoinGraph res" where
  "add_groups n [] g = Inr g"
| "add_groups n (ps # groups) g =
    and_then (fetch ps 0) (\<lambda>p.
      add_groups n groups (g\<lparr>adj := adj g @ [ps], graph_tables := graph_tables g @ [ref_table (left_col p)],
        num_predicates := num_predicates g + of_nat n\<rparr>))"

definition empty_graph :: JoinGraph where
  "empty_graph = \<lparr>graph_tables = [], adj = [], num_predicates = 0\<rparr>"

text \<open>Every round of the constructor adds the size of the first group.\<close>

definition JoinGraph_new :: "JoinPredicate list list \<Rightarrow> JoinGraph res" where
  "JoinGraph_new groups = add_groups (length (case groups of [] \<Rightarrow> [] | ps # _ \<Rightarrow> ps)) groups empty_graph"

definition graph_insert :: "JoinPredicate list \<Rightarrow> JoinGraph \<Rightarrow> JoinGraph res" where
  "graph_insert ps g =
    and_then (fetch ps 0) (\<lambda>p.
      let t = ref_table (left_col p); it = position t (graph_tables g); n = length (graph_tables g) in
      and_then (if it \<noteq> n then
          (let i = int it - int n in
           and_then (at_offset (adj g) i) (\<lambda>qs. Inr (g\<lparr>adj := (adj g)[nat i := qs @ ps]\<rparr>)))
        else Inr (g\<lparr>graph_tables := graph_tables g @ [t], adj := adj g @ [ps]\<rparr>)) (\<lambda>g.
      Inr (g\<lparr>num_predicates := num_predicates g + of_nat (length ps)\<rparr>)))"

definition graph_get_table :: "int \<Rightarrow> JoinGraph \<Rightarrow> table_ptr res" where
  "graph_get_table i g = at_offset (graph_tables g) i"

definition get_predicates_of :: "table_ptr \<Rightarrow> JoinGraph \<Rightarrow> JoinPredicate list res" where
  "get_predicates_of t g = at_offset (adj g) (int (position t (graph_tables g)) - int (length (graph_tables g)))"

definition get_predicates :: "int \<Rightarrow> JoinGraph \<Rightarrow> JoinPredicate list res" where
  "get_predicates i g = at_offset (adj g) i"

definition find_table :: "table_ptr \<Rightarrow> JoinGraph \<Rightarrow> int" where
  "find_table t g = (if position t (graph_tables g) \<noteq> length (graph_tables g) then 1 else 0)"

section \<open>Lazy tables\<close>

text \<open>
  The tables as the operators see them: the number of columns, the position of a column name and the
  column over all blocks. Joining hash tables are the keys they hold. \<open>Filter\<close> and \<open>Take\<close> are the
  compute kernels of Arrow.
\<close>

record db_tables =
  tb_num_cols :: "table_ptr \<Rightarrow> nat"
  tb_field :: "table_ptr \<Rightarrow> string \<Rightarrow> nat"
  tb_column :: "table_ptr \<Rightarrow> nat \<Rightarrow> chunked"

record LazyTable =
  lt_table :: table_ptr
  lt_filter :: "bool list list option"
  lt_indices :: "u32 list option"
  lt_index_chunks :: "u16 list option"
  lt_hash_table :: "u64 list option"
  materialized_cols :: "chunked option list"

definition LazyTable_new :: "db_tables \<Rightarrow> table_ptr \<Rightarrow> bool list list option \<Rightarrow> u32 list option \<Rightarrow> u16 list option \<Rightarrow> LazyTable" where
  "LazyTable_new db t flt is cs = \<lparr>lt_table = t, lt_filter = flt, lt_indices = is, lt_index_chunks = cs, lt_hash_table = None,
     materialized_cols = replicate (tb_num_cols db t) None\<rparr>"

definition LazyTable_with_hash :: "db_tables \<Rightarrow> table_ptr \<Rightarrow> bool list list option \<Rightarrow> u32 list option \<Rightarrow> u16 list option
    \<Rightarrow> u64 list option \<Rightarrow> LazyTable" where
  "LazyTable_with_hash db t flt is cs h = (LazyTable_new db t flt is cs)\<lparr>lt_hash_table := h\<rparr>"

definition set_materialized_column :: "nat \<Rightarrow> chunked option \<Rightarrow> LazyTable \<Rightarrow> LazyTable res" where
  "set_materialized_column i col lt =
    and_then (fetch (materialized_cols lt) i) (\<lambda>_. Inr (lt\<lparr>materialized_cols := (materialized_cols lt)[i := col]\<rparr>))"

definition set_hash_table :: "u64 list option \<Rightarrow> LazyTable \<Rightarrow> LazyTable" where
  "set_hash_table h lt = lt\<lparr>lt_hash_table := h\<rparr>"

definition MaterializeColumn :: "db_tables \<Rightarrow> (chunked \<Rightarrow> bool list list \<Rightarrow> chunked) \<Rightarrow> (chunked \<Rightarrow> u32 list \<Rightarrow> chunked)
    \<Rightarrow> nat \<Rightarrow> LazyTable \<Rightarrow> (chunked \<times> LazyTable) res" where
  "MaterializeColumn db Filter Take i lt =
    and_then (fetch (materialized_cols lt) i) (\<lambda>m.
      case m of Some col \<Rightarrow> Inr (col, lt)
      | None \<Rightarrow>
        if lt_filter lt \<noteq> None \<and> lt_indices lt \<noteq> None then Inl AssertFailed
        else
          let col = tb_column db (lt_table lt) i;
              col = (case lt_filter lt of Some f \<Rightarrow> Filter col f
                     | None \<Rightarrow> (case lt_indices lt of Some is \<Rightarrow> Take col is | None \<Rightarrow> col))
          in Inr (col, lt\<lparr>materialized_cols := (materialized_cols lt)[i := Some col]\<rparr>))"

section \<open>Operator results\<close>

type_synonym OperatorResult = "LazyTable list"

text \<open>A table and a view go to the front, the views of another result to the back.\<close>

definition append_table :: "db_tables \<Rightarrow> table_ptr \<Rightarrow> OperatorResult \<Rightarrow> OperatorResult" where
  "append_table db t r = LazyTable_new db t None None None # r"

definition append_lazy :: "LazyTable \<Rightarrow> OperatorResult \<Rightarrow> OperatorResult" where
  "append_lazy lt r = lt # r"

fun append_result :: "OperatorResult \<Rightarrow> OperatorResult \<Rightarrow> OperatorResult" where
  "append_result [] r = r"
| "append_result (lt # lts) r = append_result lts (r @ [lt])"

definition result_table_at :: "nat \<Rightarrow> OperatorResult \<Rightarrow> LazyTable res" where
  "result_table_at i r = fetch r i"

fun result_table_of :: "table_ptr \<Rightarrow> OperatorResult \<Rightarrow> LazyTable option" where
  "result_table_of t [] = None"
| "result_table_of t (lt # r) = (if lt_table lt = t then Some lt else result_table_of t r)"

fun update_first :: "table_ptr \<Rightarrow> LazyTable \<Rightarrow> OperatorResult \<Rightarrow> OperatorResult" where
  "update_first t lt' [] = []"
| "update_first t lt' (lt # r) = (if lt_table lt = t then lt' # r else lt # update_first t lt' r)"

definition set_materialized_col :: "table_ptr \<Rightarrow> nat \<Rightarrow> chunked option \<Rightarrow> OperatorResult \<Rightarrow> OperatorResult res" where
  "set_materialized_col t i col r =
    (case result_table_of t r of None \<Rightarrow> Inl NullDeref
     | Some lt \<Rightarrow> and_then (set_materialized_column i col lt) (\<lambda>lt. Inr (update_first t lt r)))"

section \<open>Laws\<close>

lemma column_neq_iff: "column_neq a b \<longleftrightarrow> \<not> column_eq a b"
  by (auto simp: column_eq_def column_neq_def)

lemma predicate_neq_iff: "predicate_neq p q \<longleftrightarrow> \<not> predicate_eq p q"
  by (auto simp: predicate_eq_def predicate_neq_def column_neq_iff)

lemma append_result_app [simp]: "append_result lts r = r @ lts"
  by (induction lts arbitrary: r) auto

lemma position_le: "position x xs \<le> length xs"
  by (induction xs) auto

lemma position_less: "position x xs < length xs \<longleftrightarrow> x \<in> set xs"
  by (induction xs) auto

lemma position_neq: "position x xs \<noteq> length xs \<longleftrightarrow> x \<in> set xs"
  using position_le [of x xs] position_less [of x xs] by auto

lemma result_table_of_Some: "result_table_of t r = Some lt \<Longrightarrow> lt \<in> set r \<and> lt_table lt = t"
  by (induction r) (auto split: if_splits)

lemma result_table_of_distinct:
  "distinct (map lt_table r) \<Longrightarrow> lt \<in> set r \<Longrightarrow> result_table_of (lt_table lt) r = Some lt"
  by (induction r) (auto simp: rev_image_eqI)

lemma materialize_cached:
  assumes "MaterializeColumn db F T i lt = Inr (col, lt')"
  shows "MaterializeColumn db F' T' i lt' = Inr (col, lt')"
  using assms by (auto simp: MaterializeColumn_def fetch_def Let_def split: if_splits option.splits)

lemma add_groups_ok:
  "\<forall>ps \<in> set groups. ps \<noteq> [] \<Longrightarrow> add_groups n groups g = Inr
    \<lparr>graph_tables = graph_tables g @ map (\<lambda>ps. ref_table (left_col (hd ps))) groups, adj = adj g @ groups,
     num_predicates = num_predicates g + of_nat (length groups * n)\<rparr>"
  by (induction groups arbitrary: g) (auto simp: fetch_def hd_conv_nth algebra_simps)

text \<open>The join graph: the constructor counts the first group once per group instead of every group;
  asking for the predicates of a table, or adding predicates to it, computes its position from the end of the
  table list, so that both leave the array for every table that is in the graph, and a table that is not in
  the graph gets the predicates of the first one. \<open>find_table\<close> returns whether a table is there, not where.
\<close>

theorem join_graph_lookup:
  assumes "\<forall>ps \<in> set groups. ps \<noteq> []"
  shows "\<exists>g. JoinGraph_new groups = Inr g \<and> adj g = groups
    \<and> num_predicates g = of_nat (length groups * length (concat (take 1 groups)))
    \<and> (\<forall>i < length groups. get_predicates (int i) g = Inr (groups ! i))
    \<and> (\<forall>t \<in> set (graph_tables g). get_predicates_of t g = Inl OutOfBounds \<and> find_table t g = 1
         \<and> (\<forall>ps. ps \<noteq> [] \<and> ref_table (left_col (hd ps)) = t \<longrightarrow> graph_insert ps g = Inl OutOfBounds))
    \<and> (\<forall>t. t \<notin> set (graph_tables g) \<longrightarrow> get_predicates_of t g = fetch groups 0 \<and> find_table t g = 0)"
proof -
  obtain g where g: "JoinGraph_new groups = Inr g" "adj g = groups"
    "num_predicates g = of_nat (length groups * length (case groups of [] \<Rightarrow> [] | ps # _ \<Rightarrow> ps))"
    using add_groups_ok [OF assms] by (simp add: JoinGraph_new_def empty_graph_def)
  have "graph_insert ps g = Inl OutOfBounds" if "t \<in> set (graph_tables g)" "ps \<noteq> []" "ref_table (left_col (hd ps)) = t" for t ps
    using that position_neq [of t "graph_tables g"] position_le [of t "graph_tables g"]
    by (auto simp: graph_insert_def fetch_def hd_conv_nth at_offset_def)
  moreover have "get_predicates_of t g = Inl OutOfBounds \<and> find_table t g = 1" if "t \<in> set (graph_tables g)" for t
    using that position_less [of t "graph_tables g"] by (auto simp: get_predicates_of_def at_offset_def find_table_def)
  moreover have "get_predicates_of t g = fetch groups 0 \<and> find_table t g = 0" if "t \<notin> set (graph_tables g)" for t
    using that position_neq [of t "graph_tables g"] g(2) by (simp add: get_predicates_of_def at_offset_def find_table_def)
  moreover have "\<forall>i < length groups. get_predicates (int i) g = Inr (groups ! i)" using g(2) by (simp add: get_predicates_def at_offset_def fetch_def)
  moreover have "length (case groups of [] \<Rightarrow> [] | ps # _ \<Rightarrow> ps) = length (concat (take 1 groups))" by (cases groups) auto
  ultimately show ?thesis using g by (intro exI [of _ g] conjI allI impI ballI) auto
qed

theorem join_graph_lookup_witness:
  "\<exists>p q g. JoinGraph_new [[p, q], [p]] = Inr g \<and> num_predicates g = 4 \<and> get_predicates 1 g = Inr [p] \<and> get_predicates_of 7 g = Inr [p, q]"
proof -
  let ?p = "\<lparr>left_col = \<lparr>ref_table = 1, col_name = ''a''\<rparr>, comparator = EQUAL, right_col = \<lparr>ref_table = 2, col_name = ''b''\<rparr>\<rparr>"
  let ?q = "\<lparr>left_col = \<lparr>ref_table = 1, col_name = ''c''\<rparr>, comparator = EQUAL, right_col = \<lparr>ref_table = 3, col_name = ''d''\<rparr>\<rparr>"
  have "\<forall>ps \<in> set [[?p, ?q], [?p]]. ps \<noteq> []" by simp
  from join_graph_lookup [OF this] obtain g where g: "JoinGraph_new [[?p, ?q], [?p]] = Inr g" "num_predicates g = 4"
    "\<forall>i < 2. get_predicates (int i) g = Inr ([[?p, ?q], [?p]] ! i)"
    "\<forall>t. t \<notin> set (graph_tables g) \<longrightarrow> get_predicates_of t g = fetch [[?p, ?q], [?p]] 0 \<and> find_table t g = 0" by (auto simp: numeral_2_eq_2)
  have "graph_tables g = [1, 1]" using g(1) by (auto simp: JoinGraph_new_def empty_graph_def fetch_def)
  then have "get_predicates_of 7 g = Inr [?p, ?q]" using g(4) by (simp add: fetch_def)
  moreover have "get_predicates 1 g = Inr [?p]" using g(3) [rule_format, of 1] by simp
  ultimately show ?thesis using g(1,2) by blast
qed

end
