(* ===== verification/ApplyIndices.thy ===== *)
theory ApplyIndices
  imports OperatorData "HOL-Library.Multiset"
begin

text \<open>
  Materialising the rows of a view: \<open>Context::apply_indices\<close> of \<open>arrow_compute_wrappers.cc\<close> takes the values
  at a list of row numbers out of a chunked column, slice by slice, one task per slice. Then
  \<open>LazyTable::MaterializeColumn\<close>, which calls it.
\<close>

section \<open>Slices and offsets\<close>

text \<open>\<open>Array::Slice\<close> of Arrow ends at the end of the array.\<close>

definition array_slice :: "nat \<Rightarrow> nat \<Rightarrow> 'a list \<Rightarrow> 'a list" where
  "array_slice off len xs = take len (drop off xs)"

definition num_slices :: "nat \<Rightarrow> nat \<Rightarrow> nat" where
  "num_slices L n = n div L + 1"

text \<open>The slice \<open>s\<close> of \<open>n\<close> indices; the last one has a length that reaches behind the end.\<close>

definition slice_of :: "nat \<Rightarrow> nat \<Rightarrow> nat \<Rightarrow> 'a list \<Rightarrow> 'a list res" where
  "slice_of L n s xs =
    and_then (to_int32 (int s * int L)) (\<lambda>off.
      if int s = int (num_slices L n) - 1
      then and_then (to_int32 ((int s - 1) * int L)) (\<lambda>back. Inr (array_slice (nat off) (nat (int n - back)) xs))
      else Inr (array_slice (nat off) L xs))"

text \<open>The row numbers at which the chunks start, and the end; \<open>unsigned int\<close>s.\<close>

fun row_offsets :: "u32 \<Rightarrow> 'a list list \<Rightarrow> u32 list" where
  "row_offsets acc [] = [acc]"
| "row_offsets acc (c # cs) = acc # row_offsets (acc + of_nat (length c)) cs"

definition chunk_offsets :: "'a list list \<Rightarrow> int list res" where
  "chunk_offsets vs = (if vs = [] then Inl OutOfBounds else Inr (map uint (row_offsets 0 vs)))"

text \<open>\<open>std::upper_bound\<close> on a sorted range: the position of the first element above the value.\<close>

definition upper_bound :: "int list \<Rightarrow> int \<Rightarrow> nat" where
  "upper_bound xs x = length (takeWhile (\<lambda>y. y \<le> x) xs)"

section \<open>Numbers\<close>

text \<open>\<open>apply_indices_internal\<close>: the chunk is found by binary search.\<close>

fun gather :: "'a::len word list list \<Rightarrow> int list \<Rightarrow> u32 list \<Rightarrow> u64 list res" where
  "gather vs offs [] = Inr []"
| "gather vs offs (i # is) =
    (let idx = uint i; j = int (upper_bound offs idx) - 1 in
     and_then (at_offset vs j) (\<lambda>chunk.
     and_then (at_offset offs j) (\<lambda>off.
     and_then (at_offset chunk (idx - off)) (\<lambda>v.
     and_then (gather vs offs is) (\<lambda>out. Inr (ucast v # out))))))"

text \<open>\<open>apply_indices_internal2\<close>: the chunk of every index is given.\<close>

fun gather2 :: "'a::len word list list \<Rightarrow> int list \<Rightarrow> u32 list \<Rightarrow> u16 list \<Rightarrow> u64 list res" where
  "gather2 vs offs [] cs = Inr []"
| "gather2 vs offs (i # is) [] = Inl OutOfBounds"
| "gather2 vs offs (i # is) (c # cs) =
     and_then (fetch offs (unat c)) (\<lambda>off.
     and_then (fetch vs (unat c)) (\<lambda>chunk.
     and_then (at_offset chunk (uint i - off)) (\<lambda>v.
     and_then (gather2 vs offs is cs) (\<lambda>out. Inr (ucast v # out)))))"

section \<open>Strings\<close>

record string_chunk =
  raw_offsets :: "int list"
  raw_data :: "u8 list"

text \<open>
  A builder of Arrow: \<open>Reserve\<close> makes room for more bytes, with a capacity the pool chooses; an
  \<open>UnsafeAppend\<close> beyond the capacity writes behind the buffer. \<open>grow c n\<close> is the capacity a buffer of
  capacity \<open>c\<close> gets when \<open>n\<close> bytes are needed.
\<close>

record builder =
  cap :: nat
  written :: "u8 list"

definition Reserve :: "(nat \<Rightarrow> nat \<Rightarrow> nat) \<Rightarrow> nat \<Rightarrow> builder \<Rightarrow> builder" where
  "Reserve grow n b = (let need = length (written b) + n in if cap b < need then b\<lparr>cap := grow (cap b) need\<rparr> else b)"

definition UnsafeAppend :: "u8 list \<Rightarrow> builder \<Rightarrow> builder res" where
  "UnsafeAppend bs b = (if length (written b) + length bs \<le> cap b then Inr (b\<lparr>written := written b @ bs\<rparr>) else Inl OutOfBounds)"

definition le32 :: "u32 \<Rightarrow> u8 list" where
  "le32 w = [ucast w, ucast (drop_bit 8 w), ucast (drop_bit 16 w), ucast (drop_bit 24 w)]"

definition new_builder :: builder where "new_builder = \<lparr>cap = 0, written = []\<rparr>"

text \<open>One index: its offset is appended, then its bytes.\<close>

definition append_string :: "(nat \<Rightarrow> nat \<Rightarrow> nat) \<Rightarrow> string_chunk list \<Rightarrow> int list \<Rightarrow> u32
    \<Rightarrow> int \<times> int \<times> builder \<times> builder \<Rightarrow> (int \<times> int \<times> builder \<times> builder) res" where
  "append_string grow vs offs i = (\<lambda>(offset, space, ob, db).
     and_then (UnsafeAppend (le32 (word_of_int offset)) ob) (\<lambda>ob.
     let j = int (upper_bound offs (uint i)) - 1 in
     and_then (at_offset vs j) (\<lambda>chunk.
     and_then (at_offset offs j) (\<lambda>off.
     let index = (word_of_int (uint i - off) :: u32) in
     and_then (fetch (raw_offsets chunk) (unat index)) (\<lambda>o1.
     and_then (fetch (raw_offsets chunk) (unat (index + 1))) (\<lambda>o2.
     let val_offset = (word_of_int o1 :: u32); val_size = (word_of_int o2 :: u32) - val_offset in
     let offset = sint (word_of_int offset + val_size) in
     let (space, db) = (if uint val_size > space
          then (let db = Reserve grow (unat val_size) db in (int (cap db) - int (length (written db)), db)) else (space, db)) in
     and_then (load (uint val_offset) (uint val_size) (raw_data chunk)) (\<lambda>bs.
     and_then (UnsafeAppend bs db) (\<lambda>db.
     Inr (offset, space - uint val_size, ob, db)))))))))"

fun append_strings :: "(nat \<Rightarrow> nat \<Rightarrow> nat) \<Rightarrow> string_chunk list \<Rightarrow> int list \<Rightarrow> u32 list
    \<Rightarrow> int \<times> int \<times> builder \<times> builder \<Rightarrow> (int \<times> int \<times> builder \<times> builder) res" where
  "append_strings grow vs offs [] st = Inr st"
| "append_strings grow vs offs (i # is) st = and_then (append_string grow vs offs i st) (append_strings grow vs offs is)"

text \<open>\<open>guess\<close> is the number of bytes reserved in advance, a rounded product of doubles.\<close>

definition gather_strings :: "(nat \<Rightarrow> nat \<Rightarrow> nat) \<Rightarrow> nat \<Rightarrow> string_chunk list \<Rightarrow> int list \<Rightarrow> u32 list \<Rightarrow> (u8 list \<times> u8 list) res" where
  "gather_strings grow guess vs offs is =
    (let db = Reserve grow guess new_builder; ob = Reserve grow (4 * length is) new_builder in
     and_then (append_strings grow vs offs is (0, int (cap db), ob, db)) (\<lambda>(offset, space, ob, db).
     and_then (UnsafeAppend (le32 (word_of_int offset)) ob) (\<lambda>ob. Inr (written ob, written db))))"

section \<open>All slices\<close>

datatype column_values = Int64Values "u64 list list" | UInt32Values "u32 list list" | StringValues "string_chunk list"
  | OtherValues "unit list list"

datatype out_array = Int64Array "u64 list" | UInt32Array "u32 list" | StringArray "u8 list" "u8 list"

fun row_counts :: "column_values \<Rightarrow> unit list list" where
  "row_counts (Int64Values vs) = map (map (\<lambda>_. ())) vs"
| "row_counts (UInt32Values vs) = map (map (\<lambda>_. ())) vs"
| "row_counts (StringValues vs) = map (\<lambda>c. replicate (length (raw_offsets c) - 1) ()) vs"
| "row_counts (OtherValues vs) = vs"

fun empty_array :: "column_values \<Rightarrow> out_array res" where
  "empty_array (Int64Values vs) = Inr (Int64Array [])"
| "empty_array (UInt32Values vs) = Inr (UInt32Array [])"
| "empty_array (StringValues vs) = Inr (StringArray [] [])"
| "empty_array (OtherValues vs) = Inl LogicError"

definition number_slice :: "'a::len word list list \<Rightarrow> int list \<Rightarrow> u32 list \<Rightarrow> u16 list option \<Rightarrow> out_array res" where
  "number_slice vs offs is cs =
    and_then (case cs of None \<Rightarrow> gather vs offs is | Some cs \<Rightarrow> gather2 vs offs is cs) (\<lambda>out. Inr (Int64Array out))"

fun slice_values :: "(nat \<Rightarrow> nat \<Rightarrow> nat) \<Rightarrow> nat \<Rightarrow> column_values \<Rightarrow> int list \<Rightarrow> u32 list \<Rightarrow> u16 list option \<Rightarrow> out_array res" where
  "slice_values grow guess (Int64Values vs) offs is cs = number_slice vs offs is cs"
| "slice_values grow guess (UInt32Values vs) offs is cs = number_slice vs offs is cs"
| "slice_values grow guess (StringValues vs) offs is cs =
     and_then (gather_strings grow guess vs offs is) (\<lambda>(os, bs). Inr (StringArray os bs))"
| "slice_values grow guess (OtherValues vs) offs is cs = Inl LogicError"

record Context =
  slice_length :: nat
  array_vec :: "out_array option list"
  ctx_out :: "out_array option list"

definition Context_new :: Context where
  "Context_new = \<lparr>slice_length = 30000, array_vec = [], ctx_out = []\<rparr>"

definition clear_data :: "Context \<Rightarrow> Context" where
  "clear_data c = c\<lparr>array_vec := []\<rparr>"

text \<open>The task of a slice.\<close>

definition apply_slice :: "(nat \<Rightarrow> nat \<Rightarrow> nat) \<Rightarrow> (nat \<Rightarrow> nat) \<Rightarrow> column_values \<Rightarrow> int list \<Rightarrow> u32 list \<Rightarrow> u16 list option \<Rightarrow> nat
    \<Rightarrow> Context \<Rightarrow> Context res" where
  "apply_slice grow guess vs offs is cs s c =
    (let n = length is; L = slice_length c in
     and_then (slice_of L n s is) (\<lambda>is'.
     and_then (case cs of None \<Rightarrow> Inr None | Some cs \<Rightarrow> and_then (slice_of L n s cs) (\<lambda>cs'. Inr (Some cs'))) (\<lambda>cs'.
     and_then (if is' = [] then empty_array vs else slice_values grow (guess s) vs offs is' cs') (\<lambda>out.
     and_then (fetch (array_vec c) s) (\<lambda>_. Inr (c\<lparr>array_vec := (array_vec c)[s := Some out]\<rparr>))))))"

fun apply_slices :: "(nat \<Rightarrow> nat \<Rightarrow> nat) \<Rightarrow> (nat \<Rightarrow> nat) \<Rightarrow> column_values \<Rightarrow> int list \<Rightarrow> u32 list \<Rightarrow> u16 list option \<Rightarrow> nat list
    \<Rightarrow> Context \<Rightarrow> Context res" where
  "apply_slices grow guess vs offs is cs [] c = Inr c"
| "apply_slices grow guess vs offs is cs (s # ss) c =
     and_then (apply_slice grow guess vs offs is cs s c) (apply_slices grow guess vs offs is cs ss)"

text \<open>The tasks of the slices run in the order \<open>sched\<close> gives them.\<close>

definition apply_indices :: "(nat \<Rightarrow> nat \<Rightarrow> nat) \<Rightarrow> (nat \<Rightarrow> nat) \<Rightarrow> (nat list \<Rightarrow> nat list) \<Rightarrow> column_values \<Rightarrow> u32 list
    \<Rightarrow> u16 list option \<Rightarrow> Context \<Rightarrow> Context res" where
  "apply_indices grow guess sched vs is cs c =
    and_then (chunk_offsets (row_counts vs)) (\<lambda>offs.
      let n = num_slices (slice_length c) (length is); c = clear_data c in
      and_then (apply_slices grow guess vs offs is cs (sched [0..<n]) (c\<lparr>array_vec := replicate n None\<rparr>)) (\<lambda>c.
      Inr (c\<lparr>ctx_out := array_vec c\<rparr>)))"

section \<open>Materialising a column\<close>

text \<open>The result as a column of 64-bit integers.\<close>

fun int64_chunks :: "out_array option list \<Rightarrow> chunked res" where
  "int64_chunks [] = Inr []"
| "int64_chunks (Some (Int64Array vs) # as) = and_then (int64_chunks as) (\<lambda>vss. Inr (vs # vss))"
| "int64_chunks (_ # as) = Inl LogicError"

text \<open>\<open>MaterializeColumn\<close> of a task: the indices are applied, the filter is not; the result is kept.\<close>

definition MaterializeColumnTask :: "db_tables \<Rightarrow> (nat \<Rightarrow> nat \<Rightarrow> nat) \<Rightarrow> (nat \<Rightarrow> nat) \<Rightarrow> (nat list \<Rightarrow> nat list) \<Rightarrow> nat \<Rightarrow> LazyTable
    \<Rightarrow> (chunked \<times> LazyTable) res" where
  "MaterializeColumnTask db grow guess sched i lt =
    and_then (fetch (materialized_cols lt) i) (\<lambda>m.
      case m of Some col \<Rightarrow> Inr (col, lt)
      | None \<Rightarrow>
        let col = tb_column db (lt_table lt) i in
        and_then (case lt_indices lt of None \<Rightarrow> Inr col
          | Some is \<Rightarrow> and_then (apply_indices grow guess sched (Int64Values col) is (lt_index_chunks lt) Context_new) (\<lambda>c. int64_chunks (ctx_out c)))
          (\<lambda>col. Inr (col, lt\<lparr>materialized_cols := (materialized_cols lt)[i := Some col]\<rparr>)))"

section \<open>Row numbers and chunks\<close>

fun starts :: "nat \<Rightarrow> 'a list list \<Rightarrow> nat list" where
  "starts a [] = [a]"
| "starts a (c # cs) = a # starts (a + length c) cs"

lemma length_starts [simp]: "length (starts a vs) = Suc (length vs)"
  by (induction vs arbitrary: a) auto

lemma starts_ge: "j \<le> length vs \<Longrightarrow> a \<le> starts a vs ! j"
proof (induction vs arbitrary: a j)
  case (Cons c cs)
  then show ?case by (cases j) (auto intro: order_trans [of a "a + length c"])
qed simp

lemma uint_of_nat_small: "n < 2 ^ 32 \<Longrightarrow> uint (of_nat n :: u32) = int n"
proof -
  assume "n < 2 ^ 32"
  then have "unat (of_nat n :: u32) = n" by (simp add: unat_of_nat take_bit_nat_eq_self)
  then show ?thesis by (simp only: uint_nat)
qed

lemma row_offsets_starts:
  "a + length (concat vs) < 2 ^ 32 \<Longrightarrow> map uint (row_offsets (of_nat a) vs) = map int (starts a vs)"
proof (induction vs arbitrary: a)
  case (Cons c cs)
  have "uint (of_nat a :: u32) = int a" using Cons.prems by (simp add: uint_of_nat_small)
  moreover have "map uint (row_offsets (of_nat (a + length c)) cs) = map int (starts (a + length c) cs)"
    using Cons.prems by (intro Cons.IH) simp
  ultimately show ?case by simp
qed (simp add: uint_of_nat_small)

lemma concat_at:
  "j < length vs \<Longrightarrow> starts a vs ! j \<le> k \<Longrightarrow> k < starts a vs ! j + length (vs ! j)
    \<Longrightarrow> vs ! j ! (k - starts a vs ! j) = concat vs ! (k - a) \<and> k - a < length (concat vs)"
proof (induction vs arbitrary: a j)
  case (Cons c cs)
  show ?case
  proof (cases j)
    case 0
    then show ?thesis using Cons.prems by (auto simp: nth_append)
  next
    case (Suc i)
    then have "a + length c \<le> k" using Cons.prems starts_ge [of i cs "a + length c"] by auto
    then show ?thesis using Cons.IH [of i "a + length c"] Cons.prems Suc by (auto simp: nth_append)
  qed
qed simp

lemma upper_bound_starts:
  "a \<le> k \<Longrightarrow> k < a + length (concat vs) \<Longrightarrow> \<exists>j < length vs. upper_bound (map int (starts a vs)) (int k) = Suc j
    \<and> starts a vs ! j \<le> k \<and> k < starts a vs ! j + length (vs ! j)"
proof (induction vs arbitrary: a)
  case (Cons c cs)
  show ?case
  proof (cases "k < a + length c")
    case True
    have "upper_bound (map int (starts (a + length c) cs)) (int k) = 0" using True by (cases cs) (auto simp: upper_bound_def)
    then show ?thesis using Cons.prems True by (intro exI [of _ 0]) (auto simp: upper_bound_def)
  next
    case False
    then obtain j where "j < length cs" "upper_bound (map int (starts (a + length c) cs)) (int k) = Suc j"
      "starts (a + length c) cs ! j \<le> k" "k < starts (a + length c) cs ! j + length (cs ! j)"
      using Cons.IH [of "a + length c"] Cons.prems by auto
    then show ?thesis using Cons.prems by (intro exI [of _ "Suc j"]) (auto simp: upper_bound_def)
  qed
qed simp

lemma at_diff: "s \<le> unat (i :: u32) \<Longrightarrow> unat i < s + length xs \<Longrightarrow> at_offset xs (uint i - int s) = Inr (xs ! (unat i - s))"
proof -
  assume i: "s \<le> unat i" "unat i < s + length xs"
  have "uint i - int s = int (unat i - s)" using i(1) by (simp only: uint_nat of_nat_diff)
  moreover have "unat i - s < length xs" using i by linarith
  ultimately show ?thesis by (simp only: at_offset_Inr)
qed

lemma gather_ok:
  "\<forall>i \<in> set is. unat i < length (concat vs) \<Longrightarrow> gather vs (map int (starts 0 vs)) is = Inr (map (\<lambda>i. ucast (concat vs ! unat i)) is)"
proof (induction "is")
  case (Cons i "is")
  obtain j where j: "j < length vs" "upper_bound (map int (starts 0 vs)) (uint i) = Suc j"
    "starts 0 vs ! j \<le> unat i" "unat i < starts 0 vs ! j + length (vs ! j)"
    using upper_bound_starts [of 0 "unat i" vs] Cons.prems by auto
  have "at_offset (vs ! j) (uint i - int (starts 0 vs ! j)) = Inr (concat vs ! unat i)"
    using concat_at [OF j(1,3,4)] at_diff [of "starts 0 vs ! j" i "vs ! j"] j by simp
  then show ?case using Cons j by (simp add: Let_def)
qed simp

text \<open>The chunk that is given for an index has it.\<close>

definition chunk_has :: "'a list list \<Rightarrow> u32 \<Rightarrow> u16 \<Rightarrow> bool" where
  "chunk_has vs i c \<longleftrightarrow> unat c < length vs \<and> starts 0 vs ! unat c \<le> unat i \<and> unat i < starts 0 vs ! unat c + length (vs ! unat c)"

lemma gather2_ok:
  "list_all2 (chunk_has vs) is cs \<Longrightarrow> gather2 vs (map int (starts 0 vs)) is cs = Inr (map (\<lambda>i. ucast (concat vs ! unat i)) is)"
proof (induction rule: list_all2_induct)
  case (Cons i "is" c cs)
  then have j: "unat c < length vs" "starts 0 vs ! unat c \<le> unat i" "unat i < starts 0 vs ! unat c + length (vs ! unat c)" by (auto simp: chunk_has_def)
  have "at_offset (vs ! unat c) (uint i - int (starts 0 vs ! unat c)) = Inr (concat vs ! unat i)"
    using concat_at [OF j] at_diff [of "starts 0 vs ! unat c" i "vs ! unat c"] j by simp
  then show ?case using Cons.IH j by simp
qed simp

section \<open>Putting the slices together\<close>

lemma slice_of_ok:
  assumes "0 < L" "L < 2 ^ 31" "n < 2 ^ 31" "length xs = n" "s < num_slices L n"
  shows "slice_of L n s xs = Inr (take L (drop (s * L) xs))"
proof -
  have "s \<le> n div L" using assms(5) by (simp add: num_slices_def)
  then have sl: "s * L \<le> n" by (metis div_times_less_eq_dividend le_trans mult_le_mono1)
  then have "int s * int L < 2 ^ 31" using assms(3) by (simp flip: of_nat_mult)
  then have off: "to_int32 (int s * int L) = Inr (int (s * L))" using to_int32_small [of "int s * int L"] by simp
  show ?thesis
  proof (cases "s = num_slices L n - 1")
    case True
    have b: "(int s - 1) * int L = int (s * L) - int L" by (simp add: algebra_simps)
    then have bk: "to_int32 ((int s - 1) * int L) = Inr (int (s * L) - int L)" 
    proof -
      have "int L < 2 ^ 31" "int n < 2 ^ 31" "int (s * L) \<le> int n" using sl assms(2,3) by (simp_all only: of_nat_le_iff) simp_all
      then have "- (2 ^ 31) \<le> int (s * L) - int L" "int (s * L) - int L < 2 ^ 31" by linarith+
      then show ?thesis unfolding b by (simp only: to_int32_def if_True simp_thms)
    qed
    have s: "s = n div L" using True by (simp add: num_slices_def)
    have "n - s * L < L" using assms(1) unfolding s by (metis minus_div_mult_eq_mod mod_less_divisor)
    moreover have "n - s * L \<le> nat (int n - (int (s * L) - int L))" by linarith
    ultimately have "take (nat (int n - (int (s * L) - int L))) (drop (s * L) xs) = drop (s * L) xs" "take L (drop (s * L) xs) = drop (s * L) xs"
      using assms(4) by (simp_all del: of_nat_mult)
    moreover have "int (num_slices L n) - 1 = int s" using s by (simp add: num_slices_def)
    ultimately show ?thesis by (simp only: slice_of_def bk off and_then.simps array_slice_def if_True nat_int simp_thms)
  next
    case False
    then have "int s \<noteq> int (num_slices L n) - 1" by (simp add: num_slices_def)
    then show ?thesis by (simp only: slice_of_def off and_then.simps array_slice_def if_False nat_int simp_thms)
  qed
qed

lemma concat_slices:
  assumes "0 < L"
  shows "concat (map (\<lambda>s. take L (drop (s * L) xs)) [0..<num_slices L (length xs)]) = xs"
proof -
  have "concat (map (\<lambda>s. take L (drop (s * L) xs)) [0..<m]) = take (m * L) xs" for m
    by (induction m) (auto simp: take_add [symmetric] add.commute)
  moreover have "length xs \<le> num_slices L (length xs) * L"
    using assms dividend_less_div_times [of L "length xs"] by (simp add: num_slices_def less_imp_le add.commute)
  ultimately show ?thesis by simp
qed

lemma apply_slices_ok:
  assumes "\<And>s c. s \<in> set ss \<Longrightarrow> length (array_vec c) = n \<Longrightarrow> slice_length c = L
      \<Longrightarrow> apply_slice grow guess vs offs is cs s c = Inr (c\<lparr>array_vec := (array_vec c)[s := Some (f s)]\<rparr>)"
    and "distinct ss" "length (array_vec c) = n" "slice_length c = L"
  shows "\<exists>c'. apply_slices grow guess vs offs is cs ss c = Inr c' \<and> length (array_vec c') = n \<and> slice_length c' = L
    \<and> (\<forall>s < n. array_vec c' ! s = (if s \<in> set ss then Some (f s) else array_vec c ! s))"
  using assms
proof (induction ss arbitrary: c)
  case (Cons s ss)
  let ?c = "c\<lparr>array_vec := (array_vec c)[s := Some (f s)]\<rparr>"
  obtain c' where c': "apply_slices grow guess vs offs is cs ss ?c = Inr c'" "length (array_vec c') = n" "slice_length c' = L"
    "\<forall>t < n. array_vec c' ! t = (if t \<in> set ss then Some (f t) else array_vec ?c ! t)"
    using Cons.IH [of ?c] Cons.prems by auto
  moreover have "array_vec c' ! t = (if t \<in> set (s # ss) then Some (f t) else array_vec c ! t)" if "t < n" for t
    using c'(4) that Cons.prems(3) by (auto simp: nth_list_update)
  ultimately show ?case using Cons.prems by auto
qed auto

definition sched_ok :: "(nat list \<Rightarrow> nat list) \<Rightarrow> bool" where
  "sched_ok sched \<longleftrightarrow> (\<forall>xs. mset (sched xs) = mset xs)"

lemma sched_okD: "sched_ok sched \<Longrightarrow> distinct xs \<Longrightarrow> set (sched xs) = set xs \<and> distinct (sched xs)"
  unfolding sched_ok_def by (metis mset_eq_imp_distinct_iff mset_eq_setD)

definition indices_ok :: "'a list list \<Rightarrow> u32 list \<Rightarrow> u16 list option \<Rightarrow> bool" where
  "indices_ok vs is cs \<longleftrightarrow> vs \<noteq> [] \<and> length (concat vs) < 2 ^ 32 \<and> length is < 2 ^ 31
     \<and> (case cs of None \<Rightarrow> \<forall>i \<in> set is. unat i < length (concat vs) | Some cs \<Rightarrow> list_all2 (chunk_has vs) is cs)"

lemma number_slice_ok:
  assumes "indices_ok vs is cs"
  shows "number_slice vs (map int (starts 0 vs)) (take L (drop k is)) (map_option (\<lambda>cs. take L (drop k cs)) cs)
    = Inr (Int64Array (map (\<lambda>i. ucast (concat vs ! unat i)) (take L (drop k is))))"
proof (cases cs)
  case None
  then have "\<forall>i \<in> set (take L (drop k is)). unat i < length (concat vs)"
    using assms by (auto simp: indices_ok_def dest!: in_set_takeD in_set_dropD)
  then show ?thesis using None gather_ok [of "take L (drop k is)" vs] by (simp add: number_slice_def)
next
  case (Some cs')
  then have "list_all2 (chunk_has vs) (take L (drop k is)) (take L (drop k cs'))"
    using assms by (simp add: indices_ok_def list_all2_takeI list_all2_dropI)
  then show ?thesis using Some gather2_ok [of vs "take L (drop k is)" "take L (drop k cs')"] by (simp add: number_slice_def)
qed

lemma starts_units [simp]: "starts a (map (map (\<lambda>_. ())) vs) = starts a vs"
  by (induction vs arbitrary: a) auto

lemma concat_map_map: "concat (map (map f) xs) = map f (concat xs)"
  by (induction xs) auto

lemma apply_indices_int64:
  assumes "sched_ok sched" "indices_ok vs is cs" "0 < slice_length c" "slice_length c < 2 ^ 31"
  shows "\<exists>c' chunks. apply_indices grow guess sched (Int64Values vs) is cs c = Inr c' \<and> ctx_out c' = map (Some \<circ> Int64Array) chunks
    \<and> concat chunks = map (\<lambda>i. concat vs ! unat i) is"
proof -
  let ?L = "slice_length c" and ?n = "num_slices (slice_length c) (length is)" and ?offs = "map int (starts 0 vs)"
  let ?g = "\<lambda>s. map (\<lambda>i. concat vs ! unat i) (take ?L (drop (s * ?L) is))"
  let ?c = "(clear_data c)\<lparr>array_vec := replicate ?n None\<rparr>"
  have ind: "vs \<noteq> []" "length (concat vs) < 2 ^ 32" "length is < 2 ^ 31" using assms(2) by (auto simp: indices_ok_def)
  have "chunk_offsets (row_counts (Int64Values vs)) = Inr ?offs"
    using row_offsets_starts [of 0 "map (map (\<lambda>_. ())) vs"] ind by (simp add: chunk_offsets_def concat_map_map)
  moreover have "apply_slice grow guess (Int64Values vs) ?offs is cs s c1 = Inr (c1\<lparr>array_vec := (array_vec c1)[s := Some (Int64Array (?g s))]\<rparr>)"
    if s: "s < ?n" "length (array_vec c1) = ?n" "slice_length c1 = ?L" for s c1
  proof -
    have l: "length cs' = length is" if "cs = Some cs'" for cs' using that assms(2) by (auto simp: indices_ok_def list_all2_lengthD)
    have "slice_of ?L (length is) s is = Inr (take ?L (drop (s * ?L) is))" by (rule slice_of_ok [OF assms(3,4) ind(3) refl s(1)])
    moreover have "(case cs of None \<Rightarrow> Inr None | Some cs \<Rightarrow> and_then (slice_of ?L (length is) s cs) (\<lambda>cs'. Inr (Some cs')))
        = Inr (map_option (\<lambda>cs. take ?L (drop (s * ?L) cs)) cs)"
      using slice_of_ok [OF assms(3,4) ind(3) l s(1)] by (cases cs) auto
    moreover have "take ?L (drop (s * ?L) is) = [] \<Longrightarrow> empty_array (Int64Values vs) = Inr (Int64Array (?g s))" by simp
    ultimately show ?thesis using number_slice_ok [OF assms(2), of ?L "s * ?L"] s by (simp add: apply_slice_def Let_def)
  qed
  ultimately obtain c' where c': "apply_indices grow guess sched (Int64Values vs) is cs c = Inr (c'\<lparr>ctx_out := array_vec c'\<rparr>)"
    "length (array_vec c') = ?n" "\<forall>s < ?n. array_vec c' ! s = Some (Int64Array (?g s))"
    using apply_slices_ok [of "sched [0..<?n]" ?n ?L grow guess "Int64Values vs" ?offs "is" cs "\<lambda>s. Int64Array (?g s)" ?c]
      sched_okD [OF assms(1), of "[0..<?n]"] by (auto simp: apply_indices_def clear_data_def Let_def)
  have "array_vec c' = map (Some \<circ> Int64Array) (map ?g [0..<?n])" using c'(2,3) by (intro nth_equalityI) auto
  moreover have "concat (map ?g [0..<?n]) = map (\<lambda>i. concat vs ! unat i) (concat (map (\<lambda>s. take ?L (drop (s * ?L) is)) [0..<?n]))"
    by (simp only: map_concat list.map_comp comp_def)
  ultimately show ?thesis using c'(1) concat_slices [OF assms(3), of "is"]
    by (intro exI [of _ "c'\<lparr>ctx_out := array_vec c'\<rparr>"] exI [of _ "map ?g [0..<?n]"]) simp
qed



lemma int64_chunks_map: "int64_chunks (map (Some \<circ> Int64Array) chunks) = Inr chunks"
  by (induction chunks) auto

lemma materialize_task_ok:
  assumes "sched_ok sched" "materialized_cols lt ! i = None" "i < length (materialized_cols lt)" "lt_indices lt = Some is"
    "indices_ok (tb_column db (lt_table lt) i) is (lt_index_chunks lt)"
  shows "\<exists>col lt'. MaterializeColumnTask db grow guess sched i lt = Inr (col, lt') \<and> concat col = map (\<lambda>k. concat (tb_column db (lt_table lt) i) ! unat k) is"
proof -
  obtain c' chunks where "apply_indices grow guess sched (Int64Values (tb_column db (lt_table lt) i)) is (lt_index_chunks lt) Context_new = Inr c'"
    "ctx_out c' = map (Some \<circ> Int64Array) chunks" "concat chunks = map (\<lambda>k. concat (tb_column db (lt_table lt) i) ! unat k) is"
    using apply_indices_int64 [OF assms(1,5), of Context_new grow guess] by (auto simp: Context_new_def)
  then show ?thesis using assms(2-4) by (simp add: MaterializeColumnTask_def int64_chunks_map)
qed

section \<open>Strings and the room for their offsets\<close>

definition string_chunk_ok :: "string_chunk \<Rightarrow> bool" where
  "string_chunk_ok c \<longleftrightarrow> raw_offsets c \<noteq> [] \<and> sorted (raw_offsets c) \<and> (\<forall>x \<in> set (raw_offsets c). 0 \<le> x \<and> x \<le> int (length (raw_data c)))
     \<and> length (raw_data c) < 2 ^ 31"

definition chunk_strings :: "string_chunk \<Rightarrow> u8 list list" where
  "chunk_strings c = map (\<lambda>k. take (nat (raw_offsets c ! Suc k - raw_offsets c ! k)) (drop (nat (raw_offsets c ! k)) (raw_data c)))
     [0..<length (raw_offsets c) - 1]"

text \<open>The offsets an array of strings gets: the ends of its first strings.\<close>

fun offset_bytes :: "int \<Rightarrow> u8 list list \<Rightarrow> u8 list" where
  "offset_bytes off [] = []"
| "offset_bytes off (x # xs) = le32 (word_of_int off) @ offset_bytes (off + int (length x)) xs"

lemma length_le32 [simp]: "length (le32 w) = 4" by (simp add: le32_def)

lemma uint_of_int_small: "0 \<le> x \<Longrightarrow> x < 2 ^ 32 \<Longrightarrow> uint (word_of_int x :: u32) = x"
  by (simp only: uint_word_of_int_eq) (simp add: take_bit_int_eq_self)

lemma unat_of_nat_small: "n < 2 ^ 32 \<Longrightarrow> unat (word_of_int (int n) :: u32) = n"
  using uint_of_int_small [of "int n"] by (simp add: unat_eq_nat_uint)

lemma chunk_string_at:
  assumes "string_chunk_ok c" "k < length (chunk_strings c)"
  shows "\<exists>a b. fetch (raw_offsets c) k = Inr a \<and> fetch (raw_offsets c) (Suc k) = Inr b \<and> 0 \<le> a \<and> a \<le> b \<and> b < 2 ^ 31
    \<and> load a (b - a) (raw_data c) = Inr (chunk_strings c ! k) \<and> int (length (chunk_strings c ! k)) = b - a"
proof -
  let ?o = "raw_offsets c"
  have k: "Suc k < length ?o" using assms(2) by (simp add: chunk_strings_def)
  then have "?o ! k \<in> set ?o" "?o ! Suc k \<in> set ?o" by simp_all
  then have r: "0 \<le> ?o ! k" "?o ! Suc k \<le> int (length (raw_data c))" using assms(1) by (auto simp: string_chunk_ok_def)
  have m: "?o ! k \<le> ?o ! Suc k" using assms(1) k by (simp add: string_chunk_ok_def sorted_iff_nth_mono)
  have "int (length (raw_data c)) < 2 ^ 31" using assms(1) by (simp add: string_chunk_ok_def)
  then have "?o ! Suc k < 2 ^ 31" using r(2) by linarith
  moreover have "load (?o ! k) (?o ! Suc k - ?o ! k) (raw_data c) = Inr (chunk_strings c ! k)"
  proof -
    have "[0..<length ?o - 1] ! k = k" using k by simp
    then show ?thesis using r m k by (simp add: load_def chunk_strings_def)
  qed
  moreover have "int (length (chunk_strings c ! k)) = ?o ! Suc k - ?o ! k" using load_length calculation(2) by blast
  ultimately show ?thesis using r m k by (intro exI [of _ "?o ! k"] exI [of _ "?o ! Suc k"]) simp
qed

lemma written_Reserve [simp]: "written (Reserve grow n b) = written b"
  by (simp add: Reserve_def Let_def)

lemma append_string_ok:
  fixes grow vs
  defines "rows \<equiv> map chunk_strings vs"
  assumes vs: "\<forall>c \<in> set vs. string_chunk_ok c" "length (concat rows) < 2 ^ 32" and i: "unat i < length (concat rows)"
    and g: "\<And>c n. n \<le> grow c n" and sp: "space = int (cap db) - int (length (written db))"
    and off: "0 \<le> offset" "offset + int (length (concat rows ! unat i)) < 2 ^ 31" and room: "length (written ob) + 4 \<le> cap ob"
  shows "\<exists>space' db'. append_string grow vs (map int (starts 0 rows)) i (offset, space, ob, db)
      = Inr (offset + int (length (concat rows ! unat i)), space', ob\<lparr>written := written ob @ le32 (word_of_int offset)\<rparr>, db')
    \<and> written db' = written db @ concat rows ! unat i \<and> space' = int (cap db') - int (length (written db'))"
proof -
  obtain j where j: "j < length vs" "upper_bound (map int (starts 0 rows)) (uint i) = Suc j"
    "starts 0 rows ! j \<le> unat i" "unat i < starts 0 rows ! j + length (rows ! j)"
    using upper_bound_starts [of 0 "unat i" rows] i by (auto simp: rows_def)
  let ?c = "vs ! j" and ?k = "unat i - starts 0 rows ! j"
  have rj: "rows ! j = chunk_strings ?c" "j < length rows" using j(1) by (simp_all add: rows_def)
  have k: "?k < length (chunk_strings ?c)" using j(3,4) unfolding rj(1) by linarith
  have str: "concat rows ! unat i = chunk_strings ?c ! ?k" using concat_at [OF rj(2) j(3,4)] rj(1) by simp
  have "starts 0 rows ! j \<le> unat i" "unat i < 2 ^ 32 - 1" using j(3) i vs(2) by simp_all
  then have kb: "Suc ?k < 2 ^ 32" by simp
  have u: "uint i - int (starts 0 rows ! j) = int ?k" using j(3) by (simp only: uint_nat of_nat_diff)
  have ix: "unat (word_of_int (int ?k) :: u32) = ?k" "unat ((word_of_int (int ?k) :: u32) + 1) = Suc ?k"
  proof -
    show "unat (word_of_int (int ?k) :: u32) = ?k" using kb by (intro unat_of_nat_small) simp
    have "(word_of_int (int ?k) :: u32) + 1 = word_of_int (int (Suc ?k))" by simp
    then show "unat ((word_of_int (int ?k) :: u32) + 1) = Suc ?k" using unat_of_nat_small [OF kb] by (simp only:)
  qed
  have "i - word_of_nat (starts 0 rows ! j) = word_of_int (int ?k)" by (simp flip: u)
  then have iy: "unat (i - word_of_nat (starts 0 rows ! j)) = ?k" "unat (i - word_of_nat (starts 0 rows ! j) + 1) = Suc ?k" using ix by (simp_all only:)
  obtain a b where ab: "fetch (raw_offsets ?c) ?k = Inr a" "fetch (raw_offsets ?c) (Suc ?k) = Inr b" "0 \<le> a" "a \<le> b" "b < 2 ^ 31"
    "load a (b - a) (raw_data ?c) = Inr (chunk_strings ?c ! ?k)" "int (length (chunk_strings ?c ! ?k)) = b - a"
    using chunk_string_at [OF _ k] vs(1) j(1) by (metis nth_mem)
  let ?sz = "(word_of_int b :: u32) - word_of_int a"
  have sz: "?sz = word_of_int (b - a)" by simp
  have w: "uint (word_of_int a :: u32) = a" "uint ?sz = b - a"
    using uint_of_int_small [of a] uint_of_int_small [of "b - a"] ab(3-5) unfolding sz by simp_all
  have n: "unat ?sz = length (chunk_strings ?c ! ?k)" by (simp only: unat_eq_nat_uint w(2) ab(7) [symmetric] nat_int)
  have o: "sint ((word_of_int offset :: u32) + ?sz) = offset + (b - a)"
    using wrap32_small [of "offset + (b - a)"] off ab(4,7) str by (simp add: wrap32_def)
  let ?db = "if b - a > space then Reserve grow (length (chunk_strings ?c ! ?k)) db else db"
  let ?sp = "int (cap ?db) - int (length (written ?db))"
  have wd: "written ?db = written db" by simp
  have cap: "length (written db) + length (chunk_strings ?c ! ?k) \<le> cap ?db" using ab(7) sp g by (auto simp: Reserve_def Let_def not_less)
  have "append_string grow vs (map int (starts 0 rows)) i (offset, space, ob, db)
      = Inr (offset + (b - a), ?sp - (b - a), ob\<lparr>written := written ob @ le32 (word_of_int offset)\<rparr>, ?db\<lparr>written := written ?db @ chunk_strings ?c ! ?k\<rparr>)"
    using j(1,2) rj(2) room ab(1,2,6) cap by (cases "b - a > space") (simp_all add: append_string_def UnsafeAppend_def Let_def iy w n o sp)
  then show ?thesis using str wd ab(7) by auto
qed

lemma append_strings_ok:
  fixes vs :: "string_chunk list"
  defines "rows \<equiv> map chunk_strings vs"
  assumes vs: "\<forall>c \<in> set vs. string_chunk_ok c" "length (concat rows) < 2 ^ 32" and g: "\<And>c n. n \<le> grow c n"
  shows "\<forall>i \<in> set is. unat i < length (concat rows) \<Longrightarrow> space = int (cap db) - int (length (written db)) \<Longrightarrow> 0 \<le> offset
    \<Longrightarrow> offset + int (length (concat (map (\<lambda>i. concat rows ! unat i) is))) < 2 ^ 31 \<Longrightarrow> length (written ob) + 4 * length is \<le> cap ob
    \<Longrightarrow> \<exists>space' db'. append_strings grow vs (map int (starts 0 rows)) is (offset, space, ob, db)
      = Inr (offset + int (length (concat (map (\<lambda>i. concat rows ! unat i) is))), space',
          ob\<lparr>written := written ob @ offset_bytes offset (map (\<lambda>i. concat rows ! unat i) is)\<rparr>, db')
    \<and> written db' = written db @ concat (map (\<lambda>i. concat rows ! unat i) is)"
proof (induction "is" arbitrary: offset space ob db)
  case (Cons i "is")
  let ?x = "concat rows ! unat i" and ?ob = "ob\<lparr>written := written ob @ le32 (word_of_int offset)\<rparr>"
  have "offset + int (length ?x) < 2 ^ 31" "length (written ob) + 4 \<le> cap ob" using Cons.prems(4,5) by simp_all
  then obtain space1 db1 where 1: "append_string grow vs (map int (starts 0 rows)) i (offset, space, ob, db) = Inr (offset + int (length ?x), space1, ?ob, db1)"
    "written db1 = written db @ ?x" "space1 = int (cap db1) - int (length (written db1))"
    using append_string_ok [OF vs [unfolded rows_def], where grow = grow] g Cons.prems(1-3) unfolding rows_def by (metis list.set_intros(1))
  have "\<exists>space' db'. append_strings grow vs (map int (starts 0 rows)) is (offset + int (length ?x), space1, ?ob, db1)
      = Inr (offset + int (length ?x) + int (length (concat (map (\<lambda>i. concat rows ! unat i) is))), space',
          ?ob\<lparr>written := written ?ob @ offset_bytes (offset + int (length ?x)) (map (\<lambda>i. concat rows ! unat i) is)\<rparr>, db')
    \<and> written db' = written db1 @ concat (map (\<lambda>i. concat rows ! unat i) is)"
    using Cons.prems 1(3) by (intro Cons.IH) (simp_all add: algebra_simps)
  then show ?case using 1(1,2) by (auto simp: algebra_simps)
qed simp

text \<open>The builder of the offsets has room for as many as there are strings, but one more is written.\<close>

lemma gather_strings_room:
  fixes vs :: "string_chunk list"
  defines "rows \<equiv> map chunk_strings vs"
  assumes vs: "\<forall>c \<in> set vs. string_chunk_ok c" "length (concat rows) < 2 ^ 32" and g: "\<And>c n. n \<le> grow c n"
    and i: "is \<noteq> []" "\<forall>i \<in> set is. unat i < length (concat rows)" "length (concat (map (\<lambda>i. concat rows ! unat i) is)) < 2 ^ 31"
  shows "gather_strings grow guess vs (map int (starts 0 rows)) is
    = (let strs = map (\<lambda>i. concat rows ! unat i) is in
       if 4 * length is + 4 \<le> grow 0 (4 * length is) then Inr (offset_bytes 0 strs @ le32 (word_of_int (int (length (concat strs)))), concat strs)
       else Inl OutOfBounds)"
proof -
  let ?db = "Reserve grow guess new_builder" and ?ob = "Reserve grow (4 * length is) new_builder" and ?strs = "map (\<lambda>i. concat rows ! unat i) is"
  have b: "written ?db = []" "written ?ob = []" "cap ?ob = grow 0 (4 * length is)" using i(1) by (simp_all add: Reserve_def new_builder_def)
  have len: "length (offset_bytes off xs) = 4 * length xs" for off xs by (induction xs arbitrary: off) auto
  have "int (length (concat ?strs)) < 2 ^ 31" using i(3) by simp
  then have "\<exists>space' db'. append_strings grow vs (map int (starts 0 rows)) is (0, int (cap ?db), ?ob, ?db)
      = Inr (0 + int (length (concat ?strs)), space', ?ob\<lparr>written := written ?ob @ offset_bytes 0 ?strs\<rparr>, db')
    \<and> written db' = written ?db @ concat ?strs"
    unfolding rows_def using b i(2) g by (intro append_strings_ok [OF vs [unfolded rows_def] g]) (simp_all add: rows_def)
  then show ?thesis using b len by (auto simp: gather_strings_def Let_def UnsafeAppend_def)
qed

lemma concat_part_le: "length (concat (map f (take m (drop k xs)))) \<le> length (concat (map f xs))"
proof -
  have "length (concat (map f (take m ys))) \<le> length (concat (map f ys))" for ys
    by (induction ys arbitrary: m) (auto simp: take_Cons split: nat.splits)
  moreover have "length (concat (map f (drop k xs))) \<le> length (concat (map f xs))"
    by (induction xs arbitrary: k) (auto simp: drop_Cons split: nat.splits intro: le_SucI trans_le_add2)
  ultimately show ?thesis using order_trans by blast
qed

text \<open>C38: Materialising strings: a full slice of 30000 row numbers reserves room for 30000 offsets and writes 30001.
  With a pool that gives no spare bytes for this request, as Arrow's, which rounds sizes up to multiples
  of 64, the last offset is written behind the buffer, in whatever order the slices run.
\<close>

theorem apply_strings_overflow:
  fixes vs :: "string_chunk list"
  defines "rows \<equiv> map chunk_strings vs"
  assumes vs: "vs \<noteq> []" "\<forall>c \<in> set vs. string_chunk_ok c" "length (concat rows) < 2 ^ 32" and g: "\<And>c n. n \<le> grow c n" "grow 0 120000 = 120000"
    and i: "30000 \<le> length is" "\<forall>i \<in> set is. unat i < length (concat rows)" "length is < 2 ^ 31"
      "length (concat (map (\<lambda>i. concat rows ! unat i) is)) < 2 ^ 31"
    and s: "sched_ok sched"
  shows "apply_indices grow guess sched (StringValues vs) is None Context_new = Inl OutOfBounds"
proof -
  let ?n = "num_slices 30000 (length is)" and ?offs = "map int (starts 0 rows)"
  have cnt: "starts a (map (\<lambda>c. replicate (length (raw_offsets c) - 1) ()) us) = starts a (map chunk_strings us)" for a us
    by (induction us arbitrary: a) (auto simp: chunk_strings_def)
  have "length (concat (map (\<lambda>c. replicate (length (raw_offsets c) - 1) ()) us)) = length (concat (map chunk_strings us))" for us
    by (induction us) (auto simp: chunk_strings_def)
  then have o: "chunk_offsets (row_counts (StringValues vs)) = Inr ?offs"
    using row_offsets_starts [of 0 "row_counts (StringValues vs)"] vs by (simp add: chunk_offsets_def cnt [unfolded One_nat_def] rows_def)
  have one: "(\<exists>out. apply_slice grow guess (StringValues vs) ?offs is None k c = Inr (c\<lparr>array_vec := (array_vec c)[k := Some out]\<rparr>) \<and> k \<noteq> 0)
      \<or> apply_slice grow guess (StringValues vs) ?offs is None k c = Inl OutOfBounds"
    if k: "k < ?n" "length (array_vec c) = ?n" "slice_length c = 30000" for k c
  proof -
    let ?is = "take 30000 (drop (k * 30000) is)"
    have sl: "slice_of 30000 (length is) k is = Inr ?is" using slice_of_ok [of 30000 "length is" "is" k] i(3) k(1) by simp
    have r: "\<forall>i \<in> set ?is. unat i < length (concat rows)" using i(2) by (auto dest!: in_set_takeD in_set_dropD)
    have "length (concat (map (\<lambda>i. concat rows ! unat i) ?is)) \<le> length (concat (map (\<lambda>i. concat rows ! unat i) is))" by (rule concat_part_le)
    then have l: "length (concat (map (\<lambda>i. concat rows ! unat i) ?is)) < 2 ^ 31" using i(4) by linarith
    show ?thesis
    proof (cases "?is = []")
      case True
      then have "k \<noteq> 0" using i(1) by auto
      then show ?thesis using True sl k by (auto simp: apply_slice_def)
    next
      case False
      have "k = 0 \<Longrightarrow> length ?is = 30000" using i(1) by simp
      then show ?thesis using gather_strings_room [OF vs(2) vs(3) [unfolded rows_def] g(1) False, where guess = "guess k"] r l g(2) sl k False
        by (cases "k = 0") (auto simp: apply_slice_def rows_def Let_def)
    qed
  qed
  have "apply_slices grow guess (StringValues vs) ?offs is None ss c = Inl OutOfBounds"
    if "set ss \<subseteq> {..<?n}" "0 \<in> set ss" "length (array_vec c) = ?n" "slice_length c = 30000" for ss c
    using that
  proof (induction ss arbitrary: c)
    case (Cons k ss)
    consider out where "apply_slice grow guess (StringValues vs) ?offs is None k c = Inr (c\<lparr>array_vec := (array_vec c)[k := Some out]\<rparr>)" "k \<noteq> 0"
      | "apply_slice grow guess (StringValues vs) ?offs is None k c = Inl OutOfBounds" using one [of k c] Cons.prems by auto
    then show ?case using Cons.prems Cons.IH by cases auto
  qed simp
  moreover have "set (sched [0..<?n]) = {..<?n}" using sched_okD [OF s distinct_upt, of 0 ?n] by (simp only: set_upt atLeast0LessThan)
  moreover have "0 < ?n" by (simp add: num_slices_def)
  ultimately have "apply_slices grow guess (StringValues vs) ?offs is None (sched [0..<?n]) (Context_new\<lparr>array_vec := replicate ?n None\<rparr>) = Inl OutOfBounds"
    by (simp add: Context_new_def del: replicate.simps)
  then show ?thesis using o by (simp add: apply_indices_def Context_new_def clear_data_def Let_def)
qed

theorem apply_strings_overflow_witness:
  "apply_indices (\<lambda>c n. 64 * ((n + 63) div 64)) (\<lambda>s. 0) rev (StringValues [\<lparr>raw_offsets = [0, 1], raw_data = [65]\<rparr>])
     (replicate 30000 0) None Context_new = Inl OutOfBounds"
proof (rule apply_strings_overflow)
  show "n \<le> 64 * ((n + 63) div 64)" for c n :: nat by presburger
  have "map (\<lambda>i. concat (map chunk_strings [\<lparr>raw_offsets = [0, 1], raw_data = [65]\<rparr>]) ! unat i) (replicate 30000 (0 :: u32)) = replicate 30000 [65]"
    by (simp only: map_replicate) (simp add: chunk_strings_def)
  then show "length (concat (map (\<lambda>i. concat (map chunk_strings [\<lparr>raw_offsets = [0, 1], raw_data = [65]\<rparr>]) ! unat i) (replicate 30000 (0 :: u32)))) < 2 ^ 31"
    by (simp only: length_concat map_replicate sum_list_replicate) simp
qed (simp_all add: string_chunk_ok_def chunk_strings_def sched_ok_def)

end
