(* ===== verification/Lip.thy ===== *)
theory Lip
  imports BloomFilter ApplyIndices
begin

text \<open>
  Lookahead information passing (\<open>src/src/operators/join/lip.cc\<close>): a Bloom filter is built for every
  dimension table of a star join, and the rows of the fact table are probed against all of them, batch by
  batch, with the filters sorted by their hit rates in between. The result is a view of the fact table with
  the rows that passed. First the operator, then its parts: one chunk, a batch, all batches.
\<close>

section \<open>State\<close>

record LookupFilter =
  bloom_filter :: BloomFilter
  hash_table :: "u64 list option"

definition SortByBloomFilter :: "rounding \<Rightarrow> LookupFilter \<Rightarrow> LookupFilter \<Rightarrow> bool" where
  "SortByBloomFilter rnd l r = compare rnd (bloom_filter l) (bloom_filter r)"

text \<open>\<open>fact_indices_\<close>, \<open>lip_index_chunks_\<close> and the raw pointers of the class are never read; an empty datum is \<open>None\<close>.\<close>

record LIP =
  prev_result :: OperatorResult
  output_result :: OperatorResult
  fact_table :: "LazyTable option"
  dim_tables :: "LazyTable list"
  fact_fk_col_names :: "string list"
  dim_pk_col_names :: "string list"
  dim_pk_cols :: "string \<rightharpoonup> chunked"
  fact_fk_cols :: "string \<rightharpoonup> chunked"
  fact_fk_cols2 :: "string \<rightharpoonup> chunked"
  out_fk_cols :: "string \<rightharpoonup> u64 list list"
  dim_filters :: "LookupFilter option list"
  lip_indices :: "u32 list list"
  chunk_row_offsets :: "int list"
  batch_size :: nat

definition LIP_new :: "OperatorResult \<Rightarrow> LIP" where
  "LIP_new out = \<lparr>prev_result = [], output_result = out, fact_table = None, dim_tables = [], fact_fk_col_names = [], dim_pk_col_names = [],
     dim_pk_cols = Map.empty, fact_fk_cols = Map.empty, fact_fk_cols2 = Map.empty, out_fk_cols = Map.empty, dim_filters = [],
     lip_indices = [], chunk_row_offsets = [], batch_size = 0\<rparr>"

text \<open>
  What is outside of the operator: the tables, rounding, \<open>rand\<close>, Arrow's \<open>GetFilterOutputSize\<close>, the
  parameters of \<open>apply_indices\<close>, \<open>std::sort\<close>, the number of cores, and the orders in which the scheduler
  runs tasks that do not depend on each other: the builds of the filters, and the chunks of a batch for one
  filter.
\<close>

datatype build_step = LoadColumn nat | BuildFilter nat

record lip_env =
  env_db :: db_tables
  env_round :: rounding
  env_rand :: "nat \<Rightarrow> nat \<Rightarrow> int"
  env_filter_size :: "bool list \<Rightarrow> nat"
  env_grow :: "nat \<Rightarrow> nat \<Rightarrow> nat"
  env_guess :: "nat \<Rightarrow> nat"
  env_slices :: "nat list \<Rightarrow> nat list"
  env_sort :: "LookupFilter list \<Rightarrow> LookupFilter list"
  env_cores :: nat
  env_builds :: "nat \<Rightarrow> build_step list"
  env_chunks :: "nat \<Rightarrow> nat \<Rightarrow> nat list \<Rightarrow> nat list"

section \<open>Collecting the tables\<close>

fun match_tables :: "JoinPredicate \<Rightarrow> LazyTable list \<Rightarrow> LIP \<Rightarrow> LIP" where
  "match_tables p [] s = s"
| "match_tables p (lt # lts) s = match_tables p lts
    (if ref_table (left_col p) = lt_table lt then s\<lparr>fact_table := Some lt\<rparr>
     else if ref_table (right_col p) = lt_table lt then s\<lparr>dim_tables := dim_tables s @ [lt]\<rparr> else s)"

definition add_predicate :: "JoinPredicate \<Rightarrow> LIP \<Rightarrow> LIP" where
  "add_predicate p s = match_tables p (prev_result s)
    (s\<lparr>fact_fk_col_names := fact_fk_col_names s @ [col_name (left_col p)], dim_pk_col_names := dim_pk_col_names s @ [col_name (right_col p)],
       dim_pk_cols := (dim_pk_cols s)(col_name (right_col p) := None)\<rparr>)"

fun add_predicates :: "JoinPredicate list \<Rightarrow> LIP \<Rightarrow> LIP" where
  "add_predicates [] s = s"
| "add_predicates (p # ps) s = add_predicates ps (add_predicate p s)"

section \<open>Materialising the foreign keys\<close>

fun materialize_fks :: "lip_env \<Rightarrow> string list \<Rightarrow> LIP \<Rightarrow> LIP res" where
  "materialize_fks env [] s = Inr s"
| "materialize_fks env (name # names) s =
    (case fact_table s of None \<Rightarrow> Inl NullDeref
     | Some ft \<Rightarrow>
       and_then (MaterializeColumnTask (env_db env) (env_grow env) (env_guess env) (env_slices env) (tb_field (env_db env) (lt_table ft) name) ft)
         (\<lambda>(col, ft). materialize_fks env names (s\<lparr>fact_table := Some ft, fact_fk_cols := (fact_fk_cols s)(name \<mapsto> col)\<rparr>)))"

definition lip_initialize :: "lip_env \<Rightarrow> LIP \<Rightarrow> LIP res" where
  "lip_initialize env s =
    (if length (fact_fk_col_names s) < length (dim_tables s) then Inl OutOfBounds
     else materialize_fks env (take (length (dim_tables s)) (fact_fk_col_names s)) s)"

section \<open>Building the filters\<close>

fun insert_key_chunks :: "chunked \<Rightarrow> BloomFilter \<Rightarrow> BloomFilter res" where
  "insert_key_chunks [] b = Inr b"
| "insert_key_chunks (c # cs) b = and_then (insert_all c b) (insert_key_chunks cs)"

fun insert_selected :: "u64 list \<Rightarrow> bool list \<Rightarrow> BloomFilter \<Rightarrow> BloomFilter res" where
  "insert_selected [] fs b = Inr b"
| "insert_selected (v # vs) [] b = Inl OutOfBounds"
| "insert_selected (v # vs) (f # fs) b = and_then (if f then bloom_insert v b else Inr b) (insert_selected vs fs)"

fun insert_selected_chunks :: "chunked \<Rightarrow> bool list list \<Rightarrow> BloomFilter \<Rightarrow> BloomFilter res" where
  "insert_selected_chunks [] fs b = Inr b"
| "insert_selected_chunks (c # cs) [] b = Inl OutOfBounds"
| "insert_selected_chunks (c # cs) (f # fs) b = and_then (insert_selected c f b) (insert_selected_chunks cs fs)"

fun filtered_length :: "(bool list \<Rightarrow> nat) \<Rightarrow> nat \<Rightarrow> bool list list \<Rightarrow> u32 \<Rightarrow> u32 res" where
  "filtered_length sz 0 fs n = Inr n"
| "filtered_length sz (Suc k) [] n = Inl OutOfBounds"
| "filtered_length sz (Suc k) (f # fs) n = filtered_length sz k fs (n + of_nat (sz f))"

definition build_bloom :: "lip_env \<Rightarrow> nat \<Rightarrow> chunked \<Rightarrow> bool list list option \<Rightarrow> BloomFilter res" where
  "build_bloom env i pk flt =
    (case flt of
       None \<Rightarrow> and_then (BloomFilter_new (env_round env) (env_rand env i) (wrap32 (int (length (concat pk))))) (insert_key_chunks pk)
     | Some fs \<Rightarrow>
         and_then (filtered_length (env_filter_size env) (length pk) fs 0) (\<lambda>n.
         and_then (BloomFilter_new (env_round env) (env_rand env i) (sint n)) (insert_selected_chunks pk fs)))"

fun build_run :: "lip_env \<Rightarrow> build_step \<Rightarrow> LIP \<Rightarrow> LIP res" where
  "build_run env (LoadColumn i) s =
    and_then (fetch (dim_pk_col_names s) i) (\<lambda>name.
    and_then (fetch (dim_tables s) i) (\<lambda>d.
      Inr (s\<lparr>dim_pk_cols := (dim_pk_cols s)(name \<mapsto> tb_column (env_db env) (lt_table d) (tb_field (env_db env) (lt_table d) name))\<rparr>)))"
| "build_run env (BuildFilter i) s =
    and_then (fetch (dim_pk_col_names s) i) (\<lambda>name.
    and_then (fetch (dim_tables s) i) (\<lambda>d.
      case dim_pk_cols s name of None \<Rightarrow> Inl NullDeref
      | Some pk \<Rightarrow>
        and_then (build_bloom env i pk (lt_filter d)) (\<lambda>b.
        and_then (fetch (fact_fk_col_names s) i) (\<lambda>fk.
        and_then (fetch (dim_filters s) i) (\<lambda>_.
          Inr (s\<lparr>dim_filters := (dim_filters s)[i := Some \<lparr>bloom_filter = set_fact_fk_name fk (set_memory 1 b), hash_table = lt_hash_table d\<rparr>]\<rparr>))))))"

fun build_runs :: "lip_env \<Rightarrow> build_step list \<Rightarrow> LIP \<Rightarrow> LIP res" where
  "build_runs env [] s = Inr s"
| "build_runs env (st # sts) s = and_then (build_run env st s) (build_runs env sts)"

definition build_filters :: "lip_env \<Rightarrow> LIP \<Rightarrow> LIP res" where
  "build_filters env s = build_runs env (env_builds env (length (dim_tables s))) (s\<lparr>dim_filters := replicate (length (dim_tables s)) None\<rparr>)"

section \<open>Probing a chunk\<close>

definition lookup_pass :: "LookupFilter \<Rightarrow> u64 \<Rightarrow> bool res" where
  "lookup_pass lf key =
    and_then (bloom_probe key (bloom_filter lf)) (\<lambda>hit.
      Inr (hit \<and> (case hash_table lf of None \<Rightarrow> True | Some ks \<Rightarrow> key \<in> set ks)))"

text \<open>The first filter looks at all rows of the chunk.\<close>

fun probe_rows :: "LookupFilter \<Rightarrow> u32 \<Rightarrow> nat \<Rightarrow> u64 list \<Rightarrow> u32 list res" where
  "probe_rows lf off row [] = Inr []"
| "probe_rows lf off row (key # keys) =
    and_then (lookup_pass lf key) (\<lambda>hit.
    and_then (probe_rows lf off (Suc row) keys) (\<lambda>is. Inr (if hit then (of_nat row + off) # is else is)))"

text \<open>The others look at the rows that are left, and swap those that fail to the end.\<close>

function probe_indices :: "LookupFilter \<Rightarrow> u32 \<Rightarrow> u64 list \<Rightarrow> nat \<Rightarrow> int \<Rightarrow> u32 list \<Rightarrow> (int \<times> u32 list) res" where
  "probe_indices lf off keys k len is =
    (if int k \<le> len then
       and_then (fetch is k) (\<lambda>i.
       and_then (fetch keys (unat (i - off))) (\<lambda>key.
       and_then (lookup_pass lf key) (\<lambda>hit.
         if hit then probe_indices lf off keys (Suc k) len is
         else and_then (fetch is (nat len)) (\<lambda>j. probe_indices lf off keys k (len - 1) (is[k := j, nat len := i])))))
     else Inr (len, is))"
  by pat_completeness auto
termination by (relation "measure (\<lambda>(lf, off, keys, k, len, is). nat (len + 1 - int k))") auto

declare probe_indices.simps [simp del]

definition add_counts :: "int \<Rightarrow> int \<Rightarrow> LookupFilter \<Rightarrow> LookupFilter" where
  "add_counts probes hits lf = lf\<lparr>bloom_filter := (bloom_filter lf)
     \<lparr>probe_count := wrap32 (probe_count (bloom_filter lf) + probes), hit_count := wrap32 (hit_count (bloom_filter lf) + hits)\<rparr>\<rparr>"

definition probe_chunk :: "nat \<Rightarrow> nat \<Rightarrow> LIP \<Rightarrow> LIP res" where
  "probe_chunk filter_j chunk_i s =
    and_then (fetch (dim_filters s) filter_j) (\<lambda>f. case f of None \<Rightarrow> Inl NullDeref | Some lf \<Rightarrow>
    (case fact_fk_cols2 s (get_fact_fk_name (bloom_filter lf)) of None \<Rightarrow> Inl NullDeref | Some col \<Rightarrow>
    and_then (fetch (chunk_row_offsets s) chunk_i) (\<lambda>offset.
    let offset = (word_of_int offset :: u32) in
    and_then (fetch col chunk_i) (\<lambda>keys.
    and_then (fetch (lip_indices s) chunk_i) (\<lambda>left.
    if filter_j = 0 then
      and_then (probe_rows lf offset 0 keys) (\<lambda>is.
        Inr (s\<lparr>lip_indices := (lip_indices s)[chunk_i := is],
               dim_filters := (dim_filters s)[filter_j := Some (add_counts (int (length keys)) (int (length is)) lf)]\<rparr>))
    else
      and_then (case out_fk_cols s (get_fact_fk_name (bloom_filter lf)) of None \<Rightarrow> Inl OutOfBounds | Some cs \<Rightarrow> fetch cs chunk_i) (\<lambda>_.
      and_then (probe_indices lf offset keys 0 (int (length left) - 1) left) (\<lambda>(len, is).
        Inr (s\<lparr>lip_indices := (lip_indices s)[chunk_i := take (nat (len + 1)) is],
               dim_filters := (dim_filters s)[filter_j := Some (add_counts (int (length left)) (len + 1) lf)]\<rparr>))))))))"

section \<open>Batches\<close>

fun probe_range :: "nat \<Rightarrow> nat list \<Rightarrow> LIP \<Rightarrow> LIP res" where
  "probe_range filter_j [] s = Inr s"
| "probe_range filter_j (c # cs) s = and_then (probe_chunk filter_j c s) (probe_range filter_j cs)"

definition batch_chunks :: "nat \<Rightarrow> nat \<Rightarrow> nat \<Rightarrow> nat list" where
  "batch_chunks num_chunks bs batch_i =
    (let base = batch_i * bs in if int base + int bs - 1 < int num_chunks then [base..<base + bs] else [base..<num_chunks])"

fun probe_chain :: "lip_env \<Rightarrow> nat \<Rightarrow> nat list \<Rightarrow> nat list \<Rightarrow> LIP \<Rightarrow> LIP res" where
  "probe_chain env batch_i cs [] s = Inr s"
| "probe_chain env batch_i cs (j # js) s = and_then (probe_range j (env_chunks env batch_i j cs) s) (probe_chain env batch_i cs js)"

fun update_filters :: "rounding \<Rightarrow> LookupFilter option list \<Rightarrow> LookupFilter list res" where
  "update_filters rnd [] = Inr []"
| "update_filters rnd (None # fs) = Inl NullDeref"
| "update_filters rnd (Some lf # fs) =
    and_then (bloom_update rnd (bloom_filter lf)) (\<lambda>b.
    and_then (update_filters rnd fs) (\<lambda>fs. Inr (lf\<lparr>bloom_filter := b\<rparr> # fs)))"

definition update_and_sort :: "lip_env \<Rightarrow> LIP \<Rightarrow> LIP res" where
  "update_and_sort env s =
    and_then (update_filters (env_round env) (dim_filters s)) (\<lambda>fs. Inr (s\<lparr>dim_filters := map Some (env_sort env fs)\<rparr>))"

definition probe_batch :: "lip_env \<Rightarrow> nat \<Rightarrow> nat \<Rightarrow> LIP \<Rightarrow> LIP res" where
  "probe_batch env num_chunks batch_i s =
    and_then (probe_chain env batch_i (batch_chunks num_chunks (batch_size s) batch_i) [0..<length (dim_tables s)] s) (update_and_sort env)"

fun probe_batches :: "lip_env \<Rightarrow> nat \<Rightarrow> nat list \<Rightarrow> LIP \<Rightarrow> LIP res" where
  "probe_batches env num_chunks [] s = Inr s"
| "probe_batches env num_chunks (b # bs) s = and_then (probe_batch env num_chunks b s) (probe_batches env num_chunks bs)"

definition first_fk_col :: "LIP \<Rightarrow> chunked res" where
  "first_fk_col s =
    and_then (fetch (fact_fk_col_names s) 0) (\<lambda>name. case fact_fk_cols s name of None \<Rightarrow> Inl NullDeref | Some col \<Rightarrow> Inr col)"

definition probe_filters :: "lip_env \<Rightarrow> LIP \<Rightarrow> LIP res" where
  "probe_filters env s =
    and_then (first_fk_col s) (\<lambda>col.
      let num_chunks = length col; bs = (if env_cores env = 0 then num_chunks else env_cores env) in
      if bs = 0 then Inl DivByZero
      else probe_batches env num_chunks [0..<num_chunks div bs + 1] (s\<lparr>batch_size := bs\<rparr>))"

section \<open>The operator\<close>

fun copy_fks :: "string list \<Rightarrow> LIP \<Rightarrow> LIP res" where
  "copy_fks [] s = Inr s"
| "copy_fks (name # names) s =
    (case fact_fk_cols s name of None \<Rightarrow> Inl NullDeref
     | Some col \<Rightarrow> copy_fks names (s\<lparr>fact_fk_cols2 := (fact_fk_cols2 s)(name \<mapsto> col)\<rparr>))"

fun make_out_cols :: "nat \<Rightarrow> LookupFilter option list \<Rightarrow> LIP \<Rightarrow> LIP res" where
  "make_out_cols n [] s = Inr s"
| "make_out_cols n (None # fs) s = Inl NullDeref"
| "make_out_cols n (Some lf # fs) s =
    make_out_cols n fs (s\<lparr>out_fk_cols := (out_fk_cols s)(get_fact_fk_name (bloom_filter lf) \<mapsto> replicate n [])\<rparr>)"

fun fact_offsets :: "int \<Rightarrow> chunked \<Rightarrow> int list" where
  "fact_offsets off [] = []"
| "fact_offsets off (c # cs) = off # fact_offsets (off + int (length c)) cs"

definition lip_prepare :: "LIP \<Rightarrow> LIP res" where
  "lip_prepare s =
    and_then (copy_fks (fact_fk_col_names s) s) (\<lambda>s.
    and_then (first_fk_col s) (\<lambda>col.
    let n = length col in
    and_then (make_out_cols n (dim_filters s) (s\<lparr>lip_indices := replicate n []\<rparr>)) (\<lambda>s.
    if n = 0 then Inl OutOfBounds else Inr (s\<lparr>chunk_row_offsets := fact_offsets 0 col\<rparr>))))"

definition index_chunk_list :: "u32 list list \<Rightarrow> u16 list" where
  "index_chunk_list parts = concat (map (\<lambda>i. replicate (length (parts ! i)) (of_nat i)) [0..<length parts])"

definition lip_finish :: "lip_env \<Rightarrow> LIP \<Rightarrow> LIP res" where
  "lip_finish env s =
    (case fact_table s of None \<Rightarrow> Inl NullDeref
     | Some ft \<Rightarrow>
       let out = LazyTable_new (env_db env) (lt_table ft) (lt_filter ft) (Some (concat (lip_indices s))) (Some (index_chunk_list (lip_indices s)));
           result = append_result [out] (output_result s)
       in Inr (s\<lparr>output_result := fold append_lazy (dim_tables s) result\<rparr>))"

definition lip_execute :: "lip_env \<Rightarrow> OperatorResult list \<Rightarrow> JoinGraph \<Rightarrow> LIP \<Rightarrow> LIP res" where
  "lip_execute env prev graph s =
    (let s = s\<lparr>prev_result := fold append_result prev (prev_result s)\<rparr> in
     and_then (get_predicates 0 graph) (\<lambda>preds.
     and_then (lip_initialize env (add_predicates preds s)) (\<lambda>s.
     and_then (build_filters env s) (\<lambda>s.
     and_then (lip_prepare s) (\<lambda>s.
     and_then (probe_filters env s) (lip_finish env))))))"

section \<open>One filter\<close>

text \<open>
  A dimension as the filters see it: the foreign key column, the keys of the selected rows and the keys of
  its hash table. \<open>dim_pass\<close> is what a lookup answers: some selected key has the same bucket, and the hash
  table, when there is one, has the key.
\<close>

type_synonym dim = "string \<times> u64 list \<times> u64 list option"

definition same_bucket :: "nat \<Rightarrow> u64 \<Rightarrow> u64 \<Rightarrow> bool" where
  "same_bucket n u v \<longleftrightarrow> reduce (bloom_hash u 0) (of_nat (n * 100)) = reduce (bloom_hash v 0) (of_nat (n * 100))"

fun dim_pass :: "dim \<Rightarrow> u64 \<Rightarrow> bool" where
  "dim_pass (fk, keys, hash) v \<longleftrightarrow> (\<exists>u \<in> set keys. same_bucket (length keys) u v) \<and> (case hash of None \<Rightarrow> True | Some ks \<Rightarrow> v \<in> set ks)"

definition same_cells :: "BloomFilter \<Rightarrow> BloomFilter \<Rightarrow> bool" where
  "same_cells b b' \<longleftrightarrow> bloom_cells b' = bloom_cells b \<and> num_cells b' = num_cells b \<and> num_hash b' = num_hash b \<and> seeds b' = seeds b
     \<and> fk_name b' = fk_name b"

lemma probe_loop_cells:
  assumes "bloom_cells b' = bloom_cells b" "num_cells b' = num_cells b"
  shows "probe_loop v ss b' = probe_loop v ss b"
proof (induction ss)
  case (Cons s ss)
  then show ?case by (simp only: probe_loop.simps assms)
qed simp

lemma bloom_probe_cells: "same_cells b b' \<Longrightarrow> bloom_probe v b' = bloom_probe v b"
  unfolding same_cells_def bloom_probe_def by (metis probe_loop_cells)

lemma bloom_update_cells:
  assumes "bloom_update rnd b = Inr b'"
  shows "same_cells b b' \<and> hit_count b' = 0 \<and> probe_count b' = 0"
  using assms by (auto simp: bloom_update_def and_then_Inr same_cells_def Let_def)

text \<open>
  A filter of a dimension that has seen at most \<open>R\<close> rows in \<open>B\<close> finished batches, and at most \<open>P\<close> in
  the current one.
\<close>

definition lookup_ok :: "nat \<Rightarrow> nat \<Rightarrow> nat \<Rightarrow> dim \<Rightarrow> LookupFilter \<Rightarrow> bool" where
  "lookup_ok R B P d lf \<longleftrightarrow> fk_name (bloom_filter lf) = fst d \<and> (\<forall>v. lookup_pass lf v = Inr (dim_pass d v))
     \<and> 0 \<le> hit_count (bloom_filter lf) \<and> hit_count (bloom_filter lf) \<le> probe_count (bloom_filter lf) \<and> probe_count (bloom_filter lf) \<le> int P
     \<and> (\<exists>hs. stats_ok 1 hs (bloom_filter lf) \<and> list_all (\<lambda>(h, p). 0 \<le> h \<and> h \<le> p) hs \<and> sum_list (map snd hs) \<le> int R \<and> length hs = B)"

lemma lookup_pass_cells:
  "same_cells (bloom_filter lf) (bloom_filter lf') \<Longrightarrow> hash_table lf' = hash_table lf \<Longrightarrow> lookup_pass lf' v = lookup_pass lf v"
  by (simp add: lookup_pass_def bloom_probe_cells)

lemma add_counts_ok:
  assumes "lookup_ok R B P d lf" "h \<le> p" "P + p < 2 ^ 31"
  shows "lookup_ok R B (P + p) d (add_counts (int p) (int h) lf)"
proof -
  let ?b = "bloom_filter lf" and ?b' = "bloom_filter (add_counts (int p) (int h) lf)"
  have c: "0 \<le> hit_count ?b" "hit_count ?b \<le> probe_count ?b" "probe_count ?b \<le> int P" using assms(1) by (auto simp: lookup_ok_def)
  have P: "int P + int p < 2 ^ 31" using assms(3) by (simp flip: of_nat_add)
  have h: "int h \<le> int p" using assms(2) by simp
  have "wrap32 (probe_count ?b + int p) = probe_count ?b + int p" "wrap32 (hit_count ?b + int h) = hit_count ?b + int h"
    using c P h by (intro wrap32_small; linarith)+
  then have e: "probe_count ?b' = probe_count ?b + int p" "hit_count ?b' = hit_count ?b + int h" by (simp_all add: add_counts_def)
  have "same_cells ?b ?b'" "hash_table (add_counts (int p) (int h) lf) = hash_table lf" by (simp_all add: same_cells_def add_counts_def)
  then have "lookup_pass (add_counts (int p) (int h) lf) v = lookup_pass lf v" for v by (rule lookup_pass_cells)
  moreover have "stats_ok 1 hs ?b' \<longleftrightarrow> stats_ok 1 hs ?b" for hs by (simp add: stats_ok_def add_counts_def)
  moreover have "fk_name ?b' = fk_name ?b" by (simp add: add_counts_def)
  ultimately show ?thesis using assms(1) c h unfolding lookup_ok_def e by (metis (no_types, lifting) add_mono add_nonneg_nonneg of_nat_0_le_iff of_nat_add order_refl)
qed

lemma lookup_update_ok:
  assumes "rounding_ok rnd" "lookup_ok R B P d lf" "R + P < 2 ^ 31" "Suc B < 2 ^ 31"
  shows "\<exists>b. bloom_update rnd (bloom_filter lf) = Inr b \<and> lookup_ok (R + P) (Suc B) 0 d (lf\<lparr>bloom_filter := b\<rparr>)"
proof -
  let ?b = "bloom_filter lf" and ?h = "hit_count (bloom_filter lf)" and ?p = "probe_count (bloom_filter lf)"
  obtain hs where hs: "stats_ok 1 hs ?b" "list_all (\<lambda>(h, p). 0 \<le> h \<and> h \<le> p) hs" "sum_list (map snd hs) \<le> int R" "length hs = B"
    using assms(2) by (auto simp: lookup_ok_def)
  have c: "0 \<le> ?h" "?h \<le> ?p" "?p \<le> int P" using assms(2) by (auto simp: lookup_ok_def)
  have "int R + int P < 2 ^ 31" "int B + 1 < 2 ^ 31" using assms(3,4) by (simp_all flip: of_nat_add)
  then have bd: "sum_list (map snd ((?h, ?p) # hs)) < 2 ^ 31" "int (length hs) + 1 < 2 ^ 31" using c(3) hs(3,4) by simp_all
  obtain b where b: "bloom_update rnd ?b = Inr b" "stats_ok 1 ((?h, ?p) # hs) b"
    using bloom_update_ok [OF assms(1) hs(1) refl refl _ bd] hs(2) c by auto
  have cells: "same_cells ?b b" "hit_count b = 0" "probe_count b = 0" using bloom_update_cells [OF b(1)] by simp_all
  have "lookup_pass (lf\<lparr>bloom_filter := b\<rparr>) v = lookup_pass lf v" for v using cells(1) by (intro lookup_pass_cells) simp_all
  moreover have "fk_name b = fk_name ?b" using cells(1) by (simp add: same_cells_def)
  moreover have "list_all (\<lambda>(h, p). 0 \<le> h \<and> h \<le> p) ((?h, ?p) # hs)" "sum_list (map snd ((?h, ?p) # hs)) \<le> int (R + P)"
    "length ((?h, ?p) # hs) = Suc B" using hs c by simp_all
  ultimately show ?thesis using assms(2) b cells unfolding lookup_ok_def by (auto intro!: exI [of _ "(?h, ?p) # hs"])
qed

section \<open>One chunk\<close>

lemma probe_rows_ok:
  assumes "\<And>v. lookup_pass lf v = Inr (P v)"
  shows "probe_rows lf off row keys = Inr (map (\<lambda>r. of_nat (row + r) + off) (filter (\<lambda>r. P (keys ! r)) [0..<length keys]))"
proof (induction keys arbitrary: row)
  case (Cons key keys)
  have "filter (\<lambda>r. P ((key # keys) ! r)) [0..<length (key # keys)]
      = (if P key then [0] else []) @ map Suc (filter (\<lambda>r. P (keys ! r)) [0..<length keys])"
  proof -
    have "[0..<length (key # keys)] = 0 # map Suc [0..<length keys]" by (simp add: map_Suc_upt upt_conv_Cons del: upt_Suc)
    then show ?thesis by (simp add: filter_map comp_def)
  qed
  then show ?case using Cons.IH [of "Suc row"] assms by (simp add: comp_def)
qed simp

lemma mset_swap_out:
  assumes "k \<le> m" "m < length xs"
  shows "mset (take m (xs[k := xs ! m, m := xs ! k])) = mset (take (Suc m) xs) - {#xs ! k#}"
proof -
  let ?zs = "xs[k := xs ! m, m := xs ! k]" and ?ys = "take (Suc m) xs"
  have y: "length ?ys = Suc m" "?ys ! m = xs ! m" "?ys ! k = xs ! k" using assms by simp_all
  have "take (Suc m) ?zs = ?ys[k := ?ys ! m, m := ?ys ! k]" unfolding y(2,3) by (simp only: take_update_swap)
  then have "mset (take (Suc m) ?zs) = mset ?ys" using mset_swap [of m ?ys k] y(1) assms(1) by (simp only:)
  moreover have "take (Suc m) ?zs = take m ?zs @ [xs ! k]" using assms(2) take_Suc_conv_app_nth [of m ?zs] by simp
  ultimately have "mset ?ys = mset (take m ?zs) + {#xs ! k#}" by (metis mset_append mset_single_iff_right mset.simps(1,2))
  then show ?thesis by simp
qed

lemma probe_indices_ok:
  "(\<And>v. lookup_pass lf v = Inr (P v)) \<Longrightarrow> len < int (length is) \<Longrightarrow> int k \<le> len + 1
    \<Longrightarrow> \<forall>i \<in> set (take (nat (len + 1)) is). unat (i - off) < length keys \<Longrightarrow> \<forall>i \<in> set (take k is). P (keys ! unat (i - off))
    \<Longrightarrow> \<exists>len' is'. probe_indices lf off keys k len is = Inr (len', is') \<and> - 1 \<le> len' \<and> len' \<le> len \<and> length is' = length is
      \<and> mset (take (nat (len' + 1)) is') = filter_mset (\<lambda>i. P (keys ! unat (i - off))) (mset (take (nat (len + 1)) is))"
proof (induction lf off keys k len "is" rule: probe_indices.induct)
  case (1 lf off keys k len "is")
  let ?Q = "\<lambda>i. P (keys ! unat (i - off))" and ?n = "nat (len + 1)"
  show ?case
  proof (cases "int k \<le> len")
    case False
    then have "k = ?n" using "1.prems"(3) by linarith
    then have "\<forall>i \<in> set (take ?n is). ?Q i" using "1.prems"(5) by simp
    then have "filter_mset ?Q (mset (take ?n is)) = mset (take ?n is)" by (simp add: filter_mset_eq_conv)
    then show ?thesis using False "1.prems"(2,3) by (subst probe_indices.simps) auto
  next
    case True
    define m where "m = nat len"
    have m: "len = int m" "k \<le> m" "m < length is" "?n = Suc m" "k < length is" using True "1.prems"(2) by (auto simp: m_def)
    let ?i = "is ! k"
    have "?i \<in> set (take (Suc m) is)" using m by (metis in_set_conv_nth le_imp_less_Suc length_take min_less_iff_conj nth_take)
    then have r: "unat (?i - off) < length keys" using "1.prems"(4) m(4) by simp
    have f: "fetch is k = Inr ?i" "fetch keys (unat (?i - off)) = Inr (keys ! unat (?i - off))" using m r by simp_all
    show ?thesis
    proof (cases "?Q ?i")
      case Q: True
      have "\<forall>i \<in> set (take (Suc k) is). ?Q i" using "1.prems"(5) Q m(5) by (simp add: take_Suc_conv_app_nth)
      moreover have "probe_indices lf off keys k len is = probe_indices lf off keys (Suc k) len is"
        using True f Q "1.prems"(1) by (subst probe_indices.simps) simp
      ultimately show ?thesis using "1.IH"(1) [OF True TrueI "1.prems"(1,2) _ "1.prems"(4)] True by simp
    next
      case Q: False
      let ?is = "is[k := is ! m, m := ?i]"
      have e: "probe_indices lf off keys k len is = probe_indices lf off keys k (len - 1) ?is"
        using True f Q "1.prems"(1) m by (subst probe_indices.simps) simp
      have ms: "mset (take m ?is) = mset (take (Suc m) is) - {#?i#}" by (rule mset_swap_out [OF m(2,3)])
      then have "set (take m ?is) \<subseteq> set (take (Suc m) is)" by (metis in_diffD set_mset_mset subsetI)
      moreover have "take k ?is = take k is" using m(2) by simp
      moreover have "filter_mset ?Q (mset (take m ?is)) = filter_mset ?Q (mset (take (Suc m) is))" unfolding ms filter_diff_mset using Q by simp
      moreover have "\<exists>len' is'. probe_indices lf off keys k (len - 1) (is[k := is ! m, nat len := ?i]) = Inr (len', is') \<and> - 1 \<le> len' \<and> len' \<le> len - 1
          \<and> length is' = length (is[k := is ! m, nat len := ?i])
          \<and> mset (take (nat (len' + 1)) is') = filter_mset ?Q (mset (take (nat (len - 1 + 1)) (is[k := is ! m, nat len := ?i])))"
        using True m "1.prems"(4,5) calculation(1,2) by (intro "1.IH"(2) [where xaa = False] "1.prems"(1)) (auto simp: m_def [symmetric])
      ultimately show ?thesis using e m by auto
    qed
  qed
qed

text \<open>
  The rows of chunk \<open>c\<close> that pass the dimensions \<open>ds\<close>, by their row numbers in the table; \<open>lens\<close> are the
  lengths of the chunks.
\<close>

definition row_passes :: "(string \<rightharpoonup> chunked) \<Rightarrow> dim list \<Rightarrow> nat \<Rightarrow> nat \<Rightarrow> bool" where
  "row_passes cols ds c r \<longleftrightarrow> (\<forall>d \<in> set ds. dim_pass d (the (cols (fst d)) ! c ! r))"

definition passing :: "(string \<rightharpoonup> chunked) \<Rightarrow> nat list \<Rightarrow> dim list \<Rightarrow> nat \<Rightarrow> u32 multiset" where
  "passing cols lens ds c = mset (map (\<lambda>r. of_nat (sum_list (take c lens) + r)) (filter (row_passes cols ds c) [0..<lens ! c]))"

definition probe_ready :: "nat list \<Rightarrow> dim list \<Rightarrow> LIP \<Rightarrow> bool" where
  "probe_ready lens ds s \<longleftrightarrow> sum_list lens < 2 ^ 31 \<and> length lens + 1 < 2 ^ 31 \<and> length (lip_indices s) = length lens
     \<and> chunk_row_offsets s = map (\<lambda>c. int (sum_list (take c lens))) [0..<length lens]
     \<and> (\<forall>d \<in> set ds. \<exists>col. fact_fk_cols2 s (fst d) = Some col \<and> map length col = lens)
     \<and> (\<forall>d \<in> set ds. \<exists>cs. out_fk_cols s (fst d) = Some cs \<and> length cs = length lens)"

lemma lookup_ok_mono: "lookup_ok R B P d lf \<Longrightarrow> P \<le> P' \<Longrightarrow> lookup_ok R B P' d lf"
  by (auto simp: lookup_ok_def)

lemma passing_le: "size (passing cols lens ds c) \<le> lens ! c"
  unfolding passing_def size_mset length_map using length_filter_le [of "row_passes cols ds c" "[0..<lens ! c]"] by simp

lemma sum_list_take_nth: "c < length xs \<Longrightarrow> sum_list (take c xs) + xs ! c \<le> (sum_list xs :: nat)"
proof -
  assume "c < length xs"
  then have "sum_list xs = sum_list (take c xs) + (xs ! c + sum_list (drop (Suc c) xs))"
    by (metis id_take_nth_drop sum_list.Cons sum_list_append)
  then show ?thesis by simp
qed

lemma row_passes_snoc: "row_passes cols (ds @ [d]) c r \<longleftrightarrow> row_passes cols ds c r \<and> dim_pass d (the (cols (fst d)) ! c ! r)"
  by (auto simp: row_passes_def)

lemma probe_chunk_ok:
  assumes s: "probe_ready lens ds s" "dim_filters s = map Some fs" "length fs = length ds" and j: "j < length ds" and c: "c < length lens"
    and lf: "lookup_ok R B P (ds ! j) (fs ! j)" "P + lens ! c < 2 ^ 31"
    and left: "j \<noteq> 0 \<Longrightarrow> mset (lip_indices s ! c) = passing (fact_fk_cols2 s) lens (take j ds) c"
  shows "\<exists>is lf. probe_chunk j c s = Inr (s\<lparr>lip_indices := (lip_indices s)[c := is], dim_filters := map Some (fs[j := lf])\<rparr>)
    \<and> mset is = passing (fact_fk_cols2 s) lens (take (Suc j) ds) c \<and> lookup_ok R B (P + lens ! c) (ds ! j) lf"
proof -
  let ?d = "ds ! j" and ?lf = "fs ! j" and ?cols = "fact_fk_cols2 s" and ?o = "sum_list (take c lens)"
  obtain col cs where col: "?cols (fst ?d) = Some col" "map length col = lens" and cs: "out_fk_cols s (fst ?d) = Some cs" "length cs = length lens"
    using s(1) j by (meson nth_mem probe_ready_def)
  let ?keys = "col ! c"
  have kl: "length ?keys = lens ! c" "c < length col" using col(2) c by auto
  have nm: "get_fact_fk_name (bloom_filter ?lf) = fst ?d" and pass: "\<And>v. lookup_pass ?lf v = Inr (dim_pass ?d v)"
    using lf(1) by (auto simp: lookup_ok_def get_fact_fk_name_def)
  have fs: "fetch (dim_filters s) j = Inr (Some ?lf)" "fetch (chunk_row_offsets s) c = Inr (int ?o)" "fetch col c = Inr ?keys"
    "fetch (lip_indices s) c = Inr (lip_indices s ! c)" "fetch cs c = Inr (cs ! c)"
    using s j c kl(2) cs(2) by (auto simp: probe_ready_def)
  have tk: "take (Suc j) ds = take j ds @ [?d]" using j by (simp add: take_Suc_conv_app_nth)
  have rp: "row_passes ?cols (take (Suc j) ds) c r \<longleftrightarrow> row_passes ?cols (take j ds) c r \<and> dim_pass ?d (?keys ! r)" for r
    unfolding tk row_passes_snoc by (simp add: col(1))
  show ?thesis
  proof (cases "j = 0")
    case True
    let ?is = "map (\<lambda>r. of_nat (0 + r) + word_of_int (int ?o)) (filter (\<lambda>r. dim_pass ?d (?keys ! r)) [0..<length ?keys]) :: u32 list"
    have "row_passes ?cols (take (Suc j) ds) c = (\<lambda>r. dim_pass ?d (?keys ! r))" by (rule ext, subst rp) (simp add: True row_passes_def)
    then have "mset ?is = passing ?cols lens (take (Suc j) ds) c" by (simp only: passing_def kl(1)) (simp add: add.commute)
    moreover have "probe_chunk j c s = Inr (s\<lparr>lip_indices := (lip_indices s)[c := ?is],
        dim_filters := map Some (fs[j := add_counts (int (lens ! c)) (int (length ?is)) ?lf])\<rparr>)"
      using True fs nm col(1) kl(1) probe_rows_ok [OF pass, of "word_of_int (int ?o)" 0 ?keys] s(2)
      by (simp add: probe_chunk_def map_update)
    moreover have "length ?is \<le> lens ! c" using length_filter_le [of "\<lambda>r. dim_pass ?d (?keys ! r)" "[0..<length ?keys]"] kl(1) by simp
    moreover from calculation(3) have "lookup_ok R B (P + lens ! c) ?d (add_counts (int (lens ! c)) (int (length ?is)) ?lf)"
      by (rule add_counts_ok [OF lf(1) _ lf(2)])
    ultimately show ?thesis by blast
  next
    case False
    let ?left = "lip_indices s ! c" and ?w = "word_of_int (int ?o) :: u32"
    have m: "mset ?left = passing ?cols lens (take j ds) c" using left False by simp
    have sm: "?o + lens ! c \<le> sum_list lens" using sum_list_take_nth c by blast
    have dif: "unat ((of_nat (?o + r) :: u32) - ?w) = r" if "r < lens ! c" for r
    proof -
      have "r < 2 ^ 32" using that sm s(1) by (simp add: probe_ready_def)
      then show ?thesis by (simp add: unat_of_nat take_bit_nat_eq_self)
    qed
    have "set ?left = (\<lambda>r. of_nat (?o + r)) ` {r \<in> {0..<lens ! c}. row_passes ?cols (take j ds) c r}"
      using arg_cong [OF m, of set_mset] by (simp only: passing_def set_mset_mset set_map set_filter set_upt)
    then have "\<forall>i \<in> set ?left. \<exists>r < lens ! c. i = of_nat (?o + r)" by auto
    then have rng: "\<forall>i \<in> set (take (nat (int (length ?left) - 1 + 1)) ?left). unat (i - ?w) < length ?keys" using dif kl(1) by fastforce
    obtain len "is" where li: "probe_indices ?lf ?w ?keys 0 (int (length ?left) - 1) ?left = Inr (len, is)" "- 1 \<le> len" "len \<le> int (length ?left) - 1"
      "length is = length ?left"
      "mset (take (nat (len + 1)) is) = filter_mset (\<lambda>i. dim_pass ?d (?keys ! unat (i - ?w))) (mset (take (nat (int (length ?left) - 1 + 1)) ?left))"
      using probe_indices_ok [OF pass _ _ rng, of 0] by auto
    let ?is = "take (nat (len + 1)) is" and ?lf' = "add_counts (int (length ?left)) (int (nat (len + 1))) ?lf"
    have "mset ?is = filter_mset (\<lambda>i. dim_pass ?d (?keys ! unat (i - ?w))) (passing ?cols lens (take j ds) c)" using li(5) m by simp
    also have "\<dots> = passing ?cols lens (take (Suc j) ds) c"
      unfolding passing_def mset_filter [symmetric] filter_map filter_filter 
      by (intro arg_cong [of _ _ mset] arg_cong [of _ _ "map _"] filter_cong) (auto simp: rp dif [unfolded of_int_of_nat_eq] simp del: of_nat_add)
    finally have "mset ?is = passing ?cols lens (take (Suc j) ds) c" .
    moreover have "probe_chunk j c s = Inr (s\<lparr>lip_indices := (lip_indices s)[c := ?is], dim_filters := map Some (fs[j := ?lf'])\<rparr>)"
      using False fs nm col(1) cs(1) li(1,2) s(2) by (simp add: probe_chunk_def map_update)
    moreover have "length ?left \<le> lens ! c" using passing_le [of ?cols lens "take j ds" c] by (simp only: m [symmetric] size_mset)
    then have "lookup_ok R B (P + lens ! c) ?d ?lf'"
    proof -
      assume l: "length ?left \<le> lens ! c"
      then have "P + length ?left < 2 ^ 31" using lf(2) by linarith
      moreover have "nat (len + 1) \<le> length ?left" using li(3) by linarith
      ultimately have "lookup_ok R B (P + length ?left) ?d ?lf'" by (intro add_counts_ok [OF lf(1)])
      then show ?thesis by (rule lookup_ok_mono) (rule add_left_mono [OF l])
    qed
    ultimately show ?thesis by blast
  qed
qed

section \<open>One batch\<close>

definition rows_of :: "nat list \<Rightarrow> nat list \<Rightarrow> nat" where
  "rows_of lens cs = sum_list (map ((!) lens) cs)"

lemma probe_ready_upd [simp]:
  "length ls = length lens \<Longrightarrow> length (lip_indices s) = length lens
    \<Longrightarrow> probe_ready lens ds (s\<lparr>lip_indices := ls, dim_filters := fs\<rparr>) \<longleftrightarrow> probe_ready lens ds s"
  by (simp add: probe_ready_def)

lemma probe_range_ok:
  assumes "probe_ready lens ds s" "dim_filters s = map Some fs" "length fs = length ds" "j < length ds" "distinct cs" "set cs \<subseteq> {..<length lens}"
    "lookup_ok R B P (ds ! j) (fs ! j)" "P + rows_of lens cs < 2 ^ 31"
    "\<And>c. c \<in> set cs \<Longrightarrow> j \<noteq> 0 \<Longrightarrow> mset (lip_indices s ! c) = passing (fact_fk_cols2 s) lens (take j ds) c"
  shows "\<exists>ls lf. probe_range j cs s = Inr (s\<lparr>lip_indices := ls, dim_filters := map Some (fs[j := lf])\<rparr>) \<and> length ls = length lens
    \<and> (\<forall>c < length lens. if c \<in> set cs then mset (ls ! c) = passing (fact_fk_cols2 s) lens (take (Suc j) ds) c else ls ! c = lip_indices s ! c)
    \<and> lookup_ok R B (P + rows_of lens cs) (ds ! j) lf"
  using assms
proof (induction cs arbitrary: s fs P)
  case Nil
  have "s\<lparr>lip_indices := lip_indices s, dim_filters := map Some (fs[j := fs ! j])\<rparr> = s" using Nil.prems(2) by simp
  then show ?case using Nil.prems by (intro exI [of _ "lip_indices s"] exI [of _ "fs ! j"]) (simp add: rows_of_def probe_ready_def)
next
  case (Cons c cs)
  have c: "c < length lens" "P + lens ! c < 2 ^ 31" using Cons.prems(6,8) by (auto simp: rows_of_def)
  obtain "is" lf where 1: "probe_chunk j c s = Inr (s\<lparr>lip_indices := (lip_indices s)[c := is], dim_filters := map Some (fs[j := lf])\<rparr>)"
    "mset is = passing (fact_fk_cols2 s) lens (take (Suc j) ds) c" "lookup_ok R B (P + lens ! c) (ds ! j) lf"
    using probe_chunk_ok [OF Cons.prems(1-4) c(1) Cons.prems(7) c(2)] Cons.prems(9) [of c] by auto
  let ?s = "s\<lparr>lip_indices := (lip_indices s)[c := is], dim_filters := map Some (fs[j := lf])\<rparr>"
  have len: "length (lip_indices s) = length lens" using Cons.prems(1) by (simp add: probe_ready_def)
  have "probe_ready lens ds ?s" using Cons.prems(1) len by simp
  moreover have "mset (lip_indices ?s ! c') = passing (fact_fk_cols2 ?s) lens (take j ds) c'" if "c' \<in> set cs" "j \<noteq> 0" for c'
    using Cons.prems(5) Cons.prems(9) [of c'] that by (cases "c' = c") auto
  ultimately obtain ls lf' where 2: "probe_range j cs ?s = Inr (?s\<lparr>lip_indices := ls, dim_filters := map Some ((fs[j := lf])[j := lf'])\<rparr>)" "length ls = length lens"
    "\<forall>c < length lens. if c \<in> set cs then mset (ls ! c) = passing (fact_fk_cols2 ?s) lens (take (Suc j) ds) c else ls ! c = lip_indices ?s ! c"
    "lookup_ok R B (P + lens ! c + rows_of lens cs) (ds ! j) lf'"
    using Cons.IH [of ?s "fs[j := lf]" "P + lens ! c"] Cons.prems 1(3) by (auto simp: rows_of_def)
  have "probe_range j (c # cs) s = Inr (s\<lparr>lip_indices := ls, dim_filters := map Some (fs[j := lf'])\<rparr>)" using 1(1) 2(1) by simp
  moreover have "if c' \<in> set (c # cs) then mset (ls ! c') = passing (fact_fk_cols2 s) lens (take (Suc j) ds) c' else ls ! c' = lip_indices s ! c'"
    if "c' < length lens" for c' using 2(3) [rule_format, OF that] 1(2) len that c(1) Cons.prems(5) by (auto split: if_splits)
  moreover have "lookup_ok R B (P + rows_of lens (c # cs)) (ds ! j) lf'" using 2(4) by (simp add: rows_of_def add.assoc)
  ultimately show ?case using 2(2) by blast
qed

definition tasks_ok :: "(nat \<Rightarrow> nat \<Rightarrow> nat list \<Rightarrow> nat list) \<Rightarrow> bool" where
  "tasks_ok f \<longleftrightarrow> (\<forall>b j. sched_ok (f b j))"

lemma rows_of_perm: "mset cs = mset cs' \<Longrightarrow> rows_of lens cs = rows_of lens cs'"
  unfolding rows_of_def by (metis mset_map sum_mset_sum_list)

lemma probe_chain_ok:
  assumes "tasks_ok (env_chunks env)" "distinct cs" "set cs \<subseteq> {..<length lens}" "rows_of lens cs < 2 ^ 31"
  shows "j \<le> length ds \<Longrightarrow> probe_ready lens ds s \<Longrightarrow> dim_filters s = map Some fs \<Longrightarrow> length fs = length ds
    \<Longrightarrow> (\<And>k. k < length ds \<Longrightarrow> lookup_ok R B (if k < j then rows_of lens cs else 0) (ds ! k) (fs ! k))
    \<Longrightarrow> (\<And>c. c \<in> set cs \<Longrightarrow> j \<noteq> 0 \<Longrightarrow> mset (lip_indices s ! c) = passing (fact_fk_cols2 s) lens (take j ds) c)
    \<Longrightarrow> \<exists>ls fs'. probe_chain env b cs [j..<length ds] s = Inr (s\<lparr>lip_indices := ls, dim_filters := map Some fs'\<rparr>) \<and> length ls = length lens \<and> length fs' = length ds
      \<and> (\<forall>c < length lens. if c \<in> set cs \<and> ds \<noteq> [] then mset (ls ! c) = passing (fact_fk_cols2 s) lens ds c else ls ! c = lip_indices s ! c)
      \<and> (\<forall>k < length ds. lookup_ok R B (rows_of lens cs) (ds ! k) (fs' ! k))"
proof (induction "length ds - j" arbitrary: j s fs)
  case 0
  then have j: "j = length ds" by simp
  have "s\<lparr>lip_indices := lip_indices s, dim_filters := map Some fs\<rparr> = s" using "0.prems"(3) by simp
  moreover have "length (lip_indices s) = length lens" using "0.prems"(2) by (simp add: probe_ready_def)
  moreover have "\<forall>c < length lens. c \<in> set cs \<and> ds \<noteq> [] \<longrightarrow> mset (lip_indices s ! c) = passing (fact_fk_cols2 s) lens ds c" using "0.prems"(6) j by auto
  moreover have "\<forall>k < length ds. lookup_ok R B (rows_of lens cs) (ds ! k) (fs ! k)" using "0.prems"(5) j by auto
  ultimately show ?case using j "0.prems"(4) by (intro exI [of _ "lip_indices s"] exI [of _ fs]) auto
next
  case (Suc n)
  let ?cs = "env_chunks env b j cs"
  have j: "j < length ds" "[j..<length ds] = j # [Suc j..<length ds]" using Suc(2) by (simp_all add: upt_conv_Cons)
  have n: "n = length ds - Suc j" "Suc j \<le> length ds" using Suc(2) by linarith+
  have "mset ?cs = mset cs" using assms(1) by (simp add: tasks_ok_def sched_ok_def)
  then have cs: "set ?cs = set cs" "distinct ?cs" "rows_of lens ?cs = rows_of lens cs"
    using assms(2) mset_eq_setD mset_eq_imp_distinct_iff rows_of_perm by blast+
  obtain ls lf where 1: "probe_range j ?cs s = Inr (s\<lparr>lip_indices := ls, dim_filters := map Some (fs[j := lf])\<rparr>)" "length ls = length lens"
    "\<forall>c < length lens. if c \<in> set ?cs then mset (ls ! c) = passing (fact_fk_cols2 s) lens (take (Suc j) ds) c else ls ! c = lip_indices s ! c"
    "lookup_ok R B (0 + rows_of lens ?cs) (ds ! j) lf"
    using probe_range_ok [OF Suc.prems(2,3,4) j(1) cs(2), of R B 0] Suc.prems(5) [OF j(1)] Suc.prems(6) assms(3,4) cs by auto
  let ?s = "s\<lparr>lip_indices := ls, dim_filters := map Some (fs[j := lf])\<rparr>"
  have len: "length (lip_indices s) = length lens" using Suc.prems(2) by (simp add: probe_ready_def)
  have "probe_ready lens ds ?s" using Suc.prems(2) 1(2) len by simp
  moreover have "lookup_ok R B (if k < Suc j then rows_of lens cs else 0) (ds ! k) ((fs[j := lf]) ! k)" if "k < length ds" for k
    using Suc.prems(4) Suc.prems(5) [OF that] 1(4) cs(3) that by (auto simp: nth_list_update less_Suc_eq)
  moreover have "mset (lip_indices ?s ! c) = passing (fact_fk_cols2 ?s) lens (take (Suc j) ds) c" if "c \<in> set cs" for c
    using 1(3) that assms(3) cs(1) by auto
  ultimately obtain ls' fs' where 2: "probe_chain env b cs [Suc j..<length ds] ?s = Inr (?s\<lparr>lip_indices := ls', dim_filters := map Some fs'\<rparr>)"
    "length ls' = length lens" "length fs' = length ds"
    "\<forall>c < length lens. if c \<in> set cs \<and> ds \<noteq> [] then mset (ls' ! c) = passing (fact_fk_cols2 ?s) lens ds c else ls' ! c = lip_indices ?s ! c"
    "\<forall>k < length ds. lookup_ok R B (rows_of lens cs) (ds ! k) (fs' ! k)"
    using Suc.hyps(1) [of "Suc j" ?s "fs[j := lf]", OF n] Suc.prems(4) by auto
  have "probe_chain env b cs [j..<length ds] s = Inr (s\<lparr>lip_indices := ls', dim_filters := map Some fs'\<rparr>)" using 1(1) 2(1) j(2) by simp
  moreover have "if c \<in> set cs \<and> ds \<noteq> [] then mset (ls' ! c) = passing (fact_fk_cols2 s) lens ds c else ls' ! c = lip_indices s ! c"
    if "c < length lens" for c
    using 2(4) [rule_format, OF that] 1(3) [rule_format, OF that] cs(1) j(1) by (auto split: if_splits)
  ultimately show ?case using 2(2,3,5) by blast
qed

lemma update_filters_ok:
  assumes "rounding_ok rnd" "R + P < 2 ^ 31" "Suc B < 2 ^ 31"
  shows "list_all2 (lookup_ok R B P) ds fs \<Longrightarrow> \<exists>fs'. update_filters rnd (map Some fs) = Inr fs' \<and> list_all2 (lookup_ok (R + P) (Suc B) 0) ds fs'"
proof (induction rule: list_all2_induct)
  case (Cons d ds lf fs)
  then show ?case using lookup_update_ok [OF assms(1) Cons.hyps(1) assms(2,3)] by auto
qed simp

text \<open>\<open>std::sort\<close> reorders.\<close>

definition sort_ok :: "rounding \<Rightarrow> (LookupFilter list \<Rightarrow> LookupFilter list) \<Rightarrow> bool" where
  "sort_ok rnd srt \<longleftrightarrow> (\<forall>fs. mset (srt fs) = mset fs \<and> sorted_wrt (\<lambda>l r. \<not> SortByBloomFilter rnd r l) (srt fs))"

section \<open>All batches\<close>

lemma passing_set: "set ds = set ds' \<Longrightarrow> passing cols lens ds c = passing cols lens ds' c"
  unfolding passing_def row_passes_def by simp

lemma probe_ready_set: "set ds = set ds' \<Longrightarrow> probe_ready lens ds s = probe_ready lens ds' s"
  unfolding probe_ready_def by simp

lemma batch_chunks_upt: "batch_chunks n bs b = [b * bs..<min (Suc b * bs) n]"
proof -
  have "int (b * bs) + int bs - 1 < int n \<longleftrightarrow> b * bs + bs \<le> n" by linarith
  then show ?thesis unfolding batch_chunks_def Let_def by (auto simp: min_def add.commute simp del: of_nat_mult)
qed

lemma rows_of_upt: "i \<le> k \<Longrightarrow> sum_list (take i lens) + rows_of lens [i..<min k (length lens)] = sum_list (take k lens)"
proof (induction k)
  case (Suc k)
  show ?case
  proof (cases "i = Suc k \<or> length lens \<le> k")
    case True
    then show ?thesis
    proof (cases "i = Suc k")
      case False
      then have "min (Suc k) (length lens) = min k (length lens)" "take (Suc k) lens = take k lens" "i \<le> k" using True Suc.prems by simp_all
      then show ?thesis using Suc.IH by (simp only:)
    qed (simp add: rows_of_def)
  next
    case False
    then have "[i..<min (Suc k) (length lens)] = [i..<min k (length lens)] @ [k]" using Suc.prems by (simp add: min_def)
    then show ?thesis using False Suc by (simp add: rows_of_def take_Suc_conv_app_nth)
  qed
qed (simp add: rows_of_def)

definition env_ok :: "lip_env \<Rightarrow> bool" where
  "env_ok env \<longleftrightarrow> rounding_ok (env_round env) \<and> tasks_ok (env_chunks env) \<and> sort_ok (env_round env) (env_sort env) \<and> sched_ok (env_slices env)
     \<and> (\<forall>f. env_filter_size env f = length (filter id f))"

text \<open>Before batch \<open>b\<close>: the filters, in some order, and the chunks that are done.\<close>

definition batch_inv :: "nat list \<Rightarrow> dim list \<Rightarrow> nat \<Rightarrow> nat \<Rightarrow> LIP \<Rightarrow> bool" where
  "batch_inv lens ds bs b s \<longleftrightarrow> probe_ready lens ds s \<and> length (dim_tables s) = length ds \<and> batch_size s = bs
     \<and> (\<exists>ds' fs. mset ds' = mset ds \<and> dim_filters s = map Some fs \<and> list_all2 (lookup_ok (sum_list (take (b * bs) lens)) b 0) ds' fs)
     \<and> (\<forall>c < length lens. c < b * bs \<longrightarrow> mset (lip_indices s ! c) = passing (fact_fk_cols2 s) lens ds c)"

lemma probe_batch_ok:
  assumes env: "env_ok env" and s: "batch_inv lens ds bs b s" "ds \<noteq> []" and b: "b \<le> length lens div bs"
  shows "\<exists>ls fs. probe_batch env (length lens) b s = Inr (s\<lparr>lip_indices := ls, dim_filters := fs\<rparr>) \<and> batch_inv lens ds bs (Suc b) (s\<lparr>lip_indices := ls, dim_filters := fs\<rparr>)"
proof -
  let ?R = "sum_list (take (b * bs) lens)" and ?cs = "batch_chunks (length lens) bs b"
  obtain ds' fs where f: "mset ds' = mset ds" "dim_filters s = map Some fs" "list_all2 (lookup_ok ?R b 0) ds' fs" using s(1) by (auto simp: batch_inv_def)
  have ready: "probe_ready lens ds s" "length (dim_tables s) = length ds" "batch_size s = bs"
    "\<forall>c < length lens. c < b * bs \<longrightarrow> mset (lip_indices s ! c) = passing (fact_fk_cols2 s) lens ds c" using s(1) by (auto simp: batch_inv_def)
  have ds': "set ds' = set ds" "length ds' = length ds" "ds' \<noteq> []" using f(1) s(2) by (metis mset_eq_setD, metis size_mset, auto)
  have rows: "?R + rows_of lens ?cs = sum_list (take (Suc b * bs) lens)" unfolding batch_chunks_upt by (rule rows_of_upt) simp
  have "sum_list (take (Suc b * bs) lens) \<le> sum_list lens" by (metis append_take_drop_id le_add1 sum_list_append)
  then have tot: "?R + rows_of lens ?cs < 2 ^ 31" using rows ready(1) by (simp add: probe_ready_def)
  have "b < length lens + 1" using b by (metis Suc_eq_plus1 div_le_dividend le_imp_less_Suc le_trans)
  then have bb: "Suc b < 2 ^ 31" using ready(1) by (simp add: probe_ready_def)
  have "\<exists>ls fs'. probe_chain env b ?cs [0..<length ds'] s = Inr (s\<lparr>lip_indices := ls, dim_filters := map Some fs'\<rparr>) \<and> length ls = length lens \<and> length fs' = length ds'
      \<and> (\<forall>c < length lens. if c \<in> set ?cs \<and> ds' \<noteq> [] then mset (ls ! c) = passing (fact_fk_cols2 s) lens ds' c else ls ! c = lip_indices s ! c)
      \<and> (\<forall>k < length ds'. lookup_ok ?R b (rows_of lens ?cs) (ds' ! k) (fs' ! k))"
    by (rule probe_chain_ok [where fs = fs])
      (use env tot ready(1) ds' f(2,3) probe_ready_set [OF ds'(1)] in \<open>auto simp: env_ok_def batch_chunks_upt list_all2_conv_all_nth\<close>)
  then obtain ls fs1 where 1: "probe_chain env b ?cs [0..<length ds] s = Inr (s\<lparr>lip_indices := ls, dim_filters := map Some fs1\<rparr>)" "length ls = length lens"
    "\<forall>c < length lens. if c \<in> set ?cs then mset (ls ! c) = passing (fact_fk_cols2 s) lens ds c else ls ! c = lip_indices s ! c"
    "length fs1 = length ds'" "\<forall>k < length ds'. lookup_ok ?R b (rows_of lens ?cs) (ds' ! k) (fs1 ! k)"
    unfolding ds'(2) passing_set [OF ds'(1)] using ds'(3) by auto
  have l2: "list_all2 (lookup_ok ?R b (rows_of lens ?cs)) ds' fs1" using 1(4,5) by (simp add: list_all2_conv_all_nth)
  obtain fs2 where 2: "update_filters (env_round env) (map Some fs1) = Inr fs2" "list_all2 (lookup_ok (?R + rows_of lens ?cs) (Suc b) 0) ds' fs2"
    using update_filters_ok [OF _ tot bb l2] env by (auto simp: env_ok_def)
  have "mset (env_sort env fs2) = mset fs2" using env by (auto simp: env_ok_def sort_ok_def)
  then obtain ds2 where 3: "list_all2 (lookup_ok (?R + rows_of lens ?cs) (Suc b) 0) ds2 (env_sort env fs2)" "mset ds2 = mset ds"
    using list_all2_reorder_left_invariance [of "\<lambda>lf d. lookup_ok (?R + rows_of lens ?cs) (Suc b) 0 d lf" fs2 ds' "env_sort env fs2"] 2(2) f(1)
    by (auto simp: list_all2_conv_all_nth)
  let ?s = "s\<lparr>lip_indices := ls, dim_filters := map Some (env_sort env fs2)\<rparr>"
  have "probe_batch env (length lens) b s = Inr ?s" using 1(1) 2(1) ready(2,3) by (simp add: probe_batch_def update_and_sort_def)
  moreover have "batch_inv lens ds bs (Suc b) ?s"
  proof -
    have "mset (ls ! c) = passing (fact_fk_cols2 s) lens ds c" if c: "c < length lens" "c < Suc b * bs" for c
      using 1(3) [rule_format, OF c(1)] ready(4) c by (auto simp: batch_chunks_upt split: if_splits)
    moreover have "probe_ready lens ds ?s" using ready(1) 1(2) by (simp add: probe_ready_def)
    ultimately show ?thesis using 3 ready(2,3) unfolding batch_inv_def rows by auto
  qed
  ultimately show ?thesis by blast
qed

lemma probe_batches_ok:
  assumes env: "env_ok env" "ds \<noteq> []"
  shows "batch_inv lens ds bs b s \<Longrightarrow> b + n \<le> Suc (length lens div bs)
    \<Longrightarrow> \<exists>ls fs. probe_batches env (length lens) [b..<b + n] s = Inr (s\<lparr>lip_indices := ls, dim_filters := fs\<rparr>)
      \<and> batch_inv lens ds bs (b + n) (s\<lparr>lip_indices := ls, dim_filters := fs\<rparr>)"
proof (induction n arbitrary: b s)
  case 0
  have "s\<lparr>lip_indices := lip_indices s, dim_filters := dim_filters s\<rparr> = s" by simp
  then show ?case using 0 by (metis add_0_right probe_batches.simps(1) upt_rec less_irrefl)
next
  case (Suc n)
  obtain ls fs where 1: "probe_batch env (length lens) b s = Inr (s\<lparr>lip_indices := ls, dim_filters := fs\<rparr>)"
    "batch_inv lens ds bs (Suc b) (s\<lparr>lip_indices := ls, dim_filters := fs\<rparr>)" using probe_batch_ok [OF env(1) Suc.prems(1) env(2)] Suc.prems(2) by auto
  have u: "[b..<b + Suc n] = b # [Suc b..<Suc b + n]" by (simp add: upt_conv_Cons)
  have "Suc b + n \<le> Suc (length lens div bs)" "b + Suc n = Suc b + n" using Suc.prems(2) by simp_all
  then obtain ls' fs' where 2: "probe_batches env (length lens) [Suc b..<Suc b + n] (s\<lparr>lip_indices := ls, dim_filters := fs\<rparr>)
      = Inr (s\<lparr>lip_indices := ls', dim_filters := fs'\<rparr>)" "batch_inv lens ds bs (b + Suc n) (s\<lparr>lip_indices := ls', dim_filters := fs'\<rparr>)"
    using Suc.IH [OF 1(2)] by auto
  then show ?case unfolding u probe_batches.simps 1(1) and_then.simps by blast
qed

lemma probe_filters_ok:
  assumes env: "env_ok env" "ds \<noteq> []" and col: "first_fk_col s = Inr col" "map length col = lens" "lens \<noteq> []"
    and s: "probe_ready lens ds s" "length (dim_tables s) = length ds" "dim_filters s = map Some fs" "list_all2 (lookup_ok 0 0 0) ds fs"
  shows "\<exists>s'. probe_filters env s = Inr s' \<and> s' = s\<lparr>batch_size := batch_size s', lip_indices := lip_indices s', dim_filters := dim_filters s'\<rparr>
    \<and> length (lip_indices s') = length lens \<and> (\<forall>c < length lens. mset (lip_indices s' ! c) = passing (fact_fk_cols2 s) lens ds c)"
proof -
  let ?n = "length lens"
  define bs where "bs = (if env_cores env = 0 then ?n else env_cores env)"
  have bs: "0 < bs" using col(3) by (simp add: bs_def)
  have n: "length col = ?n" using col(2) by auto
  have "batch_inv lens ds bs 0 (s\<lparr>batch_size := bs\<rparr>)"
    using s by (auto simp: batch_inv_def probe_ready_def)
  from probe_batches_ok [OF env this, of "Suc (?n div bs)"] obtain ls fs' where
    1: "probe_batches env ?n [0..<0 + Suc (?n div bs)] (s\<lparr>batch_size := bs\<rparr>) = Inr (s\<lparr>batch_size := bs, lip_indices := ls, dim_filters := fs'\<rparr>)"
    "batch_inv lens ds bs (0 + Suc (?n div bs)) (s\<lparr>batch_size := bs, lip_indices := ls, dim_filters := fs'\<rparr>)" by auto
  have "?n < Suc (?n div bs) * bs" using bs dividend_less_div_times [of bs ?n] by (simp add: add.commute)
  then have "\<forall>c < ?n. mset (ls ! c) = passing (fact_fk_cols2 s) lens ds c" "length ls = ?n" using 1(2) by (auto simp: batch_inv_def probe_ready_def)
  moreover have "probe_filters env s = Inr (s\<lparr>batch_size := bs, lip_indices := ls, dim_filters := fs'\<rparr>)"
    unfolding probe_filters_def col(1) and_then.simps Let_def n bs_def [symmetric] using 1(1) bs by simp
  ultimately show ?thesis by (intro exI [of _ "s\<lparr>batch_size := bs, lip_indices := ls, dim_filters := fs'\<rparr>"]) simp
qed

end
