(* ===== verification/LipRun.thy ===== *)
theory LipRun
  imports Lip
begin

text \<open>
  The lookahead operator as a whole: building the filters in any order the scheduler may choose, the
  collection of the tables, and the rows that the output has.
\<close>

section \<open>Building a filter\<close>

text \<open>The keys of the rows a dimension table keeps.\<close>

definition selected :: "chunked \<Rightarrow> bool list list option \<Rightarrow> u64 list" where
  "selected pk flt = (case flt of None \<Rightarrow> concat pk
     | Some fs \<Rightarrow> concat (map (\<lambda>(c, f). map fst (filter snd (zip c f))) (zip pk fs)))"

definition filter_fits :: "chunked \<Rightarrow> bool list list option \<Rightarrow> bool" where
  "filter_fits pk flt \<longleftrightarrow> (case flt of None \<Rightarrow> True | Some fs \<Rightarrow> list_all2 (\<lambda>c f. length c = length f) pk fs)"

lemma insert_all_append: "insert_all (us @ vs) b = and_then (insert_all us b) (insert_all vs)"
proof (induction us arbitrary: b)
  case (Cons u us)
  then show ?case by (cases "bloom_insert u b") auto
qed simp

lemma insert_key_chunks_all: "insert_key_chunks cs b = insert_all (concat cs) b"
proof (induction cs arbitrary: b)
  case (Cons c cs)
  then show ?case by (cases "insert_all c b") (auto simp: insert_all_append)
qed simp

lemma insert_selected_all: "length vs = length fs \<Longrightarrow> insert_selected vs fs b = insert_all (map fst (filter snd (zip vs fs))) b"
proof (induction vs fs arbitrary: b rule: list_induct2)
  case (Cons v vs f fs)
  then show ?case by (cases "bloom_insert v b") auto
qed simp

lemma insert_selected_chunks_all:
  "list_all2 (\<lambda>c f. length c = length f) cs fs \<Longrightarrow> insert_selected_chunks cs fs b = insert_all (selected cs (Some fs)) b"
proof (induction arbitrary: b rule: list_all2_induct)
  case (Cons c cs f fs)
  then show ?case by (cases "insert_all (map fst (filter snd (zip c f))) b") (auto simp: selected_def insert_all_append insert_selected_all)
qed (simp add: selected_def)

lemma filtered_length_selected:
  assumes "\<And>f. sz f = length (filter id f)"
  shows "list_all2 (\<lambda>c f. length c = length f) cs fs \<Longrightarrow> filtered_length sz (length cs) fs n = Inr (n + of_nat (length (selected cs (Some fs))))"
proof (induction arbitrary: n rule: list_all2_induct)
  case (Cons c cs f fs)
  have "length (filter id f) = length (filter snd (zip c f))"
  proof -
    have "map snd (filter snd (zip c f)) = filter id (map snd (zip c f))" by (simp add: filter_map comp_def)
    then show ?thesis using Cons.hyps by (metis length_map map_snd_zip)
  qed
  then show ?case using Cons.IH by (simp add: selected_def assms algebra_simps)
qed (simp add: selected_def)

lemma build_bloom_ok:
  assumes env: "env_ok env" and pk: "filter_fits pk flt" "length (selected pk flt) * 100 < 2 ^ 31"
  shows "\<exists>b. build_bloom env i pk flt = Inr b
    \<and> lookup_ok 0 0 0 (fk, selected pk flt, h) \<lparr>bloom_filter = set_fact_fk_name fk (set_memory 1 b), hash_table = h\<rparr>"
proof -
  let ?keys = "selected pk flt" and ?n = "int (length (selected pk flt))"
  have "?n * 100 < 2 ^ 31" using pk(2) by simp
  then have n: "0 \<le> ?n" "?n * 100 < 2 ^ 31" "?n < 2 ^ 31" by linarith+
  obtain b where b: "BloomFilter_new (env_round env) (env_rand env i) ?n = Inr b" using BloomFilter_new_ok [OF n(1,2)] by blast
  obtain b' where b': "insert_all ?keys b = Inr b'" "b' = b\<lparr>bloom_cells := bloom_cells b'\<rparr>"
    "\<And>v. bloom_probe v b' = Inr (\<exists>u \<in> set ?keys. reduce (bloom_hash u 0) (word_of_int (?n * 100)) = reduce (bloom_hash v 0) (word_of_int (?n * 100)))"
    using insert_all_probe [OF n(1,2) b] by blast
  have "build_bloom env i pk flt = Inr b'"
  proof (cases flt)
    case None
    then show ?thesis using wrap32_small [OF n(1,3)] b b'(1) by (simp add: build_bloom_def insert_key_chunks_all selected_def)
  next
    case (Some fs)
    then have fit: "list_all2 (\<lambda>c f. length c = length f) pk fs" using pk(1) by (simp add: filter_fits_def)
    have "sint (of_nat (length ?keys) :: u32) = ?n" using wrap32_small [OF n(1,3)] by (simp add: wrap32_def)
    then show ?thesis using b b'(1) insert_selected_chunks_all [OF fit] filtered_length_selected [OF _ fit, of "env_filter_size env" 0] env Some
      by (simp add: build_bloom_def env_ok_def)
  qed
  moreover have "lookup_ok 0 0 0 (fk, ?keys, h) \<lparr>bloom_filter = set_fact_fk_name fk (set_memory 1 b'), hash_table = h\<rparr>"
  proof -
    let ?b = "set_fact_fk_name fk (set_memory 1 b')"
    have "bloom_probe v ?b = bloom_probe v b'" for v
      unfolding bloom_probe_def by (simp add: set_fact_fk_name_def set_memory_def probe_loop_cells [of "_ \<lparr>fk_name := fk\<rparr>" b'])
    then have "lookup_pass \<lparr>bloom_filter = ?b, hash_table = h\<rparr> v = Inr (dim_pass (fk, ?keys, h) v)" for v
      using b'(3) [of v] by (simp add: lookup_pass_def same_bucket_def mult.commute)
    moreover have "stats_ok 1 [] ?b"
      using set_memory_ok [OF _ b, of 1] by (subst b'(2)) (simp add: stats_ok_def set_memory_def set_fact_fk_name_def)
    moreover have "hit_count b' = 0" "probe_count b' = 0" using b by (subst b'(2), auto simp: BloomFilter_new_def and_then_Inr Let_def)+
    ultimately show ?thesis by (simp add: lookup_ok_def set_memory_def set_fact_fk_name_def)
  qed
  ultimately show ?thesis by blast
qed

section \<open>Building all filters\<close>

text \<open>
  The scheduler may interleave the tasks of different dimensions; the column of a dimension is loaded before
  its filter is built.
\<close>

definition build_order :: "nat \<Rightarrow> build_step list \<Rightarrow> bool" where
  "build_order n sts \<longleftrightarrow> distinct sts \<and> set sts = LoadColumn ` {..<n} \<union> BuildFilter ` {..<n}
     \<and> (\<forall>xs i ys. sts = xs @ BuildFilter i # ys \<longrightarrow> LoadColumn i \<in> set xs)"

definition pk_column :: "lip_env \<Rightarrow> LIP \<Rightarrow> nat \<Rightarrow> chunked" where
  "pk_column env s i = (let t = lt_table (dim_tables s ! i) in tb_column (env_db env) t (tb_field (env_db env) t (dim_pk_col_names s ! i)))"

definition dim_of :: "lip_env \<Rightarrow> LIP \<Rightarrow> nat \<Rightarrow> dim" where
  "dim_of env s i = (fact_fk_col_names s ! i, selected (pk_column env s i) (lt_filter (dim_tables s ! i)), lt_hash_table (dim_tables s ! i))"

definition dims_ok :: "lip_env \<Rightarrow> LIP \<Rightarrow> bool" where
  "dims_ok env s \<longleftrightarrow> length (dim_pk_col_names s) = length (dim_tables s) \<and> length (fact_fk_col_names s) = length (dim_tables s)
     \<and> distinct (dim_pk_col_names s)
     \<and> (\<forall>i < length (dim_tables s). filter_fits (pk_column env s i) (lt_filter (dim_tables s ! i))
          \<and> length (selected (pk_column env s i) (lt_filter (dim_tables s ! i))) * 100 < 2 ^ 31)"

definition built :: "lip_env \<Rightarrow> build_step set \<Rightarrow> LIP \<Rightarrow> bool" where
  "built env D s \<longleftrightarrow> length (dim_filters s) = length (dim_tables s)
     \<and> (\<forall>i. LoadColumn i \<in> D \<longrightarrow> dim_pk_cols s (dim_pk_col_names s ! i) = Some (pk_column env s i))
     \<and> (\<forall>i. BuildFilter i \<in> D \<longrightarrow> (\<exists>lf. dim_filters s ! i = Some lf \<and> lookup_ok 0 0 0 (dim_of env s i) lf))"

lemma build_run_ok:
  assumes env: "env_ok env" and s: "dims_ok env s" "built env D s" "D \<subseteq> LoadColumn ` {..<length (dim_tables s)} \<union> BuildFilter ` {..<length (dim_tables s)}"
    and st: "st \<in> LoadColumn ` {..<length (dim_tables s)} \<union> BuildFilter ` {..<length (dim_tables s)}" "\<And>i. st = BuildFilter i \<Longrightarrow> LoadColumn i \<in> D"
  shows "\<exists>m fs. build_run env st s = Inr (s\<lparr>dim_pk_cols := m, dim_filters := fs\<rparr>) \<and> built env (insert st D) (s\<lparr>dim_pk_cols := m, dim_filters := fs\<rparr>)"
proof (cases st)
  case (LoadColumn i)
  then have i: "i < length (dim_tables s)" using st(1) by auto
  let ?m = "(dim_pk_cols s)(dim_pk_col_names s ! i \<mapsto> pk_column env s i)"
  let ?s = "s\<lparr>dim_pk_cols := ?m, dim_filters := dim_filters s\<rparr>"
  have "build_run env st s = Inr ?s" using LoadColumn i s(1) by (simp add: pk_column_def Let_def dims_ok_def)
  moreover have "dim_pk_col_names s ! j = dim_pk_col_names s ! i \<longleftrightarrow> j = i" if "LoadColumn j \<in> insert st D" for j
    using s(1,3) that i LoadColumn by (auto simp: dims_ok_def nth_eq_iff_index_eq)
  then have "built env (insert st D) ?s"
    using s(2) LoadColumn by (auto simp: built_def pk_column_def dim_of_def)
  ultimately show ?thesis by blast
next
  case (BuildFilter i)
  then have i: "i < length (dim_tables s)" "LoadColumn i \<in> D" using st by auto
  let ?d = "dim_tables s ! i" and ?fk = "fact_fk_col_names s ! i"
  have l: "length (dim_pk_col_names s) = length (dim_tables s)" "length (fact_fk_col_names s) = length (dim_tables s)" "length (dim_filters s) = length (dim_tables s)"
    using s(1,2) by (auto simp: dims_ok_def built_def)
  have c: "dim_pk_cols s (dim_pk_col_names s ! i) = Some (pk_column env s i)" using s(2) i(2) by (simp add: built_def)
  obtain b where b: "build_bloom env i (pk_column env s i) (lt_filter ?d) = Inr b"
    "lookup_ok 0 0 0 (dim_of env s i) \<lparr>bloom_filter = set_fact_fk_name ?fk (set_memory 1 b), hash_table = lt_hash_table ?d\<rparr>"
    using build_bloom_ok [OF env, of "pk_column env s i" "lt_filter ?d" i ?fk "lt_hash_table ?d"] s(1) i(1) by (auto simp: dims_ok_def dim_of_def)
  let ?lf = "\<lparr>bloom_filter = set_fact_fk_name ?fk (set_memory 1 b), hash_table = lt_hash_table ?d\<rparr>"
  let ?s = "s\<lparr>dim_pk_cols := dim_pk_cols s, dim_filters := (dim_filters s)[i := Some ?lf]\<rparr>"
  have "build_run env st s = Inr ?s" using BuildFilter i(1) l c b(1) by simp
  moreover have "j < length (dim_filters s)" if "BuildFilter j \<in> D" for j using s(3) that l(3) by auto
  then have "built env (insert st D) ?s"
    using s(2) BuildFilter b(2) i(1) l(3) by (auto simp: built_def pk_column_def dim_of_def nth_list_update)
  ultimately show ?thesis by blast
qed

lemma build_runs_ok:
  assumes env: "env_ok env"
  shows "build_order n (xs @ ys) \<Longrightarrow> n = length (dim_tables s) \<Longrightarrow> dims_ok env s \<Longrightarrow> built env (set xs) s
    \<Longrightarrow> \<exists>m fs. build_runs env ys s = Inr (s\<lparr>dim_pk_cols := m, dim_filters := fs\<rparr>) \<and> built env (set (xs @ ys)) (s\<lparr>dim_pk_cols := m, dim_filters := fs\<rparr>)"
proof (induction ys arbitrary: xs s)
  case Nil
  have "s\<lparr>dim_pk_cols := dim_pk_cols s, dim_filters := dim_filters s\<rparr> = s" by simp
  then show ?case using Nil.prems by (metis append_Nil2 build_runs.simps(1))
next
  case (Cons y ys)
  have D: "set xs \<subseteq> LoadColumn ` {..<length (dim_tables s)} \<union> BuildFilter ` {..<length (dim_tables s)}"
    "y \<in> LoadColumn ` {..<length (dim_tables s)} \<union> BuildFilter ` {..<length (dim_tables s)}" using Cons.prems(1,2) by (auto simp: build_order_def)
  have "y = BuildFilter i \<Longrightarrow> LoadColumn i \<in> set xs" for i using Cons.prems(1) unfolding build_order_def by blast
  then obtain m fs where 1: "build_run env y s = Inr (s\<lparr>dim_pk_cols := m, dim_filters := fs\<rparr>)"
    "built env (insert y (set xs)) (s\<lparr>dim_pk_cols := m, dim_filters := fs\<rparr>)" using build_run_ok [OF env Cons.prems(3,4) D] by blast
  let ?s = "s\<lparr>dim_pk_cols := m, dim_filters := fs\<rparr>"
  have "dims_ok env ?s" using Cons.prems(3) by (simp add: dims_ok_def pk_column_def)
  then obtain m' fs' where "build_runs env ys ?s = Inr (?s\<lparr>dim_pk_cols := m', dim_filters := fs'\<rparr>)"
    "built env (set ((xs @ [y]) @ ys)) (?s\<lparr>dim_pk_cols := m', dim_filters := fs'\<rparr>)"
    using Cons.IH [of "xs @ [y]" ?s] Cons.prems(1,2) 1(2) by auto
  then show ?case using 1(1) by auto
qed

lemma build_filters_ok:
  assumes "env_ok env" "build_order (length (dim_tables s)) (env_builds env (length (dim_tables s)))" "dims_ok env s"
  shows "\<exists>m fs. build_filters env s = Inr (s\<lparr>dim_pk_cols := m, dim_filters := map Some fs\<rparr>)
    \<and> list_all2 (lookup_ok 0 0 0) (map (dim_of env s) [0..<length (dim_tables s)]) fs"
proof -
  let ?n = "length (dim_tables s)" and ?s = "s\<lparr>dim_filters := replicate (length (dim_tables s)) None\<rparr>"
  have "dims_ok env ?s" "built env (set []) ?s" using assms(3) by (simp_all add: dims_ok_def pk_column_def built_def)
  from build_runs_ok [OF assms(1) _ _ this, of ?n "env_builds env ?n"] assms(2) obtain m fs where
    1: "build_filters env s = Inr (s\<lparr>dim_pk_cols := m, dim_filters := fs\<rparr>)" "built env (set (env_builds env ?n)) (s\<lparr>dim_pk_cols := m, dim_filters := fs\<rparr>)"
    by (auto simp: build_filters_def)
  have "BuildFilter i \<in> set (env_builds env ?n)" if "i < ?n" for i using assms(2) that by (simp add: build_order_def)
  then have f: "\<forall>i < ?n. \<exists>lf. fs ! i = Some lf \<and> lookup_ok 0 0 0 (dim_of env s i) lf" "length fs = ?n"
    using 1(2) by (auto simp: built_def dim_of_def pk_column_def)
  then have "fs = map Some (map the fs)" by (intro nth_equalityI) auto
  moreover have "list_all2 (lookup_ok 0 0 0) (map (dim_of env s) [0..<?n]) (map the fs)" using f by (auto simp: list_all2_conv_all_nth)
  ultimately show ?thesis using 1(1) by metis
qed

section \<open>Collecting tables and columns\<close>

lemma match_tables_eq:
  "ref_table (right_col p) \<noteq> ref_table (left_col p) \<Longrightarrow> match_tables p lts s
    = s\<lparr>fact_table := (case rev (filter (\<lambda>lt. lt_table lt = ref_table (left_col p)) lts) of [] \<Rightarrow> fact_table s | lt # _ \<Rightarrow> Some lt),
        dim_tables := dim_tables s @ filter (\<lambda>lt. lt_table lt = ref_table (right_col p)) lts\<rparr>"
proof (induction lts arbitrary: s)
  case (Cons lt lts)
  then show ?case by (cases "rev (filter (\<lambda>lt. lt_table lt = ref_table (left_col p)) lts)") auto
qed simp

lemma filter_table: "distinct (map lt_table lts) \<Longrightarrow> lt \<in> set lts \<Longrightarrow> filter (\<lambda>x. lt_table x = lt_table lt) lts = [lt]"
proof (induction lts)
  case (Cons x lts)
  have "filter (\<lambda>y. lt_table y = lt_table x) lts = []" using Cons.prems(1) by (auto simp: filter_empty_conv rev_image_eqI)
  moreover have "lt \<in> set lts \<Longrightarrow> lt_table x \<noteq> lt_table lt" using Cons.prems(1) by auto
  ultimately show ?case using Cons by auto
qed simp

definition view_of :: "OperatorResult \<Rightarrow> table_ptr \<Rightarrow> LazyTable" where
  "view_of views t = the (result_table_of t views)"

lemma filter_view:
  assumes "distinct (map lt_table views)" "t \<in> lt_table ` set views"
  shows "filter (\<lambda>x. lt_table x = t) views = [view_of views t]" "view_of views t \<in> set views" "lt_table (view_of views t) = t"
proof -
  obtain lt where lt: "lt \<in> set views" "t = lt_table lt" using assms(2) by auto
  then have "view_of views t = lt" using result_table_of_distinct [OF assms(1) lt(1)] by (simp add: view_of_def)
  then show "filter (\<lambda>x. lt_table x = t) views = [view_of views t]" "view_of views t \<in> set views" "lt_table (view_of views t) = t"
    using filter_table [OF assms(1) lt(1)] lt by auto
qed

text \<open>The join of a fact table with dimension tables, all of them among the views.\<close>

definition star_join :: "OperatorResult \<Rightarrow> JoinPredicate list \<Rightarrow> table_ptr \<Rightarrow> bool" where
  "star_join views preds f \<longleftrightarrow> preds \<noteq> [] \<and> distinct (map lt_table views) \<and> f \<in> lt_table ` set views
     \<and> (\<forall>p \<in> set preds. ref_table (left_col p) = f \<and> ref_table (right_col p) \<noteq> f \<and> ref_table (right_col p) \<in> lt_table ` set views)
     \<and> distinct (map (\<lambda>p. col_name (right_col p)) preds)"

lemma add_predicates_ok:
  assumes "star_join views preds f" "set ps \<subseteq> set preds" "prev_result s = views"
  shows "\<exists>m. add_predicates ps s = s\<lparr>fact_table := (if ps = [] then fact_table s else Some (view_of views f)),
      dim_tables := dim_tables s @ map (\<lambda>p. view_of views (ref_table (right_col p))) ps,
      fact_fk_col_names := fact_fk_col_names s @ map (\<lambda>p. col_name (left_col p)) ps,
      dim_pk_col_names := dim_pk_col_names s @ map (\<lambda>p. col_name (right_col p)) ps, dim_pk_cols := m\<rparr>"
  using assms(2,3)
proof (induction ps arbitrary: s)
  case Nil
  show ?case by (intro exI [of _ "dim_pk_cols s"]) simp
next
  case (Cons p ps)
  have p: "ref_table (left_col p) = f" "ref_table (right_col p) \<noteq> f" "ref_table (right_col p) \<in> lt_table ` set views"
    "f \<in> lt_table ` set views" "distinct (map lt_table views)" using assms(1) Cons.prems(1) by (auto simp: star_join_def)
  let ?s = "add_predicate p s"
  have s: "?s = s\<lparr>fact_table := Some (view_of views f), dim_tables := dim_tables s @ [view_of views (ref_table (right_col p))],
      fact_fk_col_names := fact_fk_col_names s @ [col_name (left_col p)], dim_pk_col_names := dim_pk_col_names s @ [col_name (right_col p)],
      dim_pk_cols := (dim_pk_cols s)(col_name (right_col p) := None)\<rparr>"
    using Cons.prems(2) p filter_view(1) [OF p(5)] by (simp add: add_predicate_def match_tables_eq)
  then have "prev_result ?s = views" using Cons.prems(2) by simp
  then show ?case using Cons.IH [of ?s] Cons.prems(1) s by auto
qed

text \<open>The fact table is a base table: no indices, and only its own columns materialised.\<close>

definition fact_ok :: "db_tables \<Rightarrow> LazyTable \<Rightarrow> bool" where
  "fact_ok db ft \<longleftrightarrow> lt_indices ft = None \<and> length (materialized_cols ft) = tb_num_cols db (lt_table ft)
     \<and> (\<forall>i < length (materialized_cols ft). materialized_cols ft ! i \<in> {None, Some (tb_column db (lt_table ft) i)})"

lemma materialize_fks_ok:
  fixes env
  defines "db \<equiv> env_db env"
  shows "fact_table s = Some ft \<Longrightarrow> fact_ok db ft \<Longrightarrow> \<forall>name \<in> set names. tb_field db (lt_table ft) name < tb_num_cols db (lt_table ft)
    \<Longrightarrow> \<exists>ft'. materialize_fks env names s = Inr (s\<lparr>fact_table := Some ft', fact_fk_cols := (\<lambda>name. if name \<in> set names
        then Some (tb_column db (lt_table ft) (tb_field db (lt_table ft) name)) else fact_fk_cols s name)\<rparr>)
      \<and> lt_table ft' = lt_table ft \<and> lt_filter ft' = lt_filter ft"
proof (induction names arbitrary: s ft)
  case Nil
  have "s\<lparr>fact_table := Some ft, fact_fk_cols := fact_fk_cols s\<rparr> = s" using Nil by simp
  then show ?case by (intro exI [of _ ft]) simp
next
  case (Cons name names)
  let ?t = "lt_table ft" and ?i = "tb_field db (lt_table ft) name"
  have i: "?i < length (materialized_cols ft)" using Cons.prems(2,3) by (simp add: fact_ok_def)
  then have m: "materialized_cols ft ! ?i \<in> {None, Some (tb_column db ?t ?i)}" "lt_indices ft = None" using Cons.prems(2) by (auto simp: fact_ok_def)
  let ?ft = "ft\<lparr>materialized_cols := (materialized_cols ft)[?i := Some (tb_column db ?t ?i)]\<rparr>"
  have same: "materialized_cols ft ! ?i = Some (tb_column db ?t ?i) \<Longrightarrow> ?ft = ft" by (metis LazyTable.surjective LazyTable.update_convs(6) list_update_id)
  have "MaterializeColumnTask db (env_grow env) (env_guess env) (env_slices env) ?i ft = Inr (tb_column db ?t ?i, ?ft)"
    using m i same by (auto simp: MaterializeColumnTask_def Let_def)
  then have 1: "materialize_fks env (name # names) s
      = materialize_fks env names (s\<lparr>fact_table := Some ?ft, fact_fk_cols := (fact_fk_cols s)(name \<mapsto> tb_column db ?t ?i)\<rparr>)"
    using Cons.prems(1) by (simp add: db_def)
  have "fact_ok db ?ft" using Cons.prems(2) by (auto simp: fact_ok_def) (metis nth_list_update_eq nth_list_update_neq)
  from Cons.IH [OF _ this, of "s\<lparr>fact_table := Some ?ft, fact_fk_cols := (fact_fk_cols s)(name \<mapsto> tb_column db ?t ?i)\<rparr>"] Cons.prems(3)
  obtain ft' where 2: "materialize_fks env names (s\<lparr>fact_table := Some ?ft, fact_fk_cols := (fact_fk_cols s)(name \<mapsto> tb_column db ?t ?i)\<rparr>)
      = Inr (s\<lparr>fact_table := Some ft', fact_fk_cols := (\<lambda>n. if n \<in> set names then Some (tb_column db ?t (tb_field db ?t n))
          else ((fact_fk_cols s)(name \<mapsto> tb_column db ?t ?i)) n)\<rparr>)" "lt_table ft' = ?t" "lt_filter ft' = lt_filter ft" by (auto cong: if_cong)
  have "(\<lambda>n. if n \<in> set names then Some (tb_column db ?t (tb_field db ?t n)) else ((fact_fk_cols s)(name \<mapsto> tb_column db ?t ?i)) n)
      = (\<lambda>n. if n \<in> set (name # names) then Some (tb_column db ?t (tb_field db ?t n)) else fact_fk_cols s n)" by auto
  then show ?case using 1 2 by auto
qed

lemma copy_fks_ok:
  "\<forall>name \<in> set names. fact_fk_cols s name \<noteq> None \<Longrightarrow> copy_fks names s
    = Inr (s\<lparr>fact_fk_cols2 := (\<lambda>n. if n \<in> set names then fact_fk_cols s n else fact_fk_cols2 s n)\<rparr>)"
proof (induction names arbitrary: s)
  case (Cons name names)
  obtain col where col: "fact_fk_cols s name = Some col" using Cons.prems by auto
  have "(\<lambda>n. if n \<in> set names then fact_fk_cols s n else ((fact_fk_cols2 s)(name \<mapsto> col)) n)
      = (\<lambda>n. if n \<in> set (name # names) then fact_fk_cols s n else fact_fk_cols2 s n)" using col by auto
  then show ?case using Cons col by (simp cong: if_cong)
qed simp

lemma make_out_cols_ok:
  "make_out_cols n (map Some fs) s = Inr (s\<lparr>out_fk_cols := (\<lambda>k. if k \<in> (\<lambda>lf. fk_name (bloom_filter lf)) ` set fs then Some (replicate n [])
     else out_fk_cols s k)\<rparr>)"
proof (induction fs arbitrary: s)
  case (Cons lf fs)
  have "(\<lambda>k. if k \<in> (\<lambda>lf. fk_name (bloom_filter lf)) ` set fs then Some (replicate n [])
        else ((out_fk_cols s)(fk_name (bloom_filter lf) \<mapsto> replicate n [])) k)
      = (\<lambda>k. if k \<in> (\<lambda>lf. fk_name (bloom_filter lf)) ` set (lf # fs) then Some (replicate n []) else out_fk_cols s k)" by auto
  then show ?case using Cons by (simp add: get_fact_fk_name_def cong: if_cong)
qed simp

lemma fact_offsets_eq: "fact_offsets a col = map (\<lambda>c. a + int (sum_list (take c (map length col)))) [0..<length col]"
proof (induction col arbitrary: a)
  case (Cons c col)
  have "[0..<length (c # col)] = 0 # map Suc [0..<length col]" by (simp add: map_Suc_upt upt_conv_Cons del: upt_Suc)
  then show ?case using Cons by (simp add: comp_def)
qed simp

lemma lip_prepare_ok:
  assumes "\<forall>name \<in> set (fact_fk_col_names s). fact_fk_cols s name \<noteq> None" "fact_fk_cols2 s = Map.empty" "out_fk_cols s = Map.empty"
    "first_fk_col s = Inr col" "col \<noteq> []" "dim_filters s = map Some fs"
  shows "lip_prepare s = Inr (s\<lparr>fact_fk_cols2 := (\<lambda>n. if n \<in> set (fact_fk_col_names s) then fact_fk_cols s n else None),
      lip_indices := replicate (length col) [],
      out_fk_cols := (\<lambda>k. if k \<in> (\<lambda>lf. fk_name (bloom_filter lf)) ` set fs then Some (replicate (length col) []) else None),
      chunk_row_offsets := fact_offsets 0 col\<rparr>)"
proof -
  let ?s = "s\<lparr>fact_fk_cols2 := (\<lambda>n. if n \<in> set (fact_fk_col_names s) then fact_fk_cols s n else None)\<rparr>"
  have "copy_fks (fact_fk_col_names s) s = Inr ?s" using copy_fks_ok [OF assms(1)] assms(2) by (simp cong: if_cong)
  moreover have "first_fk_col ?s = Inr col" using assms(4) by (simp add: first_fk_col_def)
  ultimately show ?thesis using assms(3,5,6) by (simp add: lip_prepare_def make_out_cols_ok Let_def cong: if_cong)
qed

section \<open>Row numbers of the output\<close>

lemma starts_sum: "c \<le> length vs \<Longrightarrow> starts a vs ! c = a + sum_list (take c (map length vs))"
proof (induction vs arbitrary: a c)
  case (Cons v vs)
  then show ?case by (cases c) auto
qed simp

lemma concat_chunk: "map length col = lens \<Longrightarrow> c < length lens \<Longrightarrow> r < lens ! c \<Longrightarrow> concat col ! (sum_list (take c lens) + r) = col ! c ! r"
  using concat_at [of c col 0 "sum_list (take c lens) + r"] starts_sum [of c col 0] by auto

lemma filter_chunks:
  assumes "\<And>c r. c < length lens \<Longrightarrow> r < lens ! c \<Longrightarrow> rp c r \<longleftrightarrow> Q (sum_list (take c lens) + r)"
  shows "m \<le> length lens \<Longrightarrow> concat (map (\<lambda>c. map (\<lambda>r. sum_list (take c lens) + r) (filter (rp c) [0..<lens ! c])) [0..<m])
    = filter Q [0..<sum_list (take m lens)]"
proof (induction m)
  case (Suc m)
  let ?o = "sum_list (take m lens)"
  have "[0..<?o + lens ! m] = [0..<?o] @ map (\<lambda>r. ?o + r) [0..<lens ! m]" using upt_add_eq_append [of 0 ?o "lens ! m"] map_add_upt [of ?o "lens ! m"] by (simp add: add.commute)
  moreover have "filter Q (map (\<lambda>r. ?o + r) [0..<lens ! m]) = map (\<lambda>r. ?o + r) (filter (rp m) [0..<lens ! m])"
  proof -
    have "filter (\<lambda>x. Q (?o + x)) [0..<lens ! m] = filter (rp m) [0..<lens ! m]" using assms [of m] Suc.prems by (intro filter_cong) auto
    then show ?thesis by (simp add: filter_map comp_def)
  qed
  ultimately show ?case using Suc by (simp add: take_Suc_conv_app_nth)
qed simp

lemma mset_concat_eq: "list_all2 (\<lambda>xs ys. mset xs = mset ys) xss yss \<Longrightarrow> mset (concat xss) = mset (concat yss)"
  by (induction rule: list_all2_induct) auto

lemma mset_output:
  assumes "length parts = length lens" "\<And>c. c < length lens \<Longrightarrow> mset (parts ! c) = passing cols lens ds c"
    "\<And>c r. c < length lens \<Longrightarrow> r < lens ! c \<Longrightarrow> row_passes cols ds c r \<longleftrightarrow> Q (sum_list (take c lens) + r)"
  shows "mset (concat parts) = mset (map of_nat (filter Q [0..<sum_list lens]))"
proof -
  let ?part = "\<lambda>c. map (\<lambda>r. sum_list (take c lens) + r) (filter (row_passes cols ds c) [0..<lens ! c])"
  have "list_all2 (\<lambda>xs ys. mset xs = mset ys) parts (map (\<lambda>c. map of_nat (?part c)) [0..<length lens])"
    unfolding list_all2_conv_all_nth using assms(1,2) by (simp add: passing_def comp_def)
  then have "mset (concat parts) = mset (map of_nat (concat (map ?part [0..<length lens])))" by (simp add: mset_concat_eq map_concat comp_def)
  also have "concat (map ?part [0..<length lens]) = filter Q [0..<sum_list lens]"
    using filter_chunks [of lens "row_passes cols ds" Q "length lens"] assms(3) by simp
  finally show ?thesis .
qed

lemma list_all2_chunks:
  assumes "\<And>i x. i < length parts \<Longrightarrow> x \<in> set (parts ! i) \<Longrightarrow> P x (g i)"
  shows "list_all2 P (concat parts) (concat (map (\<lambda>i. replicate (length (parts ! i)) (g i)) [0..<length parts]))"
proof -
  have "list_all2 P (concat (map ((!) parts) [0..<m])) (concat (map (\<lambda>i. replicate (length (parts ! i)) (g i)) [0..<m]))" if "m \<le> length parts" for m
    using that
  proof (induction m)
    case (Suc m)
    have "list_all2 P (parts ! m) (replicate (length (parts ! m)) (g m))" using assms [of m] Suc.prems by (auto simp: list_all2_conv_all_nth)
    then show ?case using Suc by (simp add: list_all2_appendI)
  qed simp
  from this [of "length parts"] show ?thesis by (simp add: map_nth)
qed

lemma output_chunks:
  assumes "length parts = length lens" "\<And>c. c < length lens \<Longrightarrow> mset (parts ! c) = passing cols lens ds c"
    "map length col = lens" "sum_list lens < 2 ^ 31" "length lens \<le> 65536"
  shows "list_all2 (chunk_has col) (concat parts) (index_chunk_list parts)"
  unfolding index_chunk_list_def
proof (rule list_all2_chunks)
  fix c i assume c: "c < length parts" and i: "i \<in> set (parts ! c)"
  have "i \<in># passing cols lens ds c" using assms(1,2) c i by (metis in_multiset_in_set)
  then obtain r where r: "r < lens ! c" "i = of_nat (sum_list (take c lens) + r)" unfolding passing_def in_multiset_in_set by auto
  have "sum_list (take c lens) + lens ! c \<le> sum_list lens" using c assms(1) by (intro sum_list_take_nth) simp
  then have "sum_list (take c lens) + r < 2 ^ 32" using r(1) assms(4) by simp
  then have u: "unat i = sum_list (take c lens) + r" unfolding r(2) unat_of_nat by (simp add: take_bit_nat_eq_self)
  have "unat (of_nat c :: u16) = c" using c assms(1,5) by (simp add: unat_of_nat take_bit_nat_eq_self)
  moreover have "starts 0 col ! c = sum_list (take c lens)" "length (col ! c) = lens ! c" "c < length col"
    using starts_sum [of c col 0] assms(1,3) c by auto
  ultimately show "chunk_has col i (of_nat c)" using u r(1) by (simp add: chunk_has_def)
qed

section \<open>The operator\<close>

definition pred_dim :: "lip_env \<Rightarrow> OperatorResult \<Rightarrow> JoinPredicate \<Rightarrow> dim" where
  "pred_dim env views p = (let d = view_of views (ref_table (right_col p)); t = lt_table d in
     (col_name (left_col p), selected (tb_column (env_db env) t (tb_field (env_db env) t (col_name (right_col p)))) (lt_filter d), lt_hash_table d))"

definition fk_column :: "lip_env \<Rightarrow> JoinPredicate \<Rightarrow> chunked" where
  "fk_column env p = (let t = ref_table (left_col p) in tb_column (env_db env) t (tb_field (env_db env) t (col_name (left_col p))))"

text \<open>The fact table is a base table with less than \<open>2\<^sup>3\<^sup>1\<close> rows, whose columns have chunks of the same lengths.\<close>

definition tables_fit :: "lip_env \<Rightarrow> OperatorResult \<Rightarrow> JoinPredicate list \<Rightarrow> table_ptr \<Rightarrow> nat list \<Rightarrow> bool" where
  "tables_fit env views preds f lens \<longleftrightarrow> fact_ok (env_db env) (view_of views f) \<and> lens \<noteq> [] \<and> sum_list lens < 2 ^ 31 \<and> length lens + 1 < 2 ^ 31
     \<and> (\<forall>p \<in> set preds. tb_field (env_db env) f (col_name (left_col p)) < tb_num_cols (env_db env) f \<and> map length (fk_column env p) = lens)
     \<and> (\<forall>p \<in> set preds. let d = view_of views (ref_table (right_col p)); t = lt_table d;
          pk = tb_column (env_db env) t (tb_field (env_db env) t (col_name (right_col p))) in
          filter_fits pk (lt_filter d) \<and> length (selected pk (lt_filter d)) * 100 < 2 ^ 31)"

lemma fold_append_result: "fold append_result prev r = r @ concat prev"
  by (induction prev arbitrary: r) auto

lemma fold_append_lazy: "fold append_lazy dims r = rev dims @ r"
  by (induction dims arbitrary: r) (auto simp: append_lazy_def)

text \<open>A key joins when a selected row of the dimension has it, and the hash table too if there is one.\<close>

fun dim_joins :: "dim \<Rightarrow> u64 \<Rightarrow> bool" where
  "dim_joins (fk, keys, hash) v \<longleftrightarrow> v \<in> set keys \<and> (case hash of None \<Rightarrow> True | Some ks \<Rightarrow> v \<in> set ks)"

lemma dim_joins_pass: "dim_joins d v \<Longrightarrow> dim_pass d v"
  by (cases d) (auto simp: same_bucket_def)

lemma lookup_names: "list_all2 (lookup_ok R B P) ds fs \<Longrightarrow> map fst ds = map (\<lambda>lf. fk_name (bloom_filter lf)) fs"
  by (induction rule: list_all2_induct) (auto simp: lookup_ok_def)

lemma lip_execute_parts:
  assumes env: "env_ok env" "\<And>n. build_order n (env_builds env n)" and g: "get_predicates 0 graph = Inr preds"
    and join: "star_join (concat prev) preds f" "tables_fit env (concat prev) preds f lens"
  shows "\<exists>s' cols parts. lip_execute env prev graph (LIP_new res) = Inr s'
    \<and> output_result s' = rev (map (\<lambda>p. view_of (concat prev) (ref_table (right_col p))) preds) @ res
        @ [LazyTable_new (env_db env) f (lt_filter (view_of (concat prev) f)) (Some (concat parts)) (Some (index_chunk_list parts))]
    \<and> length parts = length lens \<and> (\<forall>p \<in> set preds. cols (col_name (left_col p)) = Some (fk_column env p))
    \<and> (\<forall>c < length lens. mset (parts ! c) = passing cols lens (map (pred_dim env (concat prev)) preds) c)"
proof -
  let ?views = "concat prev" and ?db = "env_db env" and ?n = "length preds"
  let ?ft = "view_of ?views f" and ?D = "map (\<lambda>p. view_of ?views (ref_table (right_col p))) preds"
  let ?fks = "map (\<lambda>p. col_name (left_col p)) preds" and ?pks = "map (\<lambda>p. col_name (right_col p)) preds" and ?ds = "map (pred_dim env ?views) preds"
  have star: "preds \<noteq> []" "distinct (map lt_table ?views)" "f \<in> lt_table ` set ?views" "\<And>p. p \<in> set preds \<Longrightarrow> ref_table (left_col p) = f"
    "distinct ?pks" using join(1) by (auto simp: star_join_def)
  have ft: "lt_table ?ft = f" "fact_ok ?db ?ft" using filter_view(3) [OF star(2,3)] join(2) by (simp_all add: tables_fit_def)
  define s0 where "s0 = (LIP_new res)\<lparr>prev_result := ?views\<rparr>"
  obtain m where s1: "add_predicates preds s0 = s0\<lparr>fact_table := Some ?ft, dim_tables := ?D, fact_fk_col_names := ?fks, dim_pk_col_names := ?pks, dim_pk_cols := m\<rparr>"
    using add_predicates_ok [OF join(1) order_refl, of s0] star(1) by (auto simp: s0_def LIP_new_def)
  let ?s1 = "s0\<lparr>fact_table := Some ?ft, dim_tables := ?D, fact_fk_col_names := ?fks, dim_pk_col_names := ?pks, dim_pk_cols := m\<rparr>"
  let ?cols = "\<lambda>name. if name \<in> set ?fks then Some (tb_column ?db f (tb_field ?db f name)) else None"
  have fld: "\<forall>name \<in> set ?fks. tb_field ?db f name < tb_num_cols ?db f" using join(2) by (auto simp: tables_fit_def)
  obtain ft' where s2: "lip_initialize env ?s1 = Inr (?s1\<lparr>fact_table := Some ft', fact_fk_cols := ?cols\<rparr>)" "lt_table ft' = f" "lt_filter ft' = lt_filter ?ft"
    using materialize_fks_ok [of ?s1 ?ft env ?fks] ft fld by (auto simp: lip_initialize_def s0_def LIP_new_def cong: if_cong)
  let ?s2 = "?s1\<lparr>fact_table := Some ft', fact_fk_cols := ?cols\<rparr>"
  have dim: "map (dim_of env ?s2) [0..<length (dim_tables ?s2)] = ?ds"
    by (intro nth_equalityI) (simp_all add: dim_of_def pk_column_def pred_dim_def Let_def)
  have "dims_ok env ?s2" using join(2) star(5) by (auto simp: dims_ok_def pk_column_def tables_fit_def Let_def)
  from build_filters_ok [OF env(1) env(2) this] obtain m' fs where
    s3: "build_filters env ?s2 = Inr (?s2\<lparr>dim_pk_cols := m', dim_filters := map Some fs\<rparr>)" "list_all2 (lookup_ok 0 0 0) ?ds fs" unfolding dim by blast
  let ?s3 = "?s2\<lparr>dim_pk_cols := m', dim_filters := map Some fs\<rparr>"
  let ?col = "tb_column ?db f (tb_field ?db f (hd ?fks))"
  have first: "first_fk_col s = Inr ?col" if "fact_fk_col_names s = ?fks" "fact_fk_cols s = ?cols" for s
    using star(1) that by (cases preds) (auto simp: first_fk_col_def fetch_def)
  have col: "map length ?col = lens" "lens \<noteq> []" using join(2) star(1,4) by (cases preds; auto simp: tables_fit_def fk_column_def Let_def)+
  have len: "length ?col = length lens" using col(1) by (metis length_map)
  let ?s4 = "?s3\<lparr>fact_fk_cols2 := ?cols, lip_indices := replicate (length lens) [],
      out_fk_cols := (\<lambda>k. if k \<in> (\<lambda>lf. fk_name (bloom_filter lf)) ` set fs then Some (replicate (length lens) []) else None),
      chunk_row_offsets := fact_offsets 0 ?col\<rparr>"
  have s4: "lip_prepare ?s3 = Inr ?s4"
  proof -
    have "first_fk_col ?s3 = Inr ?col" by (rule first) simp_all
    then have "lip_prepare ?s3 = Inr (?s3\<lparr>fact_fk_cols2 := (\<lambda>n. if n \<in> set (fact_fk_col_names ?s3) then fact_fk_cols ?s3 n else None),
        lip_indices := replicate (length ?col) [],
        out_fk_cols := (\<lambda>k. if k \<in> (\<lambda>lf. fk_name (bloom_filter lf)) ` set fs then Some (replicate (length ?col) []) else None),
        chunk_row_offsets := fact_offsets 0 ?col\<rparr>)" by (intro lip_prepare_ok) (use len col(2) in \<open>auto simp: s0_def LIP_new_def\<close>)
    moreover have "(\<lambda>n. if n \<in> set (fact_fk_col_names ?s3) then fact_fk_cols ?s3 n else None) = ?cols" by auto
    ultimately show ?thesis unfolding len by simp
  qed
  have ready: "probe_ready lens ?ds ?s4"
  proof -
    have "map fst ?ds = map (\<lambda>lf. fk_name (bloom_filter lf)) fs" using lookup_names [OF s3(2)] .
    then have "fst ` set ?ds = (\<lambda>lf. fk_name (bloom_filter lf)) ` set fs" by (metis image_set)
    then have "fst d \<in> (\<lambda>lf. fk_name (bloom_filter lf)) ` set fs" if "d \<in> set ?ds" for d using that by (metis imageI)
    moreover have "\<exists>col. ?cols (fst d) = Some col \<and> map length col = lens" if "d \<in> set ?ds" for d
      using that join(2) star(4) by (auto simp: pred_dim_def tables_fit_def fk_column_def Let_def)
    ultimately show ?thesis using join(2) fact_offsets_eq [of 0 ?col] col(1) len by (simp add: probe_ready_def tables_fit_def)
  qed
  have "\<exists>s'. probe_filters env ?s4 = Inr s' \<and> s' = ?s4\<lparr>batch_size := batch_size s', lip_indices := lip_indices s', dim_filters := dim_filters s'\<rparr>
    \<and> length (lip_indices s') = length lens \<and> (\<forall>c < length lens. mset (lip_indices s' ! c) = passing (fact_fk_cols2 ?s4) lens ?ds c)"
    by (rule probe_filters_ok [OF env(1) _ first col ready _ _ s3(2)]) (use star(1) in simp_all)
  then obtain s5 where s5: "probe_filters env ?s4 = Inr s5" "s5 = ?s4\<lparr>batch_size := batch_size s5, lip_indices := lip_indices s5, dim_filters := dim_filters s5\<rparr>"
    "length (lip_indices s5) = length lens" "\<forall>c < length lens. mset (lip_indices s5 ! c) = passing ?cols lens ?ds c" by auto
  have f5: "fact_table s5 = Some ft'" "dim_tables s5 = ?D" "output_result s5 = res" by (subst s5(2), simp add: s0_def LIP_new_def)+
  obtain s6 where s6: "lip_finish env s5 = Inr s6" "output_result s6 = rev ?D @ res
      @ [LazyTable_new ?db f (lt_filter ?ft) (Some (concat (lip_indices s5))) (Some (index_chunk_list (lip_indices s5)))]"
    using s2(2,3) by (auto simp: lip_finish_def f5 fold_append_lazy Let_def)
  have "lip_execute env prev graph (LIP_new res) = Inr s6"
    using g s1 s2(1) s3(1) s4 s5(1) s6(1) by (simp add: lip_execute_def fold_append_result s0_def LIP_new_def Let_def)
  moreover have "?cols (col_name (left_col p)) = Some (fk_column env p)" if "p \<in> set preds" for p using that star(4) by (auto simp: fk_column_def Let_def)
  ultimately show ?thesis using s6(2) s5(3,4) by (intro exI [of _ s6] exI [of _ ?cols] exI [of _ "lip_indices s5"]) simp
qed

text \<open>The rows of the output as row numbers of the table.\<close>

lemma lip_execute_rows:
  assumes "env_ok env" "\<And>n. build_order n (env_builds env n)" "get_predicates 0 graph = Inr preds"
    and "star_join (concat prev) preds f" "tables_fit env (concat prev) preds f lens"
  shows "\<exists>s' rows chunks. lip_execute env prev graph (LIP_new res) = Inr s'
    \<and> output_result s' = rev (map (\<lambda>p. view_of (concat prev) (ref_table (right_col p))) preds) @ res
        @ [LazyTable_new (env_db env) f (lt_filter (view_of (concat prev) f)) (Some rows) (Some chunks)]
    \<and> mset rows = mset (map of_nat (filter (\<lambda>r. \<forall>p \<in> set preds. dim_pass (pred_dim env (concat prev) p) (concat (fk_column env p) ! r)) [0..<sum_list lens]))
    \<and> (\<forall>col :: chunked. map length col = lens \<and> length lens \<le> 65536 \<longrightarrow> list_all2 (chunk_has col) rows chunks)"
proof -
  let ?views = "concat prev" and ?ds = "map (pred_dim env (concat prev)) preds"
  let ?Q = "\<lambda>r. \<forall>p \<in> set preds. dim_pass (pred_dim env ?views p) (concat (fk_column env p) ! r)"
  obtain s' cols parts where s': "lip_execute env prev graph (LIP_new res) = Inr s'"
    "output_result s' = rev (map (\<lambda>p. view_of ?views (ref_table (right_col p))) preds) @ res
        @ [LazyTable_new (env_db env) f (lt_filter (view_of ?views f)) (Some (concat parts)) (Some (index_chunk_list parts))]"
    and parts: "length parts = length lens" "\<And>p. p \<in> set preds \<Longrightarrow> cols (col_name (left_col p)) = Some (fk_column env p)"
      "\<And>c. c < length lens \<Longrightarrow> mset (parts ! c) = passing cols lens ?ds c"
    using lip_execute_parts [OF assms, of res] by auto
  have fk: "map length (fk_column env p) = lens" if "p \<in> set preds" for p using assms(5) that by (simp add: tables_fit_def)
  have "row_passes cols ?ds c r \<longleftrightarrow> ?Q (sum_list (take c lens) + r)" if "c < length lens" "r < lens ! c" for c r
    using parts(2) concat_chunk [OF fk that] by (auto simp: row_passes_def pred_dim_def Let_def)
  from mset_output [OF parts(1,3) this] have rows: "mset (concat parts) = mset (map of_nat (filter ?Q [0..<sum_list lens]))" .
  have "sum_list lens < 2 ^ 31" using assms(5) by (simp add: tables_fit_def)
  then have "\<forall>col :: chunked. map length col = lens \<and> length lens \<le> 65536 \<longrightarrow> list_all2 (chunk_has col) (concat parts) (index_chunk_list parts)"
    using output_chunks [OF parts(1,3)] by blast
  then show ?thesis using s' rows by (intro exI [of _ s'] exI [of _ "concat parts"] exI [of _ "index_chunk_list parts"]) simp
qed

text \<open>C6: Lookahead information passing on a star join of a base fact table with dimension tables whose key columns have
  distinct names. Whatever the order in which filters are built and chunks are probed, the number of cores and the
  way the filters are sorted: the operator succeeds; its output has the dimension views and a view of the
  fact table with exactly the rows whose foreign keys pass every lookup, each once; the chunk noted for a
  row number has that row, when there are no more than 65536 chunks; and no row that joins is lost.
\<close>

theorem lip_rows:
  assumes "env_ok env" "\<And>n. build_order n (env_builds env n)" "get_predicates 0 graph = Inr preds"
    and "star_join (concat prev) preds f" "tables_fit env (concat prev) preds f lens"
  shows "\<exists>s' out rows chunks. lip_execute env prev graph (LIP_new res) = Inr s'
    \<and> output_result s' = rev (map (\<lambda>p. view_of (concat prev) (ref_table (right_col p))) preds) @ res @ [out]
    \<and> lt_table out = f \<and> lt_filter out = lt_filter (view_of (concat prev) f) \<and> lt_indices out = Some rows \<and> lt_index_chunks out = Some chunks
    \<and> mset rows = mset (map of_nat (filter (\<lambda>r. \<forall>p \<in> set preds. dim_pass (pred_dim env (concat prev) p) (concat (fk_column env p) ! r)) [0..<sum_list lens]))
    \<and> (length lens \<le> 65536 \<longrightarrow> (\<forall>p \<in> set preds. list_all2 (chunk_has (fk_column env p)) rows chunks))
    \<and> (\<forall>r < sum_list lens. (\<forall>p \<in> set preds. dim_joins (pred_dim env (concat prev) p) (concat (fk_column env p) ! r)) \<longrightarrow> of_nat r \<in> set rows)"
proof -
  let ?views = "concat prev"
  let ?Q = "\<lambda>r. \<forall>p \<in> set preds. dim_pass (pred_dim env ?views p) (concat (fk_column env p) ! r)"
  obtain s' rows chunks where s': "lip_execute env prev graph (LIP_new res) = Inr s'"
    "output_result s' = rev (map (\<lambda>p. view_of ?views (ref_table (right_col p))) preds) @ res
        @ [LazyTable_new (env_db env) f (lt_filter (view_of ?views f)) (Some rows) (Some chunks)]"
    and rows: "mset rows = mset (map of_nat (filter ?Q [0..<sum_list lens]))"
      "\<forall>col :: chunked. map length col = lens \<and> length lens \<le> 65536 \<longrightarrow> list_all2 (chunk_has col) rows chunks"
    using lip_execute_rows [OF assms, of res] by blast
  have "list_all2 (chunk_has (fk_column env p)) rows chunks" if "length lens \<le> 65536" "p \<in> set preds" for p
    using rows(2) assms(5) that by (simp add: tables_fit_def)
  moreover have "of_nat r \<in> set rows" if "r < sum_list lens" "?Q r" for r using that arg_cong [OF rows(1), of set_mset] by auto
  moreover have "?Q r" if "\<forall>p \<in> set preds. dim_joins (pred_dim env ?views p) (concat (fk_column env p) ! r)" for r using that dim_joins_pass by blast
  ultimately show ?thesis using s' rows(1)
    by (intro exI [of _ s'] exI [of _ "LazyTable_new (env_db env) f (lt_filter (view_of ?views f)) (Some rows) (Some chunks)"]
      exI [of _ rows] exI [of _ chunks]) (simp add: LazyTable_new_def)
qed

text \<open>C5: The rows that the lookahead operator keeps, materialised: for a column of the fact table that has the chunks of
  the others, materialising it in the output view gives the values of exactly the rows that pass every lookup.
\<close>

theorem lip_materialized:
  assumes "env_ok env" "\<And>n. build_order n (env_builds env n)" "get_predicates 0 graph = Inr preds"
    and "star_join (concat prev) preds f" "tables_fit env (concat prev) preds f lens" "length lens \<le> 65536"
    and "i < tb_num_cols (env_db env) f" "map length (tb_column (env_db env) f i) = lens" "sched_ok sched"
  shows "\<exists>s' col lt. lip_execute env prev graph (LIP_new res) = Inr s'
    \<and> MaterializeColumnTask (env_db env) grow guess sched i (last (output_result s')) = Inr (col, lt)
    \<and> mset (concat col) = mset (map (\<lambda>r. concat (tb_column (env_db env) f i) ! r)
        (filter (\<lambda>r. \<forall>p \<in> set preds. dim_pass (pred_dim env (concat prev) p) (concat (fk_column env p) ! r)) [0..<sum_list lens]))"
proof -
  let ?views = "concat prev" and ?db = "env_db env" and ?col = "tb_column (env_db env) f i"
  let ?Q = "\<lambda>r. \<forall>p \<in> set preds. dim_pass (pred_dim env ?views p) (concat (fk_column env p) ! r)" and ?n = "sum_list lens"
  obtain s' rows chunks where s': "lip_execute env prev graph (LIP_new res) = Inr s'"
    "output_result s' = rev (map (\<lambda>p. view_of ?views (ref_table (right_col p))) preds) @ res @ [LazyTable_new ?db f (lt_filter (view_of ?views f)) (Some rows) (Some chunks)]"
    and rows: "mset rows = mset (map of_nat (filter ?Q [0..<?n]))" and chunks: "list_all2 (chunk_has ?col) rows chunks"
    using lip_execute_rows [OF assms(1-5), of res] assms(6,8) by blast
  let ?out = "LazyTable_new ?db f (lt_filter (view_of ?views f)) (Some rows) (Some chunks)"
  have sz: "?n < 2 ^ 31" "lens \<noteq> []" using assms(5) by (simp_all add: tables_fit_def)
  have "length rows \<le> ?n" using arg_cong [OF rows, of size] length_filter_le [of ?Q "[0..<?n]"] unfolding size_mset length_map length_upt by simp
  moreover have "length (concat ?col) = ?n" "?col \<noteq> []" using assms(8) sz(2) by (auto simp: length_concat)
  ultimately have "indices_ok ?col rows (Some chunks)" using chunks sz(1) by (simp add: indices_ok_def)
  then obtain col lt where m: "MaterializeColumnTask ?db grow guess sched i ?out = Inr (col, lt)" "concat col = map (\<lambda>k. concat ?col ! unat k) rows"
    using materialize_task_ok [OF assms(9), of ?out i rows ?db grow guess] assms(7) by (auto simp: LazyTable_new_def)
  have "mset (concat col) = mset (map (\<lambda>k. concat ?col ! unat (of_nat k :: u32)) (filter ?Q [0..<?n]))"
    unfolding m(2) mset_map rows multiset.map_comp comp_def by simp
  also have "map (\<lambda>k. concat ?col ! unat (of_nat k :: u32)) (filter ?Q [0..<?n]) = map (\<lambda>r. concat ?col ! r) (filter ?Q [0..<?n])"
    using sz(1) by (intro map_cong refl) (simp add: unat_of_nat take_bit_nat_eq_self)
  finally show ?thesis using s' m(1) by auto
qed

section \<open>An environment\<close>

definition columns_first :: "nat \<Rightarrow> build_step list" where
  "columns_first n = map LoadColumn [0..<n] @ map BuildFilter [0..<n]"

lemma columns_first_order: "build_order n (columns_first n)"
proof -
  have "LoadColumn i \<in> set xs" if "columns_first n = xs @ BuildFilter i # ys" for xs i ys
  proof -
    have "BuildFilter i \<in> set (columns_first n)" using that by simp
    then have i: "i < n" by (auto simp: columns_first_def)
    from that consider us where "map LoadColumn [0..<n] = xs @ us" "us @ map BuildFilter [0..<n] = BuildFilter i # ys"
      | us where "xs = map LoadColumn [0..<n] @ us" unfolding columns_first_def append_eq_append_conv2 by auto
    then show ?thesis
    proof cases
      case 1
      have "set us \<subseteq> set (map LoadColumn [0..<n])" unfolding 1(1) by auto
      then have "us = []" using 1(2) by (cases us) auto
      then show ?thesis using 1(1) i by (metis append_Nil2 atLeast0LessThan image_eqI image_set lessThan_iff set_upt)
    qed (use i in simp)
  qed
  then show ?thesis by (auto simp: build_order_def columns_first_def distinct_map inj_on_def)
qed

text \<open>Exact rounding, chunks last to first, filters sorted by a stable sort.\<close>

definition simple_env :: "db_tables \<Rightarrow> (nat \<Rightarrow> build_step list) \<Rightarrow> nat \<Rightarrow> lip_env" where
  "simple_env db builds cores = \<lparr>env_db = db, env_round = (\<lambda>x. x), env_rand = (\<lambda>i k. 7), env_filter_size = (\<lambda>f. length (filter id f)),
     env_grow = (\<lambda>c n. n), env_guess = (\<lambda>s. 0), env_slices = rev, env_sort = sort_key (\<lambda>lf. get_hit_rate (\<lambda>x. x) (bloom_filter lf)),
     env_cores = cores, env_builds = builds, env_chunks = (\<lambda>b j cs. rev cs)\<rparr>"

lemma simple_env_ok: "env_ok (simple_env db builds cores)"
proof -
  have "sorted_wrt (\<lambda>l r. \<not> SortByBloomFilter (\<lambda>x. x) r l) (sort_key (\<lambda>lf. get_hit_rate (\<lambda>x. x) (bloom_filter lf)) fs)" for fs
    using sorted_sort_key [of "\<lambda>lf. get_hit_rate (\<lambda>x. x) (bloom_filter lf)" fs] by (simp add: sorted_map SortByBloomFilter_def compare_def not_less)
  moreover have "rounding_ok (\<lambda>x. x)" by (simp add: rounding_ok_def mono_def)
  ultimately show ?thesis by (simp add: env_ok_def simple_env_def tasks_ok_def sched_ok_def sort_ok_def)
qed

definition star_db :: db_tables where
  "star_db = \<lparr>tb_num_cols = (\<lambda>t. 2), tb_field = (\<lambda>t n. 0), tb_column = (\<lambda>t i. if t = 0 then [[1, 2], [9]] else if t = 7 then [[9, 1]] else [[5]])\<rparr>"

definition base_view :: "table_ptr \<Rightarrow> LazyTable" where "base_view t = LazyTable_new star_db t None None None"

lemma base_view_sel [simp]:
  "lt_table (base_view t) = t" "lt_filter (base_view t) = None" "lt_hash_table (base_view t) = None" "lt_indices (base_view t) = None"
  by (simp_all add: base_view_def LazyTable_new_def)

definition star_pred :: JoinPredicate where
  "star_pred = \<lparr>left_col = \<lparr>ref_table = 0, col_name = ''a''\<rparr>, comparator = EQUAL, right_col = \<lparr>ref_table = 7, col_name = ''id''\<rparr>\<rparr>"

definition star_graph :: JoinGraph where "star_graph = \<lparr>graph_tables = [0], adj = [[star_pred]], num_predicates = 1\<rparr>"

definition star_env :: lip_env where "star_env = simple_env star_db columns_first 2"

lemma star_ok:
  "env_ok star_env" "\<And>n. build_order n (env_builds star_env n)" "get_predicates 0 star_graph = Inr [star_pred]"
  "star_join (concat [[base_view 7], [base_view 0]]) [star_pred] 0" "tables_fit star_env (concat [[base_view 7], [base_view 0]]) [star_pred] 0 [2, 1]"
  "pred_dim star_env (concat [[base_view 7], [base_view 0]]) star_pred = (''a'', [9, 1], None)" "fk_column star_env star_pred = [[1, 2], [9]]"
  "view_of (concat [[base_view 7], [base_view 0]]) 7 = base_view 7"
proof -
  have v: "view_of (concat [[base_view 7], [base_view 0]]) 0 = base_view 0" "view_of (concat [[base_view 7], [base_view 0]]) 7 = base_view 7" by (simp_all add: view_of_def)
  have db: "env_db star_env = star_db" by (simp add: simple_env_def star_env_def)
  show fk: "fk_column star_env star_pred = [[1, 2], [9]]" unfolding fk_column_def Let_def db by (simp add: star_db_def star_pred_def)
  have "fact_ok star_db (base_view 0)" by (auto simp: fact_ok_def base_view_def LazyTable_new_def)
  then show "tables_fit star_env (concat [[base_view 7], [base_view 0]]) [star_pred] 0 [2, 1]"
    unfolding tables_fit_def using v by (simp add: fk db filter_fits_def selected_def) (simp add: star_db_def star_pred_def)
  show "pred_dim star_env (concat [[base_view 7], [base_view 0]]) star_pred = (''a'', [9, 1], None)"
    using v by (simp add: pred_dim_def db selected_def Let_def star_pred_def) (simp add: star_db_def)
  show "get_predicates 0 star_graph = Inr [star_pred]" by (simp add: get_predicates_def at_offset_def star_graph_def)
qed (auto simp: star_env_def simple_env_ok columns_first_order star_join_def star_pred_def view_of_def simple_env_def [of star_db columns_first 2, THEN arg_cong [of _ _ env_builds]])

theorem lip_rows_witness:
  "\<exists>s' out rows. lip_execute star_env [[base_view 7], [base_view 0]] star_graph (LIP_new []) = Inr s' \<and> output_result s' = [base_view 7, out]
    \<and> lt_indices out = Some rows \<and> 0 \<in> set rows \<and> 2 \<in> set rows"
proof -
  let ?views = "concat [[base_view 7], [base_view 0]]"
  from lip_rows [OF star_ok(1-5), of "[]"] obtain s' out rows where
    1: "lip_execute star_env [[base_view 7], [base_view 0]] star_graph (LIP_new []) = Inr s'" "output_result s' = [base_view 7, out]" "lt_indices out = Some rows"
    and r: "\<forall>r < sum_list [2, 1]. (\<forall>p \<in> set [star_pred]. dim_joins (pred_dim star_env ?views p) (concat (fk_column star_env p) ! r)) \<longrightarrow> of_nat r \<in> set rows"
    using star_ok(8) by (auto simp: star_pred_def)
  have "(of_nat 0 :: u32) \<in> set rows" "(of_nat 2 :: u32) \<in> set rows" by (rule r [rule_format]; use star_ok(6,7) in auto)+
  then show ?thesis using 1 by auto
qed

theorem lip_materialized_witness:
  "\<exists>s' col lt. lip_execute star_env [[base_view 7], [base_view 0]] star_graph (LIP_new []) = Inr s'
    \<and> MaterializeColumnTask star_db (\<lambda>c n. n) (\<lambda>s. 0) rev 0 (last (output_result s')) = Inr (col, lt) \<and> 1 \<in> set (concat col) \<and> 9 \<in> set (concat col)"
proof -
  let ?views = "concat [[base_view 7], [base_view 0]]"
  have "env_db star_env = star_db" "sched_ok rev" by (simp_all add: simple_env_def star_env_def sched_ok_def)
  then obtain s' col lt where 1: "lip_execute star_env [[base_view 7], [base_view 0]] star_graph (LIP_new []) = Inr s'"
    "MaterializeColumnTask star_db (\<lambda>c n. n) (\<lambda>s. 0) rev 0 (last (output_result s')) = Inr (col, lt)"
    "mset (concat col) = mset (map (\<lambda>r. concat (tb_column star_db 0 0) ! r)
        (filter (\<lambda>r. \<forall>p \<in> set [star_pred]. dim_pass (pred_dim star_env ?views p) (concat (fk_column star_env p) ! r)) [0..<sum_list [2, 1]]))"
    using lip_materialized [OF star_ok(1-5), of 0 rev "[]" "\<lambda>c n. n" "\<lambda>s. 0"] by (auto simp: star_db_def)
  have "dim_pass (''a'', [9, 1], None) 1" "dim_pass (''a'', [9, 1], None) 9" by (rule dim_joins_pass, simp)+
  then have "{1, 9} \<subseteq> set (concat col)" using arg_cong [OF 1(3), of set_mset] star_ok(6,7) by (auto simp: star_db_def upt_rec)
  then show ?thesis using 1(1,2) by auto
qed

section \<open>Key columns of the same name\<close>

text \<open>C39: The columns of the dimension keys are kept by their names alone. Two dimensions whose key columns have the same
  name share one entry: when the scheduler loads both columns before it builds the first filter, an order that
  respects all dependencies, the filter of the first dimension is built from the keys of the second.
\<close>

theorem build_filters_race:
  assumes "env_ok env" "dim_tables s = [d0, d1]" "dim_pk_col_names s = [name, name]" "fact_fk_col_names s = [fk0, fk1]"
    and order: "env_builds env 2 = [LoadColumn 0, LoadColumn 1, BuildFilter 0, BuildFilter 1]"
    and fit: "\<And>i. i < 2 \<Longrightarrow> filter_fits (pk_column env s 1) (lt_filter ([d0, d1] ! i))"
      "\<And>i. i < 2 \<Longrightarrow> length (selected (pk_column env s 1) (lt_filter ([d0, d1] ! i))) * 100 < 2 ^ 31"
  shows "build_order 2 (env_builds env 2) \<and> (\<exists>s' lf. build_filters env s = Inr s' \<and> dim_filters s' ! 0 = Some lf
    \<and> (\<forall>v. lookup_pass lf v = Inr (dim_pass (fk0, selected (pk_column env s 1) (lt_filter d0), lt_hash_table d0) v)))"
proof
  have "LoadColumn i \<in> set xs" if "[LoadColumn 0, LoadColumn 1, BuildFilter 0, BuildFilter 1] = xs @ BuildFilter i # ys" for xs i ys
    using that by (auto simp: Cons_eq_append_conv append_eq_Cons_conv)
  then show "build_order 2 (env_builds env 2)" unfolding order build_order_def by (auto simp: numeral_2_eq_2 less_Suc_eq)
  let ?pk = "pk_column env s 1"
  obtain b0 where b0: "build_bloom env 0 ?pk (lt_filter d0) = Inr b0"
    "lookup_ok 0 0 0 (fk0, selected ?pk (lt_filter d0), lt_hash_table d0) \<lparr>bloom_filter = set_fact_fk_name fk0 (set_memory 1 b0), hash_table = lt_hash_table d0\<rparr>"
    using build_bloom_ok [OF assms(1) fit(1) fit(2), of 0 0] by auto
  obtain b1 where b1: "build_bloom env 1 ?pk (lt_filter d1) = Inr b1" using build_bloom_ok [OF assms(1) fit(1) fit(2), of 1 1] by auto
  have pk: "?pk = tb_column (env_db env) (lt_table d1) (tb_field (env_db env) (lt_table d1) name)" using assms(2,3) by (simp add: pk_column_def Let_def)
  let ?lf = "\<lparr>bloom_filter = set_fact_fk_name fk0 (set_memory 1 b0), hash_table = lt_hash_table d0\<rparr>"
  have "\<exists>s'. build_filters env s = Inr s' \<and> dim_filters s' ! 0 = Some ?lf"
    using assms(2-4) order b0(1) b1 unfolding pk by (simp add: build_filters_def numeral_2_eq_2 fetch_def)
  then show "\<exists>s' lf. build_filters env s = Inr s' \<and> dim_filters s' ! 0 = Some lf
    \<and> (\<forall>v. lookup_pass lf v = Inr (dim_pass (fk0, selected ?pk (lt_filter d0), lt_hash_table d0) v))"
    using b0(2) unfolding lookup_ok_def by blast
qed

theorem build_filters_race_witness:
  "\<exists>env s s' lf. dim_joins (dim_of env s 0) 1 \<and> build_order 2 (env_builds env 2) \<and> build_filters env s = Inr s' \<and> dim_filters s' ! 0 = Some lf
    \<and> lookup_pass lf 1 = Inr False"
proof -
  let ?env = "simple_env star_db columns_first 2"
  let ?s = "(LIP_new [])\<lparr>dim_tables := [base_view 7, base_view 8], dim_pk_col_names := [''id'', ''id''], fact_fk_col_names := [''a'', ''b'']\<rparr>"
  have pk: "pk_column ?env ?s 1 = [[5]]" "pk_column ?env ?s 0 = [[9, 1]]" by (simp_all add: pk_column_def simple_env_def star_db_def)
  have "dim_joins (dim_of ?env ?s 0) 1" by (simp add: dim_of_def pk(2) selected_def)
  moreover have "build_order 2 (env_builds ?env 2) \<and> (\<exists>s' lf. build_filters ?env ?s = Inr s' \<and> dim_filters s' ! 0 = Some lf
    \<and> (\<forall>v. lookup_pass lf v = Inr (dim_pass (''a'', selected (pk_column ?env ?s 1) (lt_filter (base_view 7)), lt_hash_table (base_view 7)) v)))"
  proof (rule build_filters_race [OF simple_env_ok])
    show "env_builds ?env 2 = [LoadColumn 0, LoadColumn 1, BuildFilter 0, BuildFilter 1]" by (simp add: simple_env_def columns_first_def numeral_2_eq_2)
    show "filter_fits (pk_column ?env ?s 1) (lt_filter ([base_view 7, base_view 8] ! i))"
      "length (selected (pk_column ?env ?s 1) (lt_filter ([base_view 7, base_view 8] ! i))) * 100 < 2 ^ 31" if "i < 2" for i
      using that unfolding pk by (auto simp: less_2_cases_iff filter_fits_def selected_def)
  qed simp_all
  moreover have "\<not> dim_pass (''a'', selected (pk_column ?env ?s 1) (lt_filter (base_view 7)), lt_hash_table (base_view 7)) 1"
  proof -
    have "\<not> same_bucket 1 5 1" by code_simp
    then show ?thesis unfolding pk by (simp add: selected_def)
  qed
  ultimately obtain s' lf where l: "dim_joins (dim_of ?env ?s 0) 1" "build_order 2 (env_builds ?env 2)" "build_filters ?env ?s = Inr s'" "dim_filters s' ! 0 = Some lf"
    "lookup_pass lf 1 = Inr False" by auto
  then show ?thesis by (intro exI [of _ ?env] exI [of _ ?s] exI [of _ s'] exI [of _ lf] conjI)
qed

end
