(* ===== verification/Varint.thy ===== *)
theory Varint
  imports Prelude
begin

text \<open>
  SQLite's variable-length integers as Hustle reads them
  (\<open>src/src/storage/utils/record_utils.h\<close>) and the writer of the embedded SQLite
  (\<open>src/third_party/sqlite3/sqlite3.c\<close>) that produces what it reads. The decoders are
  translated statement by statement on 32-bit words, the way the C code keeps two interleaved
  accumulators; \<open>varint_val\<close> and \<open>varint_len\<close> are the reference reading of the format
  (big-endian groups of seven bits, a ninth byte of eight bits). The lemmas show that the
  decoders compute the reference reading on every byte sequence, that they look at the bytes
  of the integer only, and that reading back what the writer wrote gives the value and the
  length. The locale \<open>byte_codec\<close> states what a reader of a record header relies on.
\<close>

unbundle bit_operations_syntax

section \<open>Variable-length integers\<close>

definition SLOT_2_0 :: u32 where "SLOT_2_0 = 0x001fc07f"
definition SLOT_4_2_0 :: u32 where "SLOT_4_2_0 = 0xf01fc07f"

text \<open>\<open>((u64)s) << 32 | a\<close>.\<close>

definition mk64 :: "u32 \<Rightarrow> u32 \<Rightarrow> u64" where
  "mk64 s a = push_bit 32 (ucast s) OR ucast a"

text \<open>
  The result is the value stored through \<open>v\<close> and the number of bytes returned. The pointer
  moves by one between the tests, so \<open>*p\<close> after the \<open>k\<close>-th move is \<open>p k\<close>.
\<close>

definition sqlite3GetVarint :: "mem \<Rightarrow> u64 \<times> nat" where
  "sqlite3GetVarint p =
    (if 0 \<le> sint (p 0) then (ucast (p 0), 1)
     else if 0 \<le> sint (p 1)
     then (ucast (push_bit 7 (ucast (p 0 AND 0x7f) :: u32) OR ucast (p 1)), 2)
     else
     let a = push_bit 14 (ucast (p 0)) :: u32;
         b = ucast (p 1) :: u32;
         a = a OR ucast (p 2)
     in if a AND 0x80 = 0 then
       (let a = a AND SLOT_2_0; b = b AND 0x7f; b = push_bit 7 b; a = a OR b
        in (ucast a, 3))
     else
     let a = a AND SLOT_2_0;
         b = push_bit 14 b;
         b = b OR ucast (p 3)
     in if b AND 0x80 = 0 then
       (let b = b AND SLOT_2_0; a = push_bit 7 a; a = a OR b
        in (ucast a, 4))
     else
     let b = b AND SLOT_2_0;
         s = a;
         a = push_bit 14 a;
         a = a OR ucast (p 4)
     in if a AND 0x80 = 0 then
       (let b = push_bit 7 b; a = a OR b; s = drop_bit 18 s
        in (mk64 s a, 5))
     else
     let s = push_bit 7 s;
         s = s OR b;
         b = push_bit 14 b;
         b = b OR ucast (p 5)
     in if b AND 0x80 = 0 then
       (let a = a AND SLOT_2_0; a = push_bit 7 a; a = a OR b; s = drop_bit 18 s
        in (mk64 s a, 6))
     else
     let a = push_bit 14 a;
         a = a OR ucast (p 6)
     in if a AND 0x80 = 0 then
       (let a = a AND SLOT_4_2_0; b = b AND SLOT_2_0; b = push_bit 7 b; a = a OR b;
            s = drop_bit 11 s
        in (mk64 s a, 7))
     else
     let a = a AND SLOT_2_0;
         b = push_bit 14 b;
         b = b OR ucast (p 7)
     in if b AND 0x80 = 0 then
       (let b = b AND SLOT_4_2_0; a = push_bit 7 a; a = a OR b; s = drop_bit 4 s
        in (mk64 s a, 8))
     else
     let a = push_bit 15 a;
         a = a OR ucast (p 8);
         b = b AND SLOT_2_0;
         b = push_bit 8 b;
         a = a OR b;
         s = push_bit 4 s;
         b = ucast (p 4);
         b = b AND 0x7f;
         b = drop_bit 3 b;
         s = s OR b
     in (mk64 s a, 9))"

text \<open>
  \<open>sqlite3GetVarint32\<close> is compiled without its one-byte case, since \<open>getVarint32\<close> is a macro of
  the same header that handles it; \<^const>\<open>None\<close> is its failed assertion on the byte count.
\<close>

definition SQLITE_MAX_U32 :: u64 where "SQLITE_MAX_U32 = push_bit 32 1 - 1"

definition sqlite3GetVarint32 :: "mem \<Rightarrow> (u32 \<times> nat) option" where
  "sqlite3GetVarint32 p =
    (let a = ucast (p 0) :: u32;
         b = ucast (p 1) :: u32
     in if b AND 0x80 = 0 then
       (let a = a AND 0x7f; a = push_bit 7 a in Some (a OR b, 2))
     else
     let a = push_bit 14 a;
         a = a OR ucast (p 2)
     in if a AND 0x80 = 0 then
       (let a = a AND (push_bit 14 0x7f OR 0x7f); b = b AND 0x7f; b = push_bit 7 b
        in Some (a OR b, 3))
     else
     let (v64, n) = sqlite3GetVarint p
     in if \<not> (n > 3 \<and> n \<le> 9) then None
        else if v64 AND SQLITE_MAX_U32 \<noteq> v64 then Some (0xffffffff, n)
        else Some (ucast v64, n))"

definition getVarint32 :: "mem \<Rightarrow> (u32 \<times> nat) option" where
  "getVarint32 p = (if p 0 < 0x80 then Some (ucast (p 0), 1) else sqlite3GetVarint32 p)"

text \<open>The writer of the embedded SQLite.\<close>

fun put_septets :: "nat \<Rightarrow> mem \<Rightarrow> u64 \<Rightarrow> mem" where
  "put_septets 0 p v = p"
| "put_septets (Suc i) p v = put_septets i (p(i := ucast ((v AND 0x7f) OR 0x80))) (drop_bit 7 v)"

function varint_buf :: "u64 \<Rightarrow> u8 list" where
  "varint_buf v = ucast ((v AND 0x7f) OR 0x80) #
     (let v' = drop_bit 7 v in if v' \<noteq> 0 then varint_buf v' else [])"
  by pat_completeness auto
termination
proof (relation "measure unat")
  fix v v' :: u64
  assume v': "v' = drop_bit 7 v" and nz: "v' \<noteq> 0"
  have "unat v' = unat v div 128" by (simp add: v' drop_bit_eq_div unat_div_distrib)
  moreover have "unat v' \<noteq> 0" using nz by (simp add: unat_eq_zero)
  ultimately show "(v', v) \<in> measure unat" by simp
qed simp

definition putVarint64 :: "mem \<Rightarrow> u64 \<Rightarrow> (mem \<times> nat) option" where
  "putVarint64 p v =
    (if v AND push_bit 32 0xff000000 \<noteq> 0 then
       Some (put_septets 8 (p(8 := ucast v)) (drop_bit 8 v), 9)
     else
       let buf = varint_buf v;
           n = length buf;
           buf = buf[0 := buf ! 0 AND 0x7f]
       in if n \<le> 9 then Some (\<lambda>i. if i < n then buf ! (n - 1 - i) else p i, n) else None)"

definition sqlite3PutVarint :: "mem \<Rightarrow> u64 \<Rightarrow> (mem \<times> nat) option" where
  "sqlite3PutVarint p v =
    (if v \<le> 0x7f then Some (p(0 := ucast (v AND 0x7f)), 1)
     else if v \<le> 0x3fff then
       Some (p(0 := ucast ((drop_bit 7 v AND 0x7f) OR 0x80), 1 := ucast (v AND 0x7f)), 2)
     else putVarint64 p v)"

text \<open>The reference reading of the format.\<close>

fun septets :: "mem \<Rightarrow> nat \<Rightarrow> u64" where
  "septets p 0 = 0"
| "septets p (Suc n) = push_bit 7 (septets p n) OR ucast (p n AND 0x7f)"

definition varint_len :: "mem \<Rightarrow> nat" where
  "varint_len p =
    (case find (\<lambda>i. \<not> bit (p i) 7) [0, 1, 2, 3, 4, 5, 6, 7] of None \<Rightarrow> 9 | Some i \<Rightarrow> i + 1)"

definition varint_val :: "mem \<Rightarrow> u64" where
  "varint_val p =
    (if varint_len p = 9 then push_bit 8 (septets p 8) OR ucast (p 8)
     else septets p (varint_len p))"

definition saturate32 :: "u64 \<Rightarrow> u32" where
  "saturate32 v = (if v > 0xffffffff then 0xffffffff else ucast v)"

text \<open>Sequences of values, one behind the other from position \<open>i\<close>.\<close>

fun get_all :: "(mem \<Rightarrow> 'v \<times> nat) \<Rightarrow> nat \<Rightarrow> mem \<Rightarrow> nat \<Rightarrow> 'v list \<times> nat" where
  "get_all get 0 p i = ([], i)"
| "get_all get (Suc m) p i =
    (let (v, n) = get (\<lambda>k. p (i + k)); (vs, j) = get_all get m p (i + n) in (v # vs, j))"

fun put_all :: "(mem \<Rightarrow> 'v \<Rightarrow> (mem \<times> nat) option) \<Rightarrow> 'v list \<Rightarrow> mem \<Rightarrow> nat \<Rightarrow> (mem \<times> nat) option" where
  "put_all put [] p i = Some (p, i)"
| "put_all put (v # vs) p i =
    (case put (\<lambda>k. p (i + k)) v of None \<Rightarrow> None
     | Some (q, n) \<Rightarrow> put_all put vs (\<lambda>k. if k < i then p k else q (k - i)) (i + n))"

text \<open>The same bytes through the 32-bit reader, for values that fit.\<close>

definition put32 :: "mem \<Rightarrow> u32 \<Rightarrow> (mem \<times> nat) option" where
  "put32 p v = sqlite3PutVarint p (ucast v)"

definition get32 :: "mem \<Rightarrow> u32 \<times> nat" where
  "get32 p = (case getVarint32 p of Some r \<Rightarrow> r | None \<Rightarrow> (0, 0))"

text \<open>
  The written form of a value of \<open>n < 9\<close> septets: high bits set on all bytes but the last.
\<close>

definition written :: "mem \<Rightarrow> nat \<Rightarrow> u64 \<Rightarrow> bool" where
  "written q n v \<longleftrightarrow> (\<forall>k < n. ucast (q k AND 0x7f) = take_bit 7 (drop_bit (7 * (n - 1 - k)) v))
     \<and> (\<forall>k < n - 1. bit (q k) 7) \<and> \<not> bit (q (n - 1)) 7 \<and> drop_bit (7 * n) v = 0"

section \<open>The decoders compute the reference reading\<close>

lemma and_80_u32: "(x :: u32) AND 0x80 = 0 \<longleftrightarrow> \<not> bit x 7"
proof
  assume "x AND 0x80 = 0"
  then have "\<not> bit (x AND 0x80) 7" by simp
  then show "\<not> bit x 7" by (simp only: bit_unfold) simp
next
  assume "\<not> bit x 7"
  then show "x AND 0x80 = 0" by (intro bit_word_eqI) (auto simp only: bit_unfold bit_0_eq)
qed

lemma bit_SLOT_2_0 [bit_unfold]: "bit SLOT_2_0 n \<longleftrightarrow> n < 7 \<or> 14 \<le> n \<and> n < 21"
proof -
  have "bit (push_bit 14 (mask 7) OR mask 7 :: u32) n \<longleftrightarrow> n < 7 \<or> 14 \<le> n \<and> n < 21"
    by (auto simp only: bit_or_iff bit_push_bit_iff bit_mask_iff) auto
  also have "push_bit 14 (mask 7) OR mask 7 = SLOT_2_0"
    by (simp add: SLOT_2_0_def mask_eq_exp_minus_1)
  finally show ?thesis .
qed

lemma bit_SLOT_4_2_0 [bit_unfold]:
  "bit SLOT_4_2_0 n \<longleftrightarrow> n < 7 \<or> 14 \<le> n \<and> n < 21 \<or> 28 \<le> n \<and> n < 32"
proof -
  have "bit (push_bit 28 (mask 7) OR push_bit 14 (mask 7) OR mask 7 :: u32) n
      \<longleftrightarrow> n < 7 \<or> 14 \<le> n \<and> n < 21 \<or> 28 \<le> n \<and> n < 32"
    by (auto simp only: bit_or_iff bit_push_bit_iff bit_mask_iff) auto
  also have "push_bit 28 (mask 7) OR push_bit 14 (mask 7) OR mask 7 = SLOT_4_2_0"
    by (simp add: SLOT_4_2_0_def mask_eq_exp_minus_1)
  finally show ?thesis .
qed

lemma byte_beyond_add: "8 \<le> (numeral m :: nat) \<Longrightarrow> \<not> bit (x :: u8) (numeral m + k)"
  by (rule byte_beyond) (rule trans_le_add1)

lemma no_high_bit: "\<not> bit x 7 \<Longrightarrow> \<forall>n \<ge> 7. \<not> bit (x :: u8) n"
proof (intro allI impI)
  fix n :: nat
  assume "\<not> bit x 7" and "7 \<le> n"
  then show "\<not> bit x n" using byte_beyond [of n x] by (cases "n = 7") auto
qed

lemma septets_numeral:
  "septets p (numeral k) =
     push_bit 7 (septets p (pred_numeral k)) OR ucast (p (pred_numeral k) AND 0x7f)"
  by (simp only: numeral_eq_Suc septets.simps)

lemmas septets_unfold = septets_numeral septets.simps pred_numeral_simps BitM.simps One_nat_def

text \<open>Bit positions septet by septet, cut at the 32-bit halves.\<close>

lemma cut_at: "a \<le> b \<Longrightarrow> n < b \<Longrightarrow> n < a \<or> (\<exists>k < b - a. n = a + k)" for a b n :: nat
  by (metis add_diff_cancel_left' diff_less_mono le_add_diff_inverse not_less)

lemma septet_positions:
  "n < (64 :: nat) \<Longrightarrow> n < 7 \<or> (\<exists>k < 7. n = 7 + k) \<or> (\<exists>k < 7. n = 14 + k)
     \<or> (\<exists>k < 7. n = 21 + k) \<or> (\<exists>k < 4. n = 28 + k) \<or> (\<exists>k < 3. n = 32 + k)
     \<or> (\<exists>k < 7. n = 35 + k) \<or> (\<exists>k < 7. n = 42 + k) \<or> (\<exists>k < 7. n = 49 + k) \<or> (\<exists>k < 8. n = 56 + k)"
  using cut_at [of 7 14 n] cut_at [of 14 21 n] cut_at [of 21 28 n] cut_at [of 28 32 n] cut_at [of 32 35 n] cut_at [of 35 42 n] cut_at [of 42 49 n] cut_at [of 49 56 n] cut_at [of 56 64 n]
  by auto

lemma octet_positions:
  "n < (64 :: nat) \<Longrightarrow> n < 8 \<or> (\<exists>k < 7. n = 8 + k) \<or> (\<exists>k < 7. n = 15 + k)
     \<or> (\<exists>k < 7. n = 22 + k) \<or> (\<exists>k < 3. n = 29 + k) \<or> (\<exists>k < 4. n = 32 + k)
     \<or> (\<exists>k < 7. n = 36 + k) \<or> (\<exists>k < 7. n = 43 + k) \<or> (\<exists>k < 7. n = 50 + k) \<or> (\<exists>k < 7. n = 57 + k)"
  using cut_at [of 8 15 n] cut_at [of 15 22 n] cut_at [of 22 29 n] cut_at [of 29 32 n] cut_at [of 32 36 n] cut_at [of 36 43 n] cut_at [of 43 50 n] cut_at [of 50 57 n] cut_at [of 57 64 n]
  by auto

lemma varint_unfold:
  "(varint_val p, varint_len p) =
    (if \<not> bit (p 0) 7 then (septets p 1, 1) else if \<not> bit (p 1) 7 then (septets p 2, 2)
     else if \<not> bit (p 2) 7 then (septets p 3, 3) else if \<not> bit (p 3) 7 then (septets p 4, 4)
     else if \<not> bit (p 4) 7 then (septets p 5, 5) else if \<not> bit (p 5) 7 then (septets p 6, 6)
     else if \<not> bit (p 6) 7 then (septets p 7, 7) else if \<not> bit (p 7) 7 then (septets p 8, 8)
     else (push_bit 8 (septets p 8) OR ucast (p 8), 9))"
  by (simp add: varint_len_def varint_val_def del: septets.simps flip: numeral_2_eq_2)

lemma if_chain: "(\<not> b \<Longrightarrow> x = x') \<Longrightarrow> y = y' \<Longrightarrow>
   (if \<not> b then (x, n :: nat) else y) = (if \<not> b then (x', n) else y')"
  by simp


text \<open>The interleaved accumulators compute the reference value, on every length.\<close>

lemma sqlite3GetVarint_eq: "sqlite3GetVarint p = (varint_val p, varint_len p)"
  apply (simp only: sqlite3GetVarint_def Let_def and_80_u32 u8_sint_nonneg bit_unfold varint_unfold
      rel_simps arith_simps simp_thms)
  apply (intro if_chain)
  apply (simp_all only: prod.inject simp_thms)
  prefer 9
  apply (rule bit_word_eqI, simp only: mk64_def bit_unfold septets_unfold)
  apply (drule octet_positions, elim disjE exE conjE; simp add: byte_beyond_add)
  apply ((drule no_high_bit, rule bit_word_eqI, simp only: mk64_def bit_unfold septets_unfold,
     drule septet_positions, elim disjE exE conjE); simp add: byte_beyond_add)+
  done

lemma bit_septets_bound: "bit (septets p n) i \<Longrightarrow> i < 7 * n"
proof (induction n arbitrary: i)
  case (Suc n)
  then have "7 \<le> i \<and> bit (septets p n) (i - 7) \<or> i < 7"
    by (auto simp only: septets.simps bit_unfold)
  then show ?case using Suc.IH [of "i - 7"] by auto
qed simp

lemma SQLITE_MAX_U32_mask: "SQLITE_MAX_U32 = mask 32"
  by (simp add: SQLITE_MAX_U32_def mask_eq_exp_minus_1)

lemma and_MAX_U32: "v AND SQLITE_MAX_U32 = v \<longleftrightarrow> v \<le> 0xffffffff"
proof -
  have "v AND SQLITE_MAX_U32 = v \<longleftrightarrow> take_bit 32 v = v"
    by (simp only: SQLITE_MAX_U32_mask take_bit_eq_mask)
  also have "\<dots> \<longleftrightarrow> unat v < 2 ^ 32"
    by (metis take_bit_nat_eq_self_iff unsigned_take_bit_eq word_unat_eq_iff)
  also have "\<dots> \<longleftrightarrow> v \<le> 0xffffffff" by (simp add: word_le_nat_alt less_Suc_eq_le flip: less_Suc_eq_le)
  finally show ?thesis .
qed

lemma saturate32_septets: "7 * n \<le> 32 \<Longrightarrow> saturate32 (septets p n) = ucast (septets p n)"
proof -
  assume n: "7 * n \<le> 32"
  have "septets p n AND SQLITE_MAX_U32 = septets p n"
    using n by (intro bit_word_eqI) (auto simp: SQLITE_MAX_U32_mask bit_and_iff bit_mask_iff dest: bit_septets_bound)
  then show ?thesis using and_MAX_U32 [of "septets p n"] by (auto simp: saturate32_def)
qed

lemma cut32:
  "n < (32 :: nat) \<Longrightarrow> n < 7 \<or> (\<exists>k < 7. n = 7 + k) \<or> (\<exists>k < 7. n = 14 + k)
     \<or> (\<exists>k < 7. n = 21 + k) \<or> (\<exists>k < 4. n = 28 + k)"
  using septet_positions [of n] by auto

lemma getVarint32_2:
  "\<not> bit (p 1) 7 \<Longrightarrow> push_bit 7 (ucast (p 0) AND 0x7f) OR ucast (p 1) = (ucast (septets p 2) :: u32)"
  apply (drule no_high_bit)
  apply (rule bit_word_eqI)
  apply (simp only: bit_unfold septets_unfold)
  apply (drule cut32, elim disjE exE conjE; simp add: byte_beyond_add)
  done

lemma getVarint32_3:
  "\<not> bit (p 2) 7 \<Longrightarrow> (push_bit 14 (ucast (p 0)) OR ucast (p 2)) AND (push_bit 14 0x7f OR 0x7f)
     OR push_bit 7 (ucast (p 1) AND 0x7f) = (ucast (septets p 3) :: u32)"
  apply (drule no_high_bit)
  apply (rule bit_word_eqI)
  apply (simp only: bit_unfold septets_unfold)
  apply (drule cut32, elim disjE exE conjE; simp add: byte_beyond_add)
  done

lemma getVarint32_1: "\<not> bit (p 0) 7 \<Longrightarrow> ucast (p 0) = (ucast (septets p 1) :: u32)"
  apply (drule no_high_bit)
  apply (rule bit_word_eqI)
  apply (simp only: bit_unfold septets_unfold)
  subgoal for n by (cases "n < 7") auto
  done

declare varint_buf.simps [simp del]

lemma varint_buf_Nil: "varint_buf v \<noteq> []" by (subst varint_buf.simps) simp

lemma septets_of:
  assumes "\<And>k. k < n \<Longrightarrow> ucast (p k AND 0x7f) = take_bit 7 (drop_bit (7 * (n - 1 - k)) v)"
    and "drop_bit (7 * n) v = 0" and "m \<le> n"
  shows "septets p m = drop_bit (7 * (n - m)) (v :: u64)"
  using \<open>m \<le> n\<close>
proof (induction m)
  case 0
  then show ?case using assms(2) by simp
next
  case (Suc m)
  have e: "7 * (n - m) = 7 + 7 * (n - 1 - m)" using Suc.prems by (simp add: algebra_simps)
  have "septets p (Suc m) = push_bit 7 (drop_bit (7 * (n - m)) v) OR take_bit 7 (drop_bit (7 * (n - 1 - m)) v)"
    using Suc assms(1) [of m] by simp
  also have "\<dots> = drop_bit (7 * (n - 1 - m)) v"
    unfolding e by (intro bit_word_eqI) (auto simp add: bit_simps)
  finally show ?case by simp
qed

lemma varint_buf_nth: "k < length (varint_buf v) \<Longrightarrow> varint_buf v ! k = ucast ((drop_bit (7 * k) v AND 0x7f) OR 0x80)"
proof (induction v arbitrary: k rule: varint_buf.induct)
  case (1 v)
  show ?case
  proof (cases k)
    case 0
    then show ?thesis by (subst varint_buf.simps) simp
  next
    case (Suc j)
    with 1(2) have nz: "drop_bit 7 v \<noteq> 0" by (subst (asm) varint_buf.simps) (auto simp: Let_def split: if_splits)
    with 1(2) Suc have "j < length (varint_buf (drop_bit 7 v))" by (subst (asm) varint_buf.simps) (simp add: Let_def)
    with 1(1) [OF refl nz this] nz Suc show ?thesis
      by (subst varint_buf.simps) (simp add: Let_def algebra_simps)
  qed
qed
lemma varint_buf_end: "drop_bit (7 * length (varint_buf v)) v = 0"
proof (induction v rule: varint_buf.induct)
  case (1 v)
  then show ?case by (subst varint_buf.simps) (simp add: Let_def algebra_simps)
qed
lemma varint_buf_length: "drop_bit (7 * n) v = 0 \<Longrightarrow> 0 < n \<Longrightarrow> length (varint_buf v) \<le> n"
proof (induction v arbitrary: n rule: varint_buf.induct)
  case (1 v)
  show ?case
  proof (cases "drop_bit 7 v = 0")
    case True
    then show ?thesis using 1(3) by (subst varint_buf.simps) simp
  next
    case False
    with 1(2) have "n \<noteq> 1" by auto
    then obtain m where m: "n = Suc m" "0 < m" using 1(3) by (cases n) auto
    have "length (varint_buf (drop_bit 7 v)) \<le> m" using 1(1)[OF refl False] 1(2) m by (simp add: algebra_simps)
    then show ?thesis using False m by (subst varint_buf.simps) (simp add: Let_def)
  qed
qed

lemma varint_4_to_9: "bit (p 0) 7 \<Longrightarrow> bit (p 1) 7 \<Longrightarrow> bit (p 2) 7 \<Longrightarrow> 3 < varint_len p \<and> varint_len p \<le> 9"
  by (simp add: varint_len_def split: option.split)

lemma getVarint32_eq: "getVarint32 p = Some (saturate32 (varint_val p), varint_len p)"
proof -
  note unfold = getVarint32_def sqlite3GetVarint32_def Let_def u8_high_bit and_80_u32 bit_unfold
    rel_simps arith_simps simp_thms
  consider "\<not> bit (p 0) 7" | "bit (p 0) 7" "\<not> bit (p 1) 7" | "bit (p 0) 7" "bit (p 1) 7" "\<not> bit (p 2) 7"
    | "bit (p 0) 7" "bit (p 1) 7" "bit (p 2) 7"
    by blast
  then show ?thesis
  proof cases
    case 1
    then have "(varint_val p, varint_len p) = (septets p 1, 1)" by (simp only: varint_unfold simp_thms if_True)
    with 1 show ?thesis using getVarint32_1 [of p] saturate32_septets [of 1 p]
      by (simp only: unfold) simp
  next
    case 2
    then have "(varint_val p, varint_len p) = (septets p 2, 2)" by (simp only: varint_unfold simp_thms if_True if_False)
    with 2 show ?thesis using getVarint32_2 [of p] saturate32_septets [of 2 p]
      by (simp only: unfold) simp
  next
    case 3
    then have "(varint_val p, varint_len p) = (septets p 3, 3)" by (simp only: varint_unfold simp_thms if_True if_False)
    with 3 show ?thesis using getVarint32_3 [of p] saturate32_septets [of 3 p]
      by (simp only: unfold) simp
  next
    case 4
    then show ?thesis
      using varint_4_to_9 [OF 4]
      by (simp only: unfold sqlite3GetVarint_eq and_MAX_U32) (auto simp: saturate32_def not_less)
  qed
qed


section \<open>Locality\<close>

lemma find_upt_Some_iff:
  "find P [0..<n] = Some i \<longleftrightarrow> i < n \<and> P i \<and> (\<forall>j < i. \<not> P j)"
  by (auto simp: find_Some_iff)

lemma varint_len_upt:
  "varint_len p = (case find (\<lambda>i. \<not> bit (p i) 7) [0..<8] of None \<Rightarrow> 9 | Some i \<Rightarrow> i + 1)"
proof -
  have "[0..<8] = [0, 1, 2, 3, 4, 5, 6, 7 :: nat]" by (simp add: upt_conv_Cons)
  then show ?thesis by (simp only: varint_len_def)
qed

lemma varint_len_bounds: "0 < varint_len p \<and> varint_len p \<le> 9"
  by (simp add: varint_len_def split: option.split)

lemma varint_len_eqI:
  assumes "0 < n" "n \<le> 8" "\<And>k. k < n - 1 \<Longrightarrow> bit (p k) 7" "\<not> bit (p (n - 1)) 7"
  shows "varint_len p = n"
proof -
  have "find (\<lambda>i. \<not> bit (p i) 7) [0..<8] = Some (n - 1)"
    unfolding find_upt_Some_iff using assms by auto
  then show ?thesis using assms(1) by (simp only: varint_len_upt) simp
qed

lemma varint_len_9: "(\<And>k. k < 8 \<Longrightarrow> bit (p k) 7) \<Longrightarrow> varint_len p = 9"
proof -
  assume "\<And>k. k < 8 \<Longrightarrow> bit (p k) 7"
  then have "find (\<lambda>i. \<not> bit (p i) 7) [0..<8] = None" by (auto simp only: find_None_iff set_upt atLeastLessThan_iff)
  then show ?thesis by (simp only: varint_len_upt option.case)
qed

lemma varint_len_cases:
  obtains "0 < varint_len p" "varint_len p \<le> 8" "\<And>k. k < varint_len p - 1 \<Longrightarrow> bit (p k) 7"
      "\<not> bit (p (varint_len p - 1)) 7"
  | "varint_len p = 9" "\<And>k. k < 8 \<Longrightarrow> bit (p k) 7"
proof (cases "find (\<lambda>i. \<not> bit (p i) 7) [0..<8]")
  case None
  then have "varint_len p = 9" by (simp only: varint_len_upt option.case)
  with None show ?thesis using that(2) by (auto simp: find_None_iff)
next
  case (Some i)
  then have "varint_len p = i + 1" by (simp only: varint_len_upt option.case)
  moreover have "i < 8 \<and> \<not> bit (p i) 7 \<and> (\<forall>j < i. bit (p j) 7)"
    using Some unfolding find_upt_Some_iff by simp
  ultimately show ?thesis using that(1) by simp
qed

lemma septets_cong: "(\<And>k. k < n \<Longrightarrow> p k = q k) \<Longrightarrow> septets p n = septets q n"
  by (induction n) auto

lemma varint_len_cong:
  assumes "\<And>k. k < varint_len p \<Longrightarrow> p k = q k"
  shows "varint_len q = varint_len p"
  using assms by (cases rule: varint_len_cases [of p]) (auto intro!: varint_len_eqI varint_len_9)

lemma varint_val_cong:
  assumes "\<And>k. k < varint_len p \<Longrightarrow> p k = q k"
  shows "varint_val q = varint_val p"
  using assms septets_cong [of "varint_len p" p q] septets_cong [of 8 p q]
  by (auto simp: varint_val_def varint_len_cong [OF assms])

section \<open>Reading back what was written\<close>

lemma bit_or_80: "bit (ucast ((x AND 0x7f) OR (0x80 :: u64)) :: u8) 7"
  by (simp only: bit_unfold) simp

lemma or_80_7f: "ucast (ucast ((x AND 0x7f) OR (0x80 :: u64)) AND (0x7f :: u8)) = take_bit 7 (x :: u64)"
  by (rule bit_word_eqI, simp only: bit_unfold mask7_and [symmetric]) auto

lemma and_7f_7f: "ucast (ucast (x AND 0x7f) AND (0x7f :: u8)) = take_bit 7 (x :: u64)"
  by (rule bit_word_eqI, simp only: bit_unfold mask7_and [symmetric]) auto

lemma or_80_and_7f: "ucast ((x AND 0x7f) OR (0x80 :: u64)) AND (0x7f :: u8) = ucast (x AND 0x7f)"
  by (rule bit_word_eqI, simp only: bit_unfold) auto

lemma no_bit_7f: "\<not> bit (ucast ((x :: u64) AND 0x7f) :: u8) 7"
  by (simp only: bit_unfold) simp

lemma put_septets_nth:
  "put_septets n p v i =
     (if i < n then ucast ((drop_bit (7 * (n - 1 - i)) v AND 0x7f) OR 0x80) else p i)"
proof (induction n p v rule: put_septets.induct)
  case (2 n p v)
  have "7 + 7 * (n - 1 - i) = 7 * (n - i)" if "i < n" using that by (simp add: algebra_simps)
  then show ?case using 2 by (auto simp: less_Suc_eq add.commute simp del: fun_upd_apply) (auto simp: fun_upd_apply)
qed simp

lemma writtenI:
  assumes "\<And>k. k < n \<Longrightarrow> q k = (if k = n - 1 then ucast (v AND 0x7f)
      else ucast ((drop_bit (7 * (n - 1 - k)) v AND 0x7f) OR 0x80))"
    and "0 < n" "drop_bit (7 * n) v = 0"
  shows "written q n v"
  using assms or_80_7f and_7f_7f bit_or_80 no_bit_7f by (simp add: written_def)

lemma written_read: "written q n v \<Longrightarrow> 0 < n \<Longrightarrow> n \<le> 8 \<Longrightarrow> varint_len q = n \<and> varint_val q = v"
  using varint_len_eqI [of n q] septets_of [of n q v n]
  by (auto simp: written_def varint_val_def)

lemma drop_64: "64 \<le> n \<Longrightarrow> drop_bit n (v :: u64) = 0"
  by (rule bit_word_eqI) (simp add: bit_simps)

lemma written_9:
  assumes "\<And>k. k < 8 \<Longrightarrow> q k = ucast ((drop_bit (7 * (7 - k)) (drop_bit 8 v) AND 0x7f) OR 0x80)"
    and "q 8 = ucast v"
  shows "varint_len q = 9 \<and> varint_val q = v"
proof -
  have "septets q 8 = drop_bit 8 v"
    using septets_of [of 8 q "drop_bit 8 v" 8] assms(1) or_80_7f by (simp add: drop_64)
  moreover have "push_bit 8 (drop_bit 8 v) OR ucast (ucast v :: u8) = v"
    by (rule bit_word_eqI, simp only: bit_unfold) auto
  ultimately show ?thesis using varint_len_9 [of q] assms bit_or_80 by (simp add: varint_val_def)
qed

lemma putVarint64_short:
  assumes "v AND push_bit 32 0xff000000 = 0"
  shows "\<exists>q n. putVarint64 p v = Some (q, n) \<and> 0 < n \<and> n \<le> 8 \<and> written q n v \<and> (\<forall>i \<ge> n. q i = p i)"
proof -
  let ?b = "varint_buf v"
  let ?n = "length ?b"
  let ?q = "\<lambda>i. if i < ?n then ?b[0 := ?b ! 0 AND 0x7f] ! (?n - 1 - i) else p i"
  have "drop_bit 56 v = 0"
  proof (rule bit_word_eqI)
    fix k :: nat
    assume "k < LENGTH(64)"
    have eq: "push_bit 32 0xff000000 = (push_bit 56 (mask 8) :: u64)"
      by (simp add: mask_eq_exp_minus_1)
    have "\<not> bit (v AND push_bit 56 (mask 8)) (56 + k)"
      using assms by (simp only: eq bit_0_eq) simp
    then show "bit (drop_bit 56 v) k \<longleftrightarrow> bit (0 :: u64) k"
      using bit_imp_le_length [of v "56 + k"]
      by (auto simp: bit_and_iff bit_push_bit_iff bit_mask_iff bit_drop_bit_eq)
  qed
  then have n: "0 < ?n" "?n \<le> 8" using varint_buf_length [of 8 v] varint_buf_Nil [of v] by auto
  have nth: "?q k = (if k = ?n - 1 then ucast (v AND 0x7f)
      else ucast ((drop_bit (7 * (?n - 1 - k)) v AND 0x7f) OR 0x80))" if "k < ?n" for k
    using that varint_buf_nth [of "?n - 1 - k" v] n or_80_and_7f by (auto simp: nth_list_update)
  then have "written ?q ?n v" using n varint_buf_end [of v] by (intro writtenI) blast+
  moreover have "putVarint64 p v = Some (?q, ?n)"
    using assms n by (simp only: putVarint64_def Let_def) simp
  ultimately show ?thesis using n by auto
qed

text \<open>
  What the writer promises: it writes \<open>n\<close> bytes and no other, and they read back as the value.
\<close>

lemma sqlite3PutVarint_ok:
  "\<exists>q n. sqlite3PutVarint p v = Some (q, n) \<and> varint_len q = n \<and> varint_val q = v
     \<and> (\<forall>i \<ge> n. q i = p i)"
proof -
  consider "v \<le> 0x7f" | "\<not> v \<le> 0x7f" "v \<le> 0x3fff" | "\<not> v \<le> 0x7f" "\<not> v \<le> 0x3fff"
    by blast
  then show ?thesis
  proof cases
    case 1
    let ?q = "p(0 := ucast (v AND 0x7f))"
    have "drop_bit 7 v = 0" using 1
      by (simp add: drop_bit_eq_div word_le_nat_alt unat_div_distrib flip: unat_eq_zero)
    then have "written ?q 1 v" by (simp add: writtenI)
    then show ?thesis using written_read [of ?q 1 v] 1 by (auto simp: sqlite3PutVarint_def)
  next
    case 2
    let ?q = "p(0 := ucast ((drop_bit 7 v AND 0x7f) OR 0x80), 1 := ucast (v AND 0x7f))"
    have "drop_bit 14 v = 0" using 2
      by (simp add: drop_bit_eq_div word_le_nat_alt unat_div_distrib flip: unat_eq_zero)
    then have "written ?q 2 v" by (intro writtenI) (auto simp: less_Suc_eq numeral_2_eq_2)
    then show ?thesis using written_read [of ?q 2 v] 2 by (auto simp: sqlite3PutVarint_def)
  next
    case 3
    then have put: "sqlite3PutVarint p v = putVarint64 p v" by (simp add: sqlite3PutVarint_def)
    show ?thesis
    proof (cases "v AND push_bit 32 0xff000000 = 0")
      case True
      then show ?thesis using putVarint64_short [of v p] written_read put by metis
    next
      case False
      let ?q = "put_septets 8 (p(8 := ucast v)) (drop_bit 8 v)"
      have "putVarint64 p v = Some (?q, 9)" using False by (simp only: putVarint64_def Let_def) simp
      moreover have "varint_len ?q = 9 \<and> varint_val ?q = v"
        by (rule written_9) (simp_all add: put_septets_nth)
      ultimately show ?thesis using put by (simp add: put_septets_nth)
    qed
  qed
qed

section \<open>The interface a reader of record headers relies on\<close>

text \<open>
  A codec of self-delimiting values in byte memory: a written value reads back with its length,
  the writer leaves the bytes behind it alone, and the reader looks at no byte behind it.
\<close>

locale byte_codec =
  fixes put :: "mem \<Rightarrow> 'v \<Rightarrow> (mem \<times> nat) option"
    and get :: "mem \<Rightarrow> 'v \<times> nat"
  assumes put_get: "\<exists>q n. put p v = Some (q, n) \<and> get q = (v, n) \<and> 0 < n \<and> (\<forall>i \<ge> n. q i = p i)"
    and get_local: "(\<And>k. k < snd (get p) \<Longrightarrow> p k = q k) \<Longrightarrow> get q = get p"
begin

lemma put_all_keeps: "put_all put vs p i = Some (q, j) \<Longrightarrow> i \<le> j \<and> (\<forall>k < i. q k = p k)"
proof (induction vs arbitrary: p i)
  case (Cons v vs)
  obtain q' n where put: "put (\<lambda>k. p (i + k)) v = Some (q', n)" "0 < n"
    using put_get by blast
  with Cons.prems have "put_all put vs (\<lambda>k. if k < i then p k else q' (k - i)) (i + n) = Some (q, j)"
    by simp
  from Cons.IH [OF this] show ?case by auto
qed simp

lemma put_all_total: "\<exists>q j. put_all put vs p i = Some (q, j)"
proof (induction vs arbitrary: p i)
  case (Cons v vs)
  obtain q n where "put (\<lambda>k. p (i + k)) v = Some (q, n)" using put_get by blast
  then show ?case using Cons.IH by simp
qed simp

lemma get_put_all:
  "put_all put vs p i = Some (q, j) \<Longrightarrow> get_all get (length vs) q i = (vs, j)"
proof (induction vs arbitrary: p i)
  case (Cons v vs)
  obtain q' n where put: "put (\<lambda>k. p (i + k)) v = Some (q', n)" "get q' = (v, n)"
    using put_get by blast
  let ?p = "\<lambda>k. if k < i then p k else q' (k - i)"
  have rest: "put_all put vs ?p (i + n) = Some (q, j)" using Cons.prems put by simp
  have "get (\<lambda>k. q (i + k)) = get q'"
    using put_all_keeps [OF rest] put(2) by (intro get_local) simp
  then show ?case using Cons.IH [OF rest] put(2) by simp
qed simp

text \<open>No two value sequences share a written form.\<close>

lemma put_all_inj:
  assumes "put_all put vs p i = Some (q, j)" "put_all put ws p' i = Some (q', j')"
    and "length vs = length ws" "\<And>k. q k = q' k"
  shows "vs = ws \<and> j = j'"
  using get_put_all [OF assms(1)] get_put_all [OF assms(2)] assms(3,4)
  by (metis ext prod.inject)

end

interpretation varint: byte_codec sqlite3PutVarint sqlite3GetVarint
proof
  show "\<exists>q n. sqlite3PutVarint p v = Some (q, n) \<and> sqlite3GetVarint q = (v, n) \<and> 0 < n
      \<and> (\<forall>i \<ge> n. q i = p i)" for p v
    using sqlite3PutVarint_ok [of p v] varint_len_bounds by (auto simp: sqlite3GetVarint_eq)
  show "(\<And>k. k < snd (sqlite3GetVarint p) \<Longrightarrow> p k = q k) \<Longrightarrow> sqlite3GetVarint q = sqlite3GetVarint p" for p q
    using varint_len_cong [of p q] varint_val_cong [of p q] by (simp add: sqlite3GetVarint_eq)
qed

lemma get32_eq: "get32 p = (saturate32 (varint_val p), varint_len p)"
  by (simp add: get32_def getVarint32_eq)

lemma saturate32_ucast: "saturate32 (ucast (v :: u32)) = v"
proof -
  have "(ucast v :: u64) AND SQLITE_MAX_U32 = ucast v"
    by (rule bit_word_eqI) (auto simp: SQLITE_MAX_U32_mask bit_and_iff bit_mask_iff bit_unsigned_iff dest: bit_imp_le_length)
  then have "\<not> ucast v > (0xffffffff :: u64)" using and_MAX_U32 by (auto simp: not_less)
  moreover have "ucast (ucast v :: u64) = v" by (rule bit_word_eqI) (simp add: bit_unsigned_iff)
  ultimately show ?thesis by (simp add: saturate32_def)
qed

interpretation varint32: byte_codec put32 get32
proof
  show "\<exists>q n. put32 p v = Some (q, n) \<and> get32 q = (v, n) \<and> 0 < n \<and> (\<forall>i \<ge> n. q i = p i)" for p v
    using sqlite3PutVarint_ok [of p "ucast v"] varint_len_bounds saturate32_ucast
    by (auto simp: put32_def get32_eq)
  show "(\<And>k. k < snd (get32 p) \<Longrightarrow> p k = q k) \<Longrightarrow> get32 q = get32 p" for p q
    using varint_len_cong [of p q] varint_val_cong [of p q] by (simp add: get32_eq)
qed

section \<open>Properties\<close>

text \<open>C13: the decoder's two interleaved 32-bit accumulators compute, on every byte sequence, the
  value and the length the format defines: big-endian groups of seven bits ended by the first
  byte without the high bit, and a ninth byte that counts in full.\<close>

theorem GetVarint_reference: "sqlite3GetVarint p = (varint_val p, varint_len p)"
  by (rule sqlite3GetVarint_eq)

text \<open>C20: the 32-bit reader with its macro fast path never fails its assertion, returns the
  length of the 64-bit reader and its value, saturated to \<open>0xffffffff\<close>.\<close>

theorem GetVarint32_saturates: "getVarint32 p = Some (saturate32 (varint_val p), varint_len p)"
  by (rule getVarint32_eq)

text \<open>C14: the writer of the embedded SQLite succeeds on every value, writes between one and nine
  bytes and no byte behind them, and Hustle's reader gives back the value and that length.\<close>

theorem PutVarint_roundtrip:
  "\<exists>q n. sqlite3PutVarint p v = Some (q, n) \<and> sqlite3GetVarint q = (v, n) \<and> 1 \<le> n \<and> n \<le> 9
     \<and> (\<forall>i \<ge> n. q i = p i)"
  using varint.put_get [of p v] varint_len_bounds by (auto simp: sqlite3GetVarint_eq Suc_le_eq)

theorem PutVarint_roundtrip_witness:
  "\<exists>q n. sqlite3PutVarint (\<lambda>_. 0) 300 = Some (q, n) \<and> sqlite3GetVarint q = (300, n)"
  using PutVarint_roundtrip [of "\<lambda>_. 0" 300] by auto

text \<open>Both readers look at no byte behind the integer they return: two buffers that agree
  on the bytes of the integer are read alike.\<close>

theorem GetVarint_local:
  assumes "\<And>k. k < snd (sqlite3GetVarint p) \<Longrightarrow> p k = q k"
  shows "sqlite3GetVarint q = sqlite3GetVarint p \<and> getVarint32 q = getVarint32 p"
  using varint.get_local [OF assms] by (simp add: sqlite3GetVarint_eq getVarint32_eq)

theorem GetVarint_local_witness:
  "sqlite3GetVarint (\<lambda>i. if i = 0 then 5 else 0xff) = sqlite3GetVarint (\<lambda>_. 5)
     \<and> getVarint32 (\<lambda>i. if i = 0 then 5 else 0xff) = getVarint32 (\<lambda>_. 5)"
  by (rule GetVarint_local) (simp add: sqlite3GetVarint_def)

end
