(* ===== verification/RecordUtils.thy ===== *)
theory RecordUtils
  imports Varint
begin

text \<open>
  SQLite's serial types and record values as Hustle reads them
  (\<open>src/src/storage/utils/record_utils.h\<close>): the length a serial type announces
  (\<open>serialTypeLen\<close>) and the value behind it (\<open>recordSerialGet\<close>, \<open>serialGetReal\<close>). The
  \<open>*_BYTE_INT\<close> macros are evaluated in a 32-bit \<open>int\<close>, as in C, and sign-extended on the
  assignment to \<open>val\<close>; a \<open>double\<close> is its 64-bit pattern; a null \<open>record_val\<close> pointer is
  \<^const>\<open>None\<close>. The lemmas show that the integers are the two's-complement reading of their
  big-endian bytes and that the two functions agree on every length.
\<close>

unbundle bit_operations_syntax

section \<open>Serial types\<close>

definition smallTypeSizes :: "u8 list" where
  "smallTypeSizes = [
     0,  1,  2,  3,  4,  6,  8,  8,  0,  0,
     0,  0,  0,  0,  1,  1,  2,  2,  3,  3,
     4,  4,  5,  5,  6,  6,  7,  7,  8,  8,
     9,  9, 10, 10, 11, 11, 12, 12, 13, 13,
    14, 14, 15, 15, 16, 16, 17, 17, 18, 18,
    19, 19, 20, 20, 21, 21, 22, 22, 23, 23,
    24, 24, 25, 25, 26, 26, 27, 27, 28, 28,
    29, 29, 30, 30, 31, 31, 32, 32, 33, 33,
    34, 34, 35, 35, 36, 36, 37, 37, 38, 38,
    39, 39, 40, 40, 41, 41, 42, 42, 43, 43,
    44, 44, 45, 45, 46, 46, 47, 47, 48, 48,
    49, 49, 50, 50, 51, 51, 52, 52, 53, 53,
    54, 54, 55, 55, 56, 56, 57, 57]"

text \<open>A failed \<open>assert\<close> is \<^const>\<open>None\<close>.\<close>

definition serialTypeLen :: "u32 \<Rightarrow> u32 option" where
  "serialTypeLen serial_type =
     (if serial_type \<ge> 128 then Some ((serial_type - 12) div 2)
      else if serial_type < 12
              \<or> ucast (smallTypeSizes ! unat serial_type) = (serial_type - 12) div 2
      then Some (ucast (smallTypeSizes ! unat serial_type))
      else None)"

section \<open>Record values\<close>


definition ONE_BYTE_INT :: "mem \<Rightarrow> u32" where
  "ONE_BYTE_INT x = scast (x 0)"
definition TWO_BYTE_INT :: "mem \<Rightarrow> u32" where
  "TWO_BYTE_INT x = 256 * scast (x 0) OR ucast (x 1)"
definition THREE_BYTE_INT :: "mem \<Rightarrow> u32" where
  "THREE_BYTE_INT x = 65536 * scast (x 0) OR push_bit 8 (ucast (x 1)) OR ucast (x 2)"
definition FOUR_BYTE_UINT :: "mem \<Rightarrow> u32" where
  "FOUR_BYTE_UINT x = push_bit 24 (ucast (x 0)) OR push_bit 16 (ucast (x 1))
     OR push_bit 8 (ucast (x 2)) OR ucast (x 3)"
definition FOUR_BYTE_INT :: "mem \<Rightarrow> u32" where
  "FOUR_BYTE_INT x = 16777216 * scast (x 0) OR push_bit 16 (ucast (x 1))
     OR push_bit 8 (ucast (x 2)) OR ucast (x 3)"

definition EXP754 :: u64 where "EXP754 = push_bit 52 0x7ff"
definition MAN754 :: u64 where "MAN754 = push_bit 52 1 - 1"
definition IsNaN :: "u64 \<Rightarrow> bool" where
  "IsNaN x \<longleftrightarrow> x AND EXP754 = EXP754 \<and> x AND MAN754 \<noteq> 0"

definition VAL_Null :: u16 where "VAL_Null = 0x0001"
definition VAL_Str :: u16 where "VAL_Str = 0x0002"
definition VAL_Int :: u16 where "VAL_Int = 0x0004"
definition VAL_Real :: u16 where "VAL_Real = 0x0008"
definition VAL_Blob :: u16 where "VAL_Blob = 0x0010"
definition VAL_Ephem :: u16 where "VAL_Ephem = 0x1000"

record RecordValue =
  val_array :: mem
  val :: u64
  flags :: u16
  real_val :: u64
  rv_n :: u32

text \<open>\<open>buf + k\<close>.\<close>

abbreviation shift :: "mem \<Rightarrow> nat \<Rightarrow> mem" where
  "shift buf k \<equiv> \<lambda>i. buf (k + i)"

definition serialGetReal :: "mem \<Rightarrow> u32 \<Rightarrow> RecordValue option \<Rightarrow> RecordValue option \<times> u32" where
  "serialGetReal buf serial_type record_val =
    (let x = ucast (FOUR_BYTE_UINT buf) :: u64;
         y = FOUR_BYTE_UINT (shift buf 4);
         x = push_bit 32 x + ucast y
     in (map_option (\<lambda>r.
           if serial_type = 6 then r\<lparr>val := x, flags := VAL_Int\<rparr>
           else r\<lparr>real_val := x, flags := if IsNaN x then VAL_Null else VAL_Real\<rparr>) record_val, 8))"

definition recordSerialGet :: "mem \<Rightarrow> u32 \<Rightarrow> RecordValue option \<Rightarrow> RecordValue option \<times> u32" where
  "recordSerialGet buf serial_type record_val =
    (if serial_type = 10 then (record_val, 0)
     else if serial_type = 11 \<or> serial_type = 0 then
       (map_option (\<lambda>r. r\<lparr>flags := VAL_Null\<rparr>) record_val, 0)
     else if serial_type = 1 then
       (map_option (\<lambda>r. r\<lparr>val := scast (ONE_BYTE_INT buf), flags := VAL_Int\<rparr>) record_val, 1)
     else if serial_type = 2 then
       (map_option (\<lambda>r. r\<lparr>val := scast (TWO_BYTE_INT buf), flags := VAL_Int\<rparr>) record_val, 2)
     else if serial_type = 3 then
       (map_option (\<lambda>r. r\<lparr>val := scast (THREE_BYTE_INT buf), flags := VAL_Int\<rparr>) record_val, 3)
     else if serial_type = 4 then
       (map_option (\<lambda>r. r\<lparr>val := scast (FOUR_BYTE_INT buf), flags := VAL_Int\<rparr>) record_val, 4)
     else if serial_type = 5 then
       (map_option (\<lambda>r. r\<lparr>val := ucast (FOUR_BYTE_UINT (shift buf 2))
             + push_bit 32 1 * scast (TWO_BYTE_INT buf), flags := VAL_Int\<rparr>) record_val, 6)
     else if serial_type = 6 \<or> serial_type = 7 then serialGetReal buf serial_type record_val
     else if serial_type = 8 \<or> serial_type = 9 then
       (map_option (\<lambda>r. r\<lparr>val := ucast (serial_type - 8), flags := VAL_Int\<rparr>) record_val, 0)
     else
       let str_size = (serial_type - 12) div 2
       in (map_option (\<lambda>r. r\<lparr>val_array := buf, rv_n := str_size,
             flags := [VAL_Blob OR VAL_Ephem, VAL_Str OR VAL_Ephem] ! unat (serial_type AND 1)\<rparr>) record_val,
           str_size))"

text \<open>The reference: \<open>n\<close> big-endian bytes, and their two's-complement reading.\<close>

fun be_bytes :: "mem \<Rightarrow> nat \<Rightarrow> u64" where
  "be_bytes p 0 = 0"
| "be_bytes p (Suc n) = push_bit 8 (be_bytes p n) OR ucast (p n)"

definition be_int :: "mem \<Rightarrow> nat \<Rightarrow> u64" where
  "be_int p n = signed_take_bit (8 * n - 1) (be_bytes p n)"

primrec be_sum :: "mem \<Rightarrow> nat \<Rightarrow> int" where
  "be_sum p 0 = 0"
| "be_sum p (Suc n) = 256 * be_sum p n + uint (p n)"

section \<open>The decoded values\<close>

lemma be_numeral:
  "be_bytes p (numeral k) = push_bit 8 (be_bytes p (pred_numeral k)) OR ucast (p (pred_numeral k))"
  by (simp only: numeral_eq_Suc be_bytes.simps)

lemmas be_unfold = be_numeral be_bytes.simps pred_numeral_simps BitM.simps One_nat_def

lemma byte_positions:
  "n < (64 :: nat) \<Longrightarrow> n < 8 \<or> (\<exists>k < 8. n = 8 + k) \<or> (\<exists>k < 8. n = 16 + k)
     \<or> (\<exists>k < 8. n = 24 + k) \<or> (\<exists>k < 8. n = 32 + k) \<or> (\<exists>k < 8. n = 40 + k)
     \<or> (\<exists>k < 8. n = 48 + k) \<or> (\<exists>k < 8. n = 56 + k)"
  using cut_at [of 8 16 n] cut_at [of 16 24 n] cut_at [of 24 32 n] cut_at [of 32 40 n]
    cut_at [of 40 48 n] cut_at [of 48 56 n] cut_at [of 56 64 n]
  by auto

lemma mult_push: "256 * x = push_bit 8 (x :: 'a::len word)" "65536 * x = push_bit 16 (x :: 'a::len word)"
  "16777216 * x = push_bit 24 (x :: 'a::len word)"
  by (simp_all add: push_bit_eq_mult mult.commute)

lemma bit_scast [bit_unfold]: "bit (scast (x :: u8) :: u32) n \<longleftrightarrow> n < 32 \<and> bit x (min n 7)"
  "bit (scast (y :: u32) :: u64) n \<longleftrightarrow> n < 64 \<and> bit y (min n 31)"
  by (simp_all add: bit_signed_iff min.commute)

lemma be_int_bit [bit_unfold]:
  "bit (be_int p n) i \<longleftrightarrow> i < 64 \<and> bit (be_bytes p n) (min i (8 * n - 1))"
  by (simp add: be_int_def bit_signed_take_bit_iff min.commute)

lemmas int_macros = ONE_BYTE_INT_def TWO_BYTE_INT_def THREE_BYTE_INT_def FOUR_BYTE_INT_def
  FOUR_BYTE_UINT_def

lemma BYTE_INT_be:
  "scast (ONE_BYTE_INT p) = be_int p 1"
  "scast (TWO_BYTE_INT p) = be_int p 2"
  "scast (THREE_BYTE_INT p) = be_int p 3"
  "scast (FOUR_BYTE_INT p) = be_int p 4"
  by (rule bit_word_eqI, simp only: bit_unfold int_macros mult_push be_unfold,
      drule byte_positions, elim disjE exE conjE; simp add: byte_beyond byte_beyond_add)+

lemma be_int_8: "be_int p 8 = be_bytes p 8"
  by (rule bit_word_eqI) (simp add: be_int_bit)

lemma FOUR_BYTE_UINT_be: "ucast (FOUR_BYTE_UINT p) = be_bytes p 4"
  by (rule bit_word_eqI, simp only: bit_unfold int_macros mult_push be_unfold,
      drule byte_positions, elim disjE exE conjE; simp add: byte_beyond byte_beyond_add)

lemma plus_or: "x AND y = 0 \<Longrightarrow> x + y = x OR (y :: u64)"
  using disjunctive_add [of x y] by (metis bit_and_iff bit_0_eq bot_apply bot_bool_def)

lemma push32_or: "push_bit 32 (x :: u64) + ucast (y :: u32) = push_bit 32 x OR ucast y"
  by (rule plus_or, rule bit_word_eqI, simp only: bit_unfold) (auto dest: bit_imp_le_length)

lemma real_be: "push_bit 32 (ucast (FOUR_BYTE_UINT p)) + ucast (FOUR_BYTE_UINT (shift p 4)) = be_bytes p 8"
  unfolding push32_or
  by (rule bit_word_eqI, simp only: bit_unfold int_macros mult_push be_unfold,
      drule byte_positions, elim disjE exE conjE; simp add: byte_beyond byte_beyond_add)

lemma six_be: "ucast (FOUR_BYTE_UINT (shift p 2)) + push_bit 32 1 * scast (TWO_BYTE_INT p) = be_int p 6"
proof -
  have eq: "push_bit 32 1 * x = push_bit 32 x" for x :: u64
    by (simp add: push_bit_eq_mult mult.commute)
  have "push_bit 32 (scast (TWO_BYTE_INT p)) OR ucast (FOUR_BYTE_UINT (shift p 2)) = be_int p 6"
    by (rule bit_word_eqI, simp only: bit_unfold int_macros mult_push be_unfold,
      drule byte_positions, elim disjE exE conjE; simp add: byte_beyond byte_beyond_add)
  then show ?thesis by (simp only: eq push32_or [symmetric] add.commute)
qed

text \<open>The table row by row: zero-, integer- and real-valued types, then the closed form.\<close>

lemma unat_u8_u32: "unat (ucast (x :: u8) :: u32) = unat x"
proof -
  have "unat x < 2 ^ LENGTH(8)" by (rule unsigned_less)
  then show ?thesis by (simp add: unsigned_ucast_eq take_bit_nat_eq_self)
qed

lemma smallTypeSizes_rows: "list_all (\<lambda>i. unat (smallTypeSizes ! i) = (i - 12) div 2) [12..<128]"
  by code_simp

lemma unat_serial: "12 \<le> t \<Longrightarrow> unat ((t - 12) div (2 :: u32)) = (unat t - 12) div 2"
  by (simp add: unat_div_distrib unat_sub)

lemma smallTypeSizes_closed:
  assumes "12 \<le> t" "t < (128 :: u32)"
  shows "ucast (smallTypeSizes ! unat t) = (t - 12) div 2"
proof (rule word_unat_eq_iff [THEN iffD2])
  have "12 \<le> unat t" "unat t < 128" using assms by (simp_all add: word_le_nat_alt word_less_nat_alt)
  then have "unat t \<in> set [12..<128]" by (simp only: set_upt atLeastLessThan_iff)
  then have "unat (smallTypeSizes ! unat t) = (unat t - 12) div 2"
    using smallTypeSizes_rows unfolding list_all_iff by (rule bspec [rotated])
  then show "unat (ucast (smallTypeSizes ! unat t) :: u32) = unat ((t - 12) div 2)"
    using assms(1) by (simp add: unat_serial unat_u8_u32)
qed

lemma small_cases: "t < (12 :: u32) \<Longrightarrow> t \<in> {0, 1, 2, 3, 4, 5, 6, 7, 8, 9, 10, 11}"
proof -
  assume "t < 12"
  then have "unat t < 12" by (simp add: word_less_nat_alt)
  then have "unat t \<in> {0, 1, 2, 3, 4, 5, 6, 7, 8, 9, 10, 11}"
    unfolding insert_iff empty_iff by presburger
  then show ?thesis by (auto simp: word_unat_eq_iff)
qed

lemma serialTypeLen_eq:
  "serialTypeLen t = Some
    (if t < 12 then [0, 1, 2, 3, 4, 6, 8, 8, 0, 0, 0, 0] ! unat t else (t - 12) div 2)"
proof (cases "t < 12")
  case True
  then show ?thesis using small_cases [OF True] by (auto simp: serialTypeLen_def smallTypeSizes_def word_le_nat_alt)
next
  case False
  then show ?thesis using smallTypeSizes_closed [of t] by (auto simp: serialTypeLen_def not_less)
qed

lemma be_sum_bounds: "0 \<le> be_sum p n \<and> be_sum p n < 256 ^ n"
proof (induction n)
  case (Suc n)
  have "uint (p n) < 256" using unsigned_less [of "p n"] by simp
  with Suc show ?case by simp
qed simp

lemma be_bytes_sum: "be_bytes p n = of_int (be_sum p n)"
proof (induction n)
  case (Suc n)
  have "be_bytes p (Suc n) = push_bit 8 (be_bytes p n) + ucast (p n)"
    unfolding be_bytes.simps
    by (rule plus_or [symmetric], rule bit_word_eqI, simp only: bit_unfold) (auto simp: byte_beyond)
  also have "\<dots> = of_int (256 * be_sum p n + uint (p n))"
    unfolding Suc of_int_add of_int_mult by (simp add: push_bit_eq_mult mult.commute)
  finally show ?case by simp
qed simp

lemma uint_be_bytes: "n \<le> 8 \<Longrightarrow> uint (be_bytes p n) = be_sum p n"
proof -
  assume "n \<le> 8"
  then have "(256 :: int) ^ n \<le> 256 ^ 8" by (intro power_increasing) auto
  with be_sum_bounds [of p n] have "be_sum p n mod 2 ^ 64 = be_sum p n" by (intro mod_pos_pos_trivial) auto
  then show ?thesis by (simp add: be_bytes_sum uint_word_of_int)
qed

lemma be_bytes_sign: "n < 8 \<Longrightarrow> bit (be_bytes p (Suc n)) (8 * n + 7) \<longleftrightarrow> bit (p 0) 7"
proof (induction n)
  case (Suc n)
  have "bit (be_bytes p (Suc (Suc n))) (8 * Suc n + 7) \<longleftrightarrow> bit (be_bytes p (Suc n)) (8 * n + 7)"
    using Suc.prems by (subst be_bytes.simps) (simp add: bit_or_iff bit_push_bit_iff bit_unsigned_iff byte_beyond add.commute del: be_bytes.simps)
  then show ?case using Suc by simp
qed (simp add: bit_unsigned_iff)

lemma be_sum_sign: "0 < n \<Longrightarrow> n \<le> 8 \<Longrightarrow> bit (be_sum p n) (8 * n - 1) \<longleftrightarrow> bit (p 0) 7"
  using be_bytes_sign [of "n - 1" p] uint_be_bytes [of n p]
  by (cases n) (auto simp: bit_unsigned_iff add.commute simp del: be_bytes.simps be_sum.simps simp flip: uint_be_bytes)

lemma bit_sint_min: "bit (sint (w :: u64)) i \<longleftrightarrow> bit w (min i 63)"
  by (simp add: bit_signed_iff min.commute)

lemma sint_be_int:
  assumes "0 < n" "n \<le> 8"
  shows "sint (be_int p n) = be_sum p n - (if bit (p 0) 7 then 256 ^ n else 0)"
proof -
  have "sint (be_int p n) = signed_take_bit (8 * n - 1) (be_sum p n)"
    using assms by (intro bit_eqI) (auto simp: bit_sint_min be_int_bit bit_signed_take_bit_iff min.commute bit_unsigned_iff
      min_def simp flip: uint_be_bytes)
  also have "\<dots> = take_bit (8 * n) (be_sum p n) - (if bit (p 0) 7 then 256 ^ n else 0)"
    using assms be_sum_sign [of n p] signed_take_bit_eq_take_bit_minus [of "8 * n - 1" "be_sum p n"]
    by (simp add: power_mult)
  also have "take_bit (8 * n) (be_sum p n) = be_sum p n"
    using be_sum_bounds [of p n] by (simp add: take_bit_int_eq_self power_mult)
  finally show ?thesis .
qed

lemma recordSerialGet_len: "serialTypeLen t = Some (snd (recordSerialGet p t r))"
proof (cases "t < 12")
  case True
  then show ?thesis using small_cases [OF True]
    by (auto simp: serialTypeLen_eq recordSerialGet_def serialGetReal_def Let_def)
next
  case False
  then have "t \<noteq> 0" "t \<noteq> 1" "t \<noteq> 2" "t \<noteq> 3" "t \<noteq> 4" "t \<noteq> 5" "t \<noteq> 6" "t \<noteq> 7" "t \<noteq> 8" "t \<noteq> 9" "t \<noteq> 10" "t \<noteq> 11"
    by auto
  then show ?thesis using False by (simp add: serialTypeLen_eq recordSerialGet_def Let_def)
qed

lemmas record_be = BYTE_INT_be real_be six_be

lemma int_types: "1 \<le> t \<Longrightarrow> t \<le> (6 :: u32) \<Longrightarrow> t \<in> {1, 2, 3, 4, 5, 6}"
proof -
  assume "1 \<le> t" "t \<le> 6"
  moreover from \<open>t \<le> 6\<close> have "t < 12" by (simp add: word_le_nat_alt word_less_nat_alt)
  ultimately show ?thesis using small_cases [of t] unfolding word_le_nat_alt by fastforce
qed

lemma serialTypeLen_int:
  "1 \<le> t \<Longrightarrow> t \<le> 6 \<Longrightarrow> \<exists>w. serialTypeLen t = Some w \<and> 0 < unat w \<and> unat w \<le> 8"
  using int_types [of t] by (auto simp: serialTypeLen_eq)

lemma recordSerialGet_int:
  assumes "serialTypeLen t = Some w" "1 \<le> t" "t \<le> 6"
  shows "recordSerialGet p t (Some r) = (Some (r\<lparr>val := be_int p (unat w), flags := VAL_Int\<rparr>), w)"
  using assms(1) int_types [OF assms(2,3)]
  unfolding recordSerialGet_def serialGetReal_def Let_def six_be real_be
  unfolding BYTE_INT_be
  by (auto simp: serialTypeLen_eq be_int_8)

section \<open>Properties\<close>

text \<open>C19: for every serial type the assertion of \<open>serialTypeLen\<close> holds and the length it returns
  is the number of bytes \<open>recordSerialGet\<close> consumes.\<close>

theorem recordSerialGet_consumes: "serialTypeLen t = Some (snd (recordSerialGet buf t r))"
  by (rule recordSerialGet_len)

text \<open>C16: for the integer serial types 1 to 6 the decoded value is the two's-complement reading
  of the big-endian bytes of the type's length, and only \<open>val\<close> and \<open>flags\<close> change.\<close>

theorem recordSerialGet_integer:
  assumes "1 \<le> t" "t \<le> 6"
  shows "\<exists>r' w. recordSerialGet buf t (Some r) = (Some r', w) \<and> serialTypeLen t = Some w
     \<and> sint (val r') = be_sum buf (unat w) - (if bit (buf 0) 7 then 256 ^ unat w else 0)
     \<and> r' = r\<lparr>val := val r', flags := VAL_Int\<rparr>"
proof -
  obtain w where w: "serialTypeLen t = Some w" "0 < unat w" "unat w \<le> 8"
    using serialTypeLen_int [OF assms] by blast
  then show ?thesis using recordSerialGet_int [OF w(1) assms] sint_be_int [of "unat w" buf] by simp
qed

theorem recordSerialGet_integer_witness:
  "\<exists>r' w. recordSerialGet (\<lambda>_. 0xff) 3
       (Some \<lparr>val_array = \<lambda>_. 0, val = 0, flags = 0, real_val = 0, rv_n = 0\<rparr>) = (Some r', w)
     \<and> sint (val r') = - 1"
proof -
  have "be_sum (\<lambda>_. 0xff) 3 = 16777215" by (simp add: numeral_3_eq_3)
  then show ?thesis
    using recordSerialGet_integer
      [of 3 "\<lambda>_. 0xff" "\<lparr>val_array = \<lambda>_. 0, val = 0, flags = 0, real_val = 0, rv_n = 0\<rparr>"]
    by (auto simp: serialTypeLen_eq)
qed

end
