(* ===== verification/MemLog.thy ===== *)
theory MemLog
  imports RecordUtils
begin

text \<open>
  The memlog (\<open>src/src/storage/cmemlog.h\<close>, \<open>cmemlog.cc\<close>): the in-memory store in which a
  SQLite write transaction collects its changes until the commit moves them to the Arrow tables.
  It is an array of singly linked lists of \<open>DBRecord\<close> cells, one list per SQLite root page.

  The cells live in an explicit heap, so that appending through the tail pointer, walking the
  list while freeing it, null pointers and use after free are what they are in C; a record
  owns the copy of its data. Numbers of C type \<open>int\<close> are integers whose overflow is the error
  \<^const>\<open>IntOverflow\<close>. The tables are a parameter: \<open>step t op\<close> is the table after one of the
  three calls the memlog makes on it.

  The lemmas show that the pointer structure refines a list of record addresses per table
  (\<open>log_at\<close>), that every operation keeps that relation, that an update applies the records of
  each table in the order of their insertion and that clearing frees each cell exactly once.
\<close>

section \<open>Data\<close>

definition MEMLOG_HUSTLE_UPDATE :: int where "MEMLOG_HUSTLE_UPDATE = 1"
definition MEMLOG_HUSTLE_INSERT :: int where "MEMLOG_HUSTLE_INSERT = 2"
definition MEMLOG_HUSTLE_DELETE :: int where "MEMLOG_HUSTLE_DELETE = 3"
definition MEMLOG_INIT_SIZE :: int where "MEMLOG_INIT_SIZE = 100"
definition DEFAULT_DB_ID :: int where "DEFAULT_DB_ID = 0"

datatype Status = MEMLOG_OK | MEMLOG_ERROR

record UpdateMetaInfo =
  tableId :: int
  colNum :: int

record DBRecord =
  mode :: int
  rowId :: int
  nData :: int
  data :: "u8 list"
  nUpdateMetaInfo :: int
  updateMetaInfo :: "UpdateMetaInfo list"
  next_record :: "nat option"

record DBRecordList =
  head :: "nat option"
  tail :: "nat option"
  curr_size :: int

record HustleMemLog =
  record_list :: "DBRecordList list"
  total_size :: int
  db_name :: string

text \<open>The heap of records: a partial map from addresses, and the next address \<open>malloc\<close> returns.\<close>

record Heap =
  cells :: "nat \<rightharpoonup> DBRecord"
  brk :: nat

definition alloc :: "Heap \<Rightarrow> DBRecord \<Rightarrow> Heap \<times> nat" where
  "alloc h r = (h\<lparr>cells := (cells h)(brk h \<mapsto> r), brk := brk h + 1\<rparr>, brk h)"

definition free_cell :: "Heap \<Rightarrow> nat \<Rightarrow> Heap" where
  "free_cell h a = h\<lparr>cells := (cells h)(a := None)\<rparr>"

section \<open>Operations\<close>

definition empty_list :: DBRecordList where
  "empty_list = \<lparr>head = None, tail = None, curr_size = 0\<rparr>"

definition hustle_memlog_initialize :: "string \<Rightarrow> int \<Rightarrow> Status \<times> HustleMemLog option" where
  "hustle_memlog_initialize name initial_size =
    (if initial_size \<le> 0 then (MEMLOG_ERROR, None)
     else (MEMLOG_OK, Some \<lparr>record_list = replicate (nat initial_size) empty_list,
                            total_size = initial_size, db_name = name\<rparr>))"

text \<open>Copying \<open>nData\<close> bytes from a null pointer is the error; the delete path passes no data.\<close>

definition hustle_memlog_create_record ::
    "Heap \<Rightarrow> int \<Rightarrow> int \<Rightarrow> mem option \<Rightarrow> int \<Rightarrow> (Heap \<times> nat option) res" where
  "hustle_memlog_create_record h md row d n =
    (if d = None \<and> md \<noteq> MEMLOG_HUSTLE_DELETE then Inr (h, None)
     else
       (let copy = (\<lambda>bytes. case alloc h \<lparr>mode = md, rowId = row, nData = n, data = bytes,
                nUpdateMetaInfo = 0, updateMetaInfo = [], next_record = None\<rparr>
              of (h', a) \<Rightarrow> Inr (h', Some a))
        in case d of
             None \<Rightarrow> if n = 0 then copy [] else Inl NullDeref
           | Some p \<Rightarrow> copy (map p [0..<nat n])))"

definition grow :: "HustleMemLog \<Rightarrow> int \<Rightarrow> HustleMemLog res" where
  "grow ml table_id =
    (if table_id \<ge> total_size ml then
       if 2 * table_id > 0x7fffffff then Inl IntOverflow
       else Inr (ml\<lparr>total_size := 2 * table_id,
                   record_list := record_list ml @
                     replicate (nat (2 * table_id - total_size ml)) empty_list\<rparr>)
     else Inr ml)"

definition set_next :: "Heap \<Rightarrow> nat option \<Rightarrow> nat \<Rightarrow> Heap res" where
  "set_next h p a =
    (case p of None \<Rightarrow> Inr h
     | Some t \<Rightarrow> (case cells h t of None \<Rightarrow> Inl UseAfterFree
        | Some r \<Rightarrow> Inr (h\<lparr>cells := (cells h)(t \<mapsto> r\<lparr>next_record := Some a\<rparr>)\<rparr>)))"

definition append_to :: "DBRecordList \<Rightarrow> nat \<Rightarrow> DBRecordList" where
  "append_to l a = \<lparr>head = (if head l = None then Some a else head l), tail = Some a,
                    curr_size = curr_size l + 1\<rparr>"

text \<open>
  The guard is \<open>mem_log == NULL || (record == NULL && record->mode != \<dots>)\<close>: with a null record
  its second half dereferences the null pointer.
\<close>

definition hustle_memlog_insert_record ::
    "Heap \<Rightarrow> HustleMemLog option \<Rightarrow> nat option \<Rightarrow> int
       \<Rightarrow> (Heap \<times> HustleMemLog option \<times> Status) res" where
  "hustle_memlog_insert_record h mem_log record table_id =
    (case mem_log of None \<Rightarrow> Inr (h, None, MEMLOG_ERROR)
     | Some ml \<Rightarrow>
       (case record of None \<Rightarrow> Inl NullDeref
        | Some a \<Rightarrow>
          and_then (grow ml table_id) (\<lambda>ml.
            if table_id < 0 then Inl OutOfBounds
            else let l = record_list ml ! nat table_id in
              if curr_size l = 0x7fffffff then Inl IntOverflow
              else and_then (set_next h (tail l) a) (\<lambda>h.
                Inr (h, Some (ml\<lparr>record_list := (record_list ml)[nat table_id := append_to l a]\<rparr>),
                     MEMLOG_OK)))))"

text \<open>The result of \<open>hustle_memlog_get_records\<close> is a pointer into the array.\<close>

definition hustle_memlog_get_records ::
    "HustleMemLog option \<Rightarrow> int \<Rightarrow> DBRecordList option res" where
  "hustle_memlog_get_records mem_log table_id =
    (case mem_log of None \<Rightarrow> Inr None
     | Some ml \<Rightarrow> if table_id \<ge> total_size ml then Inr None
                 else if table_id < 0 then Inl OutOfBounds
                 else Inr (Some (record_list ml ! nat table_id)))"

section \<open>The record header\<close>

text \<open>A buffer of \<open>nData\<close> bytes as the memory behind a pointer into it.\<close>

definition at_byte :: "u8 list \<Rightarrow> nat \<Rightarrow> mem" where
  "at_byte d i k = (if i + k < length d then d ! (i + k) else 0)"

text \<open>One \<open>getVarint32\<close> at byte \<open>i\<close>; the integer has to end within the buffer.\<close>

definition read_varint32 :: "u8 list \<Rightarrow> nat \<Rightarrow> (u32 \<times> nat) res" where
  "read_varint32 d i =
    (case getVarint32 (at_byte d i) of None \<Rightarrow> Inl AssertFailed
     | Some (v, n) \<Rightarrow> if i + n \<le> length d then Inr (v, n) else Inl OutOfBounds)"

definition ZERO_TYPE_ENCODING :: u32 where "ZERO_TYPE_ENCODING = 8"
definition ONE_TYPE_ENCODING :: u32 where "ONE_TYPE_ENCODING = 9"

definition byte_width :: "u32 \<Rightarrow> u32 res" where
  "byte_width typeLen =
    (if typeLen = ZERO_TYPE_ENCODING \<or> typeLen = ONE_TYPE_ENCODING then Inr (- typeLen)
     else case serialTypeLen typeLen of None \<Rightarrow> Inl AssertFailed | Some w \<Rightarrow> Inr w)"

lemma read_varint32_progress: "read_varint32 d i = Inr (v, n) \<Longrightarrow> 0 < n \<and> i + n \<le> length d"
  using varint_len_bounds
  by (auto simp: read_varint32_def getVarint32_eq split: if_splits)

function byte_widths :: "u8 list \<Rightarrow> nat \<Rightarrow> nat \<Rightarrow> int list res" where
  "byte_widths d hdrLen idx =
    (if idx < hdrLen then
       case read_varint32 d idx of
         Inl e \<Rightarrow> Inl e
       | Inr (typeLen, nBytes) \<Rightarrow>
           (case byte_width typeLen of Inl e \<Rightarrow> Inl e
            | Inr w \<Rightarrow> and_then (byte_widths d hdrLen (idx + nBytes)) (\<lambda>ws. Inr (sint w # ws)))
     else Inr [])"
  by pat_completeness auto
termination
  by (relation "measure (\<lambda>(d, hdrLen, idx). hdrLen - idx)") (auto dest: read_varint32_progress)

declare byte_widths.simps [simp del]

text \<open>The header length and the column widths.\<close>

definition read_header :: "u8 list \<Rightarrow> (nat \<times> int list) res" where
  "read_header d =
    and_then (read_varint32 d 0) (\<lambda>(hdrLen, nBytes).
      and_then (byte_widths d (unat hdrLen) nBytes) (\<lambda>ws. Inr (unat hdrLen, ws)))"

section \<open>Moving the records to the tables\<close>

datatype table_op =
    DeleteRecordTable int
  | InsertRecordTable int "u8 list" "int list"
  | UpdateRecordTable int int "UpdateMetaInfo list" "u8 list" "int list"

text \<open>The calls one record makes on its table: none for a mode that is none of the three.\<close>

definition record_op :: "DBRecord \<Rightarrow> table_op option res" where
  "record_op r =
    (if mode r = MEMLOG_HUSTLE_DELETE then Inr (Some (DeleteRecordTable (rowId r)))
     else and_then (read_header (data r)) (\<lambda>(hdrLen, widths).
       if mode r = MEMLOG_HUSTLE_INSERT then
         Inr (Some (InsertRecordTable (rowId r) (drop hdrLen (data r)) widths))
       else if mode r = MEMLOG_HUSTLE_UPDATE then
         Inr (Some (UpdateRecordTable (rowId r) (nUpdateMetaInfo r) (updateMetaInfo r)
                (drop hdrLen (data r)) widths))
       else Inr None))"

fun apply_op :: "('t \<Rightarrow> table_op \<Rightarrow> 't) \<Rightarrow> 't \<Rightarrow> table_op option \<Rightarrow> 't" where
  "apply_op step t None = t"
| "apply_op step t (Some c) = step t c"

text \<open>
  The inner loop: \<^const>\<open>None\<close> is a walk that never ends (a cyclic list).
\<close>

partial_function (option) drain ::
    "('t \<Rightarrow> table_op \<Rightarrow> 't) \<Rightarrow> bool \<Rightarrow> Heap \<Rightarrow> 't \<Rightarrow> nat option \<Rightarrow> (Heap \<times> 't) res option" where
  "drain step is_free h t p =
    (case p of None \<Rightarrow> Some (Inr (h, t))
     | Some a \<Rightarrow>
       (case cells h a of None \<Rightarrow> Some (Inl UseAfterFree)
        | Some r \<Rightarrow>
          (case record_op r of Inl e \<Rightarrow> Some (Inl e)
           | Inr c \<Rightarrow> drain step is_free (if is_free then free_cell h a else h)
                        (apply_op step t c) (next_record r))))"

text \<open>The memlog's static table map and the catalog of each database.\<close>

record 't memlog_state =
  heap :: Heap
  table_map :: "int \<Rightarrow> (int \<times> string) list"
  catalogs :: "string \<Rightarrow> string \<rightharpoonup> 't"

fun std_map_put :: "int \<Rightarrow> 'v \<Rightarrow> (int \<times> 'v) list \<Rightarrow> (int \<times> 'v) list" where
  "std_map_put k v [] = [(k, v)]"
| "std_map_put k v ((k', v') # m) =
    (if k < k' then (k, v) # (k', v') # m
     else if k = k' then (k, v) # m
     else (k', v') # std_map_put k v m)"

definition memlog_add_table_mapping ::
    "int \<Rightarrow> int \<Rightarrow> string \<Rightarrow> ('t, 'z) memlog_state_scheme \<Rightarrow> ('t, 'z) memlog_state_scheme" where
  "memlog_add_table_mapping db_id root_page_id table_name s =
     s\<lparr>table_map := (table_map s)
         (db_id := std_map_put root_page_id table_name (table_map s db_id))\<rparr>"

text \<open>
  \<open>memlog_add_column_change\<close> splits the text of a new column at white space, as \<open>>>\<close> does, into a vector that it then
  drops: the schema stays as it is.
\<close>

definition is_space :: "char \<Rightarrow> bool" where
  "is_space c \<longleftrightarrow> c \<in> {CHR '' '', CHR 0x09, CHR 0x0A, CHR 0x0B, CHR 0x0C, CHR 0x0D}"

function split_words :: "string \<Rightarrow> string list" where
  "split_words cs =
    (let rest = dropWhile is_space cs in
     if rest = [] then [] else takeWhile (\<lambda>c. \<not> is_space c) rest # split_words (dropWhile (\<lambda>c. \<not> is_space c) rest))"
  by pat_completeness auto
termination
proof (relation "measure length")
  fix cs and rest :: string
  assume r: "rest = dropWhile is_space cs" "rest \<noteq> []"
  then have "\<not> is_space (hd rest)" using hd_dropWhile by blast
  then have "length (dropWhile (\<lambda>c. \<not> is_space c) rest) < length rest"
    using r(2) length_dropWhile_le [of "\<lambda>c. \<not> is_space c" "tl rest"] by (cases rest) auto
  then show "(dropWhile (\<lambda>c. \<not> is_space c) rest, cs) \<in> measure length"
    using length_dropWhile_le [of is_space cs] r(1) by simp
qed simp

declare split_words.simps [simp del]

definition memlog_add_column_change ::
    "int \<Rightarrow> int \<Rightarrow> string \<Rightarrow> ('t, 'z) memlog_state_scheme \<Rightarrow> ('t, 'z) memlog_state_scheme" where
  "memlog_add_column_change db_id root_page_id column_info s = (let result = split_words column_info in s)"

definition memlog_remove_table_mapping ::
    "int \<Rightarrow> string \<Rightarrow> string \<Rightarrow> ('t, 'z) memlog_state_scheme \<Rightarrow> ('t, 'z) memlog_state_scheme" where
  "memlog_remove_table_mapping db_id name tbl_name s =
    (case find (\<lambda>kv. snd kv = tbl_name) (table_map s db_id) of None \<Rightarrow> s
     | Some (k, _) \<Rightarrow>
       s\<lparr>table_map := (table_map s)(db_id := filter (\<lambda>kv. fst kv \<noteq> k) (table_map s db_id)),
         catalogs := (catalogs s)(name := (catalogs s name)(tbl_name := None))\<rparr>)"

definition reset_list :: "HustleMemLog \<Rightarrow> nat \<Rightarrow> HustleMemLog" where
  "reset_list ml i = ml\<lparr>record_list := (record_list ml)[i := empty_list]\<rparr>"

text \<open>The table a slot of the array belongs to, when it is mapped and in the catalog.\<close>

definition slot_table :: "('t, 'z) memlog_state_scheme \<Rightarrow> HustleMemLog \<Rightarrow> nat \<Rightarrow> (string \<times> 't) option" where
  "slot_table s ml i =
    (case map_of (table_map s DEFAULT_DB_ID) (int i) of None \<Rightarrow> None
     | Some name \<Rightarrow>
       (case catalogs s (db_name ml) name of None \<Rightarrow> None | Some t \<Rightarrow> Some (name, t)))"

fun update_slots ::
    "('t \<Rightarrow> table_op \<Rightarrow> 't) \<Rightarrow> bool \<Rightarrow> nat list \<Rightarrow> 't memlog_state \<Rightarrow> HustleMemLog
       \<Rightarrow> ('t memlog_state \<times> HustleMemLog) res option" where
  "update_slots step is_free [] s ml = Some (Inr (s, ml))"
| "update_slots step is_free (i # is) s ml =
    (case slot_table s ml i of None \<Rightarrow> update_slots step is_free is s ml
     | Some (name, t) \<Rightarrow>
       (case drain step is_free (heap s) t (head (record_list ml ! i)) of
          None \<Rightarrow> None
        | Some (Inl e) \<Rightarrow> Some (Inl e)
        | Some (Inr (h, t')) \<Rightarrow>
            update_slots step is_free is
              (s\<lparr>heap := h, catalogs := (catalogs s)
                   (db_name ml := (catalogs s (db_name ml))(name \<mapsto> t'))\<rparr>)
              (reset_list ml i)))"

definition hustle_memlog_update_db ::
    "('t \<Rightarrow> table_op \<Rightarrow> 't) \<Rightarrow> bool \<Rightarrow> 't memlog_state \<Rightarrow> HustleMemLog option
       \<Rightarrow> ('t memlog_state \<times> HustleMemLog option \<times> Status) res option" where
  "hustle_memlog_update_db step is_free s mem_log =
    (case mem_log of None \<Rightarrow> Some (Inr (s, None, MEMLOG_ERROR))
     | Some ml \<Rightarrow>
       map_option (\<lambda>r. and_then r (\<lambda>(s, ml). Inr (s, Some ml, MEMLOG_OK)))
         (update_slots step is_free [0..<nat (total_size ml)] s ml))"

section \<open>Clearing\<close>

partial_function (option) free_list :: "Heap \<Rightarrow> nat option \<Rightarrow> Heap res option" where
  "free_list h p =
    (case p of None \<Rightarrow> Some (Inr h)
     | Some a \<Rightarrow>
       (case cells h a of None \<Rightarrow> Some (Inl UseAfterFree)
        | Some r \<Rightarrow> free_list (free_cell h a) (next_record r)))"

fun clear_slots :: "nat list \<Rightarrow> Heap \<Rightarrow> HustleMemLog \<Rightarrow> (Heap \<times> HustleMemLog) res option" where
  "clear_slots [] h ml = Some (Inr (h, ml))"
| "clear_slots (i # is) h ml =
    (case free_list h (head (record_list ml ! i)) of None \<Rightarrow> None
     | Some (Inl e) \<Rightarrow> Some (Inl e)
     | Some (Inr h) \<Rightarrow> clear_slots is h (reset_list ml i))"

definition hustle_memlog_clear ::
    "Heap \<Rightarrow> HustleMemLog option \<Rightarrow> (Heap \<times> HustleMemLog option \<times> Status) res option" where
  "hustle_memlog_clear h mem_log =
    (case mem_log of None \<Rightarrow> Some (Inr (h, None, MEMLOG_ERROR))
     | Some ml \<Rightarrow>
       map_option (\<lambda>r. and_then r (\<lambda>(h, ml). Inr (h, Some ml, MEMLOG_OK)))
         (clear_slots [0..<nat (total_size ml)] h ml))"

text \<open>Closing the connection frees the array too and forgets the table map of every database.\<close>

definition hustle_memlog_free ::
    "'t memlog_state \<Rightarrow> HustleMemLog option \<Rightarrow> ('t memlog_state \<times> HustleMemLog option \<times> Status) res option" where
  "hustle_memlog_free s mem_log =
    (case mem_log of None \<Rightarrow> Some (Inr (s, None, MEMLOG_ERROR))
     | Some ml \<Rightarrow>
       map_option (\<lambda>r. and_then r (\<lambda>(h, _, _).
           Inr (s\<lparr>heap := h, table_map := \<lambda>_. []\<rparr>, None, MEMLOG_OK)))
         (hustle_memlog_clear (heap s) (Some ml)))"

text \<open>The memlog calls of a commit that succeeds (\<open>vdbeHalt\<close> calls) and of a rollback.\<close>

definition memlog_commit ::
    "('t \<Rightarrow> table_op \<Rightarrow> 't) \<Rightarrow> 't memlog_state \<Rightarrow> HustleMemLog option
       \<Rightarrow> ('t memlog_state \<times> HustleMemLog option) res option" where
  "memlog_commit step s mem_log =
    (case hustle_memlog_update_db step True s mem_log of None \<Rightarrow> None
     | Some (Inl e) \<Rightarrow> Some (Inl e)
     | Some (Inr (s, mem_log, _)) \<Rightarrow>
         map_option (\<lambda>r. and_then r (\<lambda>(h, mem_log, _). Inr (s\<lparr>heap := h\<rparr>, mem_log)))
           (hustle_memlog_clear (heap s) mem_log))"

text \<open>
  The changes SQLite's virtual machine logs (\<open>OP_Insert\<close>, \<open>OP_Delete\<close> of the embedded SQLite):
  an insert or an update creates a record from the row's bytes, an update adds the changed
  columns, a delete logs the row alone.
\<close>

datatype change =
    LogInsert int mem int
  | LogUpdate int mem int int "UpdateMetaInfo list"
  | LogDelete int

definition set_meta :: "Heap \<Rightarrow> nat option \<Rightarrow> int \<Rightarrow> UpdateMetaInfo list \<Rightarrow> Heap res" where
  "set_meta h p n ms =
    (case p of None \<Rightarrow> Inl NullDeref
     | Some a \<Rightarrow> (case cells h a of None \<Rightarrow> Inl UseAfterFree
        | Some r \<Rightarrow> Inr (h\<lparr>cells := (cells h)(a \<mapsto> r\<lparr>nUpdateMetaInfo := n, updateMetaInfo := ms\<rparr>)\<rparr>)))"

fun log_change :: "Heap \<times> HustleMemLog option \<Rightarrow> int \<Rightarrow> change \<Rightarrow> (Heap \<times> HustleMemLog option) res" where
  "log_change (h, mem_log) root (LogInsert row d n) =
    and_then (hustle_memlog_create_record h MEMLOG_HUSTLE_INSERT row (Some d) n) (\<lambda>(h, record).
      and_then (hustle_memlog_insert_record h mem_log record root) (\<lambda>(h, mem_log, _). Inr (h, mem_log)))"
| "log_change (h, mem_log) root (LogUpdate row d n k ms) =
    and_then (hustle_memlog_create_record h MEMLOG_HUSTLE_UPDATE row (Some d) n) (\<lambda>(h, record).
      and_then (set_meta h record k ms) (\<lambda>h.
        and_then (hustle_memlog_insert_record h mem_log record root) (\<lambda>(h, mem_log, _). Inr (h, mem_log))))"
| "log_change (h, mem_log) root (LogDelete row) =
    and_then (hustle_memlog_create_record h MEMLOG_HUSTLE_DELETE row None 0) (\<lambda>(h, record).
      and_then (hustle_memlog_insert_record h mem_log record root) (\<lambda>(h, mem_log, _). Inr (h, mem_log)))"

fun change_record :: "change \<Rightarrow> DBRecord" where
  "change_record (LogInsert row d n) = \<lparr>mode = MEMLOG_HUSTLE_INSERT, rowId = row, nData = n,
     data = map d [0..<nat n], nUpdateMetaInfo = 0, updateMetaInfo = [], next_record = None\<rparr>"
| "change_record (LogUpdate row d n k ms) = \<lparr>mode = MEMLOG_HUSTLE_UPDATE, rowId = row, nData = n,
     data = map d [0..<nat n], nUpdateMetaInfo = k, updateMetaInfo = ms, next_record = None\<rparr>"
| "change_record (LogDelete row) = \<lparr>mode = MEMLOG_HUSTLE_DELETE, rowId = row, nData = 0,
     data = [], nUpdateMetaInfo = 0, updateMetaInfo = [], next_record = None\<rparr>"

section \<open>The lists in the heap\<close>

fun list_at :: "(nat \<rightharpoonup> DBRecord) \<Rightarrow> nat option \<Rightarrow> nat list \<Rightarrow> bool" where
  "list_at c p [] = (p = None)"
| "list_at c p (a # as) =
    (p = Some a \<and> (case c a of None \<Rightarrow> False | Some r \<Rightarrow> list_at c (next_record r) as))"

definition slot_at :: "(nat \<rightharpoonup> DBRecord) \<Rightarrow> DBRecordList \<Rightarrow> nat list \<Rightarrow> bool" where
  "slot_at c l as \<longleftrightarrow> list_at c (head l) as \<and> tail l = (if as = [] then None else Some (last as))
     \<and> curr_size l = int (length as)"

text \<open>The relation between the pointer structure and one list of addresses per table.\<close>

definition log_at :: "Heap \<Rightarrow> HustleMemLog \<Rightarrow> nat list list \<Rightarrow> bool" where
  "log_at h ml L \<longleftrightarrow> 0 < total_size ml \<and> length (record_list ml) = nat (total_size ml)
     \<and> list_all2 (slot_at (cells h)) (record_list ml) L \<and> distinct (concat L)
     \<and> dom (cells h) \<subseteq> {..<brk h}"

lemma list_at_dom: "list_at c p as \<Longrightarrow> set as \<subseteq> dom c"
  by (induction as arbitrary: p) (auto split: option.splits)

lemma list_at_frame: "list_at c p as \<Longrightarrow> (\<And>a. a \<in> set as \<Longrightarrow> c' a = c a) \<Longrightarrow> list_at c' p as"
  by (induction as arbitrary: p) (auto split: option.splits)

lemma slot_at_frame: "slot_at c l as \<Longrightarrow> (\<And>a. a \<in> set as \<Longrightarrow> c' a = c a) \<Longrightarrow> slot_at c' l as"
  by (auto simp: slot_at_def intro: list_at_frame)

lemma list_at_snoc:
  assumes "list_at c p as" "a \<notin> set as" "distinct as"
    and "c a = Some r" "next_record r = None"
    and "as \<noteq> [] \<Longrightarrow> c (last as) = Some t"
  shows "list_at (if as = [] then c else c(last as \<mapsto> t\<lparr>next_record := Some a\<rparr>))
     (if as = [] then Some a else p) (as @ [a])"
  using assms
proof (induction as arbitrary: p)
  case (Cons b as)
  show ?case
  proof (cases "as = []")
    case True
    then show ?thesis using Cons.prems by (auto split: option.splits)
  next
    case False
    obtain q where q: "c b = Some q" "list_at c (next_record q) as" "p = Some b"
      using Cons.prems(1) by (auto split: option.splits)
    have "b \<noteq> last as" using Cons.prems(3) False by auto
    then show ?thesis using Cons.IH [OF q(2)] Cons.prems False q by auto
  qed
qed simp

lemma log_at_nth: "log_at h ml L \<Longrightarrow> i < length L \<Longrightarrow> slot_at (cells h) (record_list ml ! i) (L ! i)"
  by (simp add: log_at_def list_all2_conv_all_nth)

lemma log_at_length: "log_at h ml L \<Longrightarrow> length L = length (record_list ml) \<and> length L = nat (total_size ml)"
  by (simp add: log_at_def list_all2_conv_all_nth)

lemma distinct_concat_nth:
  "distinct (concat L) \<Longrightarrow> i < length L \<Longrightarrow> j < length L \<Longrightarrow> i \<noteq> j \<Longrightarrow> a \<in> set (L ! i) \<Longrightarrow> a \<notin> set (L ! j)"
proof (induction L arbitrary: i j)
  case (Cons xs L)
  have mem: "k < length L \<Longrightarrow> b \<in> set (L ! k) \<Longrightarrow> b \<notin> set xs" for k b
    using Cons.prems(1) nth_mem [of k L] by (auto simp: disjoint_iff)
  show ?case
  proof (cases i)
    case 0
    then show ?thesis using Cons.prems mem by (cases j) auto
  next
    case (Suc i')
    then show ?thesis using Cons.prems mem Cons.IH [of i'] by (cases j) auto
  qed
qed simp

lemma distinct_concat_update:
  "distinct (concat L) \<Longrightarrow> i < length L \<Longrightarrow> distinct xs \<Longrightarrow>
   set xs \<inter> (set (concat L) - set (L ! i)) = {} \<Longrightarrow> distinct (concat (L[i := xs]))"
proof (induction L arbitrary: i)
  case (Cons ys L)
  show ?case
  proof (cases i)
    case 0
    then show ?thesis using Cons.prems by auto
  next
    case (Suc j)
    have sub: "set (concat (L[j := xs])) \<subseteq> set xs \<union> (set (concat L))"
      using set_update_subset_insert [of L j xs] by auto
    have "distinct (concat (L[j := xs]))" using Cons.IH [of j] Cons.prems Suc by auto
    moreover have "set ys \<inter> set xs = {}" using Cons.prems Suc nth_mem [of j L] by fastforce
    ultimately have "set ys \<inter> set (concat (L[j := xs])) = {}" using sub Cons.prems(1) by auto
    with \<open>distinct (concat (L[j := xs]))\<close> show ?thesis using Cons.prems(1) Suc by simp
  qed
qed simp

lemma mem_concat_nth: "i < length L \<Longrightarrow> a \<in> set (L ! i) \<Longrightarrow> a \<in> set (concat L)"
  by auto

lemma log_at_dom: "log_at h ml L \<Longrightarrow> set (concat L) \<subseteq> dom (cells h)"
  using list_at_dom by (fastforce simp: log_at_def list_all2_conv_all_nth slot_at_def in_set_conv_nth)

lemma slot_at_empty: "slot_at c empty_list as \<longleftrightarrow> as = []"
  by (cases as) (auto simp: slot_at_def empty_list_def)

text \<open>A new log has one empty list per table.\<close>

lemma log_at_initialize:
  assumes "dom (cells h) \<subseteq> {..<brk h}" "0 < n"
  shows "\<exists>ml. hustle_memlog_initialize name n = (MEMLOG_OK, Some ml) \<and> log_at h ml (replicate (nat n) [])"
  using assms by (simp add: hustle_memlog_initialize_def log_at_def list_all2_conv_all_nth slot_at_empty)

definition grown :: "nat list list \<Rightarrow> nat \<Rightarrow> nat list list" where
  "grown L t = (if t < length L then L else L @ replicate (2 * t - length L) [])"

lemma log_at_grow:
  assumes "log_at h ml L" "0 \<le> t" "2 * t \<le> 0x7fffffff"
  shows "\<exists>ml'. grow ml t = Inr ml' \<and> nat t < length (record_list ml') \<and> db_name ml' = db_name ml
    \<and> log_at h ml' (grown L (nat t))"
proof (cases "t < total_size ml")
  case True
  then show ?thesis using assms(1,2) log_at_length [OF assms(1)]
    by (auto simp: grow_def grown_def nat_less_iff)
next
  case False
  then have n: "nat (2 * t - total_size ml) = 2 * nat t - length L" "\<not> nat t < length L"
    using log_at_length [OF assms(1)] assms(1) by (auto simp: log_at_def)
  moreover have "list_all2 (slot_at (cells h)) (replicate k empty_list) (replicate k [])" for k
    by (simp add: list_all2_conv_all_nth slot_at_empty)
  ultimately show ?thesis using False assms log_at_length [OF assms(1)]
    by (auto simp: grow_def log_at_def grown_def intro!: list_all2_appendI)
qed

text \<open>What a record holds apart from its place in the list.\<close>

definition payload :: "DBRecord \<Rightarrow> DBRecord" where
  "payload r = r\<lparr>next_record := None\<rparr>"

definition same_records :: "Heap \<Rightarrow> Heap \<Rightarrow> bool" where
  "same_records h h' \<longleftrightarrow>
     (\<forall>b. map_option payload (cells h' b) = map_option payload (cells h b))"

lemma log_at_append:
  assumes log: "log_at h ml L" and t: "t < length L" and a: "a \<notin> set (concat L)"
    and r: "cells h a = Some r" "next_record r = None"
  shows "\<exists>h'. set_next h (tail (record_list ml ! t)) a = Inr h'
    \<and> log_at h' (ml\<lparr>record_list := (record_list ml)[t := append_to (record_list ml ! t) a]\<rparr>)
        (L[t := L ! t @ [a]])
    \<and> brk h' = brk h
    \<and> same_records h h'"
proof -
  let ?l = "record_list ml ! t" and ?as = "L ! t"
  have slot: "slot_at (cells h) ?l ?as" by (rule log_at_nth [OF log t])
  have d: "distinct (concat L)" using log by (simp add: log_at_def)
  have da: "distinct ?as" "a \<notin> set ?as" using d t a by (auto simp: distinct_concat_iff)
  let ?c = "\<lambda>q. if ?as = [] then cells h else (cells h)(last ?as \<mapsto> q\<lparr>next_record := Some a\<rparr>)"
  obtain q where q: "?as \<noteq> [] \<Longrightarrow> cells h (last ?as) = Some q"
    using list_at_dom [of "cells h" "head ?l" ?as] slot by (cases "?as = []") (auto simp: slot_at_def dest: last_in_set)
  define c where "c = ?c q"
  let ?h = "h\<lparr>cells := c\<rparr>"
  have set: "set_next h (tail ?l) a = Inr ?h"
    using slot q by (auto simp: set_next_def slot_at_def c_def)
  have list: "list_at (c) (if ?as = [] then Some a else head ?l) (?as @ [a])"
    unfolding c_def using slot q r da by (intro list_at_snoc) (auto simp: slot_at_def)
  have "slot_at (c) (append_to ?l a) (?as @ [a])"
    using slot list by (cases "?as") (auto simp: slot_at_def append_to_def)
  moreover have "slot_at (c) (record_list ml ! i) (L ! i)" if "i < length L" "i \<noteq> t" for i
    using that distinct_concat_nth [OF d t, of i] last_in_set [of ?as]
    by (intro slot_at_frame [OF log_at_nth [OF log]]) (auto simp: c_def)
  ultimately have "list_all2 (slot_at (c)) ((record_list ml)[t := append_to ?l a]) (L[t := ?as @ [a]])"
    using t log_at_length [OF log] by (auto simp: list_all2_conv_all_nth nth_list_update)
  moreover have "distinct (concat (L[t := ?as @ [a]]))"
    using d t da a by (intro distinct_concat_update) auto
  moreover have "dom c = dom (cells h)" using q by (auto simp: c_def)
  ultimately have "log_at ?h (ml\<lparr>record_list := (record_list ml)[t := append_to ?l a]\<rparr>) (L[t := ?as @ [a]])"
    using log by (simp add: log_at_def)
  moreover have "same_records h ?h" using q by (auto simp: c_def same_records_def payload_def)
  ultimately show ?thesis using set by auto
qed

text \<open>Inserting an allocated record that is in no list appends it to the list of its table.\<close>

lemma insert_record_refines:
  assumes "log_at h ml L" "0 \<le> t" "2 * t \<le> 0x7fffffff"
    and "a \<notin> set (concat L)" "cells h a = Some r" "next_record r = None"
    and "length (grown L (nat t) ! nat t) < 0x7fffffff"
  shows "\<exists>h' ml'. hustle_memlog_insert_record h (Some ml) (Some a) t = Inr (h', Some ml', MEMLOG_OK)
    \<and> log_at h' ml' ((grown L (nat t))[nat t := grown L (nat t) ! nat t @ [a]])
    \<and> same_records h h' \<and> brk h' = brk h \<and> db_name ml' = db_name ml"
proof -
  let ?L = "grown L (nat t)"
  obtain ml1 where ml1: "grow ml t = Inr ml1" "log_at h ml1 ?L" "nat t < length (record_list ml1)"
      "db_name ml1 = db_name ml"
    using log_at_grow [OF assms(1-3)] by blast
  have t: "nat t < length ?L" using ml1 log_at_length by metis
  have "a \<notin> set (concat ?L)" using assms(4) by (auto simp: grown_def)
  from log_at_append [OF ml1(2) t this assms(5,6)]
  obtain h' where h': "set_next h (tail (record_list ml1 ! nat t)) a = Inr h'"
    "log_at h' (ml1\<lparr>record_list := (record_list ml1)[nat t := append_to (record_list ml1 ! nat t) a]\<rparr>)
        (?L[nat t := ?L ! nat t @ [a]])" "brk h' = brk h" "same_records h h'"
    by blast
  moreover have "curr_size (record_list ml1 ! nat t) \<noteq> 0x7fffffff"
    using log_at_nth [OF ml1(2) t] assms(7) by (simp add: slot_at_def)
  ultimately show ?thesis using ml1 assms(2) by (simp add: hustle_memlog_insert_record_def Let_def)
qed

lemma log_at_alloc:
  assumes "log_at h ml L" "cells h1 = (cells h)(brk h \<mapsto> r)" "brk h1 = brk h + 1"
  shows "log_at h1 ml L"
proof -
  have a: "brk h \<notin> set (concat L)" "cells h (brk h) = None"
    using log_at_dom [OF assms(1)] assms(1) by (auto simp: log_at_def)
  have "slot_at ((cells h)(brk h \<mapsto> r)) l as" if "slot_at (cells h) l as" for l as
  proof (rule slot_at_frame [OF that])
    have "set as \<subseteq> dom (cells h)" using that list_at_dom [of "cells h" "head l" as] by (simp add: slot_at_def)
    then show "((cells h)(brk h \<mapsto> r)) b = cells h b" if "b \<in> set as" for b
      using that a(2) by auto
  qed
  then show ?thesis using assms by (auto simp: log_at_def elim: list_all2_mono)
qed

section \<open>Walking and freeing a list\<close>

definition restrict_cells :: "Heap \<Rightarrow> nat set \<Rightarrow> Heap" where
  "restrict_cells h S = h\<lparr>cells := (cells h) |` (- S)\<rparr>"

definition readable :: "Heap \<Rightarrow> nat \<Rightarrow> bool" where
  "readable h a \<longleftrightarrow> (case cells h a of None \<Rightarrow> False | Some r \<Rightarrow> \<exists>c. record_op r = Inr c)"

definition op_of :: "Heap \<Rightarrow> nat \<Rightarrow> table_op option" where
  "op_of h a = (case cells h a of None \<Rightarrow> None
     | Some r \<Rightarrow> (case record_op r of Inl _ \<Rightarrow> None | Inr c \<Rightarrow> c))"

lemma restrict_cells_simps:
  "restrict_cells h {} = h" "restrict_cells (free_cell h a) S = restrict_cells h (insert a S)"
  by (auto simp: restrict_cells_def free_cell_def restrict_map_def fun_eq_iff)

lemma restrict_restrict: "restrict_cells (restrict_cells h S) T = restrict_cells h (S \<union> T)"
  by (auto simp: restrict_cells_def restrict_map_def fun_eq_iff)

lemma drain_list:
  assumes "list_at (cells h) p as" "distinct as" "\<And>a. a \<in> set as \<Longrightarrow> readable h a"
  shows "drain step fr h t p = Some (Inr (if fr then restrict_cells h (set as) else h,
      fold (\<lambda>a t. apply_op step t (op_of h a)) as t))"
  using assms
proof (induction as arbitrary: h t p)
  case Nil
  then show ?case by (subst drain.simps) (simp add: restrict_cells_simps)
next
  case (Cons a as)
  obtain r c where r: "p = Some a" "cells h a = Some r" "record_op r = Inr c"
      "list_at (cells h) (next_record r) as"
    using Cons.prems(1) Cons.prems(3) [of a] by (auto simp: readable_def split: option.splits)
  let ?h = "if fr then free_cell h a else h"
  have same: "cells ?h b = cells h b" if "b \<in> set as" for b
    using that Cons.prems(2) by (auto simp: free_cell_def)
  have "list_at (cells ?h) (next_record r) as" using r(4) same by (rule list_at_frame)
  moreover have "readable ?h b" if "b \<in> set as" for b
    using Cons.prems(3) [of b] same [OF that] that by (simp add: readable_def)
  ultimately have "drain step fr ?h (apply_op step t c) (next_record r)
      = Some (Inr (if fr then restrict_cells ?h (set as) else ?h,
          fold (\<lambda>a t. apply_op step t (op_of ?h a)) as (apply_op step t c)))"
    using Cons.prems(2) by (intro Cons.IH) auto
  moreover have "fold (\<lambda>a t. apply_op step t (op_of ?h a)) as (apply_op step t c)
      = fold (\<lambda>a t. apply_op step t (op_of h a)) as (apply_op step t c)"
    using same by (intro fold_cong) (auto simp: op_of_def)
  moreover have "op_of h a = c" using r by (simp add: op_of_def)
  ultimately show ?case using r
    by (subst drain.simps) (simp add: restrict_cells_simps split: if_splits)
qed

lemma free_list_ok:
  assumes "list_at (cells h) p as" "distinct as"
  shows "free_list h p = Some (Inr (restrict_cells h (set as)))"
  using assms
proof (induction as arbitrary: h p)
  case Nil
  then show ?case by (subst free_list.simps) (simp add: restrict_cells_simps)
next
  case (Cons a as)
  obtain r where r: "p = Some a" "cells h a = Some r" "list_at (cells h) (next_record r) as"
    using Cons.prems(1) by (auto split: option.splits)
  have "list_at (cells (free_cell h a)) (next_record r) as"
    using Cons.prems(2) by (intro list_at_frame [OF r(3)]) (auto simp: free_cell_def)
  then have "free_list (free_cell h a) (next_record r) = Some (Inr (restrict_cells (free_cell h a) (set as)))"
    using Cons.IH Cons.prems(2) by simp
  then show ?case using r by (subst free_list.simps) (simp add: restrict_cells_simps)
qed

text \<open>Emptying one slot, with its cells freed or left behind.\<close>

lemma log_at_reset:
  assumes "log_at h ml L" "i < length L" "S \<subseteq> set (L ! i)"
  shows "log_at (restrict_cells h S) (reset_list ml i) (L[i := []])"
proof -
  have d: "distinct (concat L)" using assms(1) by (simp add: log_at_def)
  have "slot_at (cells (restrict_cells h S)) (record_list ml ! j) (L ! j)" if "j < length L" "j \<noteq> i" for j
    using that assms(3) distinct_concat_nth [OF d that(1) assms(2)]
    by (intro slot_at_frame [OF log_at_nth [OF assms(1)]]) (auto simp: restrict_cells_def restrict_map_def)
  moreover have "distinct (concat (L[i := []]))" using d assms(2) by (intro distinct_concat_update) auto
  ultimately show ?thesis using assms log_at_length [OF assms(1)]
    by (auto simp: log_at_def reset_list_def list_all2_conv_all_nth nth_list_update slot_at_empty
        restrict_cells_def)
qed

section \<open>Updating the tables\<close>

text \<open>
  The specification of an update: slot by slot, the operations of the records of a mapped
  table, in list order, applied to it.
\<close>

fun replay :: "('t \<Rightarrow> table_op \<Rightarrow> 't) \<Rightarrow> (nat \<Rightarrow> string option) \<Rightarrow> (nat \<Rightarrow> table_op option list)
    \<Rightarrow> nat list \<Rightarrow> (string \<rightharpoonup> 't) \<Rightarrow> (string \<rightharpoonup> 't)" where
  "replay step tm ops [] T = T"
| "replay step tm ops (i # is) T =
    replay step tm ops is
     (case tm i of None \<Rightarrow> T
      | Some name \<Rightarrow> (case T name of None \<Rightarrow> T
         | Some t \<Rightarrow> T(name \<mapsto> fold (\<lambda>c t. apply_op step t c) (ops i) t)))"

definition table_of :: "('t, 'z) memlog_state_scheme \<Rightarrow> nat \<Rightarrow> string option" where
  "table_of s i = map_of (table_map s DEFAULT_DB_ID) (int i)"

definition is_mapped :: "('t, 'z) memlog_state_scheme \<Rightarrow> HustleMemLog \<Rightarrow> nat \<Rightarrow> bool" where
  "is_mapped s ml i \<longleftrightarrow> slot_table s ml i \<noteq> None"

definition drained :: "('t, 'z) memlog_state_scheme \<Rightarrow> HustleMemLog \<Rightarrow> nat list \<Rightarrow> nat list list \<Rightarrow> nat list list" where
  "drained s ml is L = map (\<lambda>i. if i \<in> set is \<and> is_mapped s ml i then [] else L ! i) [0..<length L]"

lemma is_mapped_iff:
  "is_mapped s ml i \<longleftrightarrow> (\<exists>name. table_of s i = Some name \<and> catalogs s (db_name ml) name \<noteq> None)"
  by (auto simp: is_mapped_def slot_table_def table_of_def split: option.splits)

lemma drained_simps:
  "drained s ml [] L = L"
  "\<not> is_mapped s ml i \<Longrightarrow> drained s ml (i # is) L = drained s ml is L"
  "is_mapped s ml i \<Longrightarrow> i < length L \<Longrightarrow> drained s ml (i # is) L = drained s ml is (L[i := []])"
  by (auto simp: drained_def map_nth nth_list_update intro!: map_cong)

lemma readable_restrict: "a \<notin> S \<Longrightarrow> readable (restrict_cells h S) a = readable h a"
  "a \<notin> S \<Longrightarrow> op_of (restrict_cells h S) a = op_of h a"
  by (simp_all add: readable_def op_of_def restrict_cells_def)

definition freed :: "bool \<Rightarrow> nat list \<Rightarrow> ('t, 'z) memlog_state_scheme \<Rightarrow> HustleMemLog \<Rightarrow> nat list list \<Rightarrow> nat set" where
  "freed fr is s ml L = (if fr then \<Union>i \<in> {i \<in> set is. is_mapped s ml i}. set (L ! i) else {})"

text \<open>The state after an update, told by the address lists before it.\<close>

definition updated :: "('t \<Rightarrow> table_op \<Rightarrow> 't) \<Rightarrow> bool \<Rightarrow> nat list \<Rightarrow> 't memlog_state \<Rightarrow> HustleMemLog
    \<Rightarrow> nat list list \<Rightarrow> 't memlog_state \<Rightarrow> HustleMemLog \<Rightarrow> bool" where
  "updated step fr is s ml L s' ml' \<longleftrightarrow>
     log_at (heap s') ml' (drained s ml is L) \<and> db_name ml' = db_name ml
     \<and> table_map s' = table_map s
     \<and> catalogs s' = (catalogs s)(db_name ml :=
         replay step (table_of s) (\<lambda>i. map (op_of (heap s)) (L ! i)) is (catalogs s (db_name ml)))
     \<and> heap s' = restrict_cells (heap s) (freed fr is s ml L)"

lemma updated_skip:
  assumes "\<not> is_mapped s ml i" "updated step fr is s ml L s' ml'"
  shows "updated step fr (i # is) s ml L s' ml'"
proof -
  have "{j \<in> set (i # is). is_mapped s ml j} = {j \<in> set is. is_mapped s ml j}" using assms(1) by auto
  then have "freed fr (i # is) s ml L = freed fr is s ml L" by (simp add: freed_def)
  moreover have "replay step (table_of s) ops (i # is) (catalogs s (db_name ml))
      = replay step (table_of s) ops is (catalogs s (db_name ml))" for ops
    using assms(1) by (auto simp: is_mapped_iff split: option.splits)
  ultimately show ?thesis using assms(2) drained_simps(2) [OF assms(1)] unfolding updated_def by metis
qed

lemma replay_cong: "(\<And>i. i \<in> set is \<Longrightarrow> ops i = ops' i) \<Longrightarrow> replay step tm ops is T = replay step tm ops' is T"
proof (induction "is" arbitrary: T)
  case (Cons i "is")
  then have "ops i = ops' i" by simp
  then show ?case using Cons by (simp cong: option.case_cong)
qed simp

definition one_slot :: "('t \<Rightarrow> table_op \<Rightarrow> 't) \<Rightarrow> bool \<Rightarrow> nat \<Rightarrow> 't memlog_state \<Rightarrow> HustleMemLog
    \<Rightarrow> nat list \<Rightarrow> string \<Rightarrow> 't \<Rightarrow> 't memlog_state" where
  "one_slot step fr i s ml as name t = s\<lparr>heap := restrict_cells (heap s) (if fr then set as else {}),
     catalogs := (catalogs s)(db_name ml := (catalogs s (db_name ml))
       (name \<mapsto> fold (\<lambda>c t. apply_op step t c) (map (op_of (heap s)) as) t))\<rparr>"

lemma is_mapped_one_slot:
  "slot_table s ml i = Some (name, t) \<Longrightarrow>
   is_mapped (one_slot step fr i s ml as name t) (reset_list ml i) j = is_mapped s ml j"
  by (auto simp: is_mapped_iff one_slot_def reset_list_def table_of_def slot_table_def split: option.splits)

lemma updated_step:
  assumes slot: "slot_table s ml i = Some (name, t)" and i: "i < length L" "i \<notin> set is"
    and js: "\<And>j. j \<in> set is \<Longrightarrow> j < length L" and log: "log_at (heap s) ml L"
    and upd: "updated step fr is (one_slot step fr i s ml (L ! i) name t) (reset_list ml i) (L[i := []]) s' ml'"
  shows "updated step fr (i # is) s ml L s' ml'"
proof -
  let ?s = "one_slot step fr i s ml (L ! i) name t"
  note mapped = is_mapped_one_slot [OF slot]
  have m: "is_mapped s ml i" using slot by (simp add: is_mapped_def)
  have nth: "j \<in> set is \<Longrightarrow> L[i := []] ! j = L ! j" for j using i by (cases "j = i") auto
  have d: "distinct (concat L)" using log by (simp add: log_at_def)
  have dr: "drained ?s (reset_list ml i) is (L[i := []]) = drained s ml (i # is) L"
    using drained_simps(3) [OF m i(1)] by (simp add: drained_def mapped)
  have fre: "freed fr (i # is) s ml L = (if fr then set (L ! i) else {})
      \<union> freed fr is ?s (reset_list ml i) (L[i := []])"
    using m nth by (auto simp: freed_def mapped)
  have "op_of (heap ?s) a = op_of (heap s) a" if "j \<in> set is" "a \<in> set (L ! j)" for j a
  proof -
    have "a \<notin> set (L ! i)"
      using distinct_concat_nth [OF d js [OF that(1)] i(1)] that i(2) by auto
    then show ?thesis by (simp add: one_slot_def readable_restrict)
  qed
  moreover have "table_of ?s = table_of s" by (simp add: fun_eq_iff table_of_def one_slot_def)
  ultimately have "replay step (table_of ?s) (\<lambda>j. map (op_of (heap ?s)) (L[i := []] ! j)) is T
      = replay step (table_of s) (\<lambda>j. map (op_of (heap s)) (L ! j)) is T" for T
    by (auto simp: nth intro!: replay_cong)
  moreover have "replay step (table_of s) ops (i # is) (catalogs s (db_name ml))
      = replay step (table_of s) ops is (catalogs ?s (db_name ml))" if "ops i = map (op_of (heap s)) (L ! i)" for ops
    using slot that by (auto simp: one_slot_def slot_table_def table_of_def split: option.splits)
  ultimately have "catalogs s' = (catalogs s)(db_name ml :=
      replay step (table_of s) (\<lambda>i. map (op_of (heap s)) (L ! i)) (i # is) (catalogs s (db_name ml)))"
    using upd by (simp add: updated_def reset_list_def del: replay.simps) (simp add: one_slot_def)
  moreover have "heap s' = restrict_cells (heap s) (freed fr (i # is) s ml L)"
    using upd unfolding fre by (simp add: updated_def one_slot_def restrict_restrict)
  moreover have "log_at (heap s') ml' (drained s ml (i # is) L)"
    using upd unfolding dr [symmetric] updated_def by blast
  moreover have "db_name ml' = db_name ml" "table_map s' = table_map s"
    using upd by (simp_all add: updated_def reset_list_def one_slot_def)
  ultimately show ?thesis unfolding updated_def by blast
qed

lemma update_slots_ok:
  assumes "log_at (heap s) ml L" "distinct is" "\<And>i. i \<in> set is \<Longrightarrow> i < length L"
    and "\<And>i a. i \<in> set is \<Longrightarrow> is_mapped s ml i \<Longrightarrow> a \<in> set (L ! i) \<Longrightarrow> readable (heap s) a"
  shows "\<exists>s' ml'. update_slots step fr is s ml = Some (Inr (s', ml')) \<and> updated step fr is s ml L s' ml'"
  using assms
proof (induction "is" arbitrary: s ml L)
  case Nil
  then show ?case by (simp add: updated_def freed_def drained_simps restrict_cells_simps)
next
  case (Cons i "is")
  show ?case
  proof (cases "slot_table s ml i")
    case None
    then have "\<not> is_mapped s ml i" by (simp add: is_mapped_def)
    moreover have "\<exists>s' ml'. update_slots step fr is s ml = Some (Inr (s', ml')) \<and> updated step fr is s ml L s' ml'"
      using Cons.prems by (intro Cons.IH) auto
    ultimately show ?thesis using None updated_skip by fastforce
  next
    case (Some nt)
    obtain name t where nt: "slot_table s ml i = Some (name, t)" using Some by (cases nt) simp
    have i: "i < length L" "i \<notin> set is" using Cons.prems(2,3) by auto
    have d: "distinct (concat L)" using Cons.prems(1) by (simp add: log_at_def)
    let ?s = "one_slot step fr i s ml (L ! i) name t"
    have "list_at (cells (heap s)) (head (record_list ml ! i)) (L ! i)"
      using log_at_nth [OF Cons.prems(1) i(1)] by (simp add: slot_at_def)
    moreover have "distinct (L ! i)" using d i by (auto simp: distinct_concat_iff)
    ultimately have dr: "drain step fr (heap s) t (head (record_list ml ! i)) =
       Some (Inr (heap ?s, fold (\<lambda>a t. apply_op step t (op_of (heap s) a)) (L ! i) t))"
      using drain_list [of "heap s" _ "L ! i" step fr t] Cons.prems(4) [of i] nt
      by (simp add: is_mapped_def one_slot_def restrict_cells_simps)
    have "\<exists>s' ml'. update_slots step fr is ?s (reset_list ml i) = Some (Inr (s', ml'))
        \<and> updated step fr is ?s (reset_list ml i) (L[i := []]) s' ml'"
    proof (rule Cons.IH)
      show "log_at (heap ?s) (reset_list ml i) (L[i := []])"
        using log_at_reset [OF Cons.prems(1) i(1)] by (simp add: one_slot_def)
      show "readable (heap ?s) a" if "j \<in> set is" "is_mapped ?s (reset_list ml i) j" "a \<in> set (L[i := []] ! j)" for j a
      proof -
        have "j \<noteq> i" using that(1) i(2) by auto
        then have "a \<in> set (L ! j)" "a \<notin> set (L ! i)"
          using that distinct_concat_nth [OF d _ i(1), of j] Cons.prems(3) [of j] by auto
        then show ?thesis using Cons.prems(4) [of j a] that is_mapped_one_slot [OF nt]
          by (simp add: one_slot_def readable_restrict)
      qed
    qed (use Cons.prems in auto)
    moreover have "update_slots step fr (i # is) s ml = update_slots step fr is ?s (reset_list ml i)"
      using nt dr by (simp add: one_slot_def fold_map comp_def)
    ultimately show ?thesis using updated_step [OF nt i _ Cons.prems(1)] Cons.prems(3) by fastforce
  qed
qed

section \<open>Clearing the log\<close>

lemma clear_slots_ok:
  assumes "log_at h ml L" "distinct is" "\<And>i. i \<in> set is \<Longrightarrow> i < length L"
  shows "\<exists>ml'. clear_slots is h ml = Some (Inr (restrict_cells h (\<Union>i \<in> set is. set (L ! i)), ml'))
    \<and> log_at (restrict_cells h (\<Union>i \<in> set is. set (L ! i))) ml'
        (map (\<lambda>i. if i \<in> set is then [] else L ! i) [0..<length L])"
  using assms
proof (induction "is" arbitrary: h ml L)
  case Nil
  then show ?case by (simp add: restrict_cells_simps map_nth)
next
  case (Cons i "is")
  have i: "i < length L" "i \<notin> set is" using Cons.prems(2,3) by auto
  have d: "distinct (concat L)" using Cons.prems(1) by (simp add: log_at_def)
  let ?h = "restrict_cells h (set (L ! i))" and ?L = "L[i := []]"
  have "list_at (cells h) (head (record_list ml ! i)) (L ! i)"
    using log_at_nth [OF Cons.prems(1) i(1)] by (simp add: slot_at_def)
  moreover have "distinct (L ! i)" using d i by (auto simp: distinct_concat_iff)
  ultimately have "free_list h (head (record_list ml ! i)) = Some (Inr ?h)" by (rule free_list_ok)
  then have "clear_slots (i # is) h ml = clear_slots is ?h (reset_list ml i)" by simp
  moreover have "log_at ?h (reset_list ml i) ?L" using Cons.prems(1) i(1) by (intro log_at_reset) auto
  from Cons.IH [OF this] Cons.prems(2,3)
  obtain ml' where "clear_slots is ?h (reset_list ml i) = Some (Inr (restrict_cells ?h (\<Union>j \<in> set is. set (?L ! j)), ml'))"
    "log_at (restrict_cells ?h (\<Union>j \<in> set is. set (?L ! j))) ml'
        (map (\<lambda>j. if j \<in> set is then [] else ?L ! j) [0..<length L])" by auto
  moreover have "(\<Union>j \<in> set is. set (?L ! j)) = (\<Union>j \<in> set is. set (L ! j))"
    using i by (intro SUP_cong) (auto simp: nth_list_update)
  moreover have "map (\<lambda>j. if j \<in> set is then [] else ?L ! j) [0..<length L]
      = map (\<lambda>j. if j \<in> set (i # is) then [] else L ! j) [0..<length L]"
    using i by (auto simp: nth_list_update)
  ultimately show ?case by (simp add: restrict_restrict)
qed

lemma UN_concat: "(\<Union>i \<in> {0..<length L}. set (L ! i)) = set (concat L)"
  by (auto simp: in_set_conv_nth) (metis nth_mem atLeastLessThan_iff le0)+

lemma clear_ok:
  assumes "log_at h ml L"
  shows "\<exists>ml'. hustle_memlog_clear h (Some ml) = Some (Inr (restrict_cells h (set (concat L)), Some ml', MEMLOG_OK))
    \<and> log_at (restrict_cells h (set (concat L))) ml' (replicate (length L) [])"
proof -
  have "map (\<lambda>i. if i \<in> set [0..<length L] then [] else L ! i) [0..<length L] = replicate (length L) []"
    by (intro nth_equalityI) auto
  then show ?thesis using clear_slots_ok [OF assms, of "[0..<length L]"] log_at_length [OF assms] UN_concat [of L]
    by (auto simp: hustle_memlog_clear_def simp del: set_concat)
qed

section \<open>The log as a function from tables to records\<close>

text \<open>
  The abstract log: the records of each table, by value. Slots past the end of the array are
  empty, so the growth of the array is invisible.
\<close>

definition records_at :: "Heap \<Rightarrow> nat list \<Rightarrow> DBRecord list" where
  "records_at h as = map (\<lambda>a. payload (the (cells h a))) as"

definition log_holds :: "Heap \<Rightarrow> HustleMemLog \<Rightarrow> (nat \<Rightarrow> DBRecord list) \<Rightarrow> bool" where
  "log_holds h ml F \<longleftrightarrow> (\<exists>L. log_at h ml L \<and> dom (cells h) = set (concat L)
     \<and> (\<forall>i. F i = (if i < length L then records_at h (L ! i) else [])))"

lemma records_at_same: "same_records h h' \<Longrightarrow> set as \<subseteq> dom (cells h) \<Longrightarrow> records_at h' as = records_at h as"
proof (unfold records_at_def, rule map_cong)
  fix a assume same: "same_records h h'" and "set as \<subseteq> dom (cells h)" "a \<in> set as"
  then obtain r where "cells h a = Some r" by auto
  with same show "payload (the (cells h' a)) = payload (the (cells h a))"
    unfolding same_records_def by (metis map_option_eq_Some option.sel)
qed simp

lemma same_records_dom: "same_records h h' \<Longrightarrow> dom (cells h') = dom (cells h)"
  unfolding same_records_def dom_def by (metis map_option_is_None)

lemma log_holds_slot: "log_at h ml L \<Longrightarrow> i < length L \<Longrightarrow> set (L ! i) \<subseteq> dom (cells h)"
  using log_at_nth [of h ml L i] list_at_dom [of "cells h" "head (record_list ml ! i)" "L ! i"]
  by (simp add: slot_at_def)

lemma grown_nth: "t < length (grown L t) \<Longrightarrow> i < length (grown L t) \<Longrightarrow>
    grown L t ! i = (if i < length L then L ! i else [])"
  by (auto simp: grown_def nth_append)

lemma concat_snoc_nth: "i < length L \<Longrightarrow> set (concat (L[i := L ! i @ [a]])) = insert a (set (concat L))"
  by (induction L arbitrary: i) (auto split: nat.splits)

text \<open>Inserting a freshly created record.\<close>

lemma insert_fresh:
  assumes "log_holds h ml F" "0 \<le> t" "2 * t \<le> 0x7fffffff" "length (F (nat t)) < 0x7fffffff"
    and "cells h1 = (cells h)(brk h \<mapsto> r)" "brk h1 = brk h + 1" "next_record r = None"
  shows "\<exists>h2 ml2. hustle_memlog_insert_record h1 (Some ml) (Some (brk h)) t = Inr (h2, Some ml2, MEMLOG_OK)
    \<and> log_holds h2 ml2 (F(nat t := F (nat t) @ [payload r])) \<and> db_name ml2 = db_name ml"
proof -
  obtain L where L: "log_at h ml L" "dom (cells h) = set (concat L)"
      "\<And>i. F i = (if i < length L then records_at h (L ! i) else [])"
    using assms(1) by (auto simp: log_holds_def)
  let ?L = "grown L (nat t)" and ?a = "brk h"
  let ?L' = "?L[nat t := ?L ! nat t @ [?a]]"
  have fresh: "cells h ?a = None" "?a \<notin> set (concat L)" using L(1,2) by (auto simp: log_at_def)
  have at1: "log_at h1 ml L" using L(1) assms(5,6) by (rule log_at_alloc)
  have pos: "0 < length L" using log_at_length [OF L(1)] L(1) by (auto simp: log_at_def)
  have t: "nat t < length ?L"
  proof (cases "nat t < length L")
    case False
    then show ?thesis using pos by (simp only: grown_def length_append length_replicate if_False)
  qed (simp add: grown_def)
  have rec: "records_at h1 (L ! i) = records_at h (L ! i)" if "i < length L" for i
    using log_holds_slot [OF L(1) that] fresh(1) assms(5) by (auto simp: records_at_def)
  have F: "F i = (if i < length ?L then records_at h1 (?L ! i) else [])" for i
    using L(3) [of i] grown_nth [OF t, of i] rec by (auto simp: records_at_def grown_def)
  have len: "length (?L ! nat t) < 0x7fffffff"
    using F [of "nat t"] assms(4) t by (simp add: records_at_def)
  from insert_record_refines [OF at1 assms(2,3) fresh(2) _ assms(7) len] assms(5)
  obtain h2 ml2 where ins: "hustle_memlog_insert_record h1 (Some ml) (Some ?a) t = Inr (h2, Some ml2, MEMLOG_OK)"
      "log_at h2 ml2 ?L'" "same_records h1 h2" "db_name ml2 = db_name ml"
    by auto
  have dom1: "dom (cells h1) = insert ?a (set (concat L))" using assms(5) L(2) by auto
  have sub: "set (?L ! i) \<subseteq> dom (cells h1)" if "i < length ?L" for i
    using grown_nth [OF t that] log_holds_slot [OF at1] by (auto simp: domI)
  have same: "records_at h2 (?L ! i) = records_at h1 (?L ! i)" if "i < length ?L" for i
    using ins(3) sub [OF that] by (rule records_at_same)
  have "records_at h2 [?a] = records_at h1 [?a]" using ins(3) dom1 by (intro records_at_same) auto
  then have "payload (the (cells h2 ?a)) = payload r" using assms(5) by (simp add: records_at_def)
  then have "(F(nat t := F (nat t) @ [payload r])) i
      = (if i < length ?L' then records_at h2 (?L' ! i) else [])" for i
    using F [of i] same [of i] t by (auto simp: records_at_def nth_list_update)
  moreover have "set (concat ?L) = set (concat L)" by (auto simp: grown_def)
  then have "dom (cells h2) = set (concat ?L')"
    using same_records_dom [OF ins(3)] dom1 concat_snoc_nth [OF t] by simp
  ultimately have "log_holds h2 ml2 (F(nat t := F (nat t) @ [payload r]))"
    using ins(2) unfolding log_holds_def by blast
  then show ?thesis using ins by blast
qed

definition change_ok :: "int \<times> change \<Rightarrow> bool" where
  "change_ok q \<longleftrightarrow> 0 \<le> fst q \<and> 2 * fst q \<le> 0x7fffffff"

lemma payload_change [simp]: "payload (change_record c) = change_record c"
  by (cases c) (simp_all add: payload_def)

lemma next_change [simp]: "next_record (change_record c) = None"
  by (cases c) simp_all

text \<open>One logged change is one record at the end of its table's log.\<close>

lemma log_change_appends:
  assumes "log_holds h ml F" "change_ok (t, c)" "length (F (nat t)) < 0x7fffffff"
  shows "\<exists>h' ml'. log_change (h, Some ml) t c = Inr (h', Some ml')
    \<and> log_holds h' ml' (F(nat t := F (nat t) @ [change_record c])) \<and> db_name ml' = db_name ml"
proof -
  let ?h = "h\<lparr>cells := (cells h)(brk h \<mapsto> change_record c), brk := brk h + 1\<rparr>"
  from insert_fresh [OF assms(1) _ _ assms(3), of ?h "change_record c"] assms(2)
  obtain h2 ml2 where "hustle_memlog_insert_record ?h (Some ml) (Some (brk h)) t = Inr (h2, Some ml2, MEMLOG_OK)"
    "log_holds h2 ml2 (F(nat t := F (nat t) @ [change_record c]))" "db_name ml2 = db_name ml"
    by (auto simp: change_ok_def)
  moreover from this(1) have "log_change (h, Some ml) t c = Inr (h2, Some ml2)"
    by (cases h; cases c) (simp_all add: hustle_memlog_create_record_def alloc_def set_meta_def
        MEMLOG_HUSTLE_DELETE_def MEMLOG_HUSTLE_UPDATE_def MEMLOG_HUSTLE_INSERT_def)
  ultimately show ?thesis by blast
qed

section \<open>The interface of an append-only log\<close>

text \<open>
  What a transaction relies on: an accepted entry goes to the end of its slot and leaves the
  other slots alone. Then a sequence of entries is, in each slot, the subsequence for that slot.
\<close>

fun log_all :: "('s \<Rightarrow> 'q \<Rightarrow> 's res) \<Rightarrow> 's \<Rightarrow> 'q list \<Rightarrow> 's res" where
  "log_all app s [] = Inr s"
| "log_all app s (q # qs) = and_then (app s q) (\<lambda>s. log_all app s qs)"

locale append_log =
  fixes rel :: "'s \<Rightarrow> ('i \<Rightarrow> 'r list) \<Rightarrow> bool"
    and app :: "'s \<Rightarrow> 'q \<Rightarrow> 's res"
    and slot :: "'q \<Rightarrow> 'i" and entry :: "'q \<Rightarrow> 'r"
    and ok :: "'q \<Rightarrow> bool" and cap :: nat
  assumes app_rel: "rel s F \<Longrightarrow> ok q \<Longrightarrow> length (F (slot q)) < cap \<Longrightarrow>
    \<exists>s'. app s q = Inr s' \<and> rel s' (F(slot q := F (slot q) @ [entry q]))"
begin

lemma log_all_slots:
  assumes "rel s F" "\<And>q. q \<in> set qs \<Longrightarrow> ok q" "\<And>i. length (F i) + length qs \<le> cap"
  shows "\<exists>s'. log_all app s qs = Inr s'
    \<and> rel s' (\<lambda>i. F i @ map entry (filter (\<lambda>q. slot q = i) qs))"
  using assms
proof (induction qs arbitrary: s F)
  case (Cons q qs)
  let ?F = "F(slot q := F (slot q) @ [entry q])"
  have "length (F (slot q)) < cap" using Cons.prems(3) [of "slot q"] by simp
  then obtain s' where s': "app s q = Inr s'" "rel s' ?F"
    using app_rel [OF Cons.prems(1)] Cons.prems(2) by auto
  have "length (?F i) + length qs \<le> cap" for i using Cons.prems(3) [of i] by (cases "i = slot q") auto
  then obtain s'' where "log_all app s' qs = Inr s''"
      "rel s'' (\<lambda>i. ?F i @ map entry (filter (\<lambda>q. slot q = i) qs))"
    using Cons.IH [OF s'(2)] Cons.prems(2) by auto
  moreover have "(\<lambda>i. ?F i @ map entry (filter (\<lambda>q. slot q = i) qs))
      = (\<lambda>i. F i @ map entry (filter (\<lambda>q. slot q = i) (q # qs)))" by (auto simp: fun_eq_iff)
  ultimately show ?case using s'(1) by auto
qed simp

end

definition memlog_rel :: "string \<Rightarrow> Heap \<times> HustleMemLog option \<Rightarrow> (nat \<Rightarrow> DBRecord list) \<Rightarrow> bool" where
  "memlog_rel name s F \<longleftrightarrow> (\<exists>ml. snd s = Some ml \<and> db_name ml = name \<and> log_holds (fst s) ml F)"

interpretation memlog: append_log "memlog_rel name" "\<lambda>s q. log_change s (fst q) (snd q)"
  "\<lambda>q. nat (fst q)" "\<lambda>q. change_record (snd q)" change_ok "0x7fffffff" for name
proof
  fix s F and q :: "int \<times> change"
  assume "memlog_rel name s F" "change_ok q" "length (F (nat (fst q))) < 0x7fffffff"
  then show "\<exists>s'. log_change s (fst q) (snd q) = Inr s'
      \<and> memlog_rel name s' (F(nat (fst q) := F (nat (fst q)) @ [change_record (snd q)]))"
    using log_change_appends [of "fst s" _ F "fst q" "snd q"]
    by (cases s; cases q) (fastforce simp: memlog_rel_def)
qed

section \<open>Commit\<close>

lemma record_op_payload: "record_op (payload r) = record_op r"
  by (simp add: record_op_def payload_def cong: if_cong)

definition record_ops :: "DBRecord \<Rightarrow> table_op option" where
  "record_ops r = (case record_op r of Inl _ \<Rightarrow> None | Inr c \<Rightarrow> c)"

definition decodable :: "DBRecord \<Rightarrow> bool" where
  "decodable r \<longleftrightarrow> (case record_op r of Inl _ \<Rightarrow> False | Inr _ \<Rightarrow> True)"

lemma op_of_records:
  assumes "set as \<subseteq> dom (cells h)"
  shows "map (op_of h) as = map record_ops (records_at h as)"
    and "a \<in> set as \<Longrightarrow> readable h a \<longleftrightarrow> decodable (payload (the (cells h a)))"
  using assms by (auto simp: op_of_def record_ops_def records_at_def readable_def decodable_def record_op_payload
      split: option.splits sum.splits)

lemma replay_empty:
  "(\<And>i. i \<in> set is \<Longrightarrow> ops i = []) \<Longrightarrow> replay step tm ops is T = T"
  by (induction "is") (auto split: option.splits simp: fun_upd_idem)

text \<open>
  The update and the commit told on the abstract log: mapped tables get the operations of their
  records in order and lose their records, the others keep both.
\<close>

lemma update_db_holds:
  assumes "log_holds (heap s) ml F"
    and "\<forall>i. is_mapped s ml i \<longrightarrow> list_all decodable (F i)"
  shows "\<exists>s' ml'. hustle_memlog_update_db step True s (Some ml) = Some (Inr (s', Some ml', MEMLOG_OK))
    \<and> log_holds (heap s') ml' (\<lambda>i. if is_mapped s ml i then [] else F i)
    \<and> db_name ml' = db_name ml \<and> total_size ml' = total_size ml \<and> table_map s' = table_map s
    \<and> catalogs s' = (catalogs s)(db_name ml := replay step (table_of s) (\<lambda>i. map record_ops (F i))
        [0..<nat (total_size ml)] (catalogs s (db_name ml)))"
proof -
  obtain L where L: "log_at (heap s) ml L" "dom (cells (heap s)) = set (concat L)"
      "\<And>i. F i = (if i < length L then records_at (heap s) (L ! i) else [])"
    using assms(1) by (auto simp: log_holds_def)
  have len: "nat (total_size ml) = length L" using log_at_length [OF L(1)] by simp
  have "readable (heap s) a" if "i < length L" "is_mapped s ml i" "a \<in> set (L ! i)" for i a
    using op_of_records(2) [OF log_holds_slot [OF L(1) that(1)] that(3)] assms(2) L(3) [of i] that
    by (auto simp: records_at_def list_all_iff)
  then obtain s' ml' where upd: "update_slots step True [0..<length L] s ml = Some (Inr (s', ml'))"
      "updated step True [0..<length L] s ml L s' ml'"
    using update_slots_ok [OF L(1), of "[0..<length L]"] unfolding set_upt atLeastLessThan_iff
    by (metis distinct_upt)
  let ?L = "drained s ml [0..<length L] L" and ?S = "freed True [0..<length L] s ml L"
  have ops: "replay step (table_of s) (\<lambda>i. map (op_of (heap s)) (L ! i)) [0..<length L] T
      = replay step (table_of s) (\<lambda>i. map record_ops (F i)) [0..<length L] T" for T
    using L(3) op_of_records(1) [OF log_holds_slot [OF L(1)]] by (intro replay_cong) auto
  have "log_holds (heap s') ml' (\<lambda>i. if is_mapped s ml i then [] else F i)"
    unfolding log_holds_def
  proof (intro exI conjI allI)
    show "log_at (heap s') ml' ?L" using upd(2) unfolding updated_def by blast
    have hs: "heap s' = restrict_cells (heap s) ?S" using upd(2) by (simp add: updated_def)
    have S: "?S = (\<Union>i \<in> {i. i < length L \<and> is_mapped s ml i}. set (L ! i))" by (auto simp: freed_def)
    have C: "set (concat ?L) = (\<Union>i \<in> {i. i < length L \<and> \<not> is_mapped s ml i}. set (L ! i))"
      by (auto simp: drained_def split: if_splits)
    have un: "a \<notin> ?S" if "i < length L" "\<not> is_mapped s ml i" "a \<in> set (L ! i)" for i a
      using that L(1) distinct_concat_nth [of L] unfolding S log_at_def by blast
    have "dom (cells (heap s')) = set (concat L) - ?S"
      using L(2) hs by (auto simp: restrict_cells_def restrict_map_def dom_def split: if_splits)
    also have "\<dots> = set (concat ?L)"
    proof (intro set_eqI iffI)
      fix a assume a: "a \<in> set (concat L) - ?S"
      then obtain i where "i < length L" "a \<in> set (L ! i)" unfolding UN_concat [symmetric] by auto
      with a show "a \<in> set (concat ?L)" unfolding C S by blast
    next
      fix a assume "a \<in> set (concat ?L)"
      then obtain i where i: "i < length L" "\<not> is_mapped s ml i" "a \<in> set (L ! i)" unfolding C by blast
      then show "a \<in> set (concat L) - ?S" using un [OF i] mem_concat_nth by fast
    qed
    finally show "dom (cells (heap s')) = set (concat ?L)" .
    show "(if is_mapped s ml i then [] else F i) = (if i < length ?L then records_at (heap s') (?L ! i) else [])" for i
      using L(3) [of i] un [of i] unfolding hs
      by (auto simp: drained_def records_at_def restrict_cells_def restrict_map_def)
  qed
  moreover have "total_size ml' = total_size ml"
    using upd(2) log_at_length [of "heap s'" ml' ?L] len L(1)
    by (auto simp: updated_def log_at_def drained_def)
  ultimately show ?thesis using upd len ops
    by (auto simp: hustle_memlog_update_db_def updated_def)
qed

lemma clear_holds:
  assumes "log_holds h ml F"
  shows "\<exists>h' ml'. hustle_memlog_clear h (Some ml) = Some (Inr (h', Some ml', MEMLOG_OK))
    \<and> log_holds h' ml' (\<lambda>_. []) \<and> cells h' = Map.empty"
proof -
  obtain L where L: "log_at h ml L" "dom (cells h) = set (concat L)"
    using assms by (auto simp: log_holds_def)
  let ?h = "restrict_cells h (set (concat L))"
  have "cells ?h = Map.empty" using L(2) by (auto simp: restrict_cells_def restrict_map_def fun_eq_iff)
  then show ?thesis using clear_ok [OF L(1)]
    by (fastforce simp: log_holds_def records_at_def)
qed

lemma commit_holds:
  assumes "log_holds (heap s) ml F"
    and "\<forall>i. is_mapped s ml i \<longrightarrow> list_all decodable (F i)"
  shows "\<exists>s' ml'. memlog_commit step s (Some ml) = Some (Inr (s', Some ml'))
    \<and> log_holds (heap s') ml' (\<lambda>_. []) \<and> cells (heap s') = Map.empty \<and> table_map s' = table_map s
    \<and> catalogs s' = (catalogs s)(db_name ml := replay step (table_of s) (\<lambda>i. map record_ops (F i))
        [0..<nat (total_size ml)] (catalogs s (db_name ml)))"
proof -
  obtain s1 ml1 where 1: "hustle_memlog_update_db step True s (Some ml) = Some (Inr (s1, Some ml1, MEMLOG_OK))"
    "log_holds (heap s1) ml1 (\<lambda>i. if is_mapped s ml i then [] else F i)" "table_map s1 = table_map s"
    "catalogs s1 = (catalogs s)(db_name ml := replay step (table_of s) (\<lambda>i. map record_ops (F i))
        [0..<nat (total_size ml)] (catalogs s (db_name ml)))"
    using update_db_holds [OF assms, of step] by blast
  from clear_holds [OF 1(2)] obtain h' ml' where
    "hustle_memlog_clear (heap s1) (Some ml1) = Some (Inr (h', Some ml', MEMLOG_OK))"
    "log_holds h' ml' (\<lambda>_. [])" "cells h' = Map.empty" by blast
  with 1 show ?thesis by (simp add: memlog_commit_def)
qed

section \<open>Reading the header back\<close>

definition col_width :: "u32 \<Rightarrow> int" where
  "col_width t = (if t = 8 then - 8 else if t = 9 then - 9 else sint (the (serialTypeLen t)))"

lemma byte_width_eq: "\<exists>w. byte_width t = Inr w \<and> sint w = col_width t"
  using recordSerialGet_len [of t "\<lambda>_. 0" None]
  by (auto simp: byte_width_def col_width_def ZERO_TYPE_ENCODING_def ONE_TYPE_ENCODING_def)

lemma get_all_mono: "get_all get m p i = (vs, j) \<Longrightarrow> i \<le> j"
proof (induction m arbitrary: i vs)
  case (Suc m)
  then show ?case by (fastforce simp: Let_def split: prod.splits)
qed simp

lemma read_varint32_at:
  assumes "get32 (\<lambda>k. q (i + k)) = (v, n)" "i + n \<le> j" "j \<le> length d" "\<And>k. k < j \<Longrightarrow> d ! k = q k"
  shows "read_varint32 d i = Inr (v, n)"
proof -
  have "get32 (at_byte d i) = get32 (\<lambda>k. q (i + k))"
    using assms by (intro varint32.get_local) (simp add: at_byte_def)
  then show ?thesis using assms by (simp add: read_varint32_def getVarint32_eq get32_eq)
qed

lemma byte_widths_read:
  assumes "get_all get32 (length ts) q i = (ts, j)" "j \<le> length d" "\<And>k. k < j \<Longrightarrow> d ! k = q k"
  shows "byte_widths d j i = Inr (map col_width ts)"
  using assms(1)
proof (induction ts arbitrary: i)
  case Nil
  then show ?case by (subst byte_widths.simps) simp
next
  case (Cons t ts)
  obtain n where n: "get32 (\<lambda>k. q (i + k)) = (t, n)" "get_all get32 (length ts) q (i + n) = (ts, j)"
    using Cons.prems by (auto simp: Let_def split: prod.splits)
  have "i + n \<le> j" using get_all_mono [OF n(2)] .
  moreover have "0 < n" using n(1) varint_len_bounds by (auto simp: get32_eq)
  moreover have "read_varint32 d i = Inr (t, n)"
    using n(1) \<open>i + n \<le> j\<close> assms(2,3) by (rule read_varint32_at)
  moreover obtain w where "byte_width t = Inr w" "sint w = col_width t" using byte_width_eq by blast
  ultimately show ?case using Cons.IH [OF n(2)] by (subst byte_widths.simps) simp
qed

lemma read_header_written:
  assumes "put_all put32 (hdrLen # ts) p 0 = Some (q, unat hdrLen)"
    and "unat hdrLen \<le> length d" "\<And>k. k < unat hdrLen \<Longrightarrow> d ! k = q k"
  shows "read_header d = Inr (unat hdrLen, map col_width ts)"
proof -
  have "get_all get32 (length (hdrLen # ts)) q 0 = (hdrLen # ts, unat hdrLen)"
    using assms(1) by (rule varint32.get_put_all)
  then obtain n where n: "get32 (\<lambda>k. q (0 + k)) = (hdrLen, n)"
      "get_all get32 (length ts) q n = (ts, unat hdrLen)"
    by (auto simp: Let_def split: prod.splits)
  have "read_varint32 d 0 = Inr (hdrLen, n)"
    using n(1) get_all_mono [OF n(2)] assms(2,3)
    by (intro read_varint32_at [of q 0 _ _ "unat hdrLen"]) auto
  then show ?thesis using byte_widths_read [OF n(2) assms(2,3)] by (simp add: read_header_def)
qed

lemma log_holds_bound: "log_holds h ml F \<Longrightarrow> F i \<noteq> [] \<Longrightarrow> i < nat (total_size ml)"
  using log_at_length by (fastforce simp: log_holds_def split: if_splits)

section \<open>Properties\<close>

text \<open>C15: a record header that SQLite's writer wrote (its own length first, then one serial type
  per column) is read back by the memlog as that length and the column widths.\<close>

theorem read_header_roundtrip:
  assumes "put_all put32 (hdrLen # ts) p 0 = Some (q, unat hdrLen)"
    and "unat hdrLen \<le> length d" "\<And>k. k < unat hdrLen \<Longrightarrow> d ! k = q k"
  shows "read_header d = Inr (unat hdrLen, map col_width ts)"
  using assms by (rule read_header_written)

theorem read_header_roundtrip_witness: "read_header [2, 23, 1, 2, 3, 4, 5] = Inr (2, [5])"
proof -
  have "put_all put32 [2, 23] (\<lambda>_. 0) 0 = Some ((\<lambda>_. 0)(0 := 2, 1 := 23), 2)"
    by (auto simp: put32_def sqlite3PutVarint_def fun_eq_iff)
  then have "read_header [2, 23, 1, 2, 3, 4, 5] = Inr (unat (2 :: u32), map col_width [23])"
    by (intro read_header_roundtrip [where p = "\<lambda>_. 0" and q = "(\<lambda>_. 0)(0 := 2, 1 := 23)"])
      (auto simp del: put_all.simps dest: less_2_cases)
  then show ?thesis by (simp add: col_width_def serialTypeLen_eq)
qed

text \<open>C17: logging a change appends exactly one record, with the row's bytes, to the log of its
  table and changes no other table's log; the array grows when the table is past its end.\<close>

theorem memlog_change_appends:
  assumes "log_holds h ml F" "0 \<le> t" "2 * t \<le> 0x7fffffff" "length (F (nat t)) < 0x7fffffff"
  shows "\<exists>h' ml'. log_change (h, Some ml) t c = Inr (h', Some ml')
    \<and> log_holds h' ml' (F(nat t := F (nat t) @ [change_record c]))"
  using log_change_appends [OF assms(1) _ assms(4), of c] assms(2,3) by (auto simp: change_ok_def)

theorem memlog_change_appends_witness:
  "\<exists>h' ml'. log_change (\<lparr>cells = Map.empty, brk = 0\<rparr>,
       Some \<lparr>record_list = [empty_list], total_size = 1, db_name = ''db''\<rparr>) 5 (LogDelete 7) = Inr (h', Some ml')
    \<and> log_holds h' ml' ((\<lambda>_. [])(5 := [change_record (LogDelete 7)]))"
proof -
  have "log_holds \<lparr>cells = Map.empty, brk = 0\<rparr> \<lparr>record_list = [empty_list], total_size = 1, db_name = ''db''\<rparr> (\<lambda>_. [])"
    by (auto simp: log_holds_def log_at_def slot_at_empty records_at_def intro!: exI [of _ "[[]]"])
  from memlog_change_appends [OF this, of 5 "LogDelete 7"] show ?thesis by simp
qed



text \<open>C18: clearing a log (after a rollback, or what a commit left) ends without a memory error,
  leaves it empty and frees every record it held, each of them once.\<close>

theorem memlog_clear_frees:
  assumes "log_holds h ml F"
  shows "\<exists>h' ml'. hustle_memlog_clear h (Some ml) = Some (Inr (h', Some ml', MEMLOG_OK))
    \<and> log_holds h' ml' (\<lambda>_. []) \<and> cells h' = Map.empty"
  using assms by (rule clear_holds)

theorem memlog_clear_frees_witness:
  "\<exists>h' ml'. hustle_memlog_clear
      \<lparr>cells = [0 \<mapsto> change_record (LogDelete 7)], brk = 1\<rparr>
      (Some \<lparr>record_list = [\<lparr>head = Some 0, tail = Some 0, curr_size = 1\<rparr>], total_size = 1, db_name = ''db''\<rparr>)
      = Some (Inr (h', Some ml', MEMLOG_OK)) \<and> cells h' = Map.empty"
proof -
  have "log_holds \<lparr>cells = [0 \<mapsto> change_record (LogDelete 7)], brk = 1\<rparr>
      \<lparr>record_list = [\<lparr>head = Some 0, tail = Some 0, curr_size = 1\<rparr>], total_size = 1, db_name = ''db''\<rparr>
      (\<lambda>i. if i = 0 then [change_record (LogDelete 7)] else [])"
    unfolding log_holds_def
    by (intro exI [of _ "[[0]]"]) (simp add: log_at_def slot_at_def records_at_def payload_def)
  from memlog_clear_frees [OF this] show ?thesis by auto
qed

end
