(* ===== verification/Block.thy ===== *)
theory Block
  imports MemLog BitUtils "HOL-Library.Signed_Division"
begin

text \<open>
  Blocks (\<open>src/src/storage/block.h\<close>, \<open>block.cc\<close>; the widths of a schema from
  \<open>utils/util.cc\<close>): the columns of a block are Arrow buffers, in which records, texts and arrays
  are written by byte offsets. First all operations, in the order of the code; then the invariant,
  the rows a block holds, and what insertion and update do to them.
\<close>

unbundle bit_operations_syntax

section \<open>Arrow\<close>

text \<open>
  A resizable buffer of Arrow: its size and the bytes of its capacity. What Arrow does on an
  allocation and a resize is a parameter; \<open>arrow_ok\<close> is what its documentation says and the
  code relies on.
\<close>

record buffer =
  bsize :: nat
  bytes :: "u8 list"

record arrow =
  allocate :: "nat \<Rightarrow> buffer"
  resize :: "nat \<Rightarrow> bool \<Rightarrow> buffer \<Rightarrow> buffer"
  zero_padding :: "buffer \<Rightarrow> buffer"

definition arrow_ok :: "arrow \<Rightarrow> bool" where
  "arrow_ok ar \<longleftrightarrow>
     (\<forall>n. bsize (allocate ar n) = n \<and> n \<le> length (bytes (allocate ar n)))
     \<and> (\<forall>n b. bsize (resize ar n False b) = n \<and> n \<le> length (bytes (resize ar n False b))
          \<and> take (length (bytes b)) (bytes (resize ar n False b)) = bytes b)
     \<and> (\<forall>b. bsize (zero_padding ar b) = bsize b \<and> length (bytes (zero_padding ar b)) = length (bytes b)
          \<and> take (bsize b) (bytes (zero_padding ar b)) = take (bsize b) (bytes b))"

definition bcapacity :: "buffer \<Rightarrow> int" where
  "bcapacity b = int (length (bytes b))"

text \<open>
  The types a block tells apart: numbers and other types with a C type, by their width,
  strings, binary values of a fixed width, and the rest.
\<close>

datatype arrow_type = NumberType nat | CType nat | StringType | FixedSizeBinaryType nat | OtherType

text \<open>\<open>arrow::ArrayData\<close>: buffer 1 has the values or the offsets of strings, buffer 2 their bytes.\<close>

record array_data =
  alen :: int
  aoffset :: int
  buffer1 :: buffer
  buffer2 :: buffer

definition no_buffer :: buffer where "no_buffer = \<lparr>bsize = 0, bytes = []\<rparr>"

definition Slice :: "int \<Rightarrow> int \<Rightarrow> array_data \<Rightarrow> array_data" where
  "Slice off len a = a\<lparr>aoffset := aoffset a + off, alen := len\<rparr>"

text \<open>Thirty-two bit integers in a buffer, least significant byte first.\<close>

definition to_le32 :: "u32 \<Rightarrow> u8 list" where
  "to_le32 x = [ucast x, ucast (drop_bit 8 x), ucast (drop_bit 16 x), ucast (drop_bit 24 x)]"

definition of_le32 :: "u8 list \<Rightarrow> u32" where
  "of_le32 b = ucast (b ! 0) OR push_bit 8 (ucast (b ! 1)) OR push_bit 16 (ucast (b ! 2)) OR push_bit 24 (ucast (b ! 3))"

definition get_i32 :: "int \<Rightarrow> u8 list \<Rightarrow> int res" where
  "get_i32 k bs = and_then (load (4 * k) 4 bs) (\<lambda>v. Inr (sint (of_le32 v)))"

definition put_i32 :: "int \<Rightarrow> int \<Rightarrow> u8 list \<Rightarrow> u8 list res" where
  "put_i32 k x bs = store (4 * k) (to_le32 (word_of_int x)) bs"

section \<open>Schemas\<close>

definition ESTIMATED_STR_LEN :: int where "ESTIMATED_STR_LEN = 30"
definition BLOCK_SIZE :: int where "BLOCK_SIZE = push_bit 20 1"

fun compute_fixed_record_width :: "arrow_type list \<Rightarrow> int res" where
  "compute_fixed_record_width [] = Inr 0"
| "compute_fixed_record_width (t # ts) =
    and_then (case t of NumberType w \<Rightarrow> Inr (int w) | CType w \<Rightarrow> Inr (int w)
              | FixedSizeBinaryType w \<Rightarrow> Inr (int w) | StringType \<Rightarrow> Inr 0
              | OtherType \<Rightarrow> Inl LogicError) (\<lambda>w.
    and_then (compute_fixed_record_width ts) (\<lambda>fixed_width. Inr (w + fixed_width)))"

fun get_field_sizes :: "arrow_type list \<Rightarrow> int list res" where
  "get_field_sizes [] = Inr []"
| "get_field_sizes (t # ts) =
    and_then (case t of NumberType w \<Rightarrow> Inr (int w) | CType w \<Rightarrow> Inr (int w)
              | FixedSizeBinaryType w \<Rightarrow> Inr (int w) | StringType \<Rightarrow> Inr (-1)
              | OtherType \<Rightarrow> Inl LogicError) (\<lambda>w.
    and_then (get_field_sizes ts) (\<lambda>field_sizes. Inr (w # field_sizes)))"

section \<open>Blocks\<close>

record BlockInfo =
  info_block_id :: int
  row_num :: int

record block =
  block_id :: int
  schema :: "arrow_type list"
  valid :: array_data
  columns :: "array_data list"
  column_sizes :: "int list"
  field_sizes :: "int list"
  row_id_map :: "int \<rightharpoonup> int"
  num_bytes :: int
  capacity :: int
  fixed_record_width :: int
  num_rows :: int
  metadata_enabled :: bool

definition num_cols :: "block \<Rightarrow> nat" where "num_cols blk = length (schema blk)"

definition get_bytes_left :: "block \<Rightarrow> int" where
  "get_bytes_left blk = capacity blk - num_bytes blk"

text \<open>\<open>AllocateColumnData\<close> and the other branches of the constructor.\<close>

definition AllocateColumnData :: "arrow \<Rightarrow> nat \<Rightarrow> nat \<Rightarrow> array_data" where
  "AllocateColumnData ar w init_rows =
    \<lparr>alen = 0, aoffset = 0, buffer1 = zero_padding ar (allocate ar (w * init_rows)), buffer2 = no_buffer\<rparr>"

definition AllocateStringData :: "arrow \<Rightarrow> nat \<Rightarrow> array_data res" where
  "AllocateStringData ar init_rows =
    (let offsets = allocate ar (4 * init_rows) in
     and_then (put_i32 0 0 (bytes offsets)) (\<lambda>bs.
       Inr \<lparr>alen = 0, aoffset = 0, buffer1 = offsets\<lparr>bytes := bs\<rparr>,
            buffer2 = zero_padding ar (allocate ar (nat ESTIMATED_STR_LEN * init_rows))\<rparr>))"

fun AllocateColumns :: "arrow \<Rightarrow> nat \<Rightarrow> arrow_type list \<Rightarrow> array_data list res" where
  "AllocateColumns ar init_rows [] = Inr []"
| "AllocateColumns ar init_rows (t # ts) =
    and_then (case t of NumberType w \<Rightarrow> Inr (AllocateColumnData ar w init_rows)
              | StringType \<Rightarrow> AllocateStringData ar init_rows
              | FixedSizeBinaryType w \<Rightarrow> Inr (AllocateColumnData ar w init_rows)
              | _ \<Rightarrow> Inl LogicError) (\<lambda>col.
    and_then (AllocateColumns ar init_rows ts) (\<lambda>cols. Inr (col # cols)))"

definition Block_new :: "arrow \<Rightarrow> int \<Rightarrow> arrow_type list \<Rightarrow> int \<Rightarrow> bool \<Rightarrow> block res" where
  "Block_new ar bid in_schema cap enable_metadata =
    and_then (compute_fixed_record_width in_schema) (\<lambda>width.
    and_then (get_field_sizes in_schema) (\<lambda>sizes.
      let num_string_cols = int (length (filter (\<lambda>t. t = StringType) in_schema));
          row_width = width + ESTIMATED_STR_LEN * num_string_cols
      in if row_width = 0 then Inl DivByZero
      else let init_rows = cap sdiv row_width in
      if init_rows < 0 then Inl AssertFailed
      else and_then (AllocateColumns ar (nat init_rows) in_schema) (\<lambda>cols.
        Inr \<lparr>block_id = bid, schema = in_schema,
             valid = \<lparr>alen = 0, aoffset = 0, buffer1 = allocate ar 0, buffer2 = no_buffer\<rparr>,
             columns = cols, column_sizes = map (\<lambda>_. 0) in_schema, field_sizes = sizes,
             row_id_map = Map.empty, num_bytes = 0, capacity = cap, fixed_record_width = width,
             num_rows = 0, metadata_enabled = enable_metadata\<rparr>)))"

text \<open>
  The bit of a row in the valid column. The row is an unsigned 32-bit integer.
\<close>

definition get_valid :: "int \<Rightarrow> block \<Rightarrow> bool res" where
  "get_valid row_index blk =
    (let row = nat (row_index mod 2 ^ 32) in
     and_then (fetch (bytes (buffer1 (valid blk))) (row div 8)) (\<lambda>b.
       Inr (drop_bit (row mod 8) b AND 1 = 1)))"

definition set_valid :: "int \<Rightarrow> bool \<Rightarrow> block \<Rightarrow> block res" where
  "set_valid row_index b1 blk =
    (let row = nat (row_index mod 2 ^ 32); buf = buffer1 (valid blk) in
     and_then (fetch (bytes buf) (row div 8)) (\<lambda>b.
       let b' = (if b1 then b OR push_bit (row mod 8) 1 else b AND NOT (push_bit (row mod 8) 1))
       in Inr (blk\<lparr>valid := (valid blk)\<lparr>buffer1 := buf\<lparr>bytes := (bytes buf)[row div 8 := b']\<rparr>\<rparr>\<rparr>)))"

text \<open>\<open>bump\<close> is the book-keeping all insertions share: the new column, its size and the block's.\<close>

definition bump :: "nat \<Rightarrow> array_data \<Rightarrow> int \<Rightarrow> block \<Rightarrow> block" where
  "bump i col n blk = blk\<lparr>columns := (columns blk)[i := col],
     column_sizes := (column_sizes blk)[i := column_sizes blk ! i + n], num_bytes := num_bytes blk + n\<rparr>"

section \<open>Inserting a record\<close>

text \<open>\<open>utils::reverse_bytes\<close> on the bytes of the record from a position on.\<close>

definition reverse_at :: "int \<Rightarrow> int \<Rightarrow> u8 list \<Rightarrow> u8 list res" where
  "reverse_at pos bw record =
    (if 0 \<le> pos \<and> pos + bw \<le> int (length record)
     then and_then (reverse_bytes (drop (nat pos) record) (nat bw)) (\<lambda>r. Inr (take (nat pos) record @ r))
     else Inl OutOfBounds)"

text \<open>The bytes of a value of \<open>w\<close> bytes, and the record with them reversed in place.\<close>

definition field_value :: "nat \<Rightarrow> int \<Rightarrow> int \<Rightarrow> u8 list \<Rightarrow> (u8 list \<times> u8 list) res" where
  "field_value w bw pos record =
    (if bw < 0 then
       let code = word_of_int (- bw - int (unat ZERO_TYPE_ENCODING)) :: u8
       in and_then (store 0 [code] (replicate w 0)) (\<lambda>v. Inr (v, record))
     else and_then (reverse_at pos bw record) (\<lambda>record.
          and_then (load pos bw record) (\<lambda>r.
          and_then (store 0 r (replicate w 0)) (\<lambda>v. Inr (v, record)))))"

type_synonym insertion = "int \<times> u8 list \<times> block"

definition InsertValue :: "arrow \<Rightarrow> nat \<Rightarrow> nat \<Rightarrow> int \<Rightarrow> insertion \<Rightarrow> insertion res" where
  "InsertValue ar w i bw s =
    (case s of (pos, record, blk) \<Rightarrow>
     let col = columns blk ! i;
         buf = resize ar (bsize (buffer1 col) + w) False (buffer1 col);
         put = (\<lambda>v n. and_then (store (num_rows blk * int w) v (bytes buf)) (\<lambda>bs.
           Inr (bump i (col\<lparr>buffer1 := buf\<lparr>bytes := bs\<rparr>, alen := alen col + 1\<rparr>) n blk)))
     in if bw \<ge> int w then
          and_then (load pos bw record) (\<lambda>v.
          and_then (put v bw) (\<lambda>blk. Inr (pos + bw, record, blk)))
        else and_then (field_value w bw pos record) (\<lambda>(v, record).
          and_then (put v (int w)) (\<lambda>blk. Inr (pos + max bw 0, record, blk))))"

definition InsertString :: "arrow \<Rightarrow> nat \<Rightarrow> int \<Rightarrow> insertion \<Rightarrow> insertion res" where
  "InsertString ar i bw s =
    (case s of (pos, record, blk) \<Rightarrow>
     let col = columns blk ! i;
         dbuf = resize ar (nat (int (bsize (buffer2 col)) + bw)) False (buffer2 col);
         offsets = resize ar (bsize (buffer1 col) + 4) False (buffer1 col)
     in and_then (get_i32 (num_rows blk) (bytes offsets)) (\<lambda>o1.
        and_then (put_i32 (num_rows blk + 1) (o1 + bw) (bytes offsets)) (\<lambda>obs.
        and_then (load pos bw record) (\<lambda>v.
        and_then (store o1 v (bytes dbuf)) (\<lambda>dbs.
          Inr (pos + bw, record, bump i (col\<lparr>buffer1 := offsets\<lparr>bytes := obs\<rparr>,
                 buffer2 := dbuf\<lparr>bytes := dbs\<rparr>, alen := alen col + 1\<rparr>) bw blk))))))"

fun insert_fields :: "arrow \<Rightarrow> int list \<Rightarrow> nat list \<Rightarrow> insertion \<Rightarrow> insertion res" where
  "insert_fields ar widths [] s = Inr s"
| "insert_fields ar widths (i # is) s =
    and_then (case schema (snd (snd s)) ! i of
        StringType \<Rightarrow> InsertString ar i (widths ! i) s
      | NumberType w \<Rightarrow> InsertValue ar w i (widths ! i) s
      | CType w \<Rightarrow> InsertValue ar w i (widths ! i) s
      | _ \<Rightarrow> Inl LogicError) (insert_fields ar widths is)"

text \<open>The valid bits of \<open>n\<close> rows from \<open>row\<close> on.\<close>

fun set_valids :: "nat \<Rightarrow> int \<Rightarrow> block \<Rightarrow> block res" where
  "set_valids 0 row blk = Inr blk"
| "set_valids (Suc n) row blk = and_then (set_valid row True blk) (set_valids n (row + 1))"

definition grow_valid :: "nat \<Rightarrow> buffer \<Rightarrow> block \<Rightarrow> block res" where
  "grow_valid n buf blk =
    and_then (set_valids n (num_rows blk) (blk\<lparr>valid := (valid blk)\<lparr>buffer1 := buf\<rparr>\<rparr>)) (\<lambda>blk.
      Inr (blk\<lparr>valid := (valid blk)\<lparr>alen := alen (valid blk) + int n\<rparr>\<rparr>))"

text \<open>The row the record got (-1 if it does not fit), the record and the block.\<close>

definition InsertRecord :: "arrow \<Rightarrow> u8 list \<Rightarrow> int list \<Rightarrow> block \<Rightarrow> (int \<times> u8 list \<times> block) res" where
  "InsertRecord ar record widths blk =
    (if length widths < num_cols blk then Inl OutOfBounds
     else if sum_list (take (num_cols blk) widths) > get_bytes_left blk then Inr (-1, record, blk)
     else let buf = buffer1 (valid blk) in
       and_then (grow_valid 1 (resize ar (bsize buf + 1) False buf) blk) (\<lambda>blk.
       and_then (insert_fields ar widths [0..<num_cols blk] (0, record, blk)) (\<lambda>(pos, record, blk).
         Inr (num_rows blk, record, blk\<lparr>num_rows := num_rows blk + 1\<rparr>))))"

section \<open>Inserting text\<close>

text \<open>\<open>atoi\<close> is \<open>absl::SimpleAtoi\<close>: the eight bytes of the number it stores.\<close>

definition InsertCsvValue :: "arrow \<Rightarrow> (u8 list \<Rightarrow> u64) \<Rightarrow> nat \<Rightarrow> u8 list \<Rightarrow> int \<times> block \<Rightarrow> (int \<times> block) res" where
  "InsertCsvValue ar atoi i field s =
    (case s of (pos, blk) \<Rightarrow>
     let col = columns blk ! i;
         buf = (if column_sizes blk ! i + 8 > bcapacity (buffer1 col)
                then resize ar (nat (bcapacity (buffer1 col) + 9)) False (buffer1 col) else buffer1 col);
         out = atoi field
     in and_then (store (num_rows blk * 8) (map (\<lambda>k. ucast (drop_bit (8 * k) out)) [0..<8]) (bytes buf)) (\<lambda>bs.
          Inr (pos + 8, blk\<lparr>columns := (columns blk)[i := col\<lparr>buffer1 := buf\<lparr>bytes := bs\<rparr>, alen := alen col + 1\<rparr>],
            column_sizes := (column_sizes blk)[i := column_sizes blk ! i + 8]\<rparr>)))"

definition InsertCsvString :: "arrow \<Rightarrow> nat \<Rightarrow> u8 list \<Rightarrow> int \<times> block \<Rightarrow> (int \<times> block) res" where
  "InsertCsvString ar i field s =
    (case s of (pos, blk) \<Rightarrow>
     let col = columns blk ! i; len = int (length field) in
     and_then (get_i32 (num_rows blk) (bytes (buffer1 col))) (\<lambda>o0.
     let dbuf = (if o0 + len > bcapacity (buffer2 col)
                 then resize ar (nat (bcapacity (buffer2 col) + len)) False (buffer2 col) else buffer2 col);
         offsets = (if (alen col + 2) * 4 > bcapacity (buffer1 col)
                 then zero_padding ar (resize ar (nat ((num_rows blk + 2) * 4 + 1)) False (buffer1 col))
                 else buffer1 col)
     in and_then (get_i32 (num_rows blk) (bytes offsets)) (\<lambda>o1.
        and_then (put_i32 (num_rows blk + 1) (o1 + len) (bytes offsets)) (\<lambda>obs.
        and_then (store o1 field (bytes dbuf)) (\<lambda>dbs.
          Inr (pos + len, blk\<lparr>columns := (columns blk)[i := col\<lparr>buffer1 := offsets\<lparr>bytes := obs\<rparr>,
                 buffer2 := dbuf\<lparr>bytes := dbs\<rparr>, alen := alen col + 1\<rparr>],
               column_sizes := (column_sizes blk)[i := column_sizes blk ! i + len]\<rparr>))))))"

definition InsertCsvFixed :: "arrow \<Rightarrow> nat \<Rightarrow> u8 list \<Rightarrow> int \<times> block \<Rightarrow> (int \<times> block) res" where
  "InsertCsvFixed ar i field s =
    (case s of (pos, blk) \<Rightarrow>
     let col = columns blk ! i; len = int (length field);
         buf = (if column_sizes blk ! i + len > bcapacity (buffer1 col)
                then resize ar (nat (bcapacity (buffer1 col) + len + 1)) False (buffer1 col) else buffer1 col)
     in and_then (store (num_rows blk) field (bytes buf)) (\<lambda>bs.
          Inr (pos + len, blk\<lparr>columns := (columns blk)[i := col\<lparr>buffer1 := buf\<lparr>bytes := bs\<rparr>, alen := alen col + 1\<rparr>],
            column_sizes := (column_sizes blk)[i := column_sizes blk ! i + len]\<rparr>)))"

fun insert_csv_fields :: "arrow \<Rightarrow> (u8 list \<Rightarrow> u64) \<Rightarrow> u8 list list \<Rightarrow> nat list \<Rightarrow> int \<times> block \<Rightarrow> (int \<times> block) res" where
  "insert_csv_fields ar atoi record [] s = Inr s"
| "insert_csv_fields ar atoi record (i # is) s =
    and_then (fetch record i) (\<lambda>field.
    and_then (case schema (snd s) ! i of
        StringType \<Rightarrow> InsertCsvString ar i field s
      | FixedSizeBinaryType w \<Rightarrow> InsertCsvFixed ar i field s
      | NumberType w \<Rightarrow> InsertCsvValue ar atoi i field s
      | CType w \<Rightarrow> InsertCsvValue ar atoi i field s
      | OtherType \<Rightarrow> Inl LogicError) (insert_csv_fields ar atoi record is))"

definition InsertCsvRecord :: "arrow \<Rightarrow> (u8 list \<Rightarrow> u64) \<Rightarrow> u8 list list \<Rightarrow> int list \<Rightarrow> block \<Rightarrow> (int \<times> block) res" where
  "InsertCsvRecord ar atoi record widths blk =
    (if length widths < num_cols blk then Inl OutOfBounds
     else if sum_list (take (num_cols blk) widths) > get_bytes_left blk then Inr (-1, blk)
     else let buf = buffer1 (valid blk) in
       and_then (grow_valid 1 (resize ar (bsize buf + 1) False buf) blk) (\<lambda>blk.
       and_then (insert_csv_fields ar atoi record [0..<num_cols blk] (0, blk)) (\<lambda>(pos, blk).
         Inr (num_rows blk, blk\<lparr>num_bytes := num_bytes blk + pos, num_rows := num_rows blk + 1\<rparr>))))"

section \<open>Inserting arrays\<close>

definition InsertValues :: "arrow \<Rightarrow> nat \<Rightarrow> int \<Rightarrow> array_data \<Rightarrow> int \<Rightarrow> block \<Rightarrow> block res" where
  "InsertValues ar i offset vals num_vals blk =
    (let data_size = 8 * num_vals; col = columns blk ! i;
         buf = (if column_sizes blk ! i + data_size > bcapacity (buffer1 col)
                then resize ar (nat (bcapacity (buffer1 col) + data_size)) False (buffer1 col) else buffer1 col)
     in and_then (load (offset * 8) data_size (bytes (buffer1 vals))) (\<lambda>v.
        and_then (store (num_rows blk * 8) v (bytes buf)) (\<lambda>bs.
          Inr (bump i (col\<lparr>buffer1 := buf\<lparr>bytes := bs\<rparr>, alen := alen col + num_vals\<rparr>) data_size blk))))"

text \<open>The offsets of \<open>n\<close> strings, from the \<open>k\<close>-th on, moved by \<open>by\<close>.\<close>

fun copy_offsets :: "nat \<Rightarrow> int \<Rightarrow> int \<Rightarrow> int \<Rightarrow> u8 list \<Rightarrow> u8 list \<Rightarrow> u8 list res" where
  "copy_offsets 0 to from by src dst = Inr dst"
| "copy_offsets (Suc n) to from by src dst =
    and_then (get_i32 from src) (\<lambda>x.
    and_then (put_i32 to (x + by) dst) (copy_offsets n (to + 1) (from + 1) by src))"

definition InsertStrings :: "arrow \<Rightarrow> nat \<Rightarrow> int \<Rightarrow> array_data \<Rightarrow> int \<Rightarrow> block \<Rightarrow> block res" where
  "InsertStrings ar i offset vals n blk =
    (let col = columns blk ! i;
         offsets = (if (num_rows blk + n + 2) * 8 > bcapacity (buffer1 col)
                    then resize ar (nat (bcapacity (buffer1 col) + 4 * (n + 1))) False (buffer1 col)
                    else buffer1 col);
         in_offsets = bytes (buffer1 vals)
     in and_then (get_i32 (offset + n) in_offsets) (\<lambda>in_end.
        and_then (get_i32 offset in_offsets) (\<lambda>in_start.
        let string_size = in_end - in_start;
            dbuf = (if column_sizes blk ! i + string_size > bcapacity (buffer2 col)
                    then resize ar (nat (column_sizes blk ! i + string_size)) False (buffer2 col)
                    else buffer2 col)
        in and_then (get_i32 (num_rows blk) (bytes offsets)) (\<lambda>current_offset.
           and_then (if offset = 0
                     then copy_offsets (nat (n + 1)) (num_rows blk) 0 current_offset in_offsets (bytes offsets)
                     else copy_offsets (nat n) (num_rows blk + 1) (offset + 1) (current_offset - in_start)
                            in_offsets (bytes offsets)) (\<lambda>obs.
           and_then (get_i32 (num_rows blk) obs) (\<lambda>start.
           and_then (load in_start string_size (bytes (buffer2 vals))) (\<lambda>v.
           and_then (store start v (bytes dbuf)) (\<lambda>dbs.
             Inr (bump i (col\<lparr>buffer1 := offsets\<lparr>bytes := obs\<rparr>, buffer2 := dbuf\<lparr>bytes := dbs\<rparr>,
                    alen := alen col + n\<rparr>) string_size blk)))))))))"

definition InsertFixed :: "arrow \<Rightarrow> nat \<Rightarrow> nat \<Rightarrow> int \<Rightarrow> array_data \<Rightarrow> int \<Rightarrow> block \<Rightarrow> block res" where
  "InsertFixed ar w i offset vals n blk =
    (let data_size = int w * n; col = columns blk ! i;
         buf = (if column_sizes blk ! i + data_size > bcapacity (buffer1 col)
                then resize ar (nat (bcapacity (buffer1 col) + data_size)) False (buffer1 col) else buffer1 col)
     in and_then (load (offset * 8) data_size (bytes (buffer1 vals))) (\<lambda>v.
        and_then (store (num_rows blk * int w) v (bytes buf)) (\<lambda>bs.
          Inr (bump i (col\<lparr>buffer1 := buf\<lparr>bytes := bs\<rparr>, alen := alen col + n\<rparr>) data_size blk))))"

fun insert_columns :: "arrow \<Rightarrow> int \<Rightarrow> int \<Rightarrow> array_data list \<Rightarrow> nat list \<Rightarrow> block \<Rightarrow> block res" where
  "insert_columns ar offset n column_data [] blk = Inr blk"
| "insert_columns ar offset n column_data (i # is) blk =
    and_then (fetch column_data i) (\<lambda>vals.
    and_then (case schema blk ! i of
        NumberType w \<Rightarrow> InsertValues ar i offset vals n blk
      | CType w \<Rightarrow> InsertValues ar i offset vals n blk
      | StringType \<Rightarrow> InsertStrings ar i offset vals n blk
      | FixedSizeBinaryType w \<Rightarrow> InsertFixed ar w i offset vals n blk
      | OtherType \<Rightarrow> Inl LogicError) (insert_columns ar offset n column_data is))"

definition InsertRecords :: "arrow \<Rightarrow> array_data list \<Rightarrow> block \<Rightarrow> (int \<times> block) res" where
  "InsertRecords ar column_data blk =
    and_then (fetch column_data 0) (\<lambda>c.
      let n = alen c; offset = aoffset c; buf = buffer1 (valid blk) in
      if n = 0 then Inr (-1, blk)
      else and_then (grow_valid (nat n)
             (zero_padding ar (resize ar (nat (int (bsize buf) + n div 8 + 1)) False buf)) blk) (\<lambda>blk.
        and_then (insert_columns ar offset n column_data [0..<num_cols blk] blk) (\<lambda>blk.
          Inr (num_rows blk + n - 1, blk\<lparr>num_rows := num_rows blk + n\<rparr>))))"

text \<open>
  \<open>operator[]\<close> of \<open>std::map\<close>: a missing key is inserted with a zero value.
\<close>

definition map_at :: "'v \<Rightarrow> 'k \<Rightarrow> ('k \<rightharpoonup> 'v) \<Rightarrow> 'v \<times> ('k \<rightharpoonup> 'v)" where
  "map_at zero k m = (case m k of None \<Rightarrow> (zero, m(k \<mapsto> zero)) | Some v \<Rightarrow> (v, m))"

type_synonym block_map = "int \<rightharpoonup> BlockInfo"

text \<open>The loop over the rows; \<open>reduced\<close> counts the rows that were left out.\<close>

fun reinsert :: "arrow \<Rightarrow> u8 list \<Rightarrow> array_data list \<Rightarrow> nat \<Rightarrow> int \<Rightarrow> int
    \<Rightarrow> block_map \<times> (int \<rightharpoonup> int) \<times> block \<Rightarrow> (block_map \<times> (int \<rightharpoonup> int) \<times> block) res" where
  "reinsert ar filter_data column_data 0 row reduced s = Inr s"
| "reinsert ar filter_data column_data (Suc k) row reduced s =
    (case s of (bmap, row_map, blk) \<Rightarrow>
     and_then (fetch filter_data (nat row div 8)) (\<lambda>b.
       if drop_bit (nat row mod 8) b AND 1 = 1 then
         let (row_id, row_map) = map_at 0 (row + reduced) row_map;
             blk = blk\<lparr>row_id_map := (row_id_map blk)(row \<mapsto> row_id)\<rparr>;
             (info, bmap) = map_at \<lparr>info_block_id = 0, row_num = 0\<rparr> row_id bmap;
             bmap = bmap(row_id \<mapsto> \<lparr>info_block_id = info_block_id info, row_num = row\<rparr>)
         in and_then (InsertRecords ar (map (Slice row 1) column_data) blk) (\<lambda>(_, blk).
              reinsert ar filter_data column_data k (row + 1) reduced (bmap, row_map, blk))
       else reinsert ar filter_data column_data k (row + 1) (reduced + 1) s))"

definition InsertRecordsFrom :: "arrow \<Rightarrow> array_data \<Rightarrow> array_data list
    \<Rightarrow> block_map \<times> (int \<rightharpoonup> int) \<times> block \<Rightarrow> (block_map \<times> (int \<rightharpoonup> int) \<times> block) res" where
  "InsertRecordsFrom ar valid_column column_data s =
    and_then (fetch column_data 0) (\<lambda>c.
      reinsert ar (bytes (buffer1 valid_column)) column_data (nat (alen c)) 0 0 s)"

section \<open>Updating, truncating\<close>

definition UpdateColumnValue :: "nat \<Rightarrow> nat \<Rightarrow> int \<Rightarrow> int \<Rightarrow> int \<Rightarrow> u8 list \<Rightarrow> block \<Rightarrow> (u8 list \<times> block) res" where
  "UpdateColumnValue w i row pos bw record blk =
    (let col = columns blk ! i in
     and_then (field_value w bw pos record) (\<lambda>(v, record).
     and_then (store (row * int w) v (bytes (buffer1 col))) (\<lambda>bs.
       Inr (record, blk\<lparr>columns := (columns blk)[i := col\<lparr>buffer1 := (buffer1 col)\<lparr>bytes := bs\<rparr>\<rparr>]\<rparr>))))"

definition truncate_column :: "arrow \<Rightarrow> block \<Rightarrow> nat \<Rightarrow> array_data \<Rightarrow> array_data res" where
  "truncate_column ar blk i col =
    (case schema blk ! i of
       StringType \<Rightarrow> Inr (col\<lparr>buffer2 := resize ar (nat (column_sizes blk ! i)) True (buffer2 col),
                            buffer1 := resize ar (nat ((num_rows blk + 1) * 4)) True (buffer1 col)\<rparr>)
     | FixedSizeBinaryType w \<Rightarrow> Inr (col\<lparr>buffer1 := resize ar (nat (num_rows blk * int w)) True (buffer1 col)\<rparr>)
     | OtherType \<Rightarrow> Inl LogicError
     | _ \<Rightarrow> Inr (col\<lparr>buffer1 := resize ar (nat (num_rows blk * 8)) True (buffer1 col)\<rparr>))"

fun truncate_columns :: "arrow \<Rightarrow> nat list \<Rightarrow> block \<Rightarrow> block res" where
  "truncate_columns ar [] blk = Inr blk"
| "truncate_columns ar (i # is) blk =
    and_then (truncate_column ar blk i (columns blk ! i)) (\<lambda>col.
      truncate_columns ar is (blk\<lparr>columns := (columns blk)[i := col]\<rparr>))"

definition TruncateBuffers :: "arrow \<Rightarrow> block \<Rightarrow> block res" where
  "TruncateBuffers ar blk = truncate_columns ar [0..<num_cols blk] blk"

section \<open>Blocks of record batches\<close>

text \<open>The branch of fixed-size binary columns runs on into the exception.\<close>

definition column_byte_size :: "block \<Rightarrow> nat \<Rightarrow> int res" where
  "column_byte_size blk i =
    (let col = columns blk ! i in
     case schema blk ! i of
       NumberType w \<Rightarrow> Inr (int w * alen col)
     | CType w \<Rightarrow> Inr (int w * alen col)
     | StringType \<Rightarrow> get_i32 (num_rows blk) (bytes (buffer1 col))
     | _ \<Rightarrow> Inl LogicError)"

fun compute_byte_sizes :: "nat list \<Rightarrow> block \<Rightarrow> block res" where
  "compute_byte_sizes [] blk = Inr blk"
| "compute_byte_sizes (i # is) blk =
    and_then (column_byte_size blk i) (\<lambda>n.
      compute_byte_sizes is (blk\<lparr>column_sizes := (column_sizes blk)[i := n], num_bytes := num_bytes blk + n\<rparr>))"

definition ComputeByteSize :: "block \<Rightarrow> block res" where
  "ComputeByteSize blk = compute_byte_sizes [0..<num_cols blk] blk"

text \<open>
  The constructor leaves \<open>fixed_record_width\<close> uninitialised: \<open>uninit\<close>.
\<close>

definition Block_of_batch :: "arrow \<Rightarrow> int \<Rightarrow> int \<Rightarrow> arrow_type list \<Rightarrow> int \<Rightarrow> array_data list \<Rightarrow> int \<Rightarrow> bool \<Rightarrow> block res" where
  "Block_of_batch ar uninit bid batch_schema rows cols cap enable_metadata =
    and_then (ComputeByteSize \<lparr>block_id = bid, schema = batch_schema,
        valid = \<lparr>alen = 0, aoffset = 0, buffer1 = no_buffer, buffer2 = no_buffer\<rparr>,
        columns = cols, column_sizes = map (\<lambda>_. 0) cols, field_sizes = [], row_id_map = Map.empty,
        num_bytes = 0, capacity = cap, fixed_record_width = uninit, num_rows = rows,
        metadata_enabled = enable_metadata\<rparr>) (\<lambda>blk.
      set_valids (nat rows) 0 (blk\<lparr>valid := \<lparr>alen = rows, aoffset = 0, buffer1 = allocate ar (nat rows),
        buffer2 = no_buffer\<rparr>\<rparr>))"

section \<open>Integers in buffers\<close>

lemma le32_roundtrip: "of_le32 (to_le32 x) = x"
proof (rule bit_word_eqI)
  fix n assume "n < LENGTH(32)"
  then consider "n < 8" | "8 \<le> n" "n < 16" | "16 \<le> n" "n < 24" | "24 \<le> n" "n < 32" by fastforce
  then show "bit (of_le32 (to_le32 x)) n = bit x n"
    by cases (auto simp: of_le32_def to_le32_def bit_or_iff bit_push_bit_iff bit_unsigned_iff bit_drop_bit_eq)
qed

lemma to_le32_length [simp]: "length (to_le32 x) = 4" by (simp add: to_le32_def)

lemma sint_i32: "- (2 ^ 31) \<le> x \<Longrightarrow> x < 2 ^ 31 \<Longrightarrow> sint (word_of_int x :: u32) = x"
  by (simp add: sint_sbintrunc' signed_take_bit_int_eq_self)

lemma get_put_i32:
  assumes "put_i32 k x bs = Inr bs'" "- (2 ^ 31) \<le> x" "x < 2 ^ 31"
  shows "get_i32 k bs' = Inr x"
  using load_store [OF assms(1) [unfolded put_i32_def]] assms(2,3)
  by (simp add: get_i32_def le32_roundtrip sint_i32)

lemma get_put_i32_other:
  assumes "put_i32 k x bs = Inr bs'" "k' \<noteq> k"
  shows "get_i32 k' bs' = get_i32 k' bs"
proof -
  have "4 * k' + 4 \<le> 4 * k \<or> 4 * k + int (length (to_le32 (word_of_int x))) \<le> 4 * k'"
    using assms(2) by (simp, linarith)
  from load_store_other [OF assms(1) [unfolded put_i32_def] this] show ?thesis by (simp add: get_i32_def)
qed

definition extends :: "u8 list \<Rightarrow> u8 list \<Rightarrow> bool" where
  "extends bs bs' \<longleftrightarrow> take (length bs) bs' = bs"

lemma extends_load: "extends bs bs' \<Longrightarrow> load off n bs = Inr v \<Longrightarrow> load off n bs' = Inr v"
proof -
  assume e: "extends bs bs'" and l: "load off n bs = Inr v"
  obtain ys where ys: "bs' = bs @ ys" using e by (metis append_take_drop_id extends_def)
  show "load off n bs' = Inr v" using l by (auto simp: load_def ys split: if_splits)
qed

lemma extends_get: "extends bs bs' \<Longrightarrow> get_i32 k bs = Inr v \<Longrightarrow> get_i32 k bs' = Inr v"
  by (auto simp: get_i32_def and_then_Inr dest: extends_load)

lemma arrow_resize:
  assumes "arrow_ok ar"
  shows "bsize (resize ar n False b) = n" "n \<le> length (bytes (resize ar n False b))"
    "extends (bytes b) (bytes (resize ar n False b))"
  using assms by (simp_all add: arrow_ok_def extends_def)

section \<open>Cells\<close>

text \<open>The bytes of a value in the Arrow layout of its column.\<close>

definition cell :: "arrow_type \<Rightarrow> nat \<Rightarrow> array_data \<Rightarrow> u8 list res" where
  "cell t r col =
    (case t of
       NumberType w \<Rightarrow> load (int r * int w) (int w) (bytes (buffer1 col))
     | StringType \<Rightarrow>
         and_then (get_i32 (int r) (bytes (buffer1 col))) (\<lambda>a.
         and_then (get_i32 (int r + 1) (bytes (buffer1 col))) (\<lambda>b. load a (b - a) (bytes (buffer2 col))))
     | _ \<Rightarrow> Inl LogicError)"

definition rows :: "block \<Rightarrow> u8 list res list list" where
  "rows blk = map (\<lambda>r. map (\<lambda>i. cell (schema blk ! i) r (columns blk ! i)) [0..<num_cols blk])
     [0..<nat (num_rows blk)]"

definition offsets_ok :: "nat \<Rightarrow> array_data \<Rightarrow> int list \<Rightarrow> bool" where
  "offsets_ok n col os \<longleftrightarrow> length os = n + 1 \<and> sorted os \<and> os ! 0 = 0
     \<and> (\<forall>k \<le> n. get_i32 (int k) (bytes (buffer1 col)) = Inr (os ! k))
     \<and> os ! n \<le> int (bsize (buffer2 col))"

fun column_ok :: "nat \<Rightarrow> arrow_type \<Rightarrow> array_data \<Rightarrow> bool" where
  "column_ok n (NumberType w) col \<longleftrightarrow> alen col = int n \<and> aoffset col = 0 \<and> 0 < w \<and> n * w \<le> bsize (buffer1 col)
     \<and> bsize (buffer1 col) \<le> length (bytes (buffer1 col))"
| "column_ok n StringType col \<longleftrightarrow> alen col = int n \<and> aoffset col = 0 \<and> 4 * (n + 1) \<le> bsize (buffer1 col)
     \<and> bsize (buffer1 col) \<le> length (bytes (buffer1 col))
     \<and> bsize (buffer2 col) \<le> length (bytes (buffer2 col)) \<and> (\<exists>os. offsets_ok n col os)"
| "column_ok n _ col \<longleftrightarrow> False"

text \<open>The widths a record may have for a column, and the bytes stored for a field.\<close>

fun width_ok :: "nat \<Rightarrow> arrow_type \<Rightarrow> int \<Rightarrow> array_data \<Rightarrow> bool" where
  "width_ok n (NumberType w) bw col \<longleftrightarrow> bw \<le> int w"
| "width_ok n StringType bw col \<longleftrightarrow> 0 \<le> bw
     \<and> (\<forall>x. get_i32 (int n) (bytes (buffer1 col)) = Inr x \<longrightarrow> x + bw < 2 ^ 31)"
| "width_ok n _ bw col \<longleftrightarrow> False"

definition value_bytes :: "nat \<Rightarrow> int \<Rightarrow> u8 list \<Rightarrow> u8 list" where
  "value_bytes w bw bs = (if bw < 0 then word_of_int (- bw - 8) # replicate (w - 1) 0
     else rev bs @ replicate (w - nat bw) 0)"

fun encode_field :: "arrow_type \<Rightarrow> int \<Rightarrow> u8 list \<Rightarrow> u8 list" where
  "encode_field (NumberType w) bw bs = (if bw \<ge> int w then bs else value_bytes w bw bs)"
| "encode_field _ bw bs = bs"

fun encode_row :: "arrow_type list \<Rightarrow> int list \<Rightarrow> u8 list \<Rightarrow> u8 list list" where
  "encode_row (t # ts) (w # ws) record =
    encode_field t w (take (nat w) record) # encode_row ts ws (drop (nat w) record)"
| "encode_row _ _ record = []"

definition appended :: "nat \<Rightarrow> arrow_type \<Rightarrow> array_data \<Rightarrow> array_data \<Rightarrow> u8 list \<Rightarrow> bool" where
  "appended n t col col' v \<longleftrightarrow> column_ok (n + 1) t col' \<and> cell t n col' = Inr v
     \<and> (\<forall>r < n. cell t r col' = cell t r col)"

lemma reverse_at_ok:
  assumes "0 \<le> pos" "0 \<le> bw" "pos + bw \<le> int (length record)"
  shows "reverse_at pos bw record
    = Inr (take (nat pos) record @ rev (take (nat bw) (drop (nat pos) record)) @ drop (nat pos + nat bw) record)"
proof -
  have "nat bw \<le> length (drop (nat pos) record)" using assms by auto
  then show ?thesis using assms reverse_bytes_eq [of "nat bw" "drop (nat pos) record"]
    by (simp add: reverse_at_def add.commute)
qed

lemma field_value_ok:
  assumes "0 \<le> pos" "pos + max bw 0 \<le> int (length record)" "bw \<le> int w" "0 < w"
  shows "\<exists>record'. field_value w bw pos record
      = Inr (value_bytes w bw (take (nat bw) (drop (nat pos) record)), record')
    \<and> length record' = length record \<and> drop (nat (pos + max bw 0)) record' = drop (nat (pos + max bw 0)) record"
proof (cases "bw < 0")
  case True
  then show ?thesis using assms
    by (simp add: field_value_def Let_def store_def value_bytes_def ZERO_TYPE_ENCODING_def drop_replicate)
next
  case False
  define k m where "k = nat pos" and "m = nat bw"
  have km: "k + m \<le> length record" "pos = int k" "bw = int m" "m \<le> w" using False assms by (auto simp: k_def m_def)
  let ?f = "take m (drop k record)" and ?r = "take k record @ rev (take m (drop k record)) @ drop (k + m) record"
  have rv: "reverse_at pos bw record = Inr ?r"
    using reverse_at_ok [of pos bw "record"] km(1) by (simp add: km(2,3))
  have ld: "load pos bw ?r = Inr (rev ?f)" using km(1) by (simp add: load_def km(2,3))
  have st: "store 0 (rev ?f) (replicate w 0) = Inr (rev ?f @ replicate (w - m) 0)"
    using km(1,4) by (simp add: store_def drop_replicate)
  have "field_value w bw pos record = Inr (value_bytes w bw ?f, ?r)"
    using False rv ld st by (simp add: field_value_def value_bytes_def m_def [symmetric])
  moreover have "drop (k + m) ?r = drop (k + m) record" using km(1) by simp
  moreover have "nat (pos + max bw 0) = k + m" using km(2,3) by simp
  ultimately show ?thesis using km(1) by (simp add: k_def m_def)
qed

lemma store_ok:
  "0 \<le> off \<Longrightarrow> off + int (length vs) \<le> int (length bs) \<Longrightarrow> \<exists>bs'. store off vs bs = Inr bs'"
  by (simp add: store_def)

lemma number_appended:
  assumes ar: "arrow_ok ar" and ok: "column_ok n (NumberType w) col" and v: "length v = w"
  defines "buf \<equiv> resize ar (bsize (buffer1 col) + w) False (buffer1 col)"
  shows "\<exists>bs. store (int n * int w) v (bytes buf) = Inr bs
    \<and> appended n (NumberType w) col (col\<lparr>buffer1 := buf\<lparr>bytes := bs\<rparr>, alen := alen col + 1\<rparr>) v"
proof -
  have w: "0 < w" "n * w \<le> bsize (buffer1 col)" "bsize (buffer1 col) \<le> length (bytes (buffer1 col))" using ok by auto
  note rs = arrow_resize [OF ar, where n = "bsize (buffer1 col) + w" and b = "buffer1 col", folded buf_def]
  have "int n * int w + int (length v) \<le> int (bsize (buffer1 col)) + int w"
    using w(2) v by (simp flip: of_nat_mult)
  then have "int n * int w + int (length v) \<le> int (length (bytes buf))" using rs(2) by linarith
  then obtain bs where bs: "store (int n * int w) v (bytes buf) = Inr bs"
    using store_ok [of "int n * int w" v "bytes buf"] by auto
  let ?col = "col\<lparr>buffer1 := buf\<lparr>bytes := bs\<rparr>, alen := alen col + 1\<rparr>"
  have len: "length bs = length (bytes buf)" using bs by (rule store_length)
  have "cell (NumberType w) n ?col = Inr v" using load_store [OF bs] v by (simp add: cell_def)
  moreover have "cell (NumberType w) r ?col = cell (NumberType w) r col" if r: "r < n" for r
  proof -
    have le: "int r * int w + int w \<le> int n * int w"
    proof -
      have "(r + 1) * w \<le> n * w" using r by (intro mult_right_mono) auto
      then have "int ((r + 1) * w) \<le> int (n * w)" by (simp only: of_nat_le_iff)
      then show ?thesis by (simp add: algebra_simps)
    qed
    have "int n * int w \<le> int (length (bytes (buffer1 col)))" using w by (simp flip: of_nat_mult)
    then obtain y where y: "load (int r * int w) (int w) (bytes (buffer1 col)) = Inr y" using le by (simp add: load_def)
    have "load (int r * int w) (int w) bs = load (int r * int w) (int w) (bytes buf)"
      using load_store_other [OF bs] le by blast
    then show ?thesis using extends_load [OF rs(3) y] y by (simp add: cell_def)
  qed
  moreover have "column_ok (n + 1) (NumberType w) ?col" using ok w rs(1,2) len by simp
  ultimately show ?thesis using bs by (auto simp: appended_def)
qed

lemma value_bytes_length:
  "bw \<le> int w \<Longrightarrow> 0 < w \<Longrightarrow> length bs = nat bw \<Longrightarrow> length (value_bytes w bw bs) = w"
  by (auto simp: value_bytes_def)

lemma InsertValue_ok:
  assumes ar: "arrow_ok ar" and ok: "column_ok n (NumberType w) (columns blk ! i)" and nr: "num_rows blk = int n"
    and pos: "0 \<le> pos" "pos + max bw 0 \<le> int (length record)" and bw: "bw \<le> int w"
  shows "\<exists>record' col'. InsertValue ar w i bw (pos, record, blk) = Inr (pos + max bw 0, record', bump i col' (int w) blk)
    \<and> appended n (NumberType w) (columns blk ! i) col'
        (encode_field (NumberType w) bw (take (nat bw) (drop (nat pos) record)))
    \<and> length record' = length record \<and> drop (nat (pos + max bw 0)) record' = drop (nat (pos + max bw 0)) record"
proof -
  let ?col = "columns blk ! i" and ?f = "take (nat bw) (drop (nat pos) record)"
  let ?buf = "resize ar (bsize (buffer1 ?col) + w) False (buffer1 ?col)"
  have w: "0 < w" using ok by simp
  have lf: "length ?f = nat bw" using pos by auto
  show ?thesis
  proof (cases "bw \<ge> int w")
    case True
    then have bw': "bw = int w" using bw by simp
    then have bw0: "max bw 0 = bw" by simp
    have ld: "load pos bw record = Inr ?f" using pos bw' by (simp add: load_def)
    have "length ?f = w" using lf bw' by simp
    from number_appended [OF ar ok this] obtain bs where
      bs: "store (int n * int w) ?f (bytes ?buf) = Inr bs"
        "appended n (NumberType w) ?col (?col\<lparr>buffer1 := ?buf\<lparr>bytes := bs\<rparr>, alen := alen ?col + 1\<rparr>) ?f" by blast
    have "InsertValue ar w i bw (pos, record, blk) = Inr (pos + max bw 0, record,
        bump i (?col\<lparr>buffer1 := ?buf\<lparr>bytes := bs\<rparr>, alen := alen ?col + 1\<rparr>) (int w) blk)"
      using ld bs(1) True bw0 bw' nr by (simp add: InsertValue_def Let_def)
    then show ?thesis using bs(2) True by auto
  next
    case False
    obtain record' where fv: "field_value w bw pos record = Inr (value_bytes w bw ?f, record')"
      "length record' = length record" "drop (nat (pos + max bw 0)) record' = drop (nat (pos + max bw 0)) record"
      using field_value_ok [OF pos bw w] by blast
    have "length (value_bytes w bw ?f) = w" using bw w lf by (rule value_bytes_length)
    from number_appended [OF ar ok this] obtain bs where
      bs: "store (int n * int w) (value_bytes w bw ?f) (bytes ?buf) = Inr bs"
        "appended n (NumberType w) ?col (?col\<lparr>buffer1 := ?buf\<lparr>bytes := bs\<rparr>, alen := alen ?col + 1\<rparr>)
           (value_bytes w bw ?f)" by blast
    have "InsertValue ar w i bw (pos, record, blk) = Inr (pos + max bw 0, record',
        bump i (?col\<lparr>buffer1 := ?buf\<lparr>bytes := bs\<rparr>, alen := alen ?col + 1\<rparr>) (int w) blk)"
      using fv(1) bs(1) False nr by (simp add: InsertValue_def Let_def)
    then show ?thesis using bs(2) fv(2,3) False by auto
  qed
qed

lemma offsets_extend:
  assumes "offsets_ok n col os" "\<And>k. k \<le> n \<Longrightarrow> get_i32 (int k) obs = Inr (os ! k)"
    "get_i32 (int n + 1) obs = Inr (os ! n + bw)" "0 \<le> bw" "os ! n + bw \<le> int (bsize b2)" "bytes b1 = obs"
  shows "offsets_ok (n + 1) (col\<lparr>buffer1 := b1, buffer2 := b2, alen := x\<rparr>) (os @ [os ! n + bw])"
proof -
  have len: "length os = n + 1" and so: "sorted os" and z: "os ! 0 = 0" using assms(1) by (auto simp: offsets_ok_def)
  have "y \<le> os ! n" if "y \<in> set os" for y
    using that so len by (auto simp: in_set_conv_nth sorted_iff_nth_mono)
  then have "sorted (os @ [os ! n + bw])" using so assms(4) by (force simp: sorted_append)
  moreover have "get_i32 (int k) obs = Inr ((os @ [os ! n + bw]) ! k)" if "k \<le> n + 1" for k
    using that assms(2,3) len by (cases "k = n + 1") (auto simp: nth_append add.commute)
  ultimately show ?thesis using len z assms(5,6) by (simp add: offsets_ok_def nth_append)
qed

lemma InsertString_ok:
  assumes ar: "arrow_ok ar" and ok: "column_ok n StringType (columns blk ! i)" and nr: "num_rows blk = int n"
    and pos: "0 \<le> pos" "pos + bw \<le> int (length record)" and bw: "width_ok n StringType bw (columns blk ! i)"
  shows "\<exists>col'. InsertString ar i bw (pos, record, blk) = Inr (pos + bw, record, bump i col' bw blk)
    \<and> appended n StringType (columns blk ! i) col' (take (nat bw) (drop (nat pos) record))"
proof -
  let ?col = "columns blk ! i"
  define f where "f = take (nat bw) (drop (nat pos) record)"
  obtain os where os: "offsets_ok n ?col os" using ok by auto
  have b: "4 * (n + 1) \<le> bsize (buffer1 ?col)" "bsize (buffer1 ?col) \<le> length (bytes (buffer1 ?col))"
    "bsize (buffer2 ?col) \<le> length (bytes (buffer2 ?col))" using ok by auto
  have o: "length os = n + 1" "sorted os" "os ! 0 = 0" "os ! n \<le> int (bsize (buffer2 ?col))"
    "\<And>k. k \<le> n \<Longrightarrow> get_i32 (int k) (bytes (buffer1 ?col)) = Inr (os ! k)" using os by (auto simp: offsets_ok_def)
  have o0: "0 \<le> os ! n" using o(1-3) sorted_nth_mono [of os 0 n] by simp
  have bw0: "0 \<le> bw" "os ! n + bw < 2 ^ 31" using bw o(5) [of n] by auto
  define dbuf where "dbuf = resize ar (nat (int (bsize (buffer2 ?col)) + bw)) False (buffer2 ?col)"
  define offs where "offs = resize ar (bsize (buffer1 ?col) + 4) False (buffer1 ?col)"
  note rd = arrow_resize [OF ar, where n = "nat (int (bsize (buffer2 ?col)) + bw)" and b = "buffer2 ?col", folded dbuf_def]
  note ro = arrow_resize [OF ar, where n = "bsize (buffer1 ?col) + 4" and b = "buffer1 ?col", folded offs_def]
  have g: "get_i32 (int k) (bytes offs) = Inr (os ! k)" if "k \<le> n" for k using extends_get [OF ro(3) o(5) [OF that]] .
  obtain obs where obs: "put_i32 (int n + 1) (os ! n + bw) (bytes offs) = Inr obs"
    using b ro(2) by (auto simp: put_i32_def store_def)
  have gn: "get_i32 (int n + 1) obs = Inr (os ! n + bw)" using get_put_i32 [OF obs] o0 bw0 by simp
  have gk: "get_i32 (int k) obs = Inr (os ! k)" if "k \<le> n" for k
    using get_put_i32_other [OF obs, of "int k"] g that by simp
  have lf: "load pos bw record = Inr f" "int (length f) = bw" using pos bw0 by (auto simp: load_def f_def)
  have room: "os ! n + bw \<le> int (length (bytes dbuf))" using rd(2) o(4) bw0 by linarith
  then obtain dbs where dbs: "store (os ! n) f (bytes dbuf) = Inr dbs"
    using o0 lf(2) store_ok [of "os ! n" f "bytes dbuf"] by auto
  define col' where "col' = ?col\<lparr>buffer1 := offs\<lparr>bytes := obs\<rparr>, buffer2 := dbuf\<lparr>bytes := dbs\<rparr>, alen := alen ?col + 1\<rparr>"
  have "InsertString ar i bw (pos, record, blk) = Inr (pos + bw, record, bump i col' bw blk)"
    using g [of n] obs lf(1) dbs nr
    by (simp add: InsertString_def Let_def dbuf_def [symmetric] offs_def [symmetric] col'_def)
  moreover have "cell StringType n col' = Inr f"
    using gk [of n] gn load_store [OF dbs] lf(2) by (simp add: cell_def col'_def add.commute)
  moreover have "cell StringType r col' = cell StringType r ?col" if r: "r < n" for r
  proof -
    have le: "os ! r \<le> os ! (r + 1)" "os ! (r + 1) \<le> os ! n" "0 \<le> os ! r"
      using o(1-3) r sorted_nth_mono [of os r "r + 1"] sorted_nth_mono [of os "r + 1" n] sorted_nth_mono [of os 0 r] by auto
    then have "os ! r + (os ! (r + 1) - os ! r) \<le> int (length (bytes (buffer2 ?col)))" using o(4) b(3) by linarith
    then obtain y where y: "load (os ! r) (os ! (r + 1) - os ! r) (bytes (buffer2 ?col)) = Inr y"
      using le by (simp add: load_def)
    have "load (os ! r) (os ! (r + 1) - os ! r) dbs = load (os ! r) (os ! (r + 1) - os ! r) (bytes dbuf)"
      using load_store_other [OF dbs] le by simp
    then have "load (os ! r) (os ! (r + 1) - os ! r) dbs = Inr y" using extends_load [OF rd(3) y] by simp
    then show ?thesis using y gk [of r] gk [of "r + 1"] o(5) [of r] o(5) [of "r + 1"] r
      by (simp add: cell_def col'_def add.commute)
  qed
  moreover have "column_ok (n + 1) StringType col'"
  proof -
    have "offsets_ok (n + 1) col' (os @ [os ! n + bw])"
      unfolding col'_def by (rule offsets_extend [OF os gk gn bw0(1)]) (use rd(1) o(4) bw0 in auto)
    moreover have "length obs = length (bytes offs)" using store_length [OF obs [unfolded put_i32_def]] .
    moreover have "length dbs = length (bytes dbuf)" using store_length [OF dbs] .
    ultimately show ?thesis using ok b ro rd by (auto simp: col'_def)
  qed
  ultimately show ?thesis by (auto simp: appended_def f_def)
qed

lemma bump_simps [simp]:
  "schema (bump i c m blk) = schema blk" "num_rows (bump i c m blk) = num_rows blk"
  "num_bytes (bump i c m blk) = num_bytes blk + m"
  "length (column_sizes (bump i c m blk)) = length (column_sizes blk)"
  "block_id (bump i c m blk) = block_id blk"
  "valid (bump i c m blk) = valid blk" "columns (bump i c m blk) = (columns blk)[i := c]"
  "capacity (bump i c m blk) = capacity blk"
  by (simp_all add: bump_def)

text \<open>One field of either kind.\<close>

definition insert_field :: "arrow \<Rightarrow> int \<Rightarrow> nat \<Rightarrow> insertion \<Rightarrow> insertion res" where
  "insert_field ar bw i s = (case schema (snd (snd s)) ! i of
        StringType \<Rightarrow> InsertString ar i bw s
      | NumberType w \<Rightarrow> InsertValue ar w i bw s
      | CType w \<Rightarrow> InsertValue ar w i bw s
      | _ \<Rightarrow> Inl LogicError)"

lemma insert_field_ok:
  assumes "arrow_ok ar" "column_ok n (schema blk ! i) (columns blk ! i)" "num_rows blk = int n" "0 \<le> pos"
    "pos + max bw 0 \<le> int (length record)" "width_ok n (schema blk ! i) bw (columns blk ! i)"
  shows "\<exists>record' col'. insert_field ar bw i (pos, record, blk) = Inr (pos + max bw 0, record', bump i col'
        (int (length (encode_field (schema blk ! i) bw (take (nat bw) (drop (nat pos) record))))) blk)
    \<and> appended n (schema blk ! i) (columns blk ! i) col'
        (encode_field (schema blk ! i) bw (take (nat bw) (drop (nat pos) record)))
    \<and> length record' = length record \<and> drop (nat (pos + max bw 0)) record' = drop (nat (pos + max bw 0)) record"
proof (cases "schema blk ! i")
  case (NumberType w)
  have "0 < w" "bw \<le> int w" using assms(2,6) NumberType by auto
  then have "length (encode_field (NumberType w) bw (take (nat bw) (drop (nat pos) record))) = w"
    using value_bytes_length [of bw w] assms(4,5) by auto
  then show ?thesis
    using InsertValue_ok [of ar n w blk i pos bw "record"] assms NumberType by (simp add: insert_field_def)
next
  case StringType
  have "0 \<le> bw" using assms(6) StringType by simp
  then have bw: "max bw 0 = bw" "int (length (take (nat bw) (drop (nat pos) record))) = bw" using assms(4,5) by auto
  obtain col' where "InsertString ar i bw (pos, record, blk) = Inr (pos + bw, record, bump i col' bw blk)"
    "appended n StringType (columns blk ! i) col' (take (nat bw) (drop (nat pos) record))"
    using InsertString_ok [of ar n blk i pos bw "record"] assms StringType bw by auto
  then show ?thesis using StringType bw
    by (intro exI [of _ "record"] exI [of _ col']) (simp add: insert_field_def)
qed (use assms in auto)

lemma insert_fields_Cons:
  "insert_fields ar widths (i # is) s = and_then (insert_field ar (widths ! i) i s) (insert_fields ar widths is)"
  by (simp add: insert_field_def)

lemma insert_fields_ok:
  assumes ar: "arrow_ok ar" and "k \<le> m" "m = length (schema blk)" "length widths = m" "length (columns blk) = m"
    and "num_rows blk = int n" "0 \<le> pos"
    and "pos + sum_list (map (\<lambda>w. max w 0) (drop k widths)) \<le> int (length record)"
    and "\<And>j. k \<le> j \<Longrightarrow> j < m \<Longrightarrow> column_ok n (schema blk ! j) (columns blk ! j) \<and> width_ok n (schema blk ! j) (widths ! j) (columns blk ! j)"
  shows "\<exists>pos' record' blk'. insert_fields ar widths [k..<m] (pos, record, blk) = Inr (pos', record', blk')
    \<and> length record' = length record \<and> schema blk' = schema blk \<and> num_rows blk' = num_rows blk \<and> valid blk' = valid blk
    \<and> capacity blk' = capacity blk \<and> block_id blk' = block_id blk \<and> length (column_sizes blk') = length (column_sizes blk)
    \<and> num_bytes blk' = num_bytes blk + int (sum_list (map length (encode_row (drop k (schema blk)) (drop k widths) (drop (nat pos) record))))
    \<and> length (columns blk') = m \<and> (\<forall>j < k. columns blk' ! j = columns blk ! j)
    \<and> (\<forall>j. k \<le> j \<and> j < m \<longrightarrow> appended n (schema blk ! j) (columns blk ! j) (columns blk' ! j)
          (encode_row (drop k (schema blk)) (drop k widths) (drop (nat pos) record) ! (j - k)))"
  using assms(2-)
proof (induction "m - k" arbitrary: k pos "record" blk)
  case 0
  then have "k = m" by simp
  then show ?case using 0 by auto
next
  case (Suc d)
  then have k: "k < m" by simp
  let ?bw = "widths ! k" and ?m = "int (length (encode_field (schema blk ! k) (widths ! k) (take (nat (widths ! k)) (drop (nat pos) record))))"
  have dw: "drop k widths = ?bw # drop (k + 1) widths" using k Suc.prems(3) by (simp add: Cons_nth_drop_Suc)
  have ds: "drop k (schema blk) = schema blk ! k # drop (k + 1) (schema blk)"
    using k Suc.prems(2) by (simp add: Cons_nth_drop_Suc)
  have nn: "0 \<le> sum_list (map (\<lambda>w. max w 0) (drop (k + 1) widths))" by (rule sum_list_nonneg) auto
  have p: "pos + max ?bw 0 \<le> int (length record)" using Suc.prems(7) nn dw by simp
  have ck: "column_ok n (schema blk ! k) (columns blk ! k)" "width_ok n (schema blk ! k) ?bw (columns blk ! k)"
    using Suc.prems(8) [of k] k by auto
  from insert_field_ok [OF ar ck(1) Suc.prems(5,6) p ck(2)] obtain record1 col1 where
    f: "insert_field ar ?bw k (pos, record, blk) = Inr (pos + max ?bw 0, record1, bump k col1 ?m blk)"
      "appended n (schema blk ! k) (columns blk ! k) col1
         (encode_field (schema blk ! k) ?bw (take (nat ?bw) (drop (nat pos) record)))"
      "length record1 = length record" "drop (nat (pos + max ?bw 0)) record1 = drop (nat (pos + max ?bw 0)) record" by blast
  let ?blk = "bump k col1 ?m blk" and ?pos = "pos + max ?bw 0"
  have np: "nat ?pos = nat ?bw + nat pos" using Suc.prems(6) by (cases "?bw < 0") (simp_all add: nat_add_distrib)
  have dp: "drop (nat ?pos) record1 = drop (nat ?bw) (drop (nat pos) record)" using f(4) np by simp
  have "\<exists>pos' record' blk'. insert_fields ar widths [k + 1..<m] (?pos, record1, ?blk) = Inr (pos', record', blk')
    \<and> length record' = length record1 \<and> schema blk' = schema ?blk \<and> num_rows blk' = num_rows ?blk \<and> valid blk' = valid ?blk
    \<and> capacity blk' = capacity ?blk \<and> block_id blk' = block_id ?blk \<and> length (column_sizes blk') = length (column_sizes ?blk)
    \<and> num_bytes blk' = num_bytes ?blk + int (sum_list (map length (encode_row (drop (k + 1) (schema ?blk)) (drop (k + 1) widths) (drop (nat ?pos) record1))))
    \<and> length (columns blk') = m \<and> (\<forall>j < k + 1. columns blk' ! j = columns ?blk ! j)
    \<and> (\<forall>j. k + 1 \<le> j \<and> j < m \<longrightarrow> appended n (schema ?blk ! j) (columns ?blk ! j) (columns blk' ! j)
          (encode_row (drop (k + 1) (schema ?blk)) (drop (k + 1) widths) (drop (nat ?pos) record1) ! (j - (k + 1))))"
  proof (rule Suc.hyps(1))
    show "d = m - (k + 1)" using Suc.hyps(2) by simp
    show "?pos + sum_list (map (\<lambda>w. max w 0) (drop (k + 1) widths)) \<le> int (length record1)"
      using Suc.prems(7) dw f(3) by simp
    show "column_ok n (schema ?blk ! j) (columns ?blk ! j) \<and> width_ok n (schema ?blk ! j) (widths ! j) (columns ?blk ! j)"
      if "k + 1 \<le> j" "j < m" for j using that Suc.prems(8) [of j] by simp
  qed (use Suc.prems k in auto)
  then obtain pos' record' blk' where r:
    "insert_fields ar widths [k + 1..<m] (?pos, record1, ?blk) = Inr (pos', record', blk')"
    "length record' = length record" "schema blk' = schema blk" "num_rows blk' = num_rows blk" "valid blk' = valid blk"
    "capacity blk' = capacity blk \<and> block_id blk' = block_id blk" "length (column_sizes blk') = length (column_sizes blk)"
    "num_bytes blk' = num_bytes blk + ?m + int (sum_list (map length (encode_row (drop (k + 1) (schema blk)) (drop (k + 1) widths) (drop (nat ?bw) (drop (nat pos) record)))))"
    "length (columns blk') = m" "\<forall>j < k + 1. columns blk' ! j = (columns blk)[k := col1] ! j"
    "\<forall>j. k + 1 \<le> j \<and> j < m \<longrightarrow> appended n (schema blk ! j) ((columns blk)[k := col1] ! j) (columns blk' ! j)
          (encode_row (drop (k + 1) (schema blk)) (drop (k + 1) widths) (drop (nat ?bw) (drop (nat pos) record)) ! (j - (k + 1)))"
    using f(3) dp by auto
  have "insert_fields ar widths [k..<m] (pos, record, blk) = Inr (pos', record', blk')"
    using k f(1) r(1) unfolding upt_conv_Cons [OF k] insert_fields_Cons by simp
  moreover have "appended n (schema blk ! j) (columns blk ! j) (columns blk' ! j)
      (encode_row (drop k (schema blk)) (drop k widths) (drop (nat pos) record) ! (j - k))" if j: "k \<le> j" "j < m" for j
  proof (cases "j = k")
    case True
    have "columns blk' ! k = col1" using r(10) k Suc.prems(4) by simp
    then show ?thesis using True f(2) by (simp add: ds dw)
  next
    case False
    then have "j - k = Suc (j - (k + 1))" "k + 1 \<le> j" using j by auto
    then show ?thesis using r(11) j False by (simp add: ds dw)
  qed
  moreover have "\<forall>j < k. columns blk' ! j = columns blk ! j" using r(10) by simp
  moreover have "num_bytes blk' = num_bytes blk + int (sum_list (map length
      (encode_row (drop k (schema blk)) (drop k widths) (drop (nat pos) record))))" using r(8) by (simp add: ds dw)
  ultimately show ?case using r(2-7,9) by blast
qed

section \<open>The valid bits\<close>

definition vbit :: "u8 list \<Rightarrow> nat \<Rightarrow> bool" where
  "vbit bs r = bit (bs ! (r div 8)) (r mod 8)"

lemma row_index: "0 \<le> row \<Longrightarrow> row < 2 ^ 32 \<Longrightarrow> row mod 2 ^ 32 = (row :: int)" by simp

lemma get_valid_eq:
  assumes "int r < 2 ^ 32" "r div 8 < length (bytes (buffer1 (valid blk)))"
  shows "get_valid (int r) blk = Inr (vbit (bytes (buffer1 (valid blk))) r)"
proof -
  have "drop_bit n b AND 1 = 1 \<longleftrightarrow> bit b n" for n and b :: u8
    by (simp add: and_one_eq bit_iff_odd_drop_bit odd_iff_mod_2_eq_one)
  then show ?thesis using assms row_index [of "int r"] by (simp add: get_valid_def Let_def fetch_def vbit_def)
qed

lemma div_mod_8_inject: "r div 8 = r' div 8 \<Longrightarrow> r mod 8 = r' mod 8 \<Longrightarrow> r = (r' :: nat)"
  by (metis div_mult_mod_eq)

lemma set_valid_ok:
  assumes "int r < 2 ^ 32" "r div 8 < length (bytes (buffer1 (valid blk)))"
  shows "\<exists>bs. set_valid (int r) v blk = Inr (blk\<lparr>valid := (valid blk)\<lparr>buffer1 := (buffer1 (valid blk))\<lparr>bytes := bs\<rparr>\<rparr>\<rparr>)
    \<and> length bs = length (bytes (buffer1 (valid blk))) \<and> vbit bs r = v
    \<and> (\<forall>r'. r' \<noteq> r \<longrightarrow> vbit bs r' = vbit (bytes (buffer1 (valid blk))) r')"
proof -
  let ?bs = "bytes (buffer1 (valid blk))"
  let ?b = "if v then ?bs ! (r div 8) OR push_bit (r mod 8) 1 else ?bs ! (r div 8) AND NOT (push_bit (r mod 8) 1)"
  let ?bs' = "?bs[r div 8 := ?b]"
  have p: "bit (2 ^ k :: u8) j \<longleftrightarrow> j = k \<and> k < 8" for j k
    by (auto simp: bit_exp_iff)
  have b: "bit ?b (j mod 8) = (if j mod 8 = r mod 8 then v else bit (?bs ! (r div 8)) (j mod 8))" for j
    by (simp add: bit_or_iff bit_and_iff bit_not_iff p)
  have "vbit ?bs' r = v" using assms(2) b [of r] by (simp add: vbit_def)
  moreover have "vbit ?bs' r' = vbit ?bs r'" if "r' \<noteq> r" for r'
  proof (cases "r' div 8 = r div 8")
    case True
    then have "r' mod 8 \<noteq> r mod 8" using that div_mod_8_inject by blast
    then show ?thesis using True assms(2) b [of r'] by (simp add: vbit_def)
  next
    case False
    then show ?thesis by (simp add: vbit_def)
  qed
  moreover have "set_valid (int r) v blk = Inr (blk\<lparr>valid := (valid blk)\<lparr>buffer1 := (buffer1 (valid blk))\<lparr>bytes := ?bs'\<rparr>\<rparr>\<rparr>)"
    using assms row_index [of "int r"] by (simp add: set_valid_def Let_def fetch_def)
  ultimately show ?thesis by (intro exI [of _ ?bs']) simp
qed

section \<open>The invariant of a block\<close>

definition valid_ok :: "nat \<Rightarrow> array_data \<Rightarrow> bool" where
  "valid_ok n v \<longleftrightarrow> n \<le> 8 * bsize (buffer1 v) \<and> bsize (buffer1 v) \<le> length (bytes (buffer1 v))"

definition block_ok :: "block \<Rightarrow> bool" where
  "block_ok blk \<longleftrightarrow> 0 \<le> num_rows blk \<and> num_rows blk < 2 ^ 31
     \<and> length (columns blk) = num_cols blk \<and> length (column_sizes blk) = num_cols blk
     \<and> valid_ok (nat (num_rows blk)) (valid blk)
     \<and> (\<forall>i < num_cols blk. column_ok (nat (num_rows blk)) (schema blk ! i) (columns blk ! i))"

text \<open>A record that fits the columns of a block: its widths and its bytes.\<close>

definition record_ok :: "block \<Rightarrow> u8 list \<Rightarrow> int list \<Rightarrow> bool" where
  "record_ok blk record widths \<longleftrightarrow> length widths = num_cols blk
     \<and> sum_list (map (\<lambda>w. max w 0) widths) \<le> int (length record)
     \<and> (\<forall>i < num_cols blk. width_ok (nat (num_rows blk)) (schema blk ! i) (widths ! i) (columns blk ! i))"

lemma rows_appended:
  assumes n: "num_rows blk = int n" "num_rows blk' = int n + 1" and s: "schema blk' = schema blk"
    and a: "\<And>j. j < num_cols blk \<Longrightarrow> appended n (schema blk ! j) (columns blk ! j) (columns blk' ! j) (vs ! j)"
    and vs: "length vs = num_cols blk"
  shows "rows blk' = rows blk @ [map Inr vs]"
proof -
  have nc: "num_cols blk' = num_cols blk" using s by (simp add: num_cols_def)
  have "map (\<lambda>i. cell (schema blk ! i) n (columns blk' ! i)) [0..<num_cols blk] = map Inr vs"
    using a vs by (intro nth_equalityI) (auto simp: appended_def)
  moreover have "map (\<lambda>i. cell (schema blk ! i) r (columns blk' ! i)) [0..<num_cols blk]
      = map (\<lambda>i. cell (schema blk ! i) r (columns blk ! i)) [0..<num_cols blk]" if "r < n" for r
    using a that by (intro map_cong) (auto simp: appended_def)
  moreover have "nat (num_rows blk') = Suc n" "nat (num_rows blk) = n" using n by simp_all
  ultimately show ?thesis by (simp add: rows_def nc s)
qed

lemma encode_row_length: "length ws = length ts \<Longrightarrow> length (encode_row ts ws record) = length ts"
  by (induction ts ws "record" rule: encode_row.induct) auto

lemma grow_valid_1:
  assumes ar: "arrow_ok ar" and v: "valid_ok n (valid blk)" and n: "num_rows blk = int n" "num_rows blk < 2 ^ 31"
  defines "buf \<equiv> resize ar (bsize (buffer1 (valid blk)) + 1) False (buffer1 (valid blk))"
  shows "\<exists>v'. grow_valid 1 buf blk = Inr (blk\<lparr>valid := v'\<rparr>) \<and> valid_ok (n + 1) v'
    \<and> vbit (bytes (buffer1 v')) n \<and> (\<forall>r < n. vbit (bytes (buffer1 v')) r = vbit (bytes (buffer1 (valid blk))) r)"
proof -
  let ?b = "buffer1 (valid blk)" and ?blk = "blk\<lparr>valid := (valid blk)\<lparr>buffer1 := buf\<rparr>\<rparr>"
  note rs = arrow_resize [OF ar, where n = "bsize ?b + 1" and b = ?b, folded buf_def]
  have vo: "n \<le> 8 * bsize ?b" "bsize ?b \<le> length (bytes ?b)" using v by (auto simp: valid_ok_def)
  have "n < (bsize ?b + 1) * 8" using vo by simp
  then have "n div 8 < bsize ?b + 1" by (rule less_mult_imp_div_less)
  then have l: "n div 8 < length (bytes buf)" using rs(2) by linarith
  have n32: "int n < 2 ^ 32" using n by simp
  obtain bs where bs: "set_valid (int n) True ?blk = Inr (?blk\<lparr>valid := (valid ?blk)\<lparr>buffer1 := (buffer1 (valid ?blk))\<lparr>bytes := bs\<rparr>\<rparr>\<rparr>)"
    "length bs = length (bytes buf)" "vbit bs n" "\<forall>r'. r' \<noteq> n \<longrightarrow> vbit bs r' = vbit (bytes buf) r'"
    using set_valid_ok [of n ?blk True] l n32 by auto
  have "vbit (bytes buf) r = vbit (bytes ?b) r" if "r < n" for r
  proof -
    have "r < bsize ?b * 8" using that vo by simp
    then have "r div 8 < length (bytes ?b)" using vo(2) less_mult_imp_div_less order_less_le_trans by blast
    then show ?thesis using rs(3) unfolding extends_def vbit_def by (metis nth_take)
  qed
  then show ?thesis
    using bs vo rs(1,2) n(1)
    by (intro exI [of _ "(valid blk)\<lparr>buffer1 := buf\<lparr>bytes := bs\<rparr>, alen := alen (valid blk) + 1\<rparr>"])
      (simp add: grow_valid_def valid_ok_def)
qed

lemma InsertRecord_ok:
  assumes ar: "arrow_ok ar" and ok: "block_ok blk" and r: "record_ok blk record widths"
    and fit: "sum_list widths \<le> get_bytes_left blk" and nr: "num_rows blk < 2 ^ 31 - 1"
  shows "\<exists>record' blk'. InsertRecord ar record widths blk = Inr (num_rows blk, record', blk')
    \<and> block_ok blk' \<and> schema blk' = schema blk \<and> capacity blk' = capacity blk \<and> block_id blk' = block_id blk
    \<and> num_rows blk' = num_rows blk + 1
    \<and> rows blk' = rows blk @ [map Inr (encode_row (schema blk) widths record)]
    \<and> num_bytes blk' = num_bytes blk + int (sum_list (map length (encode_row (schema blk) widths record)))
    \<and> get_valid (num_rows blk) blk' = Inr True
    \<and> (\<forall>q < nat (num_rows blk). get_valid (int q) blk' = get_valid (int q) blk)"
proof -
  define n where "n = nat (num_rows blk)"
  have n: "num_rows blk = int n" using ok by (simp add: n_def block_ok_def)
  have vo: "valid_ok n (valid blk)" using ok by (simp add: n_def block_ok_def)
  have w: "length widths = num_cols blk" using r by (simp add: record_ok_def)
  obtain v' where v': "grow_valid 1 (resize ar (bsize (buffer1 (valid blk)) + 1) False (buffer1 (valid blk))) blk = Inr (blk\<lparr>valid := v'\<rparr>)"
    "valid_ok (n + 1) v'" "vbit (bytes (buffer1 v')) n"
    "\<forall>r < n. vbit (bytes (buffer1 v')) r = vbit (bytes (buffer1 (valid blk))) r"
    using grow_valid_1 [OF ar vo n] nr by auto
  let ?blk = "blk\<lparr>valid := v'\<rparr>" and ?vs = "encode_row (schema blk) widths record"
  have vs: "length ?vs = num_cols blk" using w by (simp add: encode_row_length num_cols_def)
  have nc: "num_cols ?blk = num_cols blk" by (simp add: num_cols_def)
  have "\<exists>pos' record' blk'. insert_fields ar widths [0..<num_cols blk] (0, record, ?blk) = Inr (pos', record', blk')
    \<and> length record' = length record \<and> schema blk' = schema ?blk \<and> num_rows blk' = num_rows ?blk \<and> valid blk' = valid ?blk
    \<and> capacity blk' = capacity ?blk \<and> block_id blk' = block_id ?blk \<and> length (column_sizes blk') = length (column_sizes ?blk)
    \<and> num_bytes blk' = num_bytes ?blk + int (sum_list (map length (encode_row (drop 0 (schema ?blk)) (drop 0 widths) (drop (nat 0) record))))
    \<and> length (columns blk') = num_cols blk \<and> (\<forall>j < 0. columns blk' ! j = columns ?blk ! j)
    \<and> (\<forall>j. 0 \<le> j \<and> j < num_cols blk \<longrightarrow> appended n (schema ?blk ! j) (columns ?blk ! j) (columns blk' ! j)
          (encode_row (drop 0 (schema ?blk)) (drop 0 widths) (drop (nat 0) record) ! (j - 0)))"
    using ok r n by (intro insert_fields_ok [OF ar]) (auto simp: block_ok_def record_ok_def num_cols_def)
  then obtain pos' record' blk' where f:
    "insert_fields ar widths [0..<num_cols blk] (0, record, ?blk) = Inr (pos', record', blk')"
    "schema blk' = schema blk" "num_rows blk' = num_rows blk" "valid blk' = v'" "capacity blk' = capacity blk \<and> block_id blk' = block_id blk"
    "length (column_sizes blk') = length (column_sizes blk)"
    "num_bytes blk' = num_bytes blk + int (sum_list (map length ?vs))"
    "length (columns blk') = num_cols blk"
    "\<And>j. j < num_cols blk \<Longrightarrow> appended n (schema blk ! j) (columns blk ! j) (columns blk' ! j) (?vs ! j)" by auto
  let ?b = "blk'\<lparr>num_rows := num_rows blk' + 1\<rparr>"
  have eq: "InsertRecord ar record widths blk = Inr (num_rows blk, record', ?b)"
    using w fit v'(1) f(1,3) by (simp add: InsertRecord_def nc Let_def)
  have rows: "rows ?b = rows blk @ [map Inr ?vs]"
    using f(2,3,9) n vs by (intro rows_appended [where n = n]) auto
  have ncb: "num_cols ?b = num_cols blk" using f(2) by (simp add: num_cols_def)
  have nn: "nat (num_rows ?b) = n + 1" using n f(3) by simp
  have "block_ok ?b"
    using ok f v'(2) nr nn ncb by (auto simp: block_ok_def appended_def)
  moreover have "get_valid (int q) ?b = Inr (vbit (bytes (buffer1 v')) q)" if "q \<le> n" for q
  proof -
    have "q < bsize (buffer1 v') * 8" using v'(2) that by (simp add: valid_ok_def)
    then have "q div 8 < bsize (buffer1 v')" by (rule less_mult_imp_div_less)
    then have "q div 8 < length (bytes (buffer1 v'))" using v'(2) by (simp add: valid_ok_def)
    then show ?thesis using get_valid_eq [of q ?b] f(4) that n nr by simp
  qed
  moreover have "get_valid (int q) blk = Inr (vbit (bytes (buffer1 (valid blk))) q)" if "q < n" for q
  proof -
    have "q < bsize (buffer1 (valid blk)) * 8" using vo that by (simp add: valid_ok_def)
    then have "q div 8 < bsize (buffer1 (valid blk))" by (rule less_mult_imp_div_less)
    then show ?thesis using get_valid_eq [of q blk] vo that n nr by (simp add: valid_ok_def)
  qed
  ultimately show ?thesis
    using eq rows f(2,3,5,7) v'(3,4) n
    by (intro exI [of _ "record'"] exI [of _ ?b]) (simp add: n_def [symmetric])
qed

section \<open>New blocks\<close>

text \<open>The types whose columns take records: numbers and strings.\<close>

fun plain :: "arrow_type \<Rightarrow> bool" where
  "plain (NumberType w) \<longleftrightarrow> 0 < w" | "plain StringType \<longleftrightarrow> True" | "plain _ \<longleftrightarrow> False"

fun fixed_width :: "arrow_type \<Rightarrow> int" where
  "fixed_width (NumberType w) = int w" | "fixed_width _ = 0"

definition row_width :: "arrow_type list \<Rightarrow> int" where
  "row_width ts = sum_list (map fixed_width ts) + 30 * int (length (filter (\<lambda>t. t = StringType) ts))"

lemma widths_plain:
  "list_all plain ts \<Longrightarrow> compute_fixed_record_width ts = Inr (sum_list (map fixed_width ts))"
  "list_all plain ts \<Longrightarrow> \<exists>sizes. get_field_sizes ts = Inr sizes"
  by (induction ts) (auto split: arrow_type.splits)

lemma allocate_column_ok:
  assumes ar: "arrow_ok ar" and "plain t" "1 \<le> n"
  shows "\<exists>col. (case t of NumberType w \<Rightarrow> Inr (AllocateColumnData ar w n)
              | StringType \<Rightarrow> AllocateStringData ar n
              | FixedSizeBinaryType w \<Rightarrow> Inr (AllocateColumnData ar w n)
              | _ \<Rightarrow> Inl LogicError) = Inr col \<and> column_ok 0 t col"
proof (cases t)
  case (NumberType w)
  then show ?thesis using assms by (simp add: AllocateColumnData_def arrow_ok_def)
next
  case StringType
  let ?o = "allocate ar (4 * n)"
  have a: "bsize ?o = 4 * n" "4 * n \<le> length (bytes ?o)" using ar by (auto simp: arrow_ok_def)
  obtain bs where bs: "put_i32 0 0 (bytes ?o) = Inr bs"
    using a assms(3) store_ok [of 0 "to_le32 (word_of_int 0)" "bytes ?o"] by (auto simp: put_i32_def)
  have "get_i32 0 bs = Inr 0" using get_put_i32 [OF bs] by simp
  then have "offsets_ok 0 (\<lparr>alen = 0, aoffset = 0, buffer1 = ?o\<lparr>bytes := bs\<rparr>, buffer2 = b2\<rparr>) [0]" for b2
    by (simp add: offsets_ok_def)
  moreover have "length bs = length (bytes ?o)" using store_length [OF bs [unfolded put_i32_def]] .
  ultimately show ?thesis
    using StringType bs a assms(1,3) by (auto simp: AllocateStringData_def Let_def arrow_ok_def)
qed (use assms in auto)

lemma AllocateColumns_ok:
  assumes "arrow_ok ar" "list_all plain ts" "1 \<le> n"
  shows "\<exists>cols. AllocateColumns ar n ts = Inr cols \<and> length cols = length ts
    \<and> (\<forall>i < length ts. column_ok 0 (ts ! i) (cols ! i))"
  using assms(2)
proof (induction ts)
  case (Cons t ts)
  obtain col where col: "(case t of NumberType w \<Rightarrow> Inr (AllocateColumnData ar w n)
              | StringType \<Rightarrow> AllocateStringData ar n
              | FixedSizeBinaryType w \<Rightarrow> Inr (AllocateColumnData ar w n)
              | _ \<Rightarrow> Inl LogicError) = Inr col" "column_ok 0 t col"
    using allocate_column_ok [OF assms(1) _ assms(3), of t] Cons.prems by auto
  obtain cols where cols: "AllocateColumns ar n ts = Inr cols" "length cols = length ts"
    "\<forall>i < length ts. column_ok 0 (ts ! i) (cols ! i)" using Cons by auto
  have "column_ok 0 ((t # ts) ! i) ((col # cols) ! i)" if "i < length (t # ts)" for i
    using that col(2) cols(3) by (cases i) auto
  then show ?case using col(1) cols by auto
qed simp

lemma Block_new_ok:
  assumes ar: "arrow_ok ar" and ts: "list_all plain ts" and w: "0 < row_width ts" "row_width ts \<le> cap"
  shows "\<exists>blk. Block_new ar bid ts cap md = Inr blk \<and> block_ok blk \<and> rows blk = [] \<and> schema blk = ts
    \<and> capacity blk = cap \<and> num_bytes blk = 0 \<and> num_rows blk = 0 \<and> block_id blk = bid
    \<and> row_id_map blk = Map.empty \<and> column_sizes blk = map (\<lambda>_. 0) ts"
proof -
  have d: "cap sdiv row_width ts = cap div row_width ts" using w by (simp add: signed_divide_int_def)
  have "1 \<le> cap div row_width ts" using w by (simp add: pos_imp_zdiv_pos_iff int_one_le_iff_zero_less)
  then have n: "1 \<le> nat (cap div row_width ts)" "0 \<le> cap div row_width ts" by linarith+
  obtain sizes where s: "get_field_sizes ts = Inr sizes" using widths_plain(2) [OF ts] by blast
  obtain cols where c: "AllocateColumns ar (nat (cap div row_width ts)) ts = Inr cols" "length cols = length ts"
    "\<forall>i < length ts. column_ok 0 (ts ! i) (cols ! i)" using AllocateColumns_ok [OF ar ts n(1)] by blast
  have rw: "sum_list (map fixed_width ts) + ESTIMATED_STR_LEN * int (length (filter (\<lambda>t. t = StringType) ts)) = row_width ts"
    by (simp add: row_width_def ESTIMATED_STR_LEN_def)
  show ?thesis
    using widths_plain(1) [OF ts] s c w n(2) ar
    by (simp add: Block_new_def Let_def rw d block_ok_def num_cols_def valid_ok_def rows_def arrow_ok_def)
qed

section \<open>Updating a value\<close>

lemma cell_update_number:
  assumes st: "store (int r * int w) v (bytes (buffer1 col)) = Inr bs" and v: "length v = w"
  defines "col' \<equiv> col\<lparr>buffer1 := (buffer1 col)\<lparr>bytes := bs\<rparr>\<rparr>"
  shows "cell (NumberType w) q col' = (if q = r then Inr v else cell (NumberType w) q col)"
proof (cases "q = r")
  case True
  then show ?thesis using load_store [OF st] v by (simp add: cell_def col'_def)
next
  case False
  have "int q * int w + int w \<le> int r * int w \<or> int r * int w + int w \<le> int q * int w"
  proof (cases "q < r")
    case True
    then have "(q + 1) * w \<le> r * w" by (intro mult_right_mono) auto
    then have "int ((q + 1) * w) \<le> int (r * w)" by (simp only: of_nat_le_iff)
    then show ?thesis by (simp add: algebra_simps)
  next
    case False
    then have "(r + 1) * w \<le> q * w" using \<open>q \<noteq> r\<close> by (intro mult_right_mono) auto
    then have "int ((r + 1) * w) \<le> int (q * w)" by (simp only: of_nat_le_iff)
    then show ?thesis by (simp add: algebra_simps)
  qed
  then show ?thesis using load_store_other [OF st] False v by (simp add: cell_def col'_def)
qed

lemma UpdateColumnValue_ok:
  assumes ok: "block_ok blk" and i: "i < num_cols blk" "schema blk ! i = NumberType w"
    and row: "0 \<le> row" "row < num_rows blk"
    and pos: "0 \<le> pos" "pos + max bw 0 \<le> int (length record)" and bw: "bw \<le> int w"
  shows "\<exists>record' blk'. UpdateColumnValue w i row pos bw record blk = Inr (record', blk')
    \<and> block_ok blk' \<and> schema blk' = schema blk \<and> num_rows blk' = num_rows blk \<and> length record' = length record
    \<and> block_id blk' = block_id blk \<and> capacity blk' = capacity blk \<and> num_bytes blk' = num_bytes blk \<and> valid blk' = valid blk
    \<and> rows blk' = (rows blk)[nat row := (rows blk ! nat row)[i :=
          Inr (value_bytes w bw (take (nat bw) (drop (nat pos) record)))]]"
proof -
  let ?col = "columns blk ! i" and ?v = "value_bytes w bw (take (nat bw) (drop (nat pos) record))"
  define n r where "n = nat (num_rows blk)" and "r = nat row"
  have n: "num_rows blk = int n" "row = int r" "r < n" using ok row by (auto simp: n_def r_def block_ok_def)
  have c: "column_ok n (NumberType w) ?col" using ok i n(1) by (auto simp: block_ok_def)
  have len: "length (columns blk) = num_cols blk" using ok by (simp add: block_ok_def)
  have w: "0 < w" using c by simp
  obtain record' where fv: "field_value w bw pos record = Inr (?v, record')" "length record' = length record"
    using field_value_ok [OF pos bw w] by blast
  have v: "length ?v = w" using pos bw w by (intro value_bytes_length) auto
  have "(r + 1) * w \<le> n * w" using n(3) by (intro mult_right_mono) auto
  then have "r * w + w \<le> length (bytes (buffer1 ?col))" using c by simp
  then have "int (r * w + w) \<le> int (length (bytes (buffer1 ?col)))" by (simp only: of_nat_le_iff)
  then obtain bs where bs: "store (int r * int w) ?v (bytes (buffer1 ?col)) = Inr bs"
    using store_ok [of "int r * int w" ?v "bytes (buffer1 ?col)"] v by auto
  let ?col' = "?col\<lparr>buffer1 := (buffer1 ?col)\<lparr>bytes := bs\<rparr>\<rparr>"
  let ?blk = "blk\<lparr>columns := (columns blk)[i := ?col']\<rparr>"
  have eq: "UpdateColumnValue w i row pos bw record blk = Inr (record', ?blk)"
    using fv(1) bs n(2) by (simp add: UpdateColumnValue_def Let_def)
  have c': "column_ok n (NumberType w) ?col'" using c store_length [OF bs] by simp
  have nc: "num_cols ?blk = num_cols blk" by (simp add: num_cols_def)
  have "block_ok ?blk" using ok i c' n(1) len by (auto simp: block_ok_def nc nth_list_update)
  moreover have "rows ?blk = (rows blk)[r := (rows blk ! r)[i := Inr ?v]]"
  proof (rule nth_equalityI)
    show "length (rows ?blk) = length ((rows blk)[r := (rows blk ! r)[i := Inr ?v]])" by (simp add: rows_def)
    fix q assume "q < length (rows ?blk)"
    then have q: "q < n" by (simp add: rows_def n(1))
    show "rows ?blk ! q = (rows blk)[r := (rows blk ! r)[i := Inr ?v]] ! q"
      using q n(1,3) i len cell_update_number [OF bs v, of q]
      by (intro nth_equalityI) (auto simp: rows_def nc nth_list_update)
  qed
  ultimately show ?thesis using eq fv(2) by (intro exI [of _ "record'"] exI [of _ ?blk]) (simp add: r_def)
qed

section \<open>An allocator\<close>

text \<open>Arrow's default memory pool: capacities are multiples of 64 and buffers never shrink here.\<close>

definition round64 :: "nat \<Rightarrow> nat" where "round64 n = 64 * ((n + 63) div 64)"

definition arrow64 :: arrow where
  "arrow64 = \<lparr>allocate = (\<lambda>n. \<lparr>bsize = n, bytes = replicate (round64 n) 0\<rparr>),
     resize = (\<lambda>n shrink b. \<lparr>bsize = n, bytes = bytes b @ replicate (round64 n - length (bytes b)) 0\<rparr>),
     zero_padding = (\<lambda>b. b\<lparr>bytes := take (bsize b) (bytes b) @ replicate (length (bytes b) - bsize b) 0\<rparr>)\<rparr>"

lemma round64_ge: "n \<le> round64 n" unfolding round64_def by presburger

lemma arrow64_ok: "arrow_ok arrow64"
proof -
  have "n \<le> length bs + (round64 n - length bs)" for n and bs :: "u8 list" using round64_ge [of n] by linarith
  moreover have "min (length bs) m + (length bs - m) = length bs" for m and bs :: "u8 list" by linarith
  ultimately show ?thesis using round64_ge by (simp add: arrow_ok_def arrow64_def min_def)
qed

lemma string_first: "column_ok n StringType col \<Longrightarrow> get_i32 0 (bytes (buffer1 col)) = Inr 0"
  by (fastforce simp: offsets_ok_def)

lemma InsertRecord_full_block:
  assumes "record_ok blk record widths" "get_bytes_left blk < sum_list widths"
  shows "InsertRecord ar record widths blk = Inr (- 1, record, blk)"
  using assms by (simp add: InsertRecord_def record_ok_def)

section \<open>Properties\<close>

lemma sample_block:
  "\<exists>blk. Block_new arrow64 0 [NumberType 8, StringType] 76 False = Inr blk \<and> block_ok blk \<and> rows blk = []
    \<and> schema blk = [NumberType 8, StringType] \<and> capacity blk = 76 \<and> num_bytes blk = 0 \<and> num_rows blk = 0
    \<and> record_ok blk [1, 2, 3, 65, 66] [3, 2]"
proof -
  obtain blk where b: "Block_new arrow64 0 [NumberType 8, StringType] 76 False = Inr blk" "block_ok blk" "rows blk = []"
    "schema blk = [NumberType 8, StringType]" "capacity blk = 76" "num_bytes blk = 0" "num_rows blk = 0"
    using Block_new_ok [OF arrow64_ok, of "[NumberType 8, StringType]" 76 0 False] by (auto simp: row_width_def)
  have "column_ok 0 StringType (columns blk ! 1)" using b(2,4,7) by (auto simp: block_ok_def num_cols_def)
  then have "get_i32 0 (bytes (buffer1 (columns blk ! 1))) = Inr 0" by (rule string_first)
  then have "record_ok blk [1, 2, 3, 65, 66] [3, 2]" using b(4,7) by (auto simp: record_ok_def num_cols_def less_Suc_eq)
  then show ?thesis using b by blast
qed

lemma sample_row:
  "\<exists>blk. block_ok blk \<and> rows blk = [[Inr [3, 2, 1, 0, 0, 0, 0, 0], Inr [65, 66]]]
    \<and> schema blk = [NumberType 8, StringType] \<and> num_rows blk = 1 \<and> get_valid 0 blk = Inr True"
proof -
  obtain blk where b: "block_ok blk" "rows blk = []" "schema blk = [NumberType 8, StringType]" "capacity blk = 76"
    "num_bytes blk = 0" "num_rows blk = 0" "record_ok blk [1, 2, 3, 65, 66] [3, 2]" using sample_block by blast
  from InsertRecord_ok [OF arrow64_ok b(1,7)] b(2-6) show ?thesis
    by (auto simp: get_bytes_left_def value_bytes_def numeral_eq_Suc)
qed

text \<open>C26: a block made for a schema of numbers and strings whose rows fit its capacity satisfies the invariant and has no row.\<close>

theorem Block_new_empty:
  assumes "arrow_ok ar" "list_all plain ts" "0 < row_width ts" "row_width ts \<le> cap"
  shows "\<exists>blk. Block_new ar bid ts cap md = Inr blk \<and> block_ok blk \<and> rows blk = [] \<and> schema blk = ts
    \<and> get_bytes_left blk = cap"
  using Block_new_ok [OF assms, of bid md] by (auto simp: get_bytes_left_def)

theorem Block_new_empty_witness:
  "\<exists>blk. Block_new arrow64 7 [NumberType 4, StringType] 68 False = Inr blk \<and> block_ok blk \<and> rows blk = []
    \<and> schema blk = [NumberType 4, StringType] \<and> get_bytes_left blk = 68"
  using Block_new_empty [OF arrow64_ok, of "[NumberType 4, StringType]" 68] by (simp add: row_width_def)

text \<open>Inserting a record into a well-formed block either finds no room, returns \<open>-1\<close> and leaves
  the block alone, or appends exactly the encoded record as a valid row, under the number of rows
  before, and keeps the invariant and the other rows and their valid bits.
\<close>

theorem InsertRecord_appends:
  assumes "arrow_ok ar" "block_ok blk" "record_ok blk record widths" "num_rows blk < 2 ^ 31 - 1"
  shows "if get_bytes_left blk < sum_list widths then InsertRecord ar record widths blk = Inr (- 1, record, blk)
    else \<exists>record' blk'. InsertRecord ar record widths blk = Inr (num_rows blk, record', blk')
      \<and> block_ok blk' \<and> schema blk' = schema blk \<and> block_id blk' = block_id blk
      \<and> rows blk' = rows blk @ [map Inr (encode_row (schema blk) widths record)]
      \<and> get_valid (num_rows blk) blk' = Inr True
      \<and> (\<forall>q < nat (num_rows blk). get_valid (int q) blk' = get_valid (int q) blk)"
  using InsertRecord_ok [OF assms(1-3) _ assms(4)] InsertRecord_full_block [OF assms(3)] by fastforce

theorem InsertRecord_appends_witness:
  "\<exists>blk record' blk'. Block_new arrow64 0 [NumberType 8, StringType] 76 False = Inr blk
    \<and> InsertRecord arrow64 [1, 2, 3, 65, 66] [3, 2] blk = Inr (0, record', blk')
    \<and> rows blk' = [[Inr [3, 2, 1, 0, 0, 0, 0, 0], Inr [65, 66]]] \<and> get_valid 0 blk' = Inr True"
proof -
  obtain blk where b: "Block_new arrow64 0 [NumberType 8, StringType] 76 False = Inr blk" "block_ok blk" "rows blk = []"
    "schema blk = [NumberType 8, StringType]" "capacity blk = 76" "num_bytes blk = 0" "num_rows blk = 0"
    "record_ok blk [1, 2, 3, 65, 66] [3, 2]" using sample_block by blast
  from InsertRecord_appends [OF arrow64_ok b(2,8)] b(3-7) show ?thesis
    using b(1) by (auto simp: get_bytes_left_def value_bytes_def numeral_eq_Suc)
qed

text \<open>A number is updated in place: only its own cell changes, to the new value.\<close>

theorem UpdateColumnValue_cell:
  assumes "block_ok blk" "i < num_cols blk" "schema blk ! i = NumberType w" "0 \<le> row" "row < num_rows blk"
    "0 \<le> pos" "pos + max bw 0 \<le> int (length record)" "bw \<le> int w"
  shows "\<exists>record' blk'. UpdateColumnValue w i row pos bw record blk = Inr (record', blk') \<and> block_ok blk'
    \<and> valid blk' = valid blk
    \<and> rows blk' = (rows blk)[nat row := (rows blk ! nat row)[i :=
          Inr (value_bytes w bw (take (nat bw) (drop (nat pos) record)))]]"
  using UpdateColumnValue_ok [OF assms] by blast

theorem UpdateColumnValue_cell_witness:
  "\<exists>blk record' blk'. rows blk = [[Inr [3, 2, 1, 0, 0, 0, 0, 0], Inr [65, 66]]]
    \<and> UpdateColumnValue 8 0 0 0 2 [4, 5] blk = Inr (record', blk')
    \<and> rows blk' = [[Inr [5, 4, 0, 0, 0, 0, 0, 0], Inr [65, 66]]]"
proof -
  obtain blk where b: "block_ok blk" "rows blk = [[Inr [3, 2, 1, 0, 0, 0, 0, 0], Inr [65, 66]]]"
    "schema blk = [NumberType 8, StringType]" "num_rows blk = 1" using sample_row by blast
  from UpdateColumnValue_cell [OF b(1), of 0 8 0 0 2 "[4, 5]"] b(2-4) show ?thesis
    by (auto simp: num_cols_def value_bytes_def numeral_eq_Suc)
qed

end
