(* ===== verification/BlockCopy.thy ===== *)
theory BlockCopy
  imports Block
begin

text \<open>
  Copying the rows of one block into another (\<open>Block::InsertRecords\<close>), which is how a
  deletion compacts a block. The operations are those of \<open>Block\<close>.
\<close>

unbundle bit_operations_syntax

section \<open>Copying the rows of a block\<close>

text \<open>
  A column that is filled by \<open>InsertRecords\<close>: here the buffers are grown by their capacity, and
  only numbers of eight bytes are copied as they are.
\<close>

fun filled :: "nat \<Rightarrow> arrow_type \<Rightarrow> array_data \<Rightarrow> int \<Rightarrow> bool" where
  "filled n (NumberType w) col c \<longleftrightarrow> w = 8 \<and> c = 8 * int n \<and> 8 * n \<le> length (bytes (buffer1 col))"
| "filled n StringType col c \<longleftrightarrow> 4 * (n + 1) \<le> length (bytes (buffer1 col))
     \<and> (\<exists>os. length os = n + 1 \<and> sorted os \<and> os ! 0 = 0
          \<and> (\<forall>k \<le> n. get_i32 (int k) (bytes (buffer1 col)) = Inr (os ! k))
          \<and> os ! n \<le> int (length (bytes (buffer2 col))) \<and> c = os ! n)"
| "filled n _ col c \<longleftrightarrow> False"

text \<open>The bytes copied so far come from rows before \<open>r\<close> of the source.\<close>

definition behind :: "arrow_type \<Rightarrow> nat \<Rightarrow> array_data \<Rightarrow> int \<Rightarrow> bool" where
  "behind t r src c \<longleftrightarrow> (t = StringType \<longrightarrow> (\<forall>a. get_i32 (int r) (bytes (buffer1 src)) = Inr a \<longrightarrow> c \<le> a))"

definition copied :: "nat \<Rightarrow> arrow_type \<Rightarrow> array_data \<Rightarrow> array_data \<Rightarrow> u8 list res \<Rightarrow> bool" where
  "copied n t col col' v \<longleftrightarrow> cell t n col' = v \<and> (\<forall>q < n. cell t q col' = cell t q col)"

lemma InsertValues_ok:
  assumes ar: "arrow_ok ar" and ok: "filled n (NumberType w) (columns blk ! i) (column_sizes blk ! i)"
    and nr: "num_rows blk = int n" and src: "column_ok N (NumberType w) src" "r < N"
  shows "\<exists>col'. InsertValues ar i (int r) (Slice x y src) 1 blk = Inr (bump i col' 8 blk)
    \<and> filled (n + 1) (NumberType w) col' (column_sizes blk ! i + 8)
    \<and> copied n (NumberType w) (columns blk ! i) col' (cell (NumberType w) r src)"
proof -
  let ?col = "columns blk ! i" and ?c = "column_sizes blk ! i"
  have w: "w = 8" "?c = 8 * int n" "8 * n \<le> length (bytes (buffer1 ?col))" using ok by auto
  define buf where "buf = (if ?c + 8 > bcapacity (buffer1 ?col)
      then resize ar (nat (bcapacity (buffer1 ?col) + 8)) False (buffer1 ?col) else buffer1 ?col)"
  have ext: "extends (bytes (buffer1 ?col)) (bytes buf)" and cap: "8 * (n + 1) \<le> length (bytes buf)"
    using arrow_resize [OF ar, where n = "nat (bcapacity (buffer1 ?col) + 8)" and b = "buffer1 ?col"] w
    by (auto simp: buf_def extends_def bcapacity_def split: if_splits)
  have "8 * r + 8 \<le> length (bytes (buffer1 src))" using src w by auto
  then obtain v where v: "load (int r * 8) 8 (bytes (buffer1 src)) = Inr v" "length v = 8" by (auto simp: load_def)
  obtain bs where bs: "store (int n * 8) v (bytes buf) = Inr bs"
    using store_ok [of "int n * 8" v "bytes buf"] cap v by auto
  let ?col' = "?col\<lparr>buffer1 := buf\<lparr>bytes := bs\<rparr>, alen := alen ?col + 1\<rparr>"
  have "InsertValues ar i (int r) (Slice x y src) 1 blk = Inr (bump i ?col' 8 blk)"
    using v(1) bs nr by (simp add: InsertValues_def Slice_def Let_def buf_def [symmetric])
  moreover have "filled (n + 1) (NumberType w) ?col' (?c + 8)" using w cap store_length [OF bs] by simp
  moreover have "cell (NumberType w) n ?col' = cell (NumberType w) r src"
    using load_store [OF bs] v w(1) by (simp add: cell_def)
  moreover have "cell (NumberType w) q ?col' = cell (NumberType w) q ?col" if q: "q < n" for q
  proof -
    have "int q * 8 + 8 \<le> int (length (bytes (buffer1 ?col)))" using q w(3) by simp
    then obtain y where y: "load (int q * 8) 8 (bytes (buffer1 ?col)) = Inr y" by (simp add: load_def)
    have "load (int q * 8) 8 bs = load (int q * 8) 8 (bytes buf)" using load_store_other [OF bs] q by simp
    then show ?thesis using extends_load [OF ext y] y w(1) by (simp add: cell_def)
  qed
  ultimately show ?thesis unfolding copied_def by blast
qed

lemma get_i32_less: "get_i32 k bs = Inr x \<Longrightarrow> x < 2 ^ 31"
  using sint_lt [where 'a = 32] by (auto simp: get_i32_def and_then_Inr)

lemma put_i32_ok: "0 \<le> k \<Longrightarrow> 4 * (k + 1) \<le> int (length bs) \<Longrightarrow> \<exists>bs'. put_i32 k x bs = Inr bs'"
  unfolding put_i32_def by (rule store_ok) auto

text \<open>The offsets one copied string adds.\<close>

lemma copy_one_offset:
  assumes get: "get_i32 (int r) src = Inr a" "get_i32 (int r + 1) src = Inr b" "r = 0 \<Longrightarrow> a = 0"
    and dst: "get_i32 (int n) dst = Inr c" "4 * (n + 2) \<le> length dst" and le: "0 \<le> c" "c \<le> a" "a \<le> b"
  shows "\<exists>obs. (if int r = 0 then copy_offsets (nat (1 + 1)) (int n) 0 c src dst
      else copy_offsets (nat 1) (int n + 1) (int r + 1) (c - a) src dst) = Inr obs
    \<and> length obs = length dst \<and> get_i32 (int n + 1) obs = Inr (c + (b - a))
    \<and> (\<forall>k \<le> n. get_i32 (int k) obs = get_i32 (int k) dst)"
proof -
  have b: "b < 2 ^ 31" using get(2) by (rule get_i32_less)
  then have rng: "c + (b - a) < 2 ^ 31" "0 \<le> c + (b - a)" "c < 2 ^ 31" using le by linarith+
  show ?thesis
  proof (cases "r = 0")
    case False
    obtain obs where obs: "put_i32 (int n + 1) (b + (c - a)) dst = Inr obs"
      using put_i32_ok [of "int n + 1" dst] dst(2) by auto
    moreover have "get_i32 (int n + 1) obs = Inr (c + (b - a))" using get_put_i32 [OF obs] rng by (simp add: algebra_simps)
    moreover have "\<forall>k \<le> n. get_i32 (int k) obs = get_i32 (int k) dst" using get_put_i32_other [OF obs] by simp
    moreover have "length obs = length dst" using store_length [OF obs [unfolded put_i32_def]] .
    ultimately show ?thesis using False get(2) by simp
  next
    case True
    then have a: "a = 0" "c = 0 \<or> c \<le> 0" using get(3) le by auto
    obtain o1 where o1: "put_i32 (int n) (a + c) dst = Inr o1" using put_i32_ok [of "int n" dst] dst(2) by auto
    have l1: "length o1 = length dst" using store_length [OF o1 [unfolded put_i32_def]] .
    obtain obs where obs: "put_i32 (int n + 1) (b + c) o1 = Inr obs"
      using put_i32_ok [of "int n + 1" o1] dst(2) l1 by auto
    have "get_i32 (int k) obs = get_i32 (int k) dst" if "k \<le> n" for k
    proof (cases "k = n")
      case True
      then show ?thesis using get_put_i32_other [OF obs, of "int n"] get_put_i32 [OF o1] a le rng dst(1) by simp
    next
      case False
      then show ?thesis using get_put_i32_other [OF obs, of "int k"] get_put_i32_other [OF o1, of "int k"] that by simp
    qed
    moreover have "get_i32 (int n + 1) obs = Inr (c + (b - a))" using get_put_i32 [OF obs] rng a by (simp add: algebra_simps)
    moreover have "length obs = length dst" using store_length [OF obs [unfolded put_i32_def]] l1 by simp
    ultimately show ?thesis using True get o1 obs by (simp add: numeral_2_eq_2)
  qed
qed

lemma Slice_buffers: "buffer1 (Slice x y a) = buffer1 a" "buffer2 (Slice x y a) = buffer2 a"
  by (simp_all add: Slice_def)

lemma InsertStrings_ok:
  assumes ar: "arrow_ok ar" and ok: "filled n StringType (columns blk ! i) (column_sizes blk ! i)"
    and nr: "num_rows blk = int n" and src: "column_ok N StringType src" "r < N"
    and be: "behind StringType r src (column_sizes blk ! i)"
  shows "\<exists>col' m. InsertStrings ar i (int r) (Slice x y src) 1 blk = Inr (bump i col' m blk)
    \<and> filled (n + 1) StringType col' (column_sizes blk ! i + m)
    \<and> copied n StringType (columns blk ! i) col' (cell StringType r src)
    \<and> behind StringType (r + 1) src (column_sizes blk ! i + m)"
proof -
  let ?col = "columns blk ! i" and ?c = "column_sizes blk ! i" and ?src = "bytes (buffer1 src)"
  obtain ss where ss: "offsets_ok N src ss" using src(1) by auto
  define a b where "a = ss ! r" and "b = ss ! (r + 1)"
  have ab: "get_i32 (int r) ?src = Inr a" "get_i32 (int r + 1) ?src = Inr b" "a \<le> b" "0 \<le> a" "r = 0 \<Longrightarrow> a = 0"
    "b \<le> int (bsize (buffer2 src))"
  proof -
    have s: "length ss = N + 1" "sorted ss" "ss ! 0 = 0" "ss ! N \<le> int (bsize (buffer2 src))"
      "\<And>k. k \<le> N \<Longrightarrow> get_i32 (int k) ?src = Inr (ss ! k)" using ss by (auto simp: offsets_ok_def)
    show "get_i32 (int r) ?src = Inr a" "get_i32 (int r + 1) ?src = Inr b"
      using s(5) [of r] s(5) [of "r + 1"] src(2) by (auto simp: a_def b_def add.commute)
    show "a \<le> b" "0 \<le> a" "b \<le> int (bsize (buffer2 src))"
      using s(1-4) src(2) sorted_nth_mono [of ss r "r + 1"] sorted_nth_mono [of ss 0 r] sorted_nth_mono [of ss "r + 1" N]
      by (auto simp: a_def b_def)
    show "r = 0 \<Longrightarrow> a = 0" using s(3) by (simp add: a_def)
  qed
  obtain os where os: "length os = n + 1" "sorted os" "os ! 0 = 0" "os ! n \<le> int (length (bytes (buffer2 ?col)))" "?c = os ! n"
    "\<And>k. k \<le> n \<Longrightarrow> get_i32 (int k) (bytes (buffer1 ?col)) = Inr (os ! k)" using ok by auto
  have c0: "0 \<le> ?c" using os(1-3,5) sorted_nth_mono [of os 0 n] by simp
  have ca: "?c \<le> a" using be ab(1) by (simp add: behind_def)
  define offs where "offs = (if (num_rows blk + 1 + 2) * 8 > bcapacity (buffer1 ?col)
      then resize ar (nat (bcapacity (buffer1 ?col) + 4 * (1 + 1))) False (buffer1 ?col) else buffer1 ?col)"
  have oext: "extends (bytes (buffer1 ?col)) (bytes offs)" and ocap: "4 * (n + 2) \<le> length (bytes offs)"
    using arrow_resize [OF ar, where n = "nat (bcapacity (buffer1 ?col) + 4 * (1 + 1))" and b = "buffer1 ?col"] ok nr
    by (auto simp: offs_def extends_def bcapacity_def split: if_splits)
  have og: "get_i32 (int k) (bytes offs) = Inr (os ! k)" if "k \<le> n" for k using extends_get [OF oext os(6) [OF that]] .
  define dbuf where "dbuf = (if ?c + (b - a) > bcapacity (buffer2 ?col)
      then resize ar (nat (?c + (b - a))) False (buffer2 ?col) else buffer2 ?col)"
  have dext: "extends (bytes (buffer2 ?col)) (bytes dbuf)" and dcap: "?c + (b - a) \<le> int (length (bytes dbuf))"
    using arrow_resize [OF ar, where n = "nat (?c + (b - a))" and b = "buffer2 ?col"] c0 ca ab(3)
    by (auto simp: dbuf_def extends_def bcapacity_def split: if_splits)
  obtain obs where obs: "(if int r = 0 then copy_offsets (nat (1 + 1)) (int n) 0 ?c ?src (bytes offs)
      else copy_offsets (nat 1) (int n + 1) (int r + 1) (?c - a) ?src (bytes offs)) = Inr obs"
    "length obs = length (bytes offs)" "get_i32 (int n + 1) obs = Inr (?c + (b - a))"
    "\<forall>k \<le> n. get_i32 (int k) obs = get_i32 (int k) (bytes offs)"
    using copy_one_offset [OF ab(1,2,5) og [of n, unfolded os(5) [symmetric]] ocap c0 ca ab(3)] by auto
  have gk: "get_i32 (int k) obs = Inr (os ! k)" if "k \<le> n" for k using obs(4) og that by simp
  have "bsize (buffer2 src) \<le> length (bytes (buffer2 src))" using src(1) by simp
  then obtain v where v: "load a (b - a) (bytes (buffer2 src)) = Inr v" "int (length v) = b - a"
    using ab(3,4,6) by (auto simp: load_def)
  obtain dbs where dbs: "store ?c v (bytes dbuf) = Inr dbs"
    using store_ok [of ?c v "bytes dbuf"] c0 dcap v(2) by auto
  define col' where "col' = ?col\<lparr>buffer1 := offs\<lparr>bytes := obs\<rparr>, buffer2 := dbuf\<lparr>bytes := dbs\<rparr>, alen := alen ?col + 1\<rparr>"
  have "InsertStrings ar i (int r) (Slice x y src) 1 blk = Inr (bump i col' (b - a) blk)"
    apply (simp only: InsertStrings_def Let_def Slice_buffers offs_def [symmetric] ab(1,2) and_then.simps dbuf_def [symmetric])
    using og [of n] obs(1) gk [of n] os(5) v(1) dbs nr
    apply (simp add: col'_def cong: if_cong)
    done
  moreover have "filled (n + 1) StringType col' (?c + (b - a))"
  proof -
    have "y \<le> os ! n" if "y \<in> set os" for y using that os(1,2) by (auto simp: in_set_conv_nth sorted_iff_nth_mono)
    then have "sorted (os @ [?c + (b - a)])" using os(2,5) ab(3) by (force simp: sorted_append)
    moreover have "get_i32 (int k) obs = Inr ((os @ [?c + (b - a)]) ! k)" if "k \<le> n + 1" for k
      using that gk obs(3) os(1) by (cases "k = n + 1") (auto simp: nth_append add.commute)
    moreover have "length dbs = length (bytes dbuf)" using store_length [OF dbs] .
    ultimately show ?thesis using os(1,3) obs(2) ocap dcap
      by (auto simp: col'_def nth_append intro!: exI [of _ "os @ [?c + (b - a)]"])
  qed
  moreover have "cell StringType n col' = cell StringType r src"
    using gk [of n] obs(3) load_store [OF dbs] v ab(1,2) os(5) by (simp add: cell_def col'_def add.commute)
  moreover have "cell StringType q col' = cell StringType q ?col" if q: "q < n" for q
  proof -
    have le: "os ! q \<le> os ! (q + 1)" "os ! (q + 1) \<le> os ! n" "0 \<le> os ! q"
      using os(1-3) q sorted_nth_mono [of os q "q + 1"] sorted_nth_mono [of os "q + 1" n] sorted_nth_mono [of os 0 q] by auto
    then obtain y where y: "load (os ! q) (os ! (q + 1) - os ! q) (bytes (buffer2 ?col)) = Inr y"
      using os(4) by (simp add: load_def)
    have "load (os ! q) (os ! (q + 1) - os ! q) dbs = load (os ! q) (os ! (q + 1) - os ! q) (bytes dbuf)"
      using load_store_other [OF dbs] le os(5) by simp
    then have "load (os ! q) (os ! (q + 1) - os ! q) dbs = Inr y" using extends_load [OF dext y] by simp
    then show ?thesis using y gk [of q] gk [of "q + 1"] os(6) [of q] os(6) [of "q + 1"] q
      by (simp add: cell_def col'_def add.commute)
  qed
  moreover have "behind StringType (r + 1) src (?c + (b - a))" using ab(2) ca by (simp add: behind_def add.commute)
  ultimately show ?thesis unfolding copied_def by blast
qed

definition fill_ok :: "nat \<Rightarrow> block \<Rightarrow> bool" where
  "fill_ok n blk \<longleftrightarrow> num_rows blk = int n \<and> length (columns blk) = num_cols blk
     \<and> length (column_sizes blk) = num_cols blk \<and> valid_ok n (valid blk)
     \<and> (\<forall>i < num_cols blk. filled n (schema blk ! i) (columns blk ! i) (column_sizes blk ! i))"

text \<open>The columns \<open>cs\<close> of a source with \<open>N\<close> rows, of which the rows before \<open>r\<close> were looked at.\<close>

definition source_ok :: "nat \<Rightarrow> array_data list \<Rightarrow> nat \<Rightarrow> block \<Rightarrow> bool" where
  "source_ok N cs r blk \<longleftrightarrow> length cs = num_cols blk
     \<and> (\<forall>i < num_cols blk. column_ok N (schema blk ! i) (cs ! i)
          \<and> behind (schema blk ! i) r (cs ! i) (column_sizes blk ! i))"

definition insert_column :: "arrow \<Rightarrow> int \<Rightarrow> int \<Rightarrow> array_data \<Rightarrow> nat \<Rightarrow> block \<Rightarrow> block res" where
  "insert_column ar offset n vals i blk = (case schema blk ! i of
        NumberType w \<Rightarrow> InsertValues ar i offset vals n blk
      | CType w \<Rightarrow> InsertValues ar i offset vals n blk
      | StringType \<Rightarrow> InsertStrings ar i offset vals n blk
      | FixedSizeBinaryType w \<Rightarrow> InsertFixed ar w i offset vals n blk
      | OtherType \<Rightarrow> Inl LogicError)"

lemma insert_columns_Cons:
  "insert_columns ar offset n cd (i # is) blk
    = and_then (fetch cd i) (\<lambda>vals. and_then (insert_column ar offset n vals i blk) (insert_columns ar offset n cd is))"
  by (simp add: insert_column_def)

lemma insert_column_ok:
  assumes "arrow_ok ar" "filled n (schema blk ! i) (columns blk ! i) (column_sizes blk ! i)" "num_rows blk = int n"
    "column_ok N (schema blk ! i) src" "r < N" "behind (schema blk ! i) r src (column_sizes blk ! i)"
  shows "\<exists>col' m. insert_column ar (int r) 1 (Slice x y src) i blk = Inr (bump i col' m blk)
    \<and> filled (n + 1) (schema blk ! i) col' (column_sizes blk ! i + m)
    \<and> copied n (schema blk ! i) (columns blk ! i) col' (cell (schema blk ! i) r src)
    \<and> behind (schema blk ! i) (r + 1) src (column_sizes blk ! i + m)"
proof (cases "schema blk ! i")
  case (NumberType w)
  then show ?thesis
    using InsertValues_ok [of ar n w blk i N src r x y] assms by (auto simp: insert_column_def behind_def)
next
  case StringType
  then show ?thesis
    using InsertStrings_ok [of ar n blk i N src r x y] assms by (auto simp: insert_column_def)
qed (use assms in auto)

lemma bump_size: "i < length (column_sizes blk) \<Longrightarrow>
    column_sizes (bump i c m blk) ! j = (if j = i then column_sizes blk ! i + m else column_sizes blk ! j)"
  by (simp add: bump_def)

lemma insert_columns_ok:
  assumes ar: "arrow_ok ar" and "k \<le> m" "m = length (schema blk)" "length cs = m"
    and "length (columns blk) = m" "length (column_sizes blk) = m" "num_rows blk = int n" "r < N"
    and "\<And>j. k \<le> j \<Longrightarrow> j < m \<Longrightarrow> filled n (schema blk ! j) (columns blk ! j) (column_sizes blk ! j)
        \<and> column_ok N (schema blk ! j) (cs ! j) \<and> behind (schema blk ! j) r (cs ! j) (column_sizes blk ! j)"
  shows "\<exists>blk'. insert_columns ar (int r) 1 (map (Slice x y) cs) [k..<m] blk = Inr blk'
    \<and> schema blk' = schema blk \<and> num_rows blk' = num_rows blk \<and> valid blk' = valid blk
    \<and> length (columns blk') = m \<and> length (column_sizes blk') = m
    \<and> (\<forall>j < k. columns blk' ! j = columns blk ! j \<and> column_sizes blk' ! j = column_sizes blk ! j)
    \<and> (\<forall>j. k \<le> j \<and> j < m \<longrightarrow> filled (n + 1) (schema blk ! j) (columns blk' ! j) (column_sizes blk' ! j)
          \<and> copied n (schema blk ! j) (columns blk ! j) (columns blk' ! j) (cell (schema blk ! j) r (cs ! j))
          \<and> behind (schema blk ! j) (r + 1) (cs ! j) (column_sizes blk' ! j))"
  using assms(2-)
proof (induction "m - k" arbitrary: k blk)
  case 0
  then have "k = m" by simp
  then show ?case using 0 by auto
next
  case (Suc d)
  then have k: "k < m" by simp
  have p: "filled n (schema blk ! k) (columns blk ! k) (column_sizes blk ! k)" "column_ok N (schema blk ! k) (cs ! k)"
    "behind (schema blk ! k) r (cs ! k) (column_sizes blk ! k)" using Suc.prems(8) [of k] k by auto
  obtain col1 m1 where c: "insert_column ar (int r) 1 (Slice x y (cs ! k)) k blk = Inr (bump k col1 m1 blk)"
    "filled (n + 1) (schema blk ! k) col1 (column_sizes blk ! k + m1)"
    "copied n (schema blk ! k) (columns blk ! k) col1 (cell (schema blk ! k) r (cs ! k))"
    "behind (schema blk ! k) (r + 1) (cs ! k) (column_sizes blk ! k + m1)"
    using insert_column_ok [OF ar p(1) Suc.prems(6) p(2) Suc.prems(7) p(3)] by blast
  let ?blk = "bump k col1 m1 blk"
  have sz: "column_sizes ?blk ! j = (if j = k then column_sizes blk ! k + m1 else column_sizes blk ! j)" for j
    using bump_size [of k blk] k Suc.prems(5) by simp
  have "\<exists>blk'. insert_columns ar (int r) 1 (map (Slice x y) cs) [k + 1..<m] ?blk = Inr blk'
    \<and> schema blk' = schema ?blk \<and> num_rows blk' = num_rows ?blk \<and> valid blk' = valid ?blk
    \<and> length (columns blk') = m \<and> length (column_sizes blk') = m
    \<and> (\<forall>j < k + 1. columns blk' ! j = columns ?blk ! j \<and> column_sizes blk' ! j = column_sizes ?blk ! j)
    \<and> (\<forall>j. k + 1 \<le> j \<and> j < m \<longrightarrow> filled (n + 1) (schema ?blk ! j) (columns blk' ! j) (column_sizes blk' ! j)
          \<and> copied n (schema ?blk ! j) (columns ?blk ! j) (columns blk' ! j) (cell (schema ?blk ! j) r (cs ! j))
          \<and> behind (schema ?blk ! j) (r + 1) (cs ! j) (column_sizes blk' ! j))"
  proof (rule Suc.hyps(1))
    show "d = m - (k + 1)" using Suc.hyps(2) by simp
    show "filled n (schema ?blk ! j) (columns ?blk ! j) (column_sizes ?blk ! j)
        \<and> column_ok N (schema ?blk ! j) (cs ! j) \<and> behind (schema ?blk ! j) r (cs ! j) (column_sizes ?blk ! j)"
      if "k + 1 \<le> j" "j < m" for j using that Suc.prems(8) [of j] sz [of j] by simp
  qed (use Suc.prems k in auto)
  then obtain blk' where r: "insert_columns ar (int r) 1 (map (Slice x y) cs) [k + 1..<m] ?blk = Inr blk'"
    "schema blk' = schema blk" "num_rows blk' = num_rows blk" "valid blk' = valid blk"
    "length (columns blk') = m" "length (column_sizes blk') = m"
    "\<forall>j < k + 1. columns blk' ! j = (columns blk)[k := col1] ! j \<and> column_sizes blk' ! j = column_sizes ?blk ! j"
    "\<forall>j. k + 1 \<le> j \<and> j < m \<longrightarrow> filled (n + 1) (schema blk ! j) (columns blk' ! j) (column_sizes blk' ! j)
          \<and> copied n (schema blk ! j) ((columns blk)[k := col1] ! j) (columns blk' ! j) (cell (schema blk ! j) r (cs ! j))
          \<and> behind (schema blk ! j) (r + 1) (cs ! j) (column_sizes blk' ! j)" by auto
  have f: "fetch (map (Slice x y) cs) k = Inr (Slice x y (cs ! k))" using k Suc.prems(3) by (simp add: fetch_def)
  have "insert_columns ar (int r) 1 (map (Slice x y) cs) [k..<m] blk = Inr blk'"
    unfolding upt_conv_Cons [OF k] insert_columns_Cons f using c(1) r(1) by simp
  moreover have "filled (n + 1) (schema blk ! j) (columns blk' ! j) (column_sizes blk' ! j)
          \<and> copied n (schema blk ! j) (columns blk ! j) (columns blk' ! j) (cell (schema blk ! j) r (cs ! j))
          \<and> behind (schema blk ! j) (r + 1) (cs ! j) (column_sizes blk' ! j)" if j: "k \<le> j" "j < m" for j
  proof (cases "j = k")
    case True
    have "columns blk' ! k = col1" "column_sizes blk' ! k = column_sizes blk ! k + m1"
      using r(7) k Suc.prems(4) sz [of k] by auto
    then show ?thesis using True c(2-4) by simp
  next
    case False
    then show ?thesis using r(8) j by simp
  qed
  moreover have "\<forall>j < k. columns blk' ! j = columns blk ! j \<and> column_sizes blk' ! j = column_sizes blk ! j"
    using r(7) sz by simp
  ultimately show ?case using r(2-6) by blast
qed

text \<open>One row of the source.\<close>

definition row_of :: "arrow_type list \<Rightarrow> array_data list \<Rightarrow> nat \<Rightarrow> u8 list res list" where
  "row_of ts cs r = map (\<lambda>i. cell (ts ! i) r (cs ! i)) [0..<length ts]"

lemma rows_row_of: "rows blk = map (row_of (schema blk) (columns blk)) [0..<nat (num_rows blk)]"
  by (simp add: rows_def row_of_def num_cols_def)

lemma grow_valid_padded:
  assumes ar: "arrow_ok ar" and v: "valid_ok n (valid blk)" and n: "num_rows blk = int n" "num_rows blk < 2 ^ 31"
  defines "buf \<equiv> zero_padding ar (resize ar (bsize (buffer1 (valid blk)) + 1) False (buffer1 (valid blk)))"
  shows "\<exists>v'. grow_valid 1 buf blk = Inr (blk\<lparr>valid := v'\<rparr>) \<and> valid_ok (n + 1) v'"
proof -
  let ?b = "buffer1 (valid blk)" and ?blk = "blk\<lparr>valid := (valid blk)\<lparr>buffer1 := buf\<rparr>\<rparr>"
  have b: "bsize buf = bsize ?b + 1" "bsize ?b + 1 \<le> length (bytes buf)" using ar by (auto simp: buf_def arrow_ok_def)
  have vo: "n \<le> 8 * bsize ?b" using v by (auto simp: valid_ok_def)
  have "n < (bsize ?b + 1) * 8" using vo by simp
  then have l: "n div 8 < length (bytes buf)" using b(2) less_mult_imp_div_less order_less_le_trans by blast
  have n32: "int n < 2 ^ 32" using n by simp
  obtain bs where bs: "set_valid (int n) True ?blk = Inr (?blk\<lparr>valid := (valid ?blk)\<lparr>buffer1 := (buffer1 (valid ?blk))\<lparr>bytes := bs\<rparr>\<rparr>\<rparr>)"
    "length bs = length (bytes buf)" using set_valid_ok [of n ?blk True] l n32 by auto
  show ?thesis
    using bs vo b n(1)
    by (intro exI [of _ "(valid blk)\<lparr>buffer1 := buf\<lparr>bytes := bs\<rparr>, alen := alen (valid blk) + 1\<rparr>"])
      (simp add: grow_valid_def valid_ok_def)
qed

lemma InsertRecords_row:
  assumes ar: "arrow_ok ar" and ok: "fill_ok n blk" and src: "source_ok N cs r blk" and r: "r < N"
    and nc: "0 < num_cols blk" and n: "int n < 2 ^ 31"
  shows "\<exists>x blk'. InsertRecords ar (map (Slice (int r) 1) cs) blk = Inr (x, blk') \<and> fill_ok (n + 1) blk'
    \<and> source_ok N cs (r + 1) blk' \<and> schema blk' = schema blk
    \<and> rows blk' = rows blk @ [row_of (schema blk) cs r]"
proof -
  have nr: "num_rows blk = int n" and vo: "valid_ok n (valid blk)" and len: "length cs = num_cols blk"
    using ok src by (auto simp: fill_ok_def source_ok_def)
  obtain v' where v': "grow_valid 1 (zero_padding ar (resize ar (bsize (buffer1 (valid blk)) + 1) False (buffer1 (valid blk)))) blk
      = Inr (blk\<lparr>valid := v'\<rparr>)" "valid_ok (n + 1) v'"
    using grow_valid_padded [OF ar vo nr] n nr by auto
  let ?blk = "blk\<lparr>valid := v'\<rparr>" and ?m = "num_cols blk"
  have "\<exists>blk'. insert_columns ar (int r) 1 (map (Slice (int r) 1) cs) [0..<?m] ?blk = Inr blk'
    \<and> schema blk' = schema ?blk \<and> num_rows blk' = num_rows ?blk \<and> valid blk' = valid ?blk
    \<and> length (columns blk') = ?m \<and> length (column_sizes blk') = ?m
    \<and> (\<forall>j < 0. columns blk' ! j = columns ?blk ! j \<and> column_sizes blk' ! j = column_sizes ?blk ! j)
    \<and> (\<forall>j. 0 \<le> j \<and> j < ?m \<longrightarrow> filled (n + 1) (schema ?blk ! j) (columns blk' ! j) (column_sizes blk' ! j)
          \<and> copied n (schema ?blk ! j) (columns ?blk ! j) (columns blk' ! j) (cell (schema ?blk ! j) r (cs ! j))
          \<and> behind (schema ?blk ! j) (r + 1) (cs ! j) (column_sizes blk' ! j))"
    using ok src r nr len
    by (intro insert_columns_ok [OF ar]) (auto simp: fill_ok_def source_ok_def num_cols_def)
  then obtain blk' where b: "insert_columns ar (int r) 1 (map (Slice (int r) 1) cs) [0..<?m] ?blk = Inr blk'"
    "schema blk' = schema blk" "num_rows blk' = int n" "valid blk' = v'" "length (columns blk') = ?m" "length (column_sizes blk') = ?m"
    "\<And>j. j < ?m \<Longrightarrow> filled (n + 1) (schema blk ! j) (columns blk' ! j) (column_sizes blk' ! j)
          \<and> copied n (schema blk ! j) (columns blk ! j) (columns blk' ! j) (cell (schema blk ! j) r (cs ! j))
          \<and> behind (schema blk ! j) (r + 1) (cs ! j) (column_sizes blk' ! j)" using nr by auto
  let ?b = "blk'\<lparr>num_rows := num_rows blk' + 1\<rparr>"
  have ncb: "num_cols ?b = ?m" "num_cols ?blk = ?m" using b(2) by (simp_all add: num_cols_def)
  have c0: "column_ok N (schema blk ! 0) (cs ! 0)" using src nc by (simp add: source_ok_def)
  then have "aoffset (cs ! 0) = 0" by (cases "schema blk ! 0") auto
  then have f: "fetch (map (Slice (int r) 1) cs) 0 = Inr (Slice (int r) 1 (cs ! 0))"
    "alen (Slice (int r) 1 (cs ! 0)) = 1" "aoffset (Slice (int r) 1 (cs ! 0)) = int r"
    using nc len by (simp_all add: fetch_def Slice_def)
  have sz: "nat (int (bsize (buffer1 (valid blk))) + 1 div 8 + 1) = bsize (buffer1 (valid blk)) + 1" by simp
  have "InsertRecords ar (map (Slice (int r) 1) cs) blk = Inr (int n, ?b)"
    using f v'(1) b(1,3) sz by (simp add: InsertRecords_def Let_def ncb)
  moreover have "fill_ok (n + 1) ?b" using b(3-7) v'(2) b(2) by (simp add: fill_ok_def num_cols_def)
  moreover have "source_ok N cs (r + 1) ?b" using src b(2,7) by (simp add: source_ok_def num_cols_def)
  moreover have "rows ?b = rows blk @ [row_of (schema blk) cs r]"
  proof -
    have "row_of (schema blk) (columns blk') q = row_of (schema blk) (columns blk) q" if "q < n" for q
      using b(7) that by (auto simp: row_of_def copied_def num_cols_def)
    moreover have "row_of (schema blk) (columns blk') n = row_of (schema blk) cs r"
      using b(7) by (auto simp: row_of_def copied_def num_cols_def)
    moreover have "nat (num_rows ?b) = Suc n" using b(3) by simp
    ultimately show ?thesis using b(2) nr by (simp add: rows_row_of)
  qed
  ultimately show ?thesis using b(2) by auto
qed

lemma source_skip:
  assumes "source_ok N cs r blk" "r < N"
  shows "source_ok N cs (r + 1) blk"
proof -
  have "behind t (r + 1) src c" if c: "column_ok N t src" and b: "behind t r src c" for t src c
  proof (cases "t = StringType")
    case True
    then obtain os where os: "offsets_ok N src os" using c by auto
    then have g: "get_i32 (int r) (bytes (buffer1 src)) = Inr (os ! r)"
      "get_i32 (int (r + 1)) (bytes (buffer1 src)) = Inr (os ! (r + 1))" "os ! r \<le> os ! (r + 1)"
      using assms(2) sorted_nth_mono [of os r "r + 1"] by (auto simp: offsets_ok_def simp del: of_nat_Suc of_nat_add)
    then show ?thesis using b True by (auto simp: behind_def simp del: of_nat_add)
  qed (simp add: behind_def)
  then show ?thesis using assms(1) by (auto simp: source_ok_def)
qed

lemma reinsert_ok:
  assumes ar: "arrow_ok ar" and "fill_ok n blk" "source_ok N cs r blk" "r + k = N" "0 < num_cols blk" "n \<le> r"
    and N: "int N < 2 ^ 31" and bits: "N \<le> 8 * length bs"
  shows "\<exists>m row_map blk'. reinsert ar bs cs k (int r) d (bmap, rmap, blk) = Inr (m, row_map, blk')
    \<and> schema blk' = schema blk
    \<and> rows blk' = rows blk @ map (row_of (schema blk) cs) (filter (vbit bs) [r..<N])
    \<and> num_rows blk' = num_rows blk + int (length (filter (vbit bs) [r..<N]))"
  using assms(2-6)
proof (induction k arbitrary: n r d bmap rmap blk)
  case 0
  then show ?case by simp
next
  case (Suc k)
  have r: "r < N" "[r..<N] = r # [r + 1..<N]" using Suc.prems(3) by (auto simp: upt_conv_Cons)
  have "r < length bs * 8" using r(1) bits by simp
  then have f: "fetch bs (nat (int r) div 8) = Inr (bs ! (r div 8))"
    using less_mult_imp_div_less [of r "length bs" 8] by (simp add: fetch_def)
  have bit: "drop_bit (nat (int r) mod 8) (bs ! (r div 8)) AND 1 = 1 \<longleftrightarrow> vbit bs r"
    by (simp add: vbit_def and_one_eq bit_iff_odd_drop_bit odd_iff_mod_2_eq_one)
  show ?case
  proof (cases "vbit bs r")
    case False
    have "\<exists>m row_map blk'. reinsert ar bs cs k (int (r + 1)) (d + 1) (bmap, rmap, blk) = Inr (m, row_map, blk')
        \<and> schema blk' = schema blk
        \<and> rows blk' = rows blk @ map (row_of (schema blk) cs) (filter (vbit bs) [r + 1..<N])
        \<and> num_rows blk' = num_rows blk + int (length (filter (vbit bs) [r + 1..<N]))"
      using Suc.prems source_skip [OF Suc.prems(2) r(1)] by (intro Suc.IH) auto
    then show ?thesis using False f bit r(2) by (simp add: add.commute)
  next
    case True
    obtain row_id rmap1 where m1: "map_at 0 (int r + d) rmap = (row_id, rmap1)" by fastforce
    obtain info bmap1 where m2: "map_at \<lparr>info_block_id = 0, row_num = 0\<rparr> row_id bmap = (info, bmap1)" by fastforce
    let ?blk = "blk\<lparr>row_id_map := (row_id_map blk)(int r \<mapsto> row_id)\<rparr>"
    let ?bmap = "bmap1(row_id \<mapsto> \<lparr>info_block_id = info_block_id info, row_num = int r\<rparr>)"
    have ok: "fill_ok n ?blk" "source_ok N cs r ?blk" "0 < num_cols ?blk" "int n < 2 ^ 31" "rows ?blk = rows blk"
      using Suc.prems N by (auto simp: fill_ok_def source_ok_def num_cols_def rows_def)
    obtain x blk1 where b: "InsertRecords ar (map (Slice (int r) 1) cs) ?blk = Inr (x, blk1)" "fill_ok (n + 1) blk1"
      "source_ok N cs (r + 1) blk1" "schema blk1 = schema blk" "rows blk1 = rows blk @ [row_of (schema blk) cs r]"
      using InsertRecords_row [OF ar ok(1,2) r(1) ok(3,4)] ok(5) by auto
    have "\<exists>m row_map blk'. reinsert ar bs cs k (int (r + 1)) d (?bmap, rmap1, blk1) = Inr (m, row_map, blk')
        \<and> schema blk' = schema blk1
        \<and> rows blk' = rows blk1 @ map (row_of (schema blk1) cs) (filter (vbit bs) [r + 1..<N])
        \<and> num_rows blk' = num_rows blk1 + int (length (filter (vbit bs) [r + 1..<N]))"
      using Suc.prems b(2-4) by (intro Suc.IH) (auto simp: num_cols_def)
    moreover have "num_rows blk1 = num_rows blk + 1" using b(2) Suc.prems(1) by (simp add: fill_ok_def)
    ultimately show ?thesis using True f bit r(2) m1 m2 b(1,4,5) by (simp add: ac_simps)
  qed
qed

text \<open>Compacting a block into a fresh one.\<close>

fun copyable :: "arrow_type \<Rightarrow> bool" where
  "copyable (NumberType w) \<longleftrightarrow> w = 8" | "copyable StringType \<longleftrightarrow> True" | "copyable _ \<longleftrightarrow> False"

lemma column_ok_filled: "column_ok 0 t col \<Longrightarrow> copyable t \<Longrightarrow> filled 0 t col 0"
  by (cases t) (auto simp: offsets_ok_def)

lemma compact_ok:
  assumes ar: "arrow_ok ar" and src: "block_ok src" and ts: "schema src = ts" "ts \<noteq> []" "list_all copyable ts"
    and fresh: "block_ok blk" "schema blk = ts" "num_rows blk = 0" "column_sizes blk = map (\<lambda>_. 0) ts" "rows blk = []"
  shows "\<exists>m row_map blk'. InsertRecordsFrom ar (valid src) (columns src) (bmap, rmap, blk) = Inr (m, row_map, blk')
    \<and> schema blk' = ts
    \<and> rows blk' = map ((!) (rows src)) (filter (\<lambda>r. get_valid (int r) src = Inr True) [0..<nat (num_rows src)])
    \<and> num_rows blk' = int (length (rows blk'))"
proof -
  define N where "N = nat (num_rows src)"
  have N: "num_rows src = int N" "int N < 2 ^ 31" "valid_ok N (valid src)" "length (columns src) = length ts"
    "\<And>i. i < length ts \<Longrightarrow> column_ok N (ts ! i) (columns src ! i)"
    using src ts(1) by (auto simp: block_ok_def N_def num_cols_def)
  have b: "valid_ok 0 (valid blk)" "length (columns blk) = length ts"
    "\<And>i. i < length ts \<Longrightarrow> column_ok 0 (ts ! i) (columns blk ! i)" "length (column_sizes blk) = length ts"
    using fresh by (auto simp: block_ok_def num_cols_def)
  have cp: "copyable (ts ! i)" if "i < length ts" for i using ts(3) that by (simp add: list_all_length)
  have f: "fill_ok 0 blk" using b cp fresh(2-4) column_ok_filled by (simp add: fill_ok_def num_cols_def)
  have "behind (ts ! i) 0 (columns src ! i) 0" if i: "i < length ts" for i
  proof (cases "ts ! i = StringType")
    case True
    then have "get_i32 0 (bytes (buffer1 (columns src ! i))) = Inr 0" using N(5) [OF i] by (intro string_first [of N]) simp
    then show ?thesis by (simp add: behind_def)
  qed (simp add: behind_def)
  then have s: "source_ok N (columns src) 0 blk" using N(4,5) fresh(2,4) by (simp add: source_ok_def num_cols_def)
  let ?bs = "bytes (buffer1 (valid src))"
  have bits: "N \<le> 8 * length ?bs" using N(3) by (auto simp: valid_ok_def)
  have nc: "0 < num_cols blk" using ts(2) fresh(2) by (simp add: num_cols_def)
  have c0: "fetch (columns src) 0 = Inr (columns src ! 0)" "alen (columns src ! 0) = int N"
    using N(4) N(5) [of 0] ts(2) cp [of 0] by (auto simp: fetch_def) (cases "ts ! 0"; auto)
  obtain m row_map blk' where r: "reinsert ar ?bs (columns src) N (int 0) 0 (bmap, rmap, blk) = Inr (m, row_map, blk')"
    "schema blk' = schema blk" "rows blk' = rows blk @ map (row_of (schema blk) (columns src)) (filter (vbit ?bs) [0..<N])"
    "num_rows blk' = num_rows blk + int (length (filter (vbit ?bs) [0..<N]))"
    using reinsert_ok [OF ar f s _ nc _ N(2) bits, where k = N and d = 0 and bmap = bmap and rmap = rmap] by auto
  have v: "get_valid (int q) src = Inr True \<longleftrightarrow> vbit ?bs q" if "q < N" for q
    using get_valid_eq [of q src] that N(2) bits by auto
  have fl: "filter (vbit ?bs) [0..<N] = filter (\<lambda>r. get_valid (int r) src = Inr True) [0..<N]"
    using v by (auto intro: filter_cong)
  have "row_of (schema blk) (columns src) q = rows src ! q" if "q < N" for q
    using that fresh(2) ts(1) by (simp add: rows_row_of N_def)
  then have "map (row_of (schema blk) (columns src)) (filter P [0..<N]) = map ((!) (rows src)) (filter P [0..<N])" for P
    by auto
  with fl have rw: "rows blk' = map ((!) (rows src)) (filter (\<lambda>r. get_valid (int r) src = Inr True) [0..<N])"
    "num_rows blk' = int (length (rows blk'))"
    using r(3,4) fresh(3,5) by auto
  have "InsertRecordsFrom ar (valid src) (columns src) (bmap, rmap, blk) = Inr (m, row_map, blk')"
    using r(1) c0 by (simp add: InsertRecordsFrom_def)
  then show ?thesis using r(2) rw fresh(2) unfolding N_def by blast
qed

section \<open>Property\<close>

text \<open>C27: compacting a block of eight-byte numbers and strings into a fresh one keeps exactly the valid rows, in order.\<close>

theorem InsertRecordsFrom_compacts:
  assumes "arrow_ok ar" "block_ok src" "schema src \<noteq> []" "list_all copyable (schema src)"
    "row_width (schema src) \<le> cap"
  shows "\<exists>blk m row_map blk'. Block_new ar bid (schema src) cap md = Inr blk
    \<and> InsertRecordsFrom ar (valid src) (columns src) (bmap, rmap, blk) = Inr (m, row_map, blk')
    \<and> rows blk' = map ((!) (rows src)) (filter (\<lambda>r. get_valid (int r) src = Inr True) [0..<nat (num_rows src)])
    \<and> num_rows blk' = int (length (rows blk'))"
proof -
  have cp: "copyable t \<Longrightarrow> plain t \<and> 0 < fixed_width t + (if t = StringType then 30 else 0)" for t by (cases t) auto
  then have p: "list_all plain (schema src)" using assms(4) by (auto simp: list_all_iff)
  have "list_all copyable ts \<Longrightarrow> ts \<noteq> [] \<Longrightarrow> 0 < row_width ts" for ts
  proof (induction ts)
    case (Cons t ts)
    then show ?case using cp [of t] by (cases "ts = []") (auto simp: row_width_def algebra_simps)
  qed simp
  then have "0 < row_width (schema src)" using assms(3,4) by blast
  from Block_new_ok [OF assms(1) p this assms(5)] obtain blk where
    b: "Block_new ar bid (schema src) cap md = Inr blk" "block_ok blk" "schema blk = schema src" "num_rows blk = 0"
    "column_sizes blk = map (\<lambda>_. 0) (schema src)" "rows blk = []" by blast
  from compact_ok [OF assms(1,2) refl assms(3,4) b(2-6)] b(1) show ?thesis by blast
qed

theorem InsertRecordsFrom_compacts_witness:
  "\<exists>src blk m row_map blk'. rows src = [[Inr [3, 2, 1, 0, 0, 0, 0, 0], Inr [65, 66]]]
    \<and> Block_new arrow64 0 [NumberType 8, StringType] 76 False = Inr blk
    \<and> InsertRecordsFrom arrow64 (valid src) (columns src) (Map.empty, Map.empty, blk) = Inr (m, row_map, blk')
    \<and> rows blk' = rows src"
proof -
  obtain src where b: "block_ok src" "rows src = [[Inr [3, 2, 1, 0, 0, 0, 0, 0], Inr [65, 66]]]"
    "schema src = [NumberType 8, StringType]" "num_rows src = 1" "get_valid 0 src = Inr True" using sample_row by blast
  from InsertRecordsFrom_compacts [OF arrow64_ok b(1), of 76 0 False Map.empty Map.empty] b(2-5) show ?thesis
    by (auto simp: row_width_def)
qed

end
