(* ===== verification/Table.thy ===== *)
theory Table
  imports BlockCopy "HOL-Library.AList"
begin

text \<open>
  Tables (\<open>src/src/storage/table.h\<close>, \<open>table.cc\<close>): the blocks of a table, the pool of
  blocks with room, the map from row ids to blocks and rows, and the operations the memlog calls.
  First all operations; then the invariant of a table, insertion, the interface the memlog relies
  on, deletion and update.
\<close>

unbundle bit_operations_syntax

section \<open>Tables\<close>

text \<open>
  The blocks of a table are shared pointers: \<open>store_\<close> is the list of the blocks made so far, and
  \<open>blocks\<close> and \<open>insert_pool\<close> map block ids to positions in it. The maps are association lists
  because the order of an \<open>unordered_map\<close> is not known: \<open>first_key\<close> is the key of its
  \<open>begin()\<close>.
\<close>

record DBTable =
  table_schema :: "arrow_type list"
  table_metadata :: bool
  block_capacity :: int
  block_map :: block_map
  blocks :: "(int \<times> nat) list"
  insert_pool :: "(int \<times> nat) list"
  block_counter :: int
  table_width :: int
  table_rows :: int
  block_row_offsets :: "int list"
  store_blocks :: "block list"

type_synonym first_key = "(int \<times> nat) list \<Rightarrow> int"

definition DBTable_new :: "arrow_type list \<Rightarrow> int \<Rightarrow> bool \<Rightarrow> DBTable res" where
  "DBTable_new ts cap enable_metadata =
    and_then (compute_fixed_record_width ts) (\<lambda>width.
      Inr \<lparr>table_schema = ts, table_metadata = enable_metadata, block_capacity = cap, block_map = Map.empty,
           blocks = [], insert_pool = [], block_counter = 0, table_width = width, table_rows = 0,
           block_row_offsets = [], store_blocks = []\<rparr>)"

text \<open>\<open>emplace\<close> keeps an entry that is there.\<close>

definition emplace :: "int \<Rightarrow> nat \<Rightarrow> (int \<times> nat) list \<Rightarrow> (int \<times> nat) list" where
  "emplace k v m = (case map_of m k of None \<Rightarrow> AList.update k v m | Some _ \<Rightarrow> m)"

definition CreateBlock :: "arrow \<Rightarrow> DBTable \<Rightarrow> (nat \<times> DBTable) res" where
  "CreateBlock ar t =
    and_then (Block_new ar (block_counter t) (table_schema t) (block_capacity t) (table_metadata t)) (\<lambda>blk.
      let ref = length (store_blocks t) in
      Inr (ref, t\<lparr>store_blocks := store_blocks t @ [blk], blocks := emplace (block_counter t) ref (blocks t),
             block_counter := block_counter t + 1, block_row_offsets := block_row_offsets t @ [table_rows t]\<rparr>))"

definition GetBlockForInsert :: "arrow \<Rightarrow> first_key \<Rightarrow> DBTable \<Rightarrow> (nat \<times> DBTable) res" where
  "GetBlockForInsert ar fk t =
    (if insert_pool t = [] then CreateBlock ar t
     else let k = fk (insert_pool t) in
       case map_of (insert_pool t) k of None \<Rightarrow> Inl OutOfBounds
       | Some ref \<Rightarrow> Inr (ref, t\<lparr>insert_pool := AList.delete k (insert_pool t)\<rparr>))"

definition MarkBlockForInsert :: "nat \<Rightarrow> DBTable \<Rightarrow> DBTable res" where
  "MarkBlockForInsert ref t =
    and_then (fetch (store_blocks t) ref) (\<lambda>blk.
      if get_bytes_left blk > table_width t
      then Inr (t\<lparr>insert_pool := AList.update (block_id blk) ref (insert_pool t)\<rparr>) else Inl AssertFailed)"

text \<open>\<open>insert_pool[block->get_id()] = block\<close>, if the block can take another record.\<close>

definition pool_if_room :: "nat \<Rightarrow> block \<Rightarrow> DBTable \<Rightarrow> DBTable" where
  "pool_if_room ref blk t =
    (if get_bytes_left blk > table_width t
     then t\<lparr>insert_pool := AList.update (block_id blk) ref (insert_pool t)\<rparr> else t)"

definition get_block :: "int \<Rightarrow> DBTable \<Rightarrow> nat res" where
  "get_block bid t = (case map_of (blocks t) bid of None \<Rightarrow> Inl LogicError | Some ref \<Rightarrow> Inr ref)"

fun add_record_size :: "arrow_type list \<Rightarrow> int list \<Rightarrow> int res" where
  "add_record_size [] ws = Inr 0"
| "add_record_size (t # ts) ws =
    (case ws of [] \<Rightarrow> Inl OutOfBounds
     | w # ws \<Rightarrow>
       and_then (case t of NumberType _ \<Rightarrow> Inr 8 | CType _ \<Rightarrow> Inr 8 | StringType \<Rightarrow> Inr w | _ \<Rightarrow> Inl LogicError) (\<lambda>x.
       and_then (add_record_size ts ws) (\<lambda>y. Inr (x + y))))"

definition get_record_size :: "int list \<Rightarrow> DBTable \<Rightarrow> int res" where
  "get_record_size widths t = add_record_size (table_schema t) widths"

section \<open>Records\<close>

definition TableInsertRecord :: "arrow \<Rightarrow> first_key \<Rightarrow> u8 list \<Rightarrow> int list \<Rightarrow> DBTable
    \<Rightarrow> (BlockInfo \<times> u8 list \<times> DBTable) res" where
  "TableInsertRecord ar fk record widths t =
    and_then (GetBlockForInsert ar fk t) (\<lambda>(ref, t).
    and_then (get_record_size widths t) (\<lambda>record_size.
    and_then (fetch (store_blocks t) ref) (\<lambda>blk.
    and_then (if get_bytes_left blk < record_size then CreateBlock ar t else Inr (ref, t)) (\<lambda>(ref, t).
    and_then (fetch (store_blocks t) ref) (\<lambda>blk.
    and_then (InsertRecord ar record widths blk) (\<lambda>(row, record, blk).
      let t = t\<lparr>store_blocks := (store_blocks t)[ref := blk], table_rows := table_rows t + 1\<rparr>
      in Inr (\<lparr>info_block_id = block_id blk, row_num = row\<rparr>, record, pool_if_room ref blk t)))))))"

definition InsertRecordTable :: "arrow \<Rightarrow> first_key \<Rightarrow> int \<Rightarrow> u8 list \<Rightarrow> int list \<Rightarrow> DBTable
    \<Rightarrow> (u8 list \<times> DBTable) res" where
  "InsertRecordTable ar fk row_id record widths t =
    and_then (TableInsertRecord ar fk record widths t) (\<lambda>(info, record, t).
      Inr (record, t\<lparr>block_map := (block_map t)(row_id \<mapsto> info)\<rparr>))"

definition DeleteRecordTable :: "arrow \<Rightarrow> int \<Rightarrow> DBTable \<Rightarrow> DBTable res" where
  "DeleteRecordTable ar row_id t =
    (case block_map t row_id of None \<Rightarrow> Inr t
     | Some info \<Rightarrow>
       and_then (get_block (info_block_id info) t) (\<lambda>ref.
       and_then (fetch (store_blocks t) ref) (\<lambda>blk.
       and_then (set_valid (row_num info) False blk) (\<lambda>blk.
       and_then (Block_new ar (info_block_id info) (table_schema t) (capacity blk) False) (\<lambda>updated.
       and_then (InsertRecordsFrom ar (valid blk) (columns blk) (block_map t, row_id_map blk, updated)) (\<lambda>(bmap, rmap, updated).
         let new_ref = length (store_blocks t);
             pool = insert_pool t
         in Inr (t\<lparr>block_map := bmap,
                   store_blocks := (store_blocks t)[ref := blk\<lparr>row_id_map := rmap\<rparr>] @ [updated],
                   blocks := AList.update (info_block_id info) new_ref (blocks t),
                   table_rows := table_rows t - 1,
                   insert_pool := (if map_of pool (info_block_id info) \<noteq> None
                     then AList.update (info_block_id info) new_ref pool else pool)\<rparr>)))))))"

text \<open>
  The loop over the updated columns. The position in the record moves by the widths of the
  columns before; the block and the row are those found at the start.
\<close>

fun skip_columns :: "nat \<Rightarrow> int \<Rightarrow> int list \<Rightarrow> int \<Rightarrow> (int \<times> int) res" where
  "skip_columns 0 cur widths offset = Inr (offset, cur)"
| "skip_columns (Suc k) cur widths offset =
    and_then (fetch widths (nat cur)) (\<lambda>w. skip_columns k (cur + 1) widths (offset + w))"

fun update_columns :: "arrow \<Rightarrow> first_key \<Rightarrow> int \<Rightarrow> nat \<Rightarrow> int \<Rightarrow> int list \<Rightarrow> UpdateMetaInfo list
    \<Rightarrow> int \<Rightarrow> int \<Rightarrow> u8 list \<Rightarrow> DBTable \<Rightarrow> DBTable res" where
  "update_columns ar fk row_id ref row widths [] offset cur record t = Inr t"
| "update_columns ar fk row_id ref row widths (u # us) offset cur record t =
    (let col = colNum u in
     if col < 0 then Inl OutOfBounds
     else and_then (skip_columns (nat (col - cur)) cur widths offset) (\<lambda>(offset, cur).
       and_then (fetch (table_schema t) (nat col)) (\<lambda>ty.
       and_then (fetch widths (nat col)) (\<lambda>bw.
       and_then (case ty of
           NumberType w \<Rightarrow> and_then (fetch (store_blocks t) ref) (\<lambda>blk.
             and_then (UpdateColumnValue w (nat col) row offset bw record blk) (\<lambda>(record, blk).
               Inr (record, t\<lparr>store_blocks := (store_blocks t)[ref := blk]\<rparr>)))
         | CType w \<Rightarrow> and_then (fetch (store_blocks t) ref) (\<lambda>blk.
             and_then (UpdateColumnValue w (nat col) row offset bw record blk) (\<lambda>(record, blk).
               Inr (record, t\<lparr>store_blocks := (store_blocks t)[ref := blk]\<rparr>)))
         | StringType \<Rightarrow> and_then (DeleteRecordTable ar row_id t) (InsertRecordTable ar fk row_id record widths)
         | _ \<Rightarrow> Inl LogicError) (\<lambda>(record, t).
         update_columns ar fk row_id ref row widths us offset cur record t)))))"

definition UpdateRecordTable :: "arrow \<Rightarrow> first_key \<Rightarrow> int \<Rightarrow> int \<Rightarrow> UpdateMetaInfo list \<Rightarrow> u8 list \<Rightarrow> int list
    \<Rightarrow> DBTable \<Rightarrow> DBTable res" where
  "UpdateRecordTable ar fk row_id n metas record widths t =
    (case block_map t row_id of None \<Rightarrow> Inr t
     | Some info \<Rightarrow>
       and_then (get_block (info_block_id info) t) (\<lambda>ref.
         if int (length metas) < n then Inl OutOfBounds
         else update_columns ar fk row_id ref (row_num info) widths (take (nat n) metas) 0 0 record t))"

definition TableInsertCsv :: "arrow \<Rightarrow> (u8 list \<Rightarrow> u64) \<Rightarrow> first_key \<Rightarrow> u8 list list \<Rightarrow> int list \<Rightarrow> DBTable
    \<Rightarrow> DBTable res" where
  "TableInsertCsv ar atoi fk vals widths t =
    and_then (GetBlockForInsert ar fk t) (\<lambda>(ref, t).
    if length widths < length (table_schema t) then Inl OutOfBounds
    else let record_size = sum_list (take (length (table_schema t)) widths) in
    and_then (fetch (store_blocks t) ref) (\<lambda>blk.
    and_then (if get_bytes_left blk < record_size then CreateBlock ar t else Inr (ref, t)) (\<lambda>(ref, t).
    and_then (fetch (store_blocks t) ref) (\<lambda>blk.
    and_then (InsertCsvRecord ar atoi vals widths blk) (\<lambda>(_, blk).
      let t = t\<lparr>store_blocks := (store_blocks t)[ref := blk], table_rows := table_rows t + 1\<rparr>
      in Inr (pool_if_room ref blk t))))))"

section \<open>Arrays and blocks\<close>

text \<open>The size of one row of the arrays; the offsets are read without the array's own offset.\<close>

fun row_size :: "arrow_type list \<Rightarrow> array_data list \<Rightarrow> int \<Rightarrow> int res" where
  "row_size [] cd row = Inr 0"
| "row_size (t # ts) cd row =
    (case cd of [] \<Rightarrow> Inl OutOfBounds
     | c # cd \<Rightarrow>
       and_then (case t of NumberType w \<Rightarrow> Inr (int w) | CType w \<Rightarrow> Inr (int w) | FixedSizeBinaryType w \<Rightarrow> Inr (int w)
           | StringType \<Rightarrow> and_then (get_i32 (row + 1) (bytes (buffer1 c))) (\<lambda>b.
               and_then (get_i32 row (bytes (buffer1 c))) (\<lambda>a. Inr (b - a)))
           | OtherType \<Rightarrow> Inl LogicError) (\<lambda>x.
       and_then (row_size ts cd row) (\<lambda>y. Inr (x + y))))"

definition put_rows :: "arrow \<Rightarrow> array_data list \<Rightarrow> int \<Rightarrow> int \<Rightarrow> nat \<Rightarrow> DBTable \<Rightarrow> DBTable res" where
  "put_rows ar cd offset n ref t =
    and_then (fetch (store_blocks t) ref) (\<lambda>blk.
    and_then (InsertRecords ar (map (Slice offset n) cd) blk) (\<lambda>(_, blk).
      Inr (t\<lparr>store_blocks := (store_blocks t)[ref := blk]\<rparr>)))"

fun insert_rows :: "arrow \<Rightarrow> array_data list \<Rightarrow> nat \<Rightarrow> int \<Rightarrow> int \<times> int \<times> nat \<times> DBTable
    \<Rightarrow> (int \<times> int \<times> nat \<times> DBTable) res" where
  "insert_rows ar cd 0 row s = Inr s"
| "insert_rows ar cd (Suc k) row s =
    (case s of (offset, data_size, ref, t) \<Rightarrow>
     and_then (row_size (table_schema t) cd row) (\<lambda>record_size.
     and_then (fetch (store_blocks t) ref) (\<lambda>blk.
     and_then (if data_size + record_size > get_bytes_left blk
               then and_then (put_rows ar cd offset (row - offset) ref t) (\<lambda>t.
                    and_then (CreateBlock ar t) (\<lambda>(ref, t). Inr (row, 0, ref, t)))
               else Inr (offset, data_size, ref, t)) (\<lambda>(offset, data_size, ref, t).
       insert_rows ar cd k (row + 1) (offset, data_size + record_size, ref, t)))))"

definition TableInsertRecords :: "arrow \<Rightarrow> first_key \<Rightarrow> array_data list \<Rightarrow> DBTable \<Rightarrow> DBTable res" where
  "TableInsertRecords ar fk cd t =
    and_then (fetch cd 0) (\<lambda>c.
      let l = alen c in
      and_then (GetBlockForInsert ar fk t) (\<lambda>(ref, t).
      and_then (insert_rows ar cd (nat l) 0 (0, 0, ref, t)) (\<lambda>(offset, _, ref, t).
      and_then (put_rows ar cd offset (l - offset) ref t) (\<lambda>t.
      and_then (fetch (store_blocks t) ref) (\<lambda>blk.
        Inr ((pool_if_room ref blk t)\<lparr>table_rows := table_rows t + l\<rparr>))))))"

text \<open>A chunked array is a list of arrays; the chunks of all columns are inserted one after another.\<close>

fun insert_chunks :: "arrow \<Rightarrow> first_key \<Rightarrow> array_data list list \<Rightarrow> nat list \<Rightarrow> DBTable \<Rightarrow> DBTable res" where
  "insert_chunks ar fk cols [] t = Inr t"
| "insert_chunks ar fk cols (i # is) t =
    (if \<exists>c \<in> set cols. length c \<le> i then Inl OutOfBounds
     else and_then (TableInsertRecords ar fk (map (\<lambda>c. c ! i) cols) t) (insert_chunks ar fk cols is))"

definition TableInsertChunks :: "arrow \<Rightarrow> first_key \<Rightarrow> array_data list list \<Rightarrow> DBTable \<Rightarrow> DBTable res" where
  "TableInsertChunks ar fk cols t =
    and_then (fetch cols 0) (\<lambda>c. insert_chunks ar fk cols [0..<length c] t)"

text \<open>
  \<open>InsertBlocks\<close>: when the last block has room the code writes behind the end of
  \<open>block_row_offsets\<close>.
\<close>

fun add_blocks :: "block list \<Rightarrow> DBTable \<Rightarrow> DBTable" where
  "add_blocks [] t = t"
| "add_blocks (blk # bs) t =
    (let ref = length (store_blocks t); n = table_rows t + num_rows blk
     in add_blocks bs (t\<lparr>store_blocks := store_blocks t @ [blk], blocks := emplace (block_counter t) ref (blocks t),
          block_counter := block_counter t + 1, table_rows := n, block_row_offsets := block_row_offsets t @ [n]\<rparr>))"

definition last_block :: "DBTable \<Rightarrow> (nat \<times> block) res" where
  "last_block t =
    (case map_of (blocks t) (int (length (blocks t)) - 1) of None \<Rightarrow> Inl NullDeref
     | Some ref \<Rightarrow> and_then (fetch (store_blocks t) ref) (\<lambda>blk. Inr (ref, blk)))"

definition InsertBlocks :: "block list \<Rightarrow> DBTable \<Rightarrow> DBTable res" where
  "InsertBlocks input_blocks t =
    (if input_blocks = [] then Inr t
     else let t = add_blocks input_blocks t in
       and_then (last_block t) (\<lambda>(ref, blk).
         if get_bytes_left blk > table_width t
         then and_then (MarkBlockForInsert ref t) (\<lambda>t. Inl OutOfBounds)
         else Inr t))"

text \<open>The constructor from record batches, given the blocks made of them.\<close>

definition DBTable_of_blocks :: "arrow_type list \<Rightarrow> block list \<Rightarrow> int \<Rightarrow> bool \<Rightarrow> DBTable res" where
  "DBTable_of_blocks ts bs cap enable_metadata =
    and_then (DBTable_new ts cap enable_metadata) (\<lambda>t.
      let t = add_blocks bs (t\<lparr>block_row_offsets := [0]\<rparr>) in
      and_then (last_block t) (\<lambda>(ref, blk).
        if get_bytes_left blk > table_width t
        then and_then (MarkBlockForInsert ref t) (\<lambda>t.
               Inr (t\<lparr>block_row_offsets := (block_row_offsets t)[length (block_row_offsets t) - 1 := -1]\<rparr>))
        else Inr t))"

definition get_block_row_offset :: "int \<Rightarrow> DBTable \<Rightarrow> int res" where
  "get_block_row_offset i t =
    (if 0 \<le> i \<and> i < int (length (block_row_offsets t)) then Inr (block_row_offsets t ! nat i) else Inl OutOfBounds)"

text \<open>
  \<open>ForEachBatch\<close>: the batches the functor is called with. \<open>hw\<close> is
  \<open>std::thread::hardware_concurrency\<close>.
\<close>

definition ForEachBatch :: "u64 \<Rightarrow> u64 \<Rightarrow> (nat \<times> u64) list res" where
  "ForEachBatch hw num_blocks =
    (if hw = 0 then Inl DivByZero
     else let batch_size = num_blocks div hw;
              batch_size = (if batch_size = 0 then num_blocks else batch_size)
     in if batch_size = 0 then Inl DivByZero
        else let num_batches = 1 + (num_blocks - 1) div batch_size
          in Inr (map (\<lambda>i. (i, batch_size)) [0..<unat num_batches]))"

section \<open>The table as the target of the memlog\<close>

text \<open>The calls \<open>hustle_memlog_update_db\<close> makes on a table. An error stays.\<close>

fun table_step :: "arrow \<Rightarrow> first_key \<Rightarrow> DBTable res \<Rightarrow> table_op \<Rightarrow> DBTable res" where
  "table_step ar fk (Inl e) c = Inl e"
| "table_step ar fk (Inr t) (table_op.DeleteRecordTable rid) = DeleteRecordTable ar rid t"
| "table_step ar fk (Inr t) (table_op.InsertRecordTable rid record widths) =
    and_then (InsertRecordTable ar fk rid record widths t) (\<lambda>(_, t). Inr t)"
| "table_step ar fk (Inr t) (table_op.UpdateRecordTable rid n metas record widths) =
    UpdateRecordTable ar fk rid n metas record widths t"

section \<open>The bytes a block holds\<close>

fun clen :: "u8 list res \<Rightarrow> nat" where
  "clen (Inr v) = length v" | "clen (Inl e) = 0"

definition content :: "block \<Rightarrow> nat" where
  "content blk = sum_list (map (\<lambda>row. sum_list (map clen row)) (rows blk))"

lemma string_end:
  assumes "column_ok n StringType col"
  shows "get_i32 (int n) (bytes (buffer1 col)) = Inr (int (\<Sum>r<n. clen (cell StringType r col)))"
proof -
  obtain os where os: "offsets_ok n col os" and b: "bsize (buffer2 col) \<le> length (bytes (buffer2 col))"
    using assms by auto
  have o: "length os = n + 1" "sorted os" "os ! 0 = 0" "os ! n \<le> int (bsize (buffer2 col))"
    "\<And>k. k \<le> n \<Longrightarrow> get_i32 (int k) (bytes (buffer1 col)) = Inr (os ! k)" using os by (auto simp: offsets_ok_def)
  have "os ! k = int (\<Sum>r<k. clen (cell StringType r col))" if "k \<le> n" for k
    using that
  proof (induction k)
    case 0
    then show ?case using o(3) by simp
  next
    case (Suc k)
    have le: "os ! k \<le> os ! Suc k" "os ! Suc k \<le> os ! n" "0 \<le> os ! k"
      using o(1-3) Suc.prems sorted_nth_mono [of os k "Suc k"] sorted_nth_mono [of os "Suc k" n] sorted_nth_mono [of os 0 k] by auto
    then obtain v where v: "load (os ! k) (os ! Suc k - os ! k) (bytes (buffer2 col)) = Inr v"
      using o(4) b by (simp add: load_def)
    have "cell StringType k col = Inr v"
      using o(5) [of k] o(5) [of "Suc k"] Suc.prems v by (simp add: cell_def add.commute)
    then show ?case using Suc.IH Suc.prems load_length [OF v] by simp
  qed
  then show ?thesis using o(5) [of n] by simp
qed

lemma column_content:
  assumes "i < num_cols blk" "num_rows blk = int n"
  shows "(\<Sum>r<n. clen (cell (schema blk ! i) r (columns blk ! i))) \<le> content blk"
proof -
  have "clen (cell (schema blk ! i) r (columns blk ! i))
      \<le> sum_list (map clen (map (\<lambda>i. cell (schema blk ! i) r (columns blk ! i)) [0..<num_cols blk]))" for r
    using assms(1) by (intro member_le_sum_list) auto
  then have "(\<Sum>r<n. clen (cell (schema blk ! i) r (columns blk ! i)))
      \<le> (\<Sum>r<n. sum_list (map clen (map (\<lambda>i. cell (schema blk ! i) r (columns blk ! i)) [0..<num_cols blk])))"
    by (intro sum_mono) auto
  also have "\<dots> = content blk"
    using assms(2) by (simp add: content_def rows_def o_def interv_sum_list_conv_sum_set_nat atLeast0LessThan)
  finally show ?thesis .
qed

section \<open>The invariant of a table\<close>

text \<open>
  The tables that insertions and updates make: every block is well formed, all its rows are
  valid, and it accounts for its bytes.
\<close>

definition full_block_ok :: "arrow_type list \<Rightarrow> int \<Rightarrow> block \<Rightarrow> bool" where
  "full_block_ok ts cap blk \<longleftrightarrow> block_ok blk \<and> schema blk = ts \<and> capacity blk = cap
     \<and> num_bytes blk = int (content blk) \<and> num_bytes blk \<le> cap
     \<and> (\<forall>q < nat (num_rows blk). get_valid (int q) blk = Inr True)"

definition table_ok :: "DBTable \<Rightarrow> bool" where
  "table_ok t \<longleftrightarrow> list_all plain (table_schema t) \<and> (\<forall>w. NumberType w \<in> set (table_schema t) \<longrightarrow> w \<le> 8)
     \<and> 0 < row_width (table_schema t) \<and> row_width (table_schema t) \<le> block_capacity t \<and> block_capacity t < 2 ^ 31
     \<and> (\<forall>blk \<in> set (store_blocks t). full_block_ok (table_schema t) (block_capacity t) blk)
     \<and> (\<forall>bid ref. map_of (blocks t) bid = Some ref \<longrightarrow>
          ref < length (store_blocks t) \<and> block_id (store_blocks t ! ref) = bid \<and> bid < block_counter t)
     \<and> (\<forall>bid ref. map_of (insert_pool t) bid = Some ref \<longrightarrow> map_of (blocks t) bid = Some ref)
     \<and> table_rows t = sum_list (map num_rows (store_blocks t))"

definition row_at :: "int \<Rightarrow> DBTable \<Rightarrow> u8 list res list option" where
  "row_at rid t =
    (case block_map t rid of None \<Rightarrow> None
     | Some info \<Rightarrow>
       (case map_of (blocks t) (info_block_id info) of None \<Rightarrow> None
        | Some ref \<Rightarrow>
          let blk = store_blocks t ! ref in
          if 0 \<le> row_num info \<and> row_num info < num_rows blk then Some (rows blk ! nat (row_num info)) else None))"

text \<open>A record for a schema, and the bytes it may take in a block.\<close>

fun field_ok :: "arrow_type \<Rightarrow> int \<Rightarrow> bool" where
  "field_ok (NumberType w) bw \<longleftrightarrow> bw \<le> int w" | "field_ok StringType bw \<longleftrightarrow> 0 \<le> bw" | "field_ok _ bw \<longleftrightarrow> False"

fun field_size :: "arrow_type \<Rightarrow> int \<Rightarrow> int" where
  "field_size StringType bw = bw" | "field_size _ bw = 8"

definition row_ok :: "arrow_type list \<Rightarrow> u8 list \<Rightarrow> int list \<Rightarrow> bool" where
  "row_ok ts record widths \<longleftrightarrow> list_all2 field_ok ts widths
     \<and> sum_list (map (\<lambda>w. max w 0) widths) \<le> int (length record)"

definition rec_size :: "arrow_type list \<Rightarrow> int list \<Rightarrow> int" where
  "rec_size ts widths = sum_list (map2 field_size ts widths)"

lemma add_record_size_eq: "list_all2 field_ok ts ws \<Longrightarrow> add_record_size ts ws = Inr (rec_size ts ws)"
proof (induction rule: list_all2_induct)
  case (Cons t ts w ws)
  then show ?case by (cases t) (auto simp: rec_size_def)
qed (simp add: rec_size_def)

lemma rec_size_bounds:
  assumes "list_all2 field_ok ts ws" "\<forall>w. NumberType w \<in> set ts \<longrightarrow> 0 < w \<and> w \<le> 8"
    "sum_list (map (\<lambda>w. max w 0) ws) \<le> int (length record)"
  shows "sum_list ws \<le> rec_size ts ws \<and> int (sum_list (map length (encode_row ts ws record))) \<le> rec_size ts ws"
  using assms
proof (induction arbitrary: "record" rule: list_all2_induct)
  case (Cons t ts w ws)
  have nn: "0 \<le> sum_list (map (\<lambda>w. max w 0) ws)" by (rule sum_list_nonneg) auto
  have len: "length (take (nat w) record) = nat w" using Cons.prems(2) nn by (auto simp: max_def split: if_splits)
  have f: "w \<le> field_size t w \<and> int (length (encode_field t w (take (nat w) record))) \<le> field_size t w"
  proof (cases t)
    case (NumberType k)
    then show ?thesis using Cons.hyps(1) Cons.prems(1) len value_bytes_length [of w k] by auto
  next
    case StringType
    then show ?thesis using Cons.hyps(1) len by auto
  qed (use Cons.hyps(1) in auto)
  have p: "sum_list (map (\<lambda>w. max w 0) ws) \<le> int (length (drop (nat w) record))"
    using Cons.prems(2) nn by (auto simp: max_def split: if_splits)
  have q: "\<forall>w. NumberType w \<in> set ts \<longrightarrow> 0 < w \<and> w \<le> 8" using Cons.prems(1) by auto
  from Cons.IH [OF q p] f show ?case by (auto simp: rec_size_def)
qed (simp_all add: rec_size_def)

lemma record_ok_row:
  assumes b: "full_block_ok ts cap blk" and r: "row_ok ts record widths" and fit: "rec_size ts widths \<le> get_bytes_left blk"
    and ts: "list_all plain ts" "\<forall>w. NumberType w \<in> set ts \<longrightarrow> w \<le> 8" and cap: "cap < 2 ^ 31"
  shows "record_ok blk record widths"
proof -
  have s: "schema blk = ts" "block_ok blk" "num_bytes blk = int (content blk)" "capacity blk = cap"
    using b by (auto simp: full_block_ok_def)
  have len: "length widths = length ts" using r by (auto simp: row_ok_def dest: list_all2_lengthD)
  define n where "n = nat (num_rows blk)"
  have n: "num_rows blk = int n" using s(2) by (simp add: n_def block_ok_def)
  have w8: "\<forall>w. NumberType w \<in> set ts \<longrightarrow> 0 < w \<and> w \<le> 8" using ts by (auto simp: list_all_iff)
  have "width_ok n (ts ! i) (widths ! i) (columns blk ! i)" if i: "i < length ts" for i
  proof -
    have f: "field_ok (ts ! i) (widths ! i)" using r i by (auto simp: row_ok_def dest: list_all2_nthD)
    show ?thesis
    proof (cases "ts ! i")
      case StringType
      have c: "column_ok n StringType (columns blk ! i)" using s(1,2) i n StringType by (auto simp: block_ok_def num_cols_def)
      have "(\<Sum>r<n. clen (cell StringType r (columns blk ! i))) \<le> content blk"
        using column_content [of i blk n] n s(1) i StringType by (simp add: num_cols_def)
      then have x: "int (\<Sum>r<n. clen (cell StringType r (columns blk ! i))) \<le> num_bytes blk"
        unfolding s(3) of_nat_le_iff .
      have "widths ! i \<le> rec_size ts widths"
      proof -
        have "field_size (ts ! i) (widths ! i) \<le> sum_list (map2 field_size ts widths)"
        proof (rule member_le_sum_list)
          show "field_size (ts ! i) (widths ! i) \<in> set (map2 field_size ts widths)"
            using i len by (auto simp: set_zip intro!: image_eqI [of _ _ "(ts ! i, widths ! i)"])
          have fs: "field_ok a b \<Longrightarrow> 0 \<le> field_size a b" for a b by (cases a) auto
          show "0 \<le> y" if "y \<in> set (map2 field_size ts widths)" for y
            using that r fs by (auto simp: row_ok_def list_all2_iff)
        qed
        then show ?thesis using StringType by (simp add: rec_size_def)
      qed
      then have "int (\<Sum>r<n. clen (cell StringType r (columns blk ! i))) + widths ! i < 2 ^ 31"
        using x fit cap s(4) by (simp add: get_bytes_left_def)
      then show ?thesis using string_end [OF c] f StringType by simp
    qed (use f in auto)
  qed
  then show ?thesis using r len s(1) n by (auto simp: record_ok_def row_ok_def num_cols_def)
qed

lemma content_appended: "rows blk' = rows blk @ [map Inr vs] \<Longrightarrow> content blk' = content blk + sum_list (map length vs)"
  by (simp add: content_def o_def)

text \<open>Inserting into a block that has room.\<close>

lemma InsertRecord_full:
  assumes ar: "arrow_ok ar" and b: "full_block_ok ts cap blk" and r: "row_ok ts record widths"
    and fit: "rec_size ts widths \<le> get_bytes_left blk" and nr: "num_rows blk < 2 ^ 31 - 1"
    and ts: "list_all plain ts" "\<forall>w. NumberType w \<in> set ts \<longrightarrow> w \<le> 8" and cap: "cap < 2 ^ 31"
  shows "\<exists>record' blk'. InsertRecord ar record widths blk = Inr (num_rows blk, record', blk')
    \<and> full_block_ok ts cap blk' \<and> block_id blk' = block_id blk \<and> num_rows blk' = num_rows blk + 1
    \<and> rows blk' = rows blk @ [map Inr (encode_row ts widths record)]"
proof -
  have s: "schema blk = ts" "block_ok blk" "num_bytes blk = int (content blk)" "capacity blk = cap" "num_bytes blk \<le> cap"
    "\<forall>q < nat (num_rows blk). get_valid (int q) blk = Inr True"
    using b by (auto simp: full_block_ok_def)
  have w8: "\<forall>w. NumberType w \<in> set ts \<longrightarrow> 0 < w \<and> w \<le> 8" using ts by (auto simp: list_all_iff)
  note rb = rec_size_bounds [OF _ w8, of widths "record"]
  have le: "sum_list widths \<le> get_bytes_left blk"
    "int (sum_list (map length (encode_row ts widths record))) \<le> get_bytes_left blk"
    using rb r fit by (auto simp: row_ok_def)
  have rok: "record_ok blk record widths" using b r fit ts cap by (rule record_ok_row)
  obtain record' blk' where i: "InsertRecord ar record widths blk = Inr (num_rows blk, record', blk')" "block_ok blk'"
    "schema blk' = schema blk \<and> block_id blk' = block_id blk" "capacity blk' = capacity blk" "num_rows blk' = num_rows blk + 1"
    "rows blk' = rows blk @ [map Inr (encode_row ts widths record)]"
    "num_bytes blk' = num_bytes blk + int (sum_list (map length (encode_row ts widths record)))"
    "get_valid (num_rows blk) blk' = Inr True" "\<forall>q < nat (num_rows blk). get_valid (int q) blk' = get_valid (int q) blk"
    using InsertRecord_ok [OF ar s(2) rok le(1) nr] s(1) by auto
  have "get_valid (int q) blk' = Inr True" if "q < nat (num_rows blk')" for q
  proof (cases "q < nat (num_rows blk)")
    case True
    then show ?thesis using i(9) s(6) by simp
  next
    case False
    then have "int q = num_rows blk" using that i(5) by linarith
    then show ?thesis using i(8) by simp
  qed
  then have "full_block_ok ts cap blk'"
    using i s le(2) content_appended [OF i(6)] by (auto simp: full_block_ok_def get_bytes_left_def)
  then show ?thesis using i by blast
qed

section \<open>Inserting into a table\<close>

definition current :: "DBTable \<Rightarrow> nat \<Rightarrow> bool" where
  "current t ref \<longleftrightarrow> ref < length (store_blocks t) \<and> map_of (blocks t) (block_id (store_blocks t ! ref)) = Some ref"

text \<open>A step that leaves the rows of a table alone.\<close>

definition same_rows :: "DBTable \<Rightarrow> DBTable \<Rightarrow> bool" where
  "same_rows t t' \<longleftrightarrow> table_schema t' = table_schema t \<and> block_capacity t' = block_capacity t
     \<and> block_map t' = block_map t \<and> table_rows t' = table_rows t
     \<and> (\<forall>rid. row_at rid t \<noteq> None \<longrightarrow> row_at rid t' = row_at rid t)"

lemma table_ok_store: "table_ok t \<Longrightarrow> ref < length (store_blocks t) \<Longrightarrow>
    full_block_ok (table_schema t) (block_capacity t) (store_blocks t ! ref)"
  by (simp add: table_ok_def)

lemma CreateBlock_ok:
  assumes ar: "arrow_ok ar" and ok: "table_ok t"
  shows "\<exists>ref t'. CreateBlock ar t = Inr (ref, t') \<and> table_ok t' \<and> current t' ref \<and> same_rows t t'
    \<and> get_bytes_left (store_blocks t' ! ref) = block_capacity t"
proof -
  have ts: "list_all plain (table_schema t)" "0 < row_width (table_schema t)" "row_width (table_schema t) \<le> block_capacity t"
    using ok by (auto simp: table_ok_def)
  obtain blk where b: "Block_new ar (block_counter t) (table_schema t) (block_capacity t) (table_metadata t) = Inr blk"
    "block_ok blk" "rows blk = []" "schema blk = table_schema t" "capacity blk = block_capacity t" "num_bytes blk = 0"
    "num_rows blk = 0" "block_id blk = block_counter t"
    using Block_new_ok [OF ar ts] by blast
  have fresh: "map_of (blocks t) (block_counter t) = None"
    using ok by (cases "map_of (blocks t) (block_counter t)") (auto simp: table_ok_def)
  define ref where "ref = length (store_blocks t)"
  define t' where "t' = t\<lparr>store_blocks := store_blocks t @ [blk], blocks := AList.update (block_counter t) ref (blocks t),
      block_counter := block_counter t + 1, block_row_offsets := block_row_offsets t @ [table_rows t]\<rparr>"
  have eq: "CreateBlock ar t = Inr (ref, t')" using b(1) fresh by (simp add: CreateBlock_def emplace_def t'_def ref_def Let_def)
  have bl: "map_of (blocks t') bid = (if bid = block_counter t then Some ref else map_of (blocks t) bid)" for bid
    by (simp add: t'_def update_conv)
  have fb: "full_block_ok (table_schema t) (block_capacity t) blk"
    using b ts by (simp add: full_block_ok_def content_def)
  have inr: "ref' < length (store_blocks t) \<and> block_id (store_blocks t ! ref') = bid \<and> bid < block_counter t"
    if "map_of (blocks t) bid = Some ref'" for bid ref' using ok that by (simp add: table_ok_def)
  have pool: "map_of (blocks t') bid = Some ref'" if "map_of (insert_pool t) bid = Some ref'" for bid ref'
  proof -
    have "map_of (blocks t) bid = Some ref'" using ok that by (simp add: table_ok_def)
    then show ?thesis using inr [of bid ref'] bl by auto
  qed
  have "table_ok t'"
    unfolding table_ok_def
  proof (intro conjI allI impI ballI)
    fix b assume "b \<in> set (store_blocks t')"
    then show "full_block_ok (table_schema t') (block_capacity t') b" using ok fb by (auto simp: t'_def table_ok_def)
  next
    fix bid ref' assume a: "map_of (blocks t') bid = Some ref'"
    show "ref' < length (store_blocks t')" "block_id (store_blocks t' ! ref') = bid" "bid < block_counter t'"
      using a inr [of bid ref'] b(8) unfolding bl by (auto simp: t'_def ref_def nth_append split: if_splits)
  next
    fix bid ref' assume "map_of (insert_pool t') bid = Some ref'"
    then show "map_of (blocks t') bid = Some ref'" using pool by (simp add: t'_def)
  qed (use ok b(7) in \<open>auto simp: t'_def table_ok_def\<close>)
  moreover have "current t' ref" using b(8) bl by (simp add: current_def t'_def ref_def)
  moreover have "same_rows t t'"
  proof -
    have "row_at rid t' = row_at rid t" if n: "row_at rid t \<noteq> None" for rid
    proof -
      obtain info ref' where i: "block_map t rid = Some info" "map_of (blocks t) (info_block_id info) = Some ref'"
        using n by (auto simp: row_at_def split: option.splits)
      then have "ref' < length (store_blocks t)" "info_block_id info \<noteq> block_counter t" using inr by fastforce+
      then show ?thesis using i bl by (simp add: row_at_def t'_def nth_append)
    qed
    then show ?thesis by (simp add: same_rows_def t'_def)
  qed
  moreover have "get_bytes_left (store_blocks t' ! ref) = block_capacity t"
    using b(5,6) by (simp add: t'_def ref_def get_bytes_left_def)
  ultimately show ?thesis using eq by blast
qed

lemma same_rows_trans: "same_rows t t' \<Longrightarrow> same_rows t' t'' \<Longrightarrow> same_rows t t''"
  by (simp add: same_rows_def)

lemma same_rows_refl: "same_rows t t" by (simp add: same_rows_def)

text \<open>\<open>begin()\<close> of a map that is not empty is one of its keys.\<close>

definition first_key_ok :: "first_key \<Rightarrow> bool" where
  "first_key_ok fk \<longleftrightarrow> (\<forall>m. m \<noteq> [] \<longrightarrow> fk m \<in> fst ` set m)"

lemma GetBlockForInsert_ok:
  assumes ar: "arrow_ok ar" and fk: "first_key_ok fk" and ok: "table_ok t"
  shows "\<exists>ref t'. GetBlockForInsert ar fk t = Inr (ref, t') \<and> table_ok t' \<and> current t' ref \<and> same_rows t t'"
proof (cases "insert_pool t = []")
  case True
  then show ?thesis using CreateBlock_ok [OF ar ok] by (auto simp: GetBlockForInsert_def)
next
  case False
  let ?k = "fk (insert_pool t)" and ?t = "t\<lparr>insert_pool := AList.delete (fk (insert_pool t)) (insert_pool t)\<rparr>"
  have "?k \<in> fst ` set (insert_pool t)" using fk False by (simp add: first_key_ok_def)
  then obtain ref where r: "map_of (insert_pool t) ?k = Some ref"
    by (metis map_of_eq_None_iff not_None_eq)
  then have m: "map_of (blocks t) ?k = Some ref" using ok by (simp add: table_ok_def)
  have pool: "map_of (AList.delete ?k (insert_pool t)) bid = Some ref' \<Longrightarrow> map_of (blocks t) bid = Some ref'" for bid ref'
    using ok by (auto simp: delete_conv table_ok_def split: if_splits)
  have "table_ok ?t" using ok pool by (simp add: table_ok_def)
  moreover have "current ?t ref" using ok m by (auto simp: table_ok_def current_def)
  moreover have "same_rows t ?t" by (simp add: same_rows_def row_at_def cong: option.case_cong)
  ultimately show ?thesis using False r by (auto simp: GetBlockForInsert_def Let_def)
qed

lemma rows_le_table:
  assumes "table_ok t" "ref < length (store_blocks t)"
  shows "num_rows (store_blocks t ! ref) \<le> table_rows t"
proof -
  have "num_rows (store_blocks t ! ref) \<le> sum_list (map num_rows (store_blocks t))"
    using assms by (intro member_le_sum_list) (auto simp: table_ok_def full_block_ok_def block_ok_def)
  then show ?thesis using assms(1) by (simp add: table_ok_def)
qed

lemma sum_update_int: "i < length xs \<Longrightarrow> sum_list (xs[i := x]) = sum_list xs + (x - xs ! i :: int)"
  by (induction xs arbitrary: i) (auto split: nat.splits)

text \<open>Replacing a current block.\<close>

lemma swap_block_ok:
  assumes ok: "table_ok t" and cur: "current t ref" and blk: "blk = store_blocks t ! ref"
    and b': "full_block_ok (table_schema t) (block_capacity t) blk'" "block_id blk' = block_id blk" "num_rows blk' = num_rows blk + d"
  defines "t' \<equiv> t\<lparr>store_blocks := (store_blocks t)[ref := blk'], table_rows := table_rows t + d\<rparr>"
  shows "table_ok t'" "current t' ref"
proof -
  have r: "ref < length (store_blocks t)" "map_of (blocks t) (block_id blk) = Some ref" using cur blk by (auto simp: current_def)
  have sum: "sum_list (map num_rows ((store_blocks t)[ref := blk'])) = sum_list (map num_rows (store_blocks t)) + d"
    using r(1) b'(3) blk by (simp add: map_update sum_update_int)
  show "current t' ref" using r b'(2) by (simp add: current_def t'_def)
  show "table_ok t'"
    unfolding table_ok_def
  proof (intro conjI allI impI ballI)
    fix b assume "b \<in> set (store_blocks t')"
    then have "b = blk' \<or> b \<in> set (store_blocks t)" using set_update_subset_insert by (fastforce simp: t'_def)
    then show "full_block_ok (table_schema t') (block_capacity t') b" using ok b'(1) by (auto simp: t'_def table_ok_def)
  next
    fix bid ref' assume "map_of (blocks t') bid = Some ref'"
    then have "ref' < length (store_blocks t)" "block_id (store_blocks t ! ref') = bid" "bid < block_counter t"
      using ok by (auto simp: t'_def table_ok_def)
    then show "ref' < length (store_blocks t')" "block_id (store_blocks t' ! ref') = bid"
      "bid < block_counter t'" using b'(2) unfolding blk t'_def by (cases "ref' = ref"; simp)+
  qed (use ok sum in \<open>auto simp: t'_def table_ok_def\<close>)
qed

lemma row_at_swap:
  assumes ok: "table_ok t" and cur: "current t ref" and blk: "blk = store_blocks t ! ref"
    and t': "blocks t' = blocks t" "store_blocks t' = (store_blocks t)[ref := blk']" "block_map t' rid = block_map t rid"
  shows "row_at rid t' = (case block_map t rid of None \<Rightarrow> None | Some info \<Rightarrow>
    if info_block_id info = block_id blk
    then if 0 \<le> row_num info \<and> row_num info < num_rows blk' then Some (rows blk' ! nat (row_num info)) else None
    else row_at rid t)"
proof (cases "block_map t rid")
  case (Some info)
  have r: "ref < length (store_blocks t)" "map_of (blocks t) (block_id blk) = Some ref" using cur blk by (auto simp: current_def)
  show ?thesis
  proof (cases "info_block_id info = block_id blk")
    case True
    then show ?thesis using Some t' r by (simp add: row_at_def)
  next
    case False
    have "ref' \<noteq> ref" if "map_of (blocks t) (info_block_id info) = Some ref'" for ref'
      using ok that False blk by (auto simp: table_ok_def)
    then show ?thesis using False Some t' by (auto simp: row_at_def split: option.splits)
  qed
qed (use t' in \<open>simp add: row_at_def\<close>)

lemma pool_if_room_ok:
  assumes "table_ok t" "current t ref" "block_id blk = block_id (store_blocks t ! ref)"
  shows "table_ok (pool_if_room ref blk t)"
proof -
  have "map_of (blocks t) bid = Some ref'" if "map_of (AList.update (block_id blk) ref (insert_pool t)) bid = Some ref'" for bid ref'
  proof (cases "bid = block_id blk")
    case True
    then show ?thesis using that assms(2,3) by (simp add: current_def update_conv)
  next
    case False
    then have "map_of (insert_pool t) bid = Some ref'" using that by (simp add: update_conv)
    then show ?thesis using assms(1) by (simp add: table_ok_def)
  qed
  then show ?thesis using assms(1) by (simp add: pool_if_room_def table_ok_def)
qed

lemma pool_if_room_simps [simp]:
  "store_blocks (pool_if_room ref blk t) = store_blocks t" "blocks (pool_if_room ref blk t) = blocks t"
  "block_map (pool_if_room ref blk t) = block_map t" "table_rows (pool_if_room ref blk t) = table_rows t"
  by (simp_all add: pool_if_room_def)

lemma row_at_SomeD:
  assumes "row_at rid t = Some row"
  obtains info ref where "block_map t rid = Some info" "map_of (blocks t) (info_block_id info) = Some ref"
    "0 \<le> row_num info" "row_num info < num_rows (store_blocks t ! ref)" "row = rows (store_blocks t ! ref) ! nat (row_num info)"
  using assms that by (auto simp: row_at_def Let_def split: option.splits if_splits)

lemma TableInsertRecord_ok:
  assumes ar: "arrow_ok ar" and fk: "first_key_ok fk" and ok: "table_ok t" and r: "row_ok (table_schema t) record widths"
    and fit: "rec_size (table_schema t) widths \<le> block_capacity t" and n: "table_rows t < 2 ^ 31 - 1"
  shows "\<exists>record' t'. InsertRecordTable ar fk rid record widths t = Inr (record', t') \<and> table_ok t'
    \<and> row_at rid t' = Some (map Inr (encode_row (table_schema t) widths record))
    \<and> (\<forall>rid'. rid' \<noteq> rid \<and> row_at rid' t \<noteq> None \<longrightarrow> row_at rid' t' = row_at rid' t)
    \<and> table_rows t' = table_rows t + 1 \<and> table_schema t' = table_schema t \<and> block_capacity t' = block_capacity t
    \<and> (\<exists>info. block_map t' = (block_map t)(rid \<mapsto> info))"
proof -
  let ?ts = "table_schema t" and ?cap = "block_capacity t" and ?sz = "rec_size (table_schema t) widths"
  have sz: "add_record_size ?ts widths = Inr ?sz" using r add_record_size_eq by (auto simp: row_ok_def)
  have ts: "list_all plain ?ts" "\<forall>w. NumberType w \<in> set ?ts \<longrightarrow> w \<le> 8" "?cap < 2 ^ 31" using ok by (auto simp: table_ok_def)
  obtain ref0 t0 where g: "GetBlockForInsert ar fk t = Inr (ref0, t0)" "table_ok t0" "current t0 ref0" "same_rows t t0"
    using GetBlockForInsert_ok [OF ar fk ok] by blast
  have l0: "ref0 < length (store_blocks t0)" using g(3) by (simp add: current_def)
  obtain ref1 t1 where c: "(if get_bytes_left (store_blocks t0 ! ref0) < ?sz then CreateBlock ar t0 else Inr (ref0, t0)) = Inr (ref1, t1)"
    "table_ok t1" "current t1 ref1" "same_rows t t1" "?sz \<le> get_bytes_left (store_blocks t1 ! ref1)"
  proof (cases "get_bytes_left (store_blocks t0 ! ref0) < ?sz")
    case True
    obtain ref' t' where "CreateBlock ar t0 = Inr (ref', t')" "table_ok t'" "current t' ref'" "same_rows t0 t'"
      "get_bytes_left (store_blocks t' ! ref') = block_capacity t0" using CreateBlock_ok [OF ar g(2)] by blast
    moreover have "block_capacity t0 = ?cap" using g(4) by (simp add: same_rows_def)
    moreover have "same_rows t t'" using same_rows_trans [OF g(4)] calculation(4) by blast
    ultimately show ?thesis using that [of ref' t'] True fit by simp
  next
    case False
    then show ?thesis using that [of ref0 t0] g(2-4) by simp
  qed
  have s: "table_schema t0 = ?ts" "table_schema t1 = ?ts" "block_capacity t1 = ?cap" "block_map t1 = block_map t" "table_rows t1 = table_rows t"
    "\<And>rid. row_at rid t \<noteq> None \<Longrightarrow> row_at rid t1 = row_at rid t"
    using g(4) c(4) by (auto simp: same_rows_def)
  let ?blk = "store_blocks t1 ! ref1"
  have l1: "ref1 < length (store_blocks t1)" using c(3) by (simp add: current_def)
  have fb: "full_block_ok ?ts ?cap ?blk" using table_ok_store [OF c(2) l1] s by simp
  have nr: "num_rows ?blk < 2 ^ 31 - 1" using rows_le_table [OF c(2) l1] s(5) n by linarith
  obtain record' blk' where i: "InsertRecord ar record widths ?blk = Inr (num_rows ?blk, record', blk')"
    "full_block_ok ?ts ?cap blk'" "block_id blk' = block_id ?blk" "num_rows blk' = num_rows ?blk + 1"
    "rows blk' = rows ?blk @ [map Inr (encode_row ?ts widths record)]"
    using InsertRecord_full [OF ar fb r c(5) nr ts] by blast
  have n0: "0 \<le> num_rows ?blk" using fb by (simp add: full_block_ok_def block_ok_def)
  have lr: "length (rows ?blk) = nat (num_rows ?blk)" by (simp add: rows_def)
  define t2 where "t2 = pool_if_room ref1 blk' (t1\<lparr>store_blocks := (store_blocks t1)[ref1 := blk'], table_rows := table_rows t1 + 1\<rparr>)"
  have fb1: "full_block_ok (table_schema t1) (block_capacity t1) blk'" using i(2) s by simp
  let ?t1 = "t1\<lparr>store_blocks := (store_blocks t1)[ref1 := blk'], table_rows := table_rows t1 + 1\<rparr>"
  note p = swap_block_ok [OF c(2,3) refl fb1 i(3,4)]
  have t2: "table_ok t2" using pool_if_room_ok [OF p] i(3) l1 by (simp add: t2_def)
  have t2s: "blocks t2 = blocks t1" "store_blocks t2 = (store_blocks t1)[ref1 := blk']" "block_map t2 = block_map t"
    using s(4) by (simp_all add: t2_def)
  let ?info = "\<lparr>info_block_id = block_id blk', row_num = num_rows ?blk\<rparr>"
  let ?t = "t2\<lparr>block_map := (block_map t2)(rid \<mapsto> ?info)\<rparr>"
  have eq: "InsertRecordTable ar fk rid record widths t = Inr (record', ?t)"
    using g(1) sz s(1) l0 l1 c(1) i(1)
    by (simp add: InsertRecordTable_def TableInsertRecord_def get_record_size_def fetch_def t2_def Let_def)
  have "table_ok ?t" using t2 by (simp add: table_ok_def)
  moreover have "row_at rid ?t = Some (map Inr (encode_row ?ts widths record))"
  proof -
    have "rows blk' ! nat (num_rows ?blk) = map Inr (encode_row ?ts widths record)" using i(5) lr by (simp add: nth_append)
    then show ?thesis using t2s l1 c(3) i(3,4) n0 by (simp add: row_at_def current_def)
  qed
  moreover have "row_at rid' ?t = row_at rid' t" if h: "rid' \<noteq> rid" "row_at rid' t \<noteq> None" for rid'
  proof -
    have o: "row_at rid' t1 = row_at rid' t" using s(6) h(2) by blast
    then obtain row where row: "row_at rid' t1 = Some row" using h(2) by auto
    then obtain info ref where f: "block_map t1 rid' = Some info" "map_of (blocks t1) (info_block_id info) = Some ref"
      "0 \<le> row_num info" "row_num info < num_rows (store_blocks t1 ! ref)" "row = rows (store_blocks t1 ! ref) ! nat (row_num info)"
      by (rule row_at_SomeD)
    have e: "row_at rid' ?t = (case block_map t1 rid' of None \<Rightarrow> None | Some info \<Rightarrow>
      if info_block_id info = block_id ?blk
      then if 0 \<le> row_num info \<and> row_num info < num_rows blk' then Some (rows blk' ! nat (row_num info)) else None
      else row_at rid' t1)"
      using row_at_swap [OF c(2,3) refl, of ?t blk' rid'] t2s s(4) h(1) by simp
    show ?thesis
    proof (cases "info_block_id info = block_id ?blk")
      case True
      then have "ref = ref1" using f(2) c(3) by (simp add: current_def)
      then have "row_num info < num_rows blk'" "nat (row_num info) < length (rows ?blk)" "row = rows ?blk ! nat (row_num info)"
        using f(3-5) i(4) lr by auto
      then show ?thesis using e True f(1,3) i(5) row o by (simp add: nth_append)
    next
      case False
      then show ?thesis using e f(1) o by simp
    qed
  qed
  moreover have "table_rows ?t = table_rows t + 1" using s(5) by (simp add: t2_def)
  moreover have "table_schema ?t = ?ts" "block_capacity ?t = ?cap" using s(2,3) by (simp_all add: t2_def pool_if_room_def)
  moreover have "block_map ?t = (block_map t)(rid \<mapsto> ?info)" using t2s(3) by simp
  ultimately show ?thesis using eq by blast
qed

section \<open>Row stores\<close>

text \<open>
  What the memlog relies on when it replays insertions: a store with room takes a row under its
  key, gives it back, and keeps the rows of the other keys.
\<close>

locale row_store =
  fixes inv :: "'t \<Rightarrow> bool" and room :: "'t \<Rightarrow> nat" and shape :: "'t \<Rightarrow> 's"
    and put :: "'q \<Rightarrow> 't \<Rightarrow> 't res" and get :: "'k \<Rightarrow> 't \<Rightarrow> 'r option"
    and key :: "'q \<Rightarrow> 'k" and row :: "'s \<Rightarrow> 'q \<Rightarrow> 'r" and ok :: "'s \<Rightarrow> 'q \<Rightarrow> bool"
  assumes put_ok: "inv t \<Longrightarrow> ok (shape t) q \<Longrightarrow> 0 < room t \<Longrightarrow>
    \<exists>t'. put q t = Inr t' \<and> inv t' \<and> room t = room t' + 1 \<and> shape t' = shape t
      \<and> get (key q) t' = Some (row (shape t) q)
      \<and> (\<forall>k. k \<noteq> key q \<and> get k t \<noteq> None \<longrightarrow> get k t' = get k t)"
begin

lemma put_all:
  assumes "inv t" "list_all (ok (shape t)) qs" "length qs \<le> room t" "distinct (map key qs)"
  shows "\<exists>t'. fold (\<lambda>q t. and_then t (put q)) qs (Inr t) = Inr t' \<and> inv t' \<and> shape t' = shape t
    \<and> (\<forall>q \<in> set qs. get (key q) t' = Some (row (shape t) q))
    \<and> (\<forall>k. k \<notin> key ` set qs \<and> get k t \<noteq> None \<longrightarrow> get k t' = get k t)"
  using assms
proof (induction qs arbitrary: t)
  case (Cons q qs)
  obtain t1 where t1: "put q t = Inr t1" "inv t1" "room t = room t1 + 1" "shape t1 = shape t"
    "get (key q) t1 = Some (row (shape t) q)" "\<forall>k. k \<noteq> key q \<and> get k t \<noteq> None \<longrightarrow> get k t1 = get k t"
    using put_ok [of t q] Cons.prems by auto
  obtain t' where t': "fold (\<lambda>q t. and_then t (put q)) qs (Inr t1) = Inr t'" "inv t'" "shape t' = shape t1"
    "\<forall>q \<in> set qs. get (key q) t' = Some (row (shape t1) q)"
    "\<forall>k. k \<notin> key ` set qs \<and> get k t1 \<noteq> None \<longrightarrow> get k t' = get k t1"
    using Cons.IH [OF t1(2)] Cons.prems t1(3,4) by auto
  have "key q \<notin> key ` set qs" using Cons.prems(4) by simp
  then have "get (key q) t' = Some (row (shape t) q)" using t'(5) t1(5) by auto
  then show ?case using t1 t' by (intro exI [of _ t']) auto
qed simp

end

type_synonym insert_req = "int \<times> u8 list \<times> int list"

definition put_req :: "arrow \<Rightarrow> first_key \<Rightarrow> insert_req \<Rightarrow> DBTable \<Rightarrow> DBTable res" where
  "put_req ar fk q t = (case q of (rid, record, widths) \<Rightarrow>
     and_then (InsertRecordTable ar fk rid record widths t) (\<lambda>(_, t). Inr t))"

definition req_ok :: "arrow_type list \<times> int \<Rightarrow> insert_req \<Rightarrow> bool" where
  "req_ok sc q \<longleftrightarrow> (case (sc, q) of ((ts, cap), (rid, record, widths)) \<Rightarrow> row_ok ts record widths \<and> rec_size ts widths \<le> cap)"

definition req_row :: "arrow_type list \<times> int \<Rightarrow> insert_req \<Rightarrow> u8 list res list" where
  "req_row sc q = (case q of (rid, record, widths) \<Rightarrow> map Inr (encode_row (fst sc) widths record))"

definition rows_left :: "DBTable \<Rightarrow> nat" where "rows_left t = nat (2 ^ 31 - 1 - table_rows t)"

interpretation table: row_store "\<lambda>t. arrow_ok ar \<and> first_key_ok fk \<and> table_ok t" rows_left
  "\<lambda>t. (table_schema t, block_capacity t)" "put_req ar fk" row_at fst req_row req_ok for ar fk
proof
  fix t q
  assume i: "arrow_ok ar \<and> first_key_ok fk \<and> table_ok t" and q: "req_ok (table_schema t, block_capacity t) q"
    and n: "0 < rows_left t"
  obtain rid rec widths where qe: "q = (rid, rec, widths)" by (cases q)
  have r: "row_ok (table_schema t) rec widths" "rec_size (table_schema t) widths \<le> block_capacity t"
    using q by (auto simp: req_ok_def qe)
  have tr: "table_rows t < 2 ^ 31 - 1" using n by (simp add: rows_left_def)
  from TableInsertRecord_ok [OF _ _ _ r tr, of ar fk rid] i obtain record' t' where
    t': "InsertRecordTable ar fk rid rec widths t = Inr (record', t')" "table_ok t'"
    "row_at rid t' = Some (map Inr (encode_row (table_schema t) widths rec))"
    "\<forall>rid'. rid' \<noteq> rid \<and> row_at rid' t \<noteq> None \<longrightarrow> row_at rid' t' = row_at rid' t"
    "table_rows t' = table_rows t + 1" "table_schema t' = table_schema t" "block_capacity t' = block_capacity t" by blast
  have "rows_left t = rows_left t' + 1" using tr t'(5) by (simp add: rows_left_def)
  then show "\<exists>t'. put_req ar fk q t = Inr t' \<and> (arrow_ok ar \<and> first_key_ok fk \<and> table_ok t')
      \<and> rows_left t = rows_left t' + 1 \<and> (table_schema t', block_capacity t') = (table_schema t, block_capacity t)
      \<and> row_at (fst q) t' = Some (req_row (table_schema t, block_capacity t) q)
      \<and> (\<forall>k. k \<noteq> fst q \<and> row_at k t \<noteq> None \<longrightarrow> row_at k t' = row_at k t)"
    using i t' by (simp add: qe put_req_def req_row_def)
qed

section \<open>Replaying a log into a table\<close>

definition req_op :: "insert_req \<Rightarrow> table_op" where
  "req_op q = (case q of (rid, record, widths) \<Rightarrow> table_op.InsertRecordTable rid record widths)"

lemma apply_req: "apply_op (table_step ar fk) t (Some (req_op q)) = and_then t (put_req ar fk q)"
  by (cases t; cases q) (simp_all add: req_op_def put_req_def)

lemma fold_reqs:
  "fold (\<lambda>c t. apply_op (table_step ar fk) t c) (map (Some \<circ> req_op) qs) t
    = fold (\<lambda>q t. and_then t (put_req ar fk q)) qs t"
  by (induction qs arbitrary: t) (simp_all add: apply_req del: apply_op.simps)

lemma replay_single:
  assumes "tm i = Some name" "\<And>j. tm j = Some name \<Longrightarrow> j = i" "i \<in> set is" "distinct is" "T name = Some t"
  shows "replay step tm ops is T name = Some (fold (\<lambda>c t. apply_op step t c) (ops i) t)"
proof -
  have other: "replay step tm ops is T name = T name" if "i \<notin> set is" for "is" T
    using that
  proof (induction "is" arbitrary: T)
    case (Cons j js)
    then have "tm j \<noteq> Some name" using assms(2) by auto
    then show ?case using Cons by (auto split: option.splits)
  qed simp
  show ?thesis using assms(3-5)
  proof (induction "is" arbitrary: T)
    case (Cons j js)
    show ?case
    proof (cases "j = i")
      case True
      then show ?thesis using Cons.prems other assms(1) by simp
    next
      case False
      then have "tm j \<noteq> Some name" using assms(2) by auto
      then show ?thesis using Cons False by (auto split: option.splits)
    qed
  qed simp
qed

section \<open>Deleting\<close>

definition block_rows :: "int \<Rightarrow> DBTable \<Rightarrow> u8 list res list list option" where
  "block_rows bid t = map_option (\<lambda>ref. rows (store_blocks t ! ref)) (map_of (blocks t) bid)"

lemma reinsert_map:
  assumes "reinsert ar bs cs k r d (bmap, rmap, blk) = Inr (m, row_map, blk')" "\<forall>j v. rmap j = Some v \<longrightarrow> v = 0" "rid \<noteq> 0"
  shows "m rid = bmap rid"
  using assms(1,2)
proof (induction k arbitrary: r d bmap rmap blk)
  case (Suc k)
  obtain row_id rmap1 where ra: "map_at 0 (r + d) rmap = (row_id, rmap1)" by (cases "map_at 0 (r + d) rmap")
  have z: "row_id = 0" "\<forall>j v. rmap1 j = Some v \<longrightarrow> v = 0"
    using ra Suc.prems(2) by (auto simp: map_at_def split: option.splits if_splits)
  obtain info bmap1 where ba: "map_at \<lparr>info_block_id = 0, row_num = 0\<rparr> row_id bmap = (info, bmap1)"
    by (cases "map_at \<lparr>info_block_id = 0, row_num = 0\<rparr> row_id bmap")
  have b: "bmap1 rid = bmap rid" using ba z(1) assms(3) by (auto simp: map_at_def split: option.splits)
  show ?case
    using Suc.prems(1) Suc.IH [OF _ z(2)] Suc.IH [OF _ Suc.prems(2)] ra ba b z(1) assms(3)
    by (auto simp: and_then_Inr Let_def split: if_splits)
qed simp

lemma remove_nth: "map ((!) xs) (filter (\<lambda>r. r \<noteq> k) [0..<length xs]) = take k xs @ drop (Suc k) xs"
proof (induction xs rule: rev_induct)
  case (snoc x xs)
  have "map ((!) (xs @ [x])) (filter (\<lambda>r. r \<noteq> k) [0..<length xs]) = map ((!) xs) (filter (\<lambda>r. r \<noteq> k) [0..<length xs])"
    by (auto simp: nth_append)
  moreover have "map ((!) (xs @ [x])) [0..<length xs] = xs" by (intro nth_equalityI) (auto simp: nth_append)
  ultimately show ?case using snoc by (cases k "length xs" rule: linorder_cases) auto
qed simp

lemma set_invalid_ok:
  assumes ok: "block_ok blk" and k: "k < nat (num_rows blk)" and v: "\<forall>q < nat (num_rows blk). get_valid (int q) blk = Inr True"
  shows "\<exists>blk'. set_valid (int k) False blk = Inr blk' \<and> block_ok blk' \<and> schema blk' = schema blk
    \<and> rows blk' = rows blk \<and> num_rows blk' = num_rows blk \<and> capacity blk' = capacity blk \<and> row_id_map blk' = row_id_map blk
    \<and> (\<forall>q < nat (num_rows blk). get_valid (int q) blk' = Inr (q \<noteq> k))"
proof -
  let ?bs = "bytes (buffer1 (valid blk))"
  have n: "num_rows blk < 2 ^ 31" "nat (num_rows blk) \<le> 8 * length ?bs" using ok by (auto simp: block_ok_def valid_ok_def)
  have idx: "q div 8 < length ?bs" "int q < 2 ^ 32" if "q < nat (num_rows blk)" for q using that n by auto
  obtain bs where s: "set_valid (int k) False blk
      = Inr (blk\<lparr>valid := (valid blk)\<lparr>buffer1 := (buffer1 (valid blk))\<lparr>bytes := bs\<rparr>\<rparr>\<rparr>)"
    "length bs = length ?bs" "vbit bs k = False" "\<forall>r'. r' \<noteq> k \<longrightarrow> vbit bs r' = vbit ?bs r'"
    using set_valid_ok [OF idx(2,1) [OF k], of False] by blast
  let ?blk = "blk\<lparr>valid := (valid blk)\<lparr>buffer1 := (buffer1 (valid blk))\<lparr>bytes := bs\<rparr>\<rparr>\<rparr>"
  have "get_valid (int q) ?blk = Inr (q \<noteq> k)" if q: "q < nat (num_rows blk)" for q
    using get_valid_eq [of q ?blk] get_valid_eq [of q blk] v idx [OF q] s(2-4) q by (cases "q = k") auto
  moreover have "block_ok ?blk" using ok s(2) by (simp add: block_ok_def num_cols_def valid_ok_def)
  ultimately show ?thesis using s(1) by (simp add: rows_def num_cols_def)
qed

lemma copyable_plain: "list_all copyable ts \<Longrightarrow> list_all plain ts"
proof (induction ts)
  case (Cons t ts)
  then show ?case by (cases t) auto
qed simp

lemma table_ok_ref: "table_ok t \<Longrightarrow> map_of (blocks t) bid = Some ref \<Longrightarrow>
    ref < length (store_blocks t) \<and> block_id (store_blocks t ! ref) = bid"
  by (simp add: table_ok_def)

lemma DeleteRecordTable_ok:
  assumes ar: "arrow_ok ar" and ok: "table_ok t" and cp: "list_all copyable (table_schema t)"
    and row: "block_map t rid = Some info" "map_of (blocks t) (info_block_id info) = Some ref"
      "0 \<le> row_num info" "row_num info < num_rows (store_blocks t ! ref)"
  shows "\<exists>t' new. DeleteRecordTable ar rid t = Inr t' \<and> table_rows t' = table_rows t - 1
    \<and> map_of (blocks t') (info_block_id info) = Some (length (store_blocks t))
    \<and> store_blocks t' ! length (store_blocks t) = new
    \<and> rows new = take (nat (row_num info)) (rows (store_blocks t ! ref)) @ drop (Suc (nat (row_num info))) (rows (store_blocks t ! ref))
    \<and> num_rows new = num_rows (store_blocks t ! ref) - 1
    \<and> (\<forall>bid. bid \<noteq> info_block_id info \<longrightarrow> block_rows bid t' = block_rows bid t)
    \<and> (row_id_map (store_blocks t ! ref) = Map.empty \<longrightarrow> (\<forall>rid'. rid' \<noteq> 0 \<longrightarrow> block_map t' rid' = block_map t rid'))"
proof -
  let ?blk = "store_blocks t ! ref" and ?k = "nat (row_num info)" and ?id = "info_block_id info"
  have ref: "ref < length (store_blocks t)" using ok row(2) by (simp add: table_ok_def)
  have fb: "full_block_ok (table_schema t) (block_capacity t) ?blk" by (rule table_ok_store [OF ok ref])
  then have b: "block_ok ?blk" "schema ?blk = table_schema t" "capacity ?blk = block_capacity t"
    "\<forall>q < nat (num_rows ?blk). get_valid (int q) ?blk = Inr True" by (auto simp: full_block_ok_def)
  have k: "?k < nat (num_rows ?blk)" "int ?k = row_num info" using row(3,4) by auto
  obtain blk1 where s: "set_valid (row_num info) False ?blk = Inr blk1" "block_ok blk1" "schema blk1 = schema ?blk"
    "rows blk1 = rows ?blk" "num_rows blk1 = num_rows ?blk" "capacity blk1 = capacity ?blk" "row_id_map blk1 = row_id_map ?blk"
    "\<forall>q < nat (num_rows ?blk). get_valid (int q) blk1 = Inr (q \<noteq> ?k)"
    using set_invalid_ok [OF b(1) k(1) b(4)] k(2) by auto
  have w: "0 < row_width (table_schema t)" "row_width (table_schema t) \<le> capacity blk1" using ok b(3) s(6) by (auto simp: table_ok_def)
  have ne: "table_schema t \<noteq> []" using w(1) by (auto simp: row_width_def)
  obtain upd where u: "Block_new ar ?id (table_schema t) (capacity blk1) False = Inr upd" "block_ok upd" "rows upd = []"
    "schema upd = table_schema t" "num_rows upd = 0" "column_sizes upd = map (\<lambda>_. 0) (table_schema t)"
    using Block_new_ok [OF ar copyable_plain [OF cp] w] by blast
  obtain m rmap new where c: "InsertRecordsFrom ar (valid blk1) (columns blk1) (block_map t, row_id_map blk1, upd) = Inr (m, rmap, new)"
    "rows new = map ((!) (rows blk1)) (filter (\<lambda>r. get_valid (int r) blk1 = Inr True) [0..<nat (num_rows blk1)])"
    "num_rows new = int (length (rows new))"
    using compact_ok [OF ar s(2) _ ne cp u(2,4,5,6,3), of "block_map t" "row_id_map blk1"] s(3) b(2) by auto
  have len: "length (rows ?blk) = nat (num_rows ?blk)" by (simp add: rows_def)
  have "filter (\<lambda>r. get_valid (int r) blk1 = Inr True) [0..<nat (num_rows ?blk)] = filter (\<lambda>r. r \<noteq> ?k) [0..<nat (num_rows ?blk)]"
    using s(8) by (intro filter_cong) auto
  then have rw: "rows new = take ?k (rows ?blk) @ drop (Suc ?k) (rows ?blk)"
    using c(2) s(4,5) remove_nth [of "rows ?blk" ?k] len by simp
  have nr: "num_rows new = num_rows ?blk - 1" using c(3) rw len k by auto
  have map: "m rid' = block_map t rid'" if "row_id_map ?blk = Map.empty" "rid' \<noteq> 0" for rid'
    using c(1) reinsert_map [of ar _ _ _ 0 0 _ _ _ m rmap new rid'] that s(7)
    by (auto simp: InsertRecordsFrom_def and_then_Inr)
  define t' where "t' = t\<lparr>block_map := m, store_blocks := (store_blocks t)[ref := blk1\<lparr>row_id_map := rmap\<rparr>] @ [new],
    blocks := AList.update ?id (length (store_blocks t)) (blocks t), table_rows := table_rows t - 1,
    insert_pool := (if map_of (insert_pool t) ?id \<noteq> None then AList.update ?id (length (store_blocks t)) (insert_pool t) else insert_pool t)\<rparr>"
  have eq: "DeleteRecordTable ar rid t = Inr t'"
    using row(1,2) ref s(1) u(1) c(1) by (simp add: DeleteRecordTable_def get_block_def fetch_def Let_def t'_def)
  have "block_rows bid t' = block_rows bid t" if h: "bid \<noteq> ?id" for bid
  proof (cases "map_of (blocks t) bid")
    case (Some ref')
    then have "ref' < length (store_blocks t)" "ref' \<noteq> ref" using table_ok_ref [OF ok] h row(2) by auto
    then show ?thesis using Some h by (simp add: block_rows_def t'_def update_conv nth_append)
  qed (use h in \<open>simp add: block_rows_def t'_def update_conv\<close>)
  then show ?thesis using eq rw nr map by (intro exI [of _ t'] exI [of _ new]) (simp add: t'_def update_conv nth_append)
qed

section \<open>Updating\<close>

lemma skip_columns_eq:
  assumes "c + k \<le> length widths"
  shows "skip_columns k (int c) widths off = Inr (off + sum_list (take k (drop c widths)), int (c + k))"
  using assms
proof (induction k arbitrary: c off)
  case (Suc k)
  then have "drop c widths = widths ! c # drop (Suc c) widths" by (simp add: Cons_nth_drop_Suc)
  then show ?case using Suc.IH [of "Suc c" "off + widths ! c"] Suc.prems by (simp add: fetch_def add.commute)
qed simp

lemma content_update:
  assumes "rows blk' = (rows blk)[r := (rows blk ! r)[i := v]]" "r < length (rows blk)" "i < length (rows blk ! r)"
    "clen v = clen (rows blk ! r ! i)"
  shows "content blk' = content blk"
proof -
  have "map clen ((rows blk ! r)[i := v]) = map clen (rows blk ! r)"
    using assms(3,4) by (simp add: map_update list_update_same_conv)
  then have "map (\<lambda>row. sum_list (map clen row)) (rows blk') = map (\<lambda>row. sum_list (map clen row)) (rows blk)"
    using assms(1,2) by (simp add: map_update list_update_same_conv)
  then show ?thesis by (simp add: content_def)
qed

lemma number_cell_length:
  assumes "column_ok n (NumberType w) col" "r < n"
  shows "clen (cell (NumberType w) r col) = w"
proof -
  have "(r + 1) * w \<le> n * w" using assms(2) by (intro mult_right_mono) auto
  then have le: "r * w + w \<le> length (bytes (buffer1 col))" using assms(1) by auto
  then have "int (r * w + w) \<le> int (length (bytes (buffer1 col)))" by (simp only: of_nat_le_iff)
  then have "load (int r * int w) (int w) (bytes (buffer1 col))
      = Inr (take w (drop (r * w) (bytes (buffer1 col))))"
    by (simp add: load_def nat_mult_distrib)
  then show ?thesis using le by (simp add: cell_def)
qed

lemma UpdateColumn_full:
  assumes b: "full_block_ok ts cap blk" and i: "i < length ts" "ts ! i = NumberType w"
    and row: "0 \<le> row" "row < num_rows blk"
    and pos: "0 \<le> pos" "pos + max bw 0 \<le> int (length record)" and bw: "bw \<le> int w"
  shows "\<exists>record' blk'. UpdateColumnValue w i row pos bw record blk = Inr (record', blk')
    \<and> full_block_ok ts cap blk' \<and> block_id blk' = block_id blk \<and> num_rows blk' = num_rows blk
    \<and> rows blk' = (rows blk)[nat row := (rows blk ! nat row)[i :=
          Inr (value_bytes w bw (take (nat bw) (drop (nat pos) record)))]]"
proof -
  have s: "schema blk = ts" "block_ok blk" "capacity blk = cap" using b by (auto simp: full_block_ok_def)
  have nc: "num_cols blk = length ts" using s(1) by (simp add: num_cols_def)
  let ?v = "value_bytes w bw (take (nat bw) (drop (nat pos) record))"
  obtain record' blk' where u: "UpdateColumnValue w i row pos bw record blk = Inr (record', blk')" "block_ok blk'"
    "schema blk' = schema blk" "num_rows blk' = num_rows blk" "block_id blk' = block_id blk" "capacity blk' = capacity blk"
    "num_bytes blk' = num_bytes blk" "valid blk' = valid blk"
    "rows blk' = (rows blk)[nat row := (rows blk ! nat row)[i := Inr ?v]]"
    using UpdateColumnValue_ok [OF s(2) _ _ row pos bw, of i] i nc s(1) by auto
  define n r where "n = nat (num_rows blk)" and "r = nat row"
  have r: "r < n" using row by (simp add: n_def r_def)
  have c: "column_ok n (NumberType w) (columns blk ! i)" using s(2) i nc s(1) by (auto simp: block_ok_def n_def)
  have "length ?v = w"
    using value_bytes_length [OF bw, of "take (nat bw) (drop (nat pos) record)"] c pos by (auto simp: max_def split: if_splits)
  moreover have "rows blk ! r ! i = cell (NumberType w) r (columns blk ! i)" using r i nc s(1) by (simp add: rows_def n_def)
  ultimately have "clen (Inr ?v) = clen (rows blk ! r ! i)" using number_cell_length [OF c r] by simp
  then have "content blk' = content blk"
    using content_update [OF u(9) [folded r_def]] r i nc by (simp add: rows_def n_def)
  moreover have "get_valid q blk' = get_valid q blk" for q using u(8) by (simp add: get_valid_def)
  ultimately have "full_block_ok ts cap blk'" using b u s by (simp add: full_block_ok_def)
  then show ?thesis using u by blast
qed

section \<open>Properties\<close>

definition first_of :: first_key where "first_of m = (case m of [] \<Rightarrow> 0 | (k, _) # _ \<Rightarrow> k)"

lemma first_of_ok: "first_key_ok first_of"
  by (auto simp: first_key_ok_def first_of_def split: list.splits)

lemma DBTable_new_ok:
  assumes "list_all plain ts" "\<forall>w. NumberType w \<in> set ts \<longrightarrow> w \<le> 8" "0 < row_width ts" "row_width ts \<le> cap" "cap < 2 ^ 31"
  shows "\<exists>t. DBTable_new ts cap md = Inr t \<and> table_ok t \<and> table_schema t = ts \<and> block_capacity t = cap \<and> table_rows t = 0
    \<and> block_map t = Map.empty"
  using assms widths_plain(1) [OF assms(1)] by (simp add: DBTable_new_def table_ok_def)

text \<open>C25: a new table takes any number of insertions with distinct row ids (the memlog's calls): every
  one succeeds, the invariant of the table holds at the end, and every row id gives back the
  encoding of its own record, whatever blocks the records went to.
\<close>

theorem table_insertions:
  assumes "arrow_ok ar" "first_key_ok fk" "table_ok t" "list_all (req_ok (table_schema t, block_capacity t)) qs"
    "distinct (map fst qs)" "table_rows t + int (length qs) < 2 ^ 31"
  shows "\<exists>t'. fold (\<lambda>q t. and_then t (put_req ar fk q)) qs (Inr t) = Inr t' \<and> table_ok t'
    \<and> (\<forall>(rid, rec, widths) \<in> set qs. row_at rid t' = Some (map Inr (encode_row (table_schema t) widths rec)))
    \<and> (\<forall>rid. rid \<notin> fst ` set qs \<and> row_at rid t \<noteq> None \<longrightarrow> row_at rid t' = row_at rid t)"
proof -
  have "length qs \<le> rows_left t" using assms(6) by (simp add: rows_left_def)
  from table.put_all [of ar fk t qs, OF _ assms(4) this assms(5)] assms(1-3) show ?thesis
    by (auto simp: req_row_def split_def)
qed


lemma sample_table:
  "\<exists>t info. table_ok t \<and> table_schema t = [NumberType 8, StringType] \<and> block_capacity t = 76 \<and> table_rows t = 1
    \<and> block_map t = [1 \<mapsto> info] \<and> row_at 1 t = Some [Inr [3, 2, 1, 0, 0, 0, 0, 0], Inr [65, 66]]"
proof -
  obtain t where t: "table_ok t" "table_schema t = [NumberType 8, StringType]" "block_capacity t = 76" "table_rows t = 0"
    "block_map t = Map.empty"
    using DBTable_new_ok [of "[NumberType 8, StringType]" 76 False] by (auto simp: row_width_def)
  have r: "row_ok (table_schema t) [1, 2, 3, 65, 66] [3, 2]" "rec_size (table_schema t) [3, 2] \<le> block_capacity t"
    using t(2,3) by (simp_all add: row_ok_def rec_size_def)
  from TableInsertRecord_ok [OF arrow64_ok first_of_ok t(1) r, of 1] t(2-5) show ?thesis
    by (auto simp: value_bytes_def numeral_eq_Suc)
qed

theorem table_insertions_witness:
  "\<exists>t t'. DBTable_new [NumberType 8, StringType] 76 False = Inr t
    \<and> fold (\<lambda>q t. and_then t (put_req arrow64 first_of q)) [(4, [7], [1, 0]), (5, [8, 65], [1, 1])] (Inr t) = Inr t'
    \<and> row_at 4 t' = Some [Inr [7, 0, 0, 0, 0, 0, 0, 0], Inr []]
    \<and> row_at 5 t' = Some [Inr [8, 0, 0, 0, 0, 0, 0, 0], Inr [65]]"
proof -
  obtain t where t: "DBTable_new [NumberType 8, StringType] 76 False = Inr t" "table_ok t"
    "table_schema t = [NumberType 8, StringType]" "block_capacity t = 76" "table_rows t = 0"
    using DBTable_new_ok [of "[NumberType 8, StringType]" 76 False] by (auto simp: row_width_def)
  from table_insertions [OF arrow64_ok first_of_ok t(2), of "[(4, [7], [1, 0]), (5, [8, 65], [1, 1])]"] t show ?thesis
    by (auto simp: req_ok_def row_ok_def rec_size_def value_bytes_def numeral_eq_Suc)
qed


text \<open>C29: deleting a row of a table of eight-byte numbers and strings: the block of the row is
  replaced by one without that row and with the others in order; the other blocks keep theirs.
\<close>

theorem DeleteRecordTable_removes:
  assumes "arrow_ok ar" "table_ok t" "list_all copyable (table_schema t)" "row_at rid t \<noteq> None"
  shows "\<exists>t' info bs. DeleteRecordTable ar rid t = Inr t' \<and> block_map t rid = Some info
    \<and> block_rows (info_block_id info) t = Some bs
    \<and> block_rows (info_block_id info) t' = Some (take (nat (row_num info)) bs @ drop (Suc (nat (row_num info))) bs)
    \<and> (\<forall>bid. bid \<noteq> info_block_id info \<longrightarrow> block_rows bid t' = block_rows bid t)
    \<and> table_rows t' = table_rows t - 1"
proof -
  obtain row where "row_at rid t = Some row" using assms(4) by auto
  then obtain info ref where f: "block_map t rid = Some info" "map_of (blocks t) (info_block_id info) = Some ref"
      "0 \<le> row_num info" "row_num info < num_rows (store_blocks t ! ref)" by (rule row_at_SomeD)
  from DeleteRecordTable_ok [OF assms(1-3) f] f(1,2) show ?thesis
    by (auto simp: block_rows_def [of "info_block_id info"])
qed

theorem DeleteRecordTable_removes_witness:
  "\<exists>t t'. row_at 1 t = Some [Inr [3, 2, 1, 0, 0, 0, 0, 0], Inr [65, 66]]
    \<and> DeleteRecordTable arrow64 1 t = Inr t' \<and> table_rows t' = 0"
proof -
  obtain t info where t: "table_ok t" "table_schema t = [NumberType 8, StringType]" "table_rows t = 1"
    "row_at 1 t = Some [Inr [3, 2, 1, 0, 0, 0, 0, 0], Inr [65, 66]]" using sample_table by blast
  from DeleteRecordTable_removes [OF arrow64_ok t(1)] t(2-4) show ?thesis by fastforce
qed

definition inserted :: "arrow_type list \<Rightarrow> int \<Rightarrow> insert_req list \<Rightarrow> DBTable res" where
  "inserted ts cap qs = and_then (DBTable_new ts cap False) (\<lambda>t.
     fold (\<lambda>q t. and_then t (put_req arrow64 first_of q)) qs (Inr t))"


lemma ForEachBatch_ok:
  "if hw = 0 \<or> n = 0 then ForEachBatch hw n = Inl DivByZero
   else \<exists>k size. ForEachBatch hw n = Inr (map (\<lambda>i. (i, size)) [0..<k]) \<and> 0 < size
     \<and> (k - 1) * unat size < unat n \<and> unat n \<le> k * unat size \<and> k < 2 * unat hw"
proof (cases "hw = 0 \<or> n = 0")
  case False
  define size where "size = (if n div hw = 0 then n else n div hw)"
  have h: "0 < unat hw" "0 < unat n" using False by (auto simp: unat_gt_0)
  have s0: "size \<noteq> 0" using False by (simp add: size_def)
  then have s: "0 < unat size" by (simp add: unat_gt_0)
  have us: "unat size = (if unat n div unat hw = 0 then unat n else unat n div unat hw)"
    by (auto simp: size_def unat_div simp flip: unat_eq_zero)
  have n1: "unat (n - 1) = unat n - 1" using h by (simp add: unat_sub word_le_nat_alt)
  define k where "k = 1 + (unat n - 1) div unat size"
  have "(unat n - 1) div unat size < 2 ^ 64 - 1"
    using h n1 unsigned_less [of n, where ?'a = nat] by (intro le_less_trans [OF div_le_dividend]) simp
  then have "unat (1 + (n - 1) div size) = k" by (simp add: k_def unat_word_ariths unat_div n1)
  then have "ForEachBatch hw n = Inr (map (\<lambda>i. (i, size)) [0..<k])"
    using False s0 by (simp add: ForEachBatch_def Let_def size_def [symmetric])
  moreover have "(k - 1) * unat size < unat n"
  proof -
    have "unat size * ((unat n - 1) div unat size) \<le> unat n - 1" by (rule times_div_less_eq_dividend)
    then have "unat size * ((unat n - 1) div unat size) < unat n" using h by linarith
    then show ?thesis by (simp add: k_def mult.commute)
  qed
  moreover have "unat n \<le> k * unat size"
    using h s dividend_less_times_div [of "unat size" "unat n - 1"] by (simp add: k_def mult.commute)
  moreover have "k < 2 * unat hw"
  proof (cases "unat n div unat hw = 0")
    case True
    then show ?thesis using h us by (simp add: k_def)
  next
    case q: False
    then have us': "unat size = unat n div unat hw" using us by simp
    have "unat n mod unat hw \<le> unat hw - 1" using h by (simp add: Suc_leI less_Suc_eq_le [symmetric])
    also have "\<dots> \<le> (unat hw - 1) * (unat n div unat hw)" using q by simp
    finally have "unat n \<le> (unat hw + (unat hw - 1)) * unat size"
      using div_mult_mod_eq [of "unat n" "unat hw"] us' unfolding add_mult_distrib by (simp only: mult.commute)
    then have "unat n - 1 < (2 * unat hw - 1) * unat size" using h by (simp add: mult_2)
    then have "(unat n - 1) div unat size < 2 * unat hw - 1" by (rule less_mult_imp_div_less)
    then show ?thesis by (simp add: k_def)
  qed
  ultimately show ?thesis using False s0 by (auto simp: word_gt_0)
qed (auto simp: ForEachBatch_def)

text \<open>C31: a parallel scan of a table with blocks visits every block exactly once: block \<open>j\<close> is in
  batch \<open>j div size\<close>, the last batch is not empty, and there are less than twice as many batches as
  threads. A table without blocks, or a machine that does not know its threads, is a division by
  zero.
\<close>

theorem ForEachBatch_covers:
  "if hw = 0 \<or> n = 0 then ForEachBatch hw n = Inl DivByZero
   else \<exists>k size. ForEachBatch hw n = Inr (map (\<lambda>i. (i, size)) [0..<k]) \<and> 0 < size
     \<and> (k - 1) * unat size < unat n \<and> unat n \<le> k * unat size \<and> k < 2 * unat hw"
  by (rule ForEachBatch_ok)

end
