(* ===== verification/BlockMetadata.thy ===== *)
theory BlockMetadata
  imports Table OperatorData
begin

text \<open>
  Blocks with metadata (\<open>ma_block.h\<close>, \<open>ma_block.cc\<close>, \<open>metadata_units/sma.cc\<close>, the metadata operations of
  \<open>table.cc\<close>): the least and the greatest value of each numeric column of a block, with which a selection
  may skip the block. First the operations, then when a search may be believed.
\<close>

section \<open>Values and the kernels of Arrow\<close>

text \<open>
  A C type by its size and the value that its bytes represent; \<open>minus_u8\<close> is \<open>(uint8_t)(x - lo)\<close>. A datum
  holds nothing, a null or a value.
\<close>

record 'v c_type =
  sizeof :: nat
  of_bytes :: "u8 list \<Rightarrow> 'v"
  minus_u8 :: "'v \<Rightarrow> u8 \<Rightarrow> u8 res"

datatype 'v datum = NoDatum | NullScalar | Scalar 'v

record bool_array =
  ba_length :: nat
  ba_bits :: "u8 list"

text \<open>
  The compute kernels; an error is its message. \<open>scalar_data\<close> is \<open>BooleanScalar::data()\<close> as a truth value,
  of a null (\<open>None\<close>) or a Boolean. \<open>first_byte\<close> is the first byte of the value of a scalar.
\<close>

record 'v arrow_compute =
  min_max :: "'v c_type \<Rightarrow> array_data \<Rightarrow> string + 'v datum \<times> 'v datum"
  compare_datums :: "CompareOperator \<Rightarrow> 'v datum \<Rightarrow> 'v datum \<Rightarrow> string + bool option"
  scalar_data :: "bool option \<Rightarrow> bool"
  compare_array :: "CompareOperator \<Rightarrow> array_data \<Rightarrow> 'v datum \<Rightarrow> string + bool_array"
  first_byte :: "'v \<Rightarrow> u8"

text \<open>\<open>comparator_switcher\<close>: the comparison of two values of one C type.\<close>

fun comparator_fun :: "CompareOperator \<Rightarrow> 'v::linorder \<Rightarrow> 'v \<Rightarrow> bool" where
  "comparator_fun EQUAL x y \<longleftrightarrow> x = y"
| "comparator_fun NOT_EQUAL x y \<longleftrightarrow> x \<noteq> y"
| "comparator_fun GREATER x y \<longleftrightarrow> x > y"
| "comparator_fun GREATER_EQUAL x y \<longleftrightarrow> x \<ge> y"
| "comparator_fun LESS x y \<longleftrightarrow> x < y"
| "comparator_fun LESS_EQUAL x y \<longleftrightarrow> x \<le> y"

section \<open>Small materialised aggregates\<close>

text \<open>The status is the error message, if any.\<close>

record 'v Sma =
  sma_status :: "string option"
  sma_min :: "'v datum"
  sma_max :: "'v datum"

definition Sma_new :: "'v arrow_compute \<Rightarrow> 'v c_type \<Rightarrow> array_data \<Rightarrow> 'v Sma" where
  "Sma_new cp ct arr =
    (case min_max cp ct arr of
       Inl msg \<Rightarrow> \<lparr>sma_status = Some msg, sma_min = NoDatum, sma_max = NoDatum\<rparr>
     | Inr (mn, mx) \<Rightarrow> \<lparr>sma_status = None, sma_min = mn, sma_max = mx\<rparr>)"

definition GetStatus :: "'v Sma \<Rightarrow> string option" where "GetStatus s = sma_status s"

definition answer :: "'v arrow_compute \<Rightarrow> string + bool option \<Rightarrow> bool" where
  "answer cp result = (case result of Inr b \<Rightarrow> scalar_data cp b | Inl _ \<Rightarrow> True)"

definition Sma_Search :: "'v arrow_compute \<Rightarrow> 'v datum \<Rightarrow> CompareOperator \<Rightarrow> 'v Sma \<Rightarrow> bool" where
  "Sma_Search cp val_ptr compare_operator s =
    (case compare_operator of
       GREATER \<Rightarrow> answer cp (compare_datums cp compare_operator (sma_max s) val_ptr)
     | GREATER_EQUAL \<Rightarrow> answer cp (compare_datums cp compare_operator (sma_max s) val_ptr)
     | LESS \<Rightarrow> answer cp (compare_datums cp compare_operator (sma_min s) val_ptr)
     | LESS_EQUAL \<Rightarrow> answer cp (compare_datums cp compare_operator (sma_min s) val_ptr)
     | EQUAL \<Rightarrow>
         (case (compare_datums cp LESS_EQUAL (sma_max s) val_ptr, compare_datums cp LESS_EQUAL (sma_min s) val_ptr) of
            (Inr b, Inr c) \<Rightarrow> scalar_data cp b \<and> scalar_data cp c
          | _ \<Rightarrow> True)
     | NOT_EQUAL \<Rightarrow> True)"

section \<open>Metadata of a block\<close>

text \<open>
  What \<open>MetadataAttachedBlock\<close> adds to a block. \<open>cts\<close> are the C types of the columns.
\<close>

record 'v metadata =
  column_metadata_list :: "'v Sma list list"
  column_metadata_valid :: "bool list"

definition metadata_new :: "nat \<Rightarrow> 'v metadata" where
  "metadata_new n = \<lparr>column_metadata_list = replicate n [], column_metadata_valid = replicate n False\<rparr>"

text \<open>\<open>&entry[i]\<close> is the object only for the first one.\<close>

fun verify_metadata :: "nat \<Rightarrow> 'v Sma list \<Rightarrow> 'v Sma list res" where
  "verify_metadata i [] = Inr []"
| "verify_metadata i (entry # rest) =
    (if GetStatus entry = None
     then (if i = 0 then and_then (verify_metadata (i + 1) rest) (\<lambda>out. Inr (entry # out)) else Inl OutOfBounds)
     else Inl RuntimeError)"

definition GenerateMetadataForColumn :: "'v arrow_compute \<Rightarrow> (nat \<Rightarrow> 'v c_type) \<Rightarrow> block \<Rightarrow> int \<Rightarrow> 'v Sma list res" where
  "GenerateMetadataForColumn cp cts blk column_id =
    and_then (at_offset (columns blk) column_id) (\<lambda>col.
    and_then (at_offset (schema blk) column_id) (\<lambda>ty.
      verify_metadata 0 (case ty of NumberType _ \<Rightarrow> [Sma_new cp (cts (nat column_id)) col] | _ \<Rightarrow> [])))"

definition BuildColumnMetadata :: "'v arrow_compute \<Rightarrow> (nat \<Rightarrow> 'v c_type) \<Rightarrow> block \<Rightarrow> int \<Rightarrow> 'v metadata \<Rightarrow> 'v metadata res" where
  "BuildColumnMetadata cp cts blk column_id md =
    and_then (GenerateMetadataForColumn cp cts blk column_id) (\<lambda>out.
    and_then (at_offset (column_metadata_list md) column_id) (\<lambda>_.
    and_then (at_offset (column_metadata_valid md) column_id) (\<lambda>_.
      Inr \<lparr>column_metadata_list = (column_metadata_list md)[nat column_id := out],
           column_metadata_valid = (column_metadata_valid md)[nat column_id := True]\<rparr>)))"

fun build_columns :: "'v arrow_compute \<Rightarrow> (nat \<Rightarrow> 'v c_type) \<Rightarrow> block \<Rightarrow> nat list \<Rightarrow> 'v metadata \<Rightarrow> 'v metadata res" where
  "build_columns cp cts blk [] md = Inr md"
| "build_columns cp cts blk (i # is) md =
    and_then (BuildColumnMetadata cp cts blk (int i) md) (build_columns cp cts blk is)"

definition BuildMetadata :: "'v arrow_compute \<Rightarrow> (nat \<Rightarrow> 'v c_type) \<Rightarrow> block \<Rightarrow> 'v metadata \<Rightarrow> 'v metadata res" where
  "BuildMetadata cp cts blk md = build_columns cp cts blk [0..<num_cols blk] md"

text \<open>By name; \<open>field\<close> is \<open>GetFieldIndex\<close> of the schema, -1 for a name that it does not have.\<close>

definition BuildMetadataByName :: "'v arrow_compute \<Rightarrow> (nat \<Rightarrow> 'v c_type) \<Rightarrow> (string \<Rightarrow> int) \<Rightarrow> block \<Rightarrow> string \<Rightarrow> 'v metadata
    \<Rightarrow> 'v metadata res" where
  "BuildMetadataByName cp cts field blk name md = BuildColumnMetadata cp cts blk (field name) md"

text \<open>The constructors: without data the metadata is left empty, with a record batch it is built.\<close>

definition MetadataAttachedBlock_new :: "arrow \<Rightarrow> int \<Rightarrow> arrow_type list \<Rightarrow> int \<Rightarrow> (block \<times> 'v metadata) res" where
  "MetadataAttachedBlock_new ar bid in_schema cap =
    and_then (Block_new ar bid in_schema cap True) (\<lambda>blk. Inr (blk, metadata_new (num_cols blk)))"

definition MetadataAttachedBlock_of_batch :: "'v arrow_compute \<Rightarrow> (nat \<Rightarrow> 'v c_type) \<Rightarrow> arrow \<Rightarrow> int \<Rightarrow> int \<Rightarrow> arrow_type list
    \<Rightarrow> int \<Rightarrow> array_data list \<Rightarrow> int \<Rightarrow> (block \<times> 'v metadata) res" where
  "MetadataAttachedBlock_of_batch cp cts ar uninit bid batch_schema n cols cap =
    and_then (Block_of_batch ar uninit bid batch_schema n cols cap True) (\<lambda>blk.
    and_then (BuildMetadata cp cts blk (metadata_new (num_cols blk))) (\<lambda>md. Inr (blk, md)))"

fun search_units :: "('u \<Rightarrow> bool) \<Rightarrow> 'u list \<Rightarrow> bool" where
  "search_units search [] \<longleftrightarrow> True"
| "search_units search (u # us) \<longleftrightarrow> (if \<not> search u then False else search_units search us)"

definition CheckValidMetadata :: "int \<Rightarrow> 'v metadata \<Rightarrow> bool res" where
  "CheckValidMetadata column_id md = at_offset (column_metadata_valid md) column_id"

definition SearchMetadata :: "'v arrow_compute \<Rightarrow> int \<Rightarrow> 'v datum \<Rightarrow> CompareOperator \<Rightarrow> 'v metadata \<Rightarrow> bool res" where
  "SearchMetadata cp column_id val_ptr op md =
    and_then (CheckValidMetadata column_id md) (\<lambda>v.
      if v then and_then (at_offset (column_metadata_list md) column_id) (\<lambda>us. Inr (search_units (Sma_Search cp val_ptr op) us))
      else Inr True)"

definition SearchMetadataByName :: "'v arrow_compute \<Rightarrow> (string \<Rightarrow> int) \<Rightarrow> string \<Rightarrow> 'v datum \<Rightarrow> CompareOperator \<Rightarrow> 'v metadata
    \<Rightarrow> bool res" where
  "SearchMetadataByName cp field name val_ptr op md = SearchMetadata cp (field name) val_ptr op md"

definition GetMetadataStatusList :: "int \<Rightarrow> 'v metadata \<Rightarrow> string option list res" where
  "GetMetadataStatusList column_id md =
    and_then (at_offset (column_metadata_list md) column_id) (\<lambda>us. Inr (map GetStatus us))"

definition InvalidateColumn :: "int \<Rightarrow> 'v metadata \<Rightarrow> 'v metadata res" where
  "InvalidateColumn column_id md =
    and_then (at_offset (column_metadata_valid md) column_id) (\<lambda>_.
      Inr (md\<lparr>column_metadata_valid := (column_metadata_valid md)[nat column_id := False]\<rparr>))"

definition InvalidateMetadata :: "'v metadata \<Rightarrow> 'v metadata" where
  "InvalidateMetadata md = md\<lparr>column_metadata_valid := map (\<lambda>_. False) (column_metadata_valid md)\<rparr>"

definition WrapInsertion :: "int \<Rightarrow> 'v metadata \<Rightarrow> 'v metadata" where
  "WrapInsertion insertion_return md = (if insertion_return \<noteq> -1 then InvalidateMetadata md else md)"

section \<open>Insertions and updates through the subclass\<close>

definition ma_InsertRecord :: "arrow \<Rightarrow> u8 list \<Rightarrow> int list \<Rightarrow> block \<times> 'v metadata \<Rightarrow> (int \<times> u8 list \<times> block \<times> 'v metadata) res" where
  "ma_InsertRecord ar record widths s =
    (case s of (blk, md) \<Rightarrow>
     and_then (InsertRecord ar record widths blk) (\<lambda>(row, record, blk). Inr (row, record, blk, WrapInsertion row md)))"

definition ma_InsertCsvRecord :: "arrow \<Rightarrow> (u8 list \<Rightarrow> u64) \<Rightarrow> u8 list list \<Rightarrow> int list \<Rightarrow> block \<times> 'v metadata
    \<Rightarrow> (int \<times> block \<times> 'v metadata) res" where
  "ma_InsertCsvRecord ar atoi record widths s =
    (case s of (blk, md) \<Rightarrow>
     and_then (InsertCsvRecord ar atoi record widths blk) (\<lambda>(row, blk). Inr (row, blk, WrapInsertion row md)))"

definition ma_InsertRecords :: "arrow \<Rightarrow> array_data list \<Rightarrow> block \<times> 'v metadata \<Rightarrow> (int \<times> block \<times> 'v metadata) res" where
  "ma_InsertRecords ar column_data s =
    (case s of (blk, md) \<Rightarrow>
     and_then (InsertRecords ar column_data blk) (\<lambda>(row, blk). Inr (row, blk, WrapInsertion row md)))"

definition ma_InsertRecordsFrom :: "arrow \<Rightarrow> array_data \<Rightarrow> array_data list
    \<Rightarrow> block_map \<times> (int \<rightharpoonup> int) \<times> block \<times> 'v metadata \<Rightarrow> (int \<times> block_map \<times> (int \<rightharpoonup> int) \<times> block \<times> 'v metadata) res" where
  "ma_InsertRecordsFrom ar valid_column column_data s =
    (case s of (bmap, row_map, blk, md) \<Rightarrow>
     and_then (InsertRecordsFrom ar valid_column column_data (bmap, row_map, blk)) (\<lambda>(bmap, row_map, blk).
       Inr (num_rows blk - 1, bmap, row_map, blk, WrapInsertion (num_rows blk - 1) md)))"

definition ma_UpdateColumnValue :: "nat \<Rightarrow> nat \<Rightarrow> int \<Rightarrow> int \<Rightarrow> int \<Rightarrow> u8 list \<Rightarrow> block \<times> 'v metadata
    \<Rightarrow> (u8 list \<times> block \<times> 'v metadata) res" where
  "ma_UpdateColumnValue w i row pos bw record s =
    (case s of (blk, md) \<Rightarrow>
     and_then (UpdateColumnValue w i row pos bw record blk) (\<lambda>(record, blk).
     and_then (InvalidateColumn (int i) md) (\<lambda>md. Inr (record, blk, md))))"

section \<open>Metadata of a table\<close>

text \<open>
  \<open>metas\<close> has the metadata of the blocks by their position in the store. The methods of the table call the
  methods of \<open>Block\<close>, which are not virtual, so that they leave it alone.
\<close>

definition block_at :: "nat \<Rightarrow> DBTable \<Rightarrow> (nat \<times> block) res" where
  "block_at i t = and_then (get_block (int i) t) (\<lambda>ref. and_then (fetch (store_blocks t) ref) (\<lambda>blk. Inr (ref, blk)))"

fun columns_ok :: "nat list \<Rightarrow> 'v metadata \<Rightarrow> bool res" where
  "columns_ok [] md = Inr True"
| "columns_ok (c # cs) md =
    and_then (GetMetadataStatusList (int c) md) (\<lambda>status_list.
      if list_all (\<lambda>s. s = None) status_list then columns_ok cs md else Inr False)"

fun blocks_ok :: "(nat \<Rightarrow> 'v metadata) \<Rightarrow> nat list \<Rightarrow> DBTable \<Rightarrow> bool res" where
  "blocks_ok metas [] t = Inr True"
| "blocks_ok metas (i # is) t =
    and_then (block_at i t) (\<lambda>(ref, blk).
      if metadata_enabled blk
      then and_then (columns_ok [0..<num_cols blk] (metas ref)) (\<lambda>b. if b then blocks_ok metas is t else Inr False)
      else blocks_ok metas is t)"

definition GetMetadataOk :: "(nat \<Rightarrow> 'v metadata) \<Rightarrow> DBTable \<Rightarrow> bool res" where
  "GetMetadataOk metas t = (if table_metadata t then blocks_ok metas [0..<length (blocks t)] t else Inr True)"

fun build_blocks :: "'v arrow_compute \<Rightarrow> (nat \<Rightarrow> 'v c_type) \<Rightarrow> nat list \<Rightarrow> DBTable \<Rightarrow> (nat \<Rightarrow> 'v metadata)
    \<Rightarrow> (nat \<Rightarrow> 'v metadata) res" where
  "build_blocks cp cts [] t metas = Inr metas"
| "build_blocks cp cts (i # is) t metas =
    and_then (block_at i t) (\<lambda>(ref, blk).
    and_then (if metadata_enabled blk
              then and_then (BuildMetadata cp cts blk (metas ref)) (\<lambda>md. Inr (metas(ref := md)))
              else Inr metas) (build_blocks cp cts is t))"

definition TableBuildMetadata :: "'v arrow_compute \<Rightarrow> (nat \<Rightarrow> 'v c_type) \<Rightarrow> DBTable \<Rightarrow> (nat \<Rightarrow> 'v metadata)
    \<Rightarrow> (nat \<Rightarrow> 'v metadata) res" where
  "TableBuildMetadata cp cts t metas =
    (if table_metadata t then build_blocks cp cts [0..<length (blocks t)] t metas else Inr metas)"

fun status_lists :: "(nat \<Rightarrow> 'v metadata) \<Rightarrow> int \<Rightarrow> nat list \<Rightarrow> DBTable \<Rightarrow> string option list list res" where
  "status_lists metas column_id [] t = Inr []"
| "status_lists metas column_id (i # is) t =
    and_then (block_at i t) (\<lambda>(ref, blk).
    and_then (if metadata_enabled blk then GetMetadataStatusList column_id (metas ref) else Inr []) (\<lambda>l.
    and_then (status_lists metas column_id is t) (\<lambda>out. Inr (l # out))))"

definition TableGetMetadataStatusList :: "(nat \<Rightarrow> 'v metadata) \<Rightarrow> int \<Rightarrow> DBTable \<Rightarrow> string option list list res" where
  "TableGetMetadataStatusList metas column_id t =
    (if table_metadata t then status_lists metas column_id [0..<length (blocks t)] t else Inr [])"

section \<open>What a search promises\<close>

text \<open>
  The laws of the kernels: \<open>MinMax\<close> gives bounds of the values of an array that has any, \<open>Compare\<close> of two
  scalars compares their values; both may also refuse the type.
\<close>

definition values_of :: "'v c_type \<Rightarrow> nat \<Rightarrow> array_data \<Rightarrow> 'v list" where
  "values_of ct n col = map (\<lambda>r. of_bytes ct (take (sizeof ct) (drop (r * sizeof ct) (bytes (buffer1 col))))) [0..<n]"

definition sma_describes :: "'v::linorder Sma \<Rightarrow> 'v list \<Rightarrow> bool" where
  "sma_describes s vs \<longleftrightarrow> vs = [] \<or>
     (\<exists>mn mx. sma_min s = Scalar mn \<and> sma_max s = Scalar mx \<and> (\<forall>v \<in> set vs. mn \<le> v \<and> v \<le> mx))"

definition min_max_ok :: "'v::linorder arrow_compute \<Rightarrow> bool" where
  "min_max_ok cp \<longleftrightarrow> (\<forall>ct a mn mx. aoffset a = 0 \<longrightarrow> min_max cp ct a = Inr (mn, mx) \<longrightarrow>
     sma_describes \<lparr>sma_status = None, sma_min = mn, sma_max = mx\<rparr> (values_of ct (nat (alen a)) a))"

definition compare_ok :: "'v::linorder arrow_compute \<Rightarrow> bool" where
  "compare_ok cp \<longleftrightarrow> (\<forall>op x y b. compare_datums cp op (Scalar x) (Scalar y) = Inr b \<longrightarrow> b = Some (comparator_fun op x y))"

text \<open>
  \<open>data()\<close> of a scalar returns the address of its value, which is never null; the code reads it as the value.
  A search for equality may only be believed with the first reading.
\<close>

definition pointer_data :: "'v arrow_compute \<Rightarrow> bool" where "pointer_data cp \<longleftrightarrow> (\<forall>b. scalar_data cp b)"

definition value_data :: "'v arrow_compute \<Rightarrow> bool" where
  "value_data cp \<longleftrightarrow> (\<forall>b. scalar_data cp (Some b) = b)"

definition usable :: "'v arrow_compute \<Rightarrow> CompareOperator \<Rightarrow> bool" where
  "usable cp op \<longleftrightarrow> pointer_data cp \<or> value_data cp \<and> op \<noteq> EQUAL"

definition describes :: "CompareOperator \<Rightarrow> 'v::linorder arrow_compute \<times> 'v Sma \<Rightarrow> 'v list \<Rightarrow> bool" where
  "describes op u vs \<longleftrightarrow> compare_ok (fst u) \<and> usable (fst u) op \<and> sma_describes (snd u) vs"

text \<open>
  The contract of \<open>MetadataUnit\<close>: a unit that describes a list of values denies a search only if none of them
  passes the test.
\<close>

locale metadata_unit =
  fixes search :: "'op \<Rightarrow> 'v \<Rightarrow> 'u \<Rightarrow> bool" and describes :: "'op \<Rightarrow> 'u \<Rightarrow> 'v list \<Rightarrow> bool"
    and test :: "'op \<Rightarrow> 'v \<Rightarrow> 'v \<Rightarrow> bool"
  assumes search_sound: "describes op u vs \<Longrightarrow> \<not> search op x u \<Longrightarrow> v \<in> set vs \<Longrightarrow> \<not> test op v x"
begin

lemma units_sound:
  "\<lbrakk>\<forall>u \<in> set us. describes op u vs; \<not> search_units (search op x) us; v \<in> set vs\<rbrakk> \<Longrightarrow> \<not> test op v x"
  by (induction us) (auto dest: search_sound split: if_splits)

end

lemma pointer_search: "pointer_data cp \<Longrightarrow> Sma_Search cp x op s"
  by (cases op) (auto simp: Sma_Search_def pointer_data_def answer_def split: sum.splits)

lemma value_search:
  assumes "compare_ok cp" "value_data cp" "sma_min s = Scalar mn" "sma_max s = Scalar mx" "\<not> Sma_Search cp (Scalar x) op s"
  shows "op = EQUAL \<and> (\<not> mx \<le> x \<or> \<not> mn \<le> x) \<or> op \<in> {GREATER, GREATER_EQUAL} \<and> \<not> comparator_fun op mx x
    \<or> op \<in> {LESS, LESS_EQUAL} \<and> \<not> comparator_fun op mn x"
proof -
  have c: "b = Some (comparator_fun op' y z)" if "compare_datums cp op' (Scalar y) (Scalar z) = Inr b" for op' y z b
    using assms(1) that by (simp add: compare_ok_def)
  have a: "(\<exists>e. compare_datums cp op' (Scalar y) (Scalar z) = Inl e)
      \<or> compare_datums cp op' (Scalar y) (Scalar z) = Inr (Some (comparator_fun op' y z))" for op' y z
    by (cases "compare_datums cp op' (Scalar y) (Scalar z)") (blast dest: c)+
  have n: "comparator_fun op' y z \<Longrightarrow> answer cp (compare_datums cp op' (Scalar y) (Scalar z))" for op' y z
    using a [of op' y z] assms(2) by (elim disjE exE) (simp_all add: answer_def value_data_def)
  show ?thesis
  proof (cases op)
    case EQUAL
    with assms(2-5) have "mx \<le> x \<Longrightarrow> mn \<le> x \<Longrightarrow> False" using a [of LESS_EQUAL mx x] a [of LESS_EQUAL mn x]
      by (elim disjE exE) (simp_all add: Sma_Search_def value_data_def)
    then show ?thesis using EQUAL by blast
  qed (use assms(3-5) n [of op] in \<open>auto simp: Sma_Search_def\<close>)
qed

interpretation sma: metadata_unit "\<lambda>op x u. Sma_Search (fst u) (Scalar x) op (snd u)" describes comparator_fun
proof
  fix op :: CompareOperator and u :: "'v::linorder arrow_compute \<times> 'v Sma" and vs and x v :: 'v
  assume d: "describes op u vs" and n: "\<not> Sma_Search (fst u) (Scalar x) op (snd u)" and v: "v \<in> set vs"
  have vd: "value_data (fst u)" "op \<noteq> EQUAL" using d n pointer_search by (auto simp: describes_def usable_def)
  obtain mn mx where b: "sma_min (snd u) = Scalar mn" "sma_max (snd u) = Scalar mx" "mn \<le> v" "v \<le> mx"
    using d v by (auto simp: describes_def sma_describes_def)
  have "compare_ok (fst u)" using d by (simp add: describes_def)
  from value_search [OF this vd(1) b(1,2) n] show "\<not> comparator_fun op v x" using vd(2) b(3,4) by auto
qed

section \<open>Sound metadata\<close>

definition column_at :: "(nat \<Rightarrow> 'v c_type) \<Rightarrow> block \<Rightarrow> nat \<Rightarrow> 'v list" where
  "column_at cts blk i = values_of (cts i) (nat (num_rows blk)) (columns blk ! i)"

definition metadata_sound :: "(nat \<Rightarrow> 'v::linorder c_type) \<Rightarrow> block \<Rightarrow> 'v metadata \<Rightarrow> bool" where
  "metadata_sound cts blk md \<longleftrightarrow> (\<forall>i < length (column_metadata_valid md). column_metadata_valid md ! i \<longrightarrow>
     i < length (column_metadata_list md) \<and> (\<forall>s \<in> set (column_metadata_list md ! i). sma_describes s (column_at cts blk i)))"

definition metadata_shape :: "block \<Rightarrow> 'v metadata \<Rightarrow> bool" where
  "metadata_shape blk md \<longleftrightarrow> length (column_metadata_list md) = num_cols blk \<and> length (column_metadata_valid md) = num_cols blk"

lemma metadata_new_ok: "metadata_shape blk (metadata_new (num_cols blk))" "metadata_sound cts blk (metadata_new n)"
  by (auto simp: metadata_shape_def metadata_new_def metadata_sound_def)

lemma SearchMetadata_sound:
  assumes "metadata_sound cts blk md" "compare_ok cp" "usable cp op" "SearchMetadata cp (int i) (Scalar x) op md = Inr False"
    "v \<in> set (column_at cts blk i)"
  shows "\<not> comparator_fun op v x"
proof -
  have i: "i < length (column_metadata_valid md)" "column_metadata_valid md ! i" "i < length (column_metadata_list md)"
    "\<not> search_units (Sma_Search cp (Scalar x) op) (column_metadata_list md ! i)"
    using assms(1,4) by (auto simp: SearchMetadata_def CheckValidMetadata_def at_offset_def fetch_def metadata_sound_def split: if_splits)
  let ?us = "map (Pair cp) (column_metadata_list md ! i)"
  have "search_units f (map (Pair cp) us) \<longleftrightarrow> search_units (\<lambda>s. f (cp, s)) us" for f us by (induction us) auto
  from this [of "\<lambda>u. Sma_Search (fst u) (Scalar x) op (snd u)" "column_metadata_list md ! i"] have "\<not> search_units (\<lambda>u. Sma_Search (fst u) (Scalar x) op (snd u)) ?us" using i(4) by simp
  moreover have "\<forall>u \<in> set ?us. describes op u (column_at cts blk i)"
    using assms(1-3) i by (auto simp: describes_def metadata_sound_def)
  ultimately show ?thesis using sma.units_sound assms(5) by blast
qed

lemma SearchMetadata_total: "metadata_shape blk md \<Longrightarrow> i < num_cols blk \<Longrightarrow> \<exists>b. SearchMetadata cp (int i) x op md = Inr b"
  by (auto simp: SearchMetadata_def CheckValidMetadata_def metadata_shape_def)

lemma GenerateMetadata_sound:
  assumes "min_max_ok cp" "GenerateMetadataForColumn cp cts blk (int i) = Inr out" "aoffset (columns blk ! i) = 0"
    "nat (alen (columns blk ! i)) = nat (num_rows blk)"
  shows "\<forall>s \<in> set out. sma_describes s (column_at cts blk i)"
proof
  fix s assume s: "s \<in> set out"
  obtain mn mx where "min_max cp (cts i) (columns blk ! i) = Inr (mn, mx)" "s = \<lparr>sma_status = None, sma_min = mn, sma_max = mx\<rparr>"
    using assms(2) s by (auto simp: GenerateMetadataForColumn_def and_then_Inr at_offset_def fetch_def Sma_new_def GetStatus_def
        split: if_splits arrow_type.splits sum.splits)
  then show "sma_describes s (column_at cts blk i)"
    using assms(1) [unfolded min_max_ok_def, rule_format, OF assms(3)] assms(4) by (simp add: column_at_def)
qed

lemma build_columns_sound:
  assumes "min_max_ok cp" "\<forall>i \<in> set is. aoffset (columns blk ! i) = 0 \<and> nat (alen (columns blk ! i)) = nat (num_rows blk)"
    "metadata_shape blk md" "metadata_sound cts blk md" "build_columns cp cts blk is md = Inr md'"
  shows "metadata_shape blk md' \<and> metadata_sound cts blk md'
    \<and> (\<forall>i < num_cols blk. column_metadata_valid md' ! i \<longleftrightarrow> column_metadata_valid md ! i \<or> i \<in> set is)"
  using assms
proof (induction "is" arbitrary: md)
  case (Cons i "is")
  obtain out where out: "GenerateMetadataForColumn cp cts blk (int i) = Inr out" "i < num_cols blk" and
    md1: "build_columns cp cts blk is \<lparr>column_metadata_list = (column_metadata_list md)[i := out],
      column_metadata_valid = (column_metadata_valid md)[i := True]\<rparr> = Inr md'" (is "build_columns _ _ _ _ ?md1 = _")
    using Cons.prems(3,5) by (auto simp: and_then_Inr BuildColumnMetadata_def at_offset_def fetch_def metadata_shape_def split: if_splits)
  have "\<forall>s \<in> set out. sma_describes s (column_at cts blk i)" using GenerateMetadata_sound [OF Cons.prems(1) out(1)] Cons.prems(2) by simp
  then have "metadata_shape blk ?md1" "metadata_sound cts blk ?md1"
    using Cons.prems(3,4) out(2) by (auto simp: metadata_shape_def metadata_sound_def nth_list_update)
  from Cons.IH [OF Cons.prems(1) _ this md1] Cons.prems(2,3) out(2) show ?case
    by (auto simp: metadata_shape_def nth_list_update)
qed simp

lemma BuildMetadata_sound:
  assumes "min_max_ok cp" "block_ok blk" "metadata_shape blk md" "metadata_sound cts blk md" "BuildMetadata cp cts blk md = Inr md'"
  shows "metadata_shape blk md' \<and> metadata_sound cts blk md' \<and> (\<forall>i < num_cols blk. column_metadata_valid md' ! i)"
proof -
  have "aoffset (columns blk ! i) = 0 \<and> nat (alen (columns blk ! i)) = nat (num_rows blk)" if "i < num_cols blk" for i
  proof -
    have "column_ok (nat (num_rows blk)) (schema blk ! i) (columns blk ! i)" using assms(2) that by (simp add: block_ok_def)
    then show ?thesis by (cases "schema blk ! i") auto
  qed
  then have "\<forall>i \<in> set [0..<num_cols blk]. aoffset (columns blk ! i) = 0 \<and> nat (alen (columns blk ! i)) = nat (num_rows blk)" by simp
  from build_columns_sound [OF assms(1) this assms(3,4)] assms(5) show ?thesis by (simp add: BuildMetadata_def)
qed

lemma Invalidate_sound [simp]: "metadata_sound cts blk (InvalidateMetadata md)"
  by (simp add: InvalidateMetadata_def metadata_sound_def)

lemma Invalidate_shape [simp]: "metadata_shape blk (InvalidateMetadata md) = metadata_shape blk md"
  by (simp add: InvalidateMetadata_def metadata_shape_def)

lemma ma_UpdateColumnValue_sound:
  assumes "metadata_sound cts blk md" "ma_UpdateColumnValue w i row pos bw record (blk, md) = Inr (record', blk', md')"
  shows "metadata_sound cts blk' md'"
proof -
  obtain bs where b: "blk' = blk\<lparr>columns := (columns blk)[i := (columns blk ! i)\<lparr>buffer1 := (buffer1 (columns blk ! i))\<lparr>bytes := bs\<rparr>\<rparr>]\<rparr>"
    and m: "md' = md\<lparr>column_metadata_valid := (column_metadata_valid md)[i := False]\<rparr>"
    using assms(2) by (auto simp: ma_UpdateColumnValue_def UpdateColumnValue_def InvalidateColumn_def and_then_Inr at_offset_def Let_def)
  have "column_at cts blk' j = column_at cts blk j" if "j \<noteq> i" for j using that by (simp add: b column_at_def)
  moreover have "j \<noteq> i \<and> column_metadata_valid md ! j" if "(column_metadata_valid md)[i := False] ! j" "j < length (column_metadata_valid md)" for j
    using that by (cases "j = i") auto
  ultimately show ?thesis using assms(1) by (auto simp: m metadata_sound_def)
qed

section \<open>Blocks that are used through the subclass\<close>

text \<open>The blocks that its constructor, insertions, updates and \<open>BuildMetadata\<close> give.\<close>

inductive ma_reachable :: "arrow \<Rightarrow> 'v arrow_compute \<Rightarrow> (nat \<Rightarrow> 'v c_type) \<Rightarrow> block \<Rightarrow> 'v metadata \<Rightarrow> bool"
  for ar cp cts where
  created: "\<lbrakk>list_all plain ts; 0 < row_width ts; row_width ts \<le> cap; MetadataAttachedBlock_new ar bid ts cap = Inr (blk, md)\<rbrakk>
    \<Longrightarrow> ma_reachable ar cp cts blk md"
| inserted: "\<lbrakk>ma_reachable ar cp cts blk md; record_ok blk record widths; num_rows blk < 2 ^ 31 - 1;
    ma_InsertRecord ar record widths (blk, md) = Inr (row, record', blk', md')\<rbrakk> \<Longrightarrow> ma_reachable ar cp cts blk' md'"
| updated: "\<lbrakk>ma_reachable ar cp cts blk md; i < num_cols blk; schema blk ! i = NumberType w; 0 \<le> row; row < num_rows blk;
    0 \<le> pos; pos + max bw 0 \<le> int (length record); bw \<le> int w;
    ma_UpdateColumnValue w i row pos bw record (blk, md) = Inr (record', blk', md')\<rbrakk> \<Longrightarrow> ma_reachable ar cp cts blk' md'"
| built: "\<lbrakk>ma_reachable ar cp cts blk md; BuildColumnMetadata cp cts blk (int i) md = Inr md'\<rbrakk> \<Longrightarrow> ma_reachable ar cp cts blk md'"

definition ma_ok :: "(nat \<Rightarrow> 'v::linorder c_type) \<Rightarrow> block \<Rightarrow> 'v metadata \<Rightarrow> bool" where
  "ma_ok cts blk md \<longleftrightarrow> block_ok blk \<and> metadata_shape blk md \<and> metadata_sound cts blk md"

lemma column_plain: "block_ok blk \<Longrightarrow> i < num_cols blk \<Longrightarrow> aoffset (columns blk ! i) = 0 \<and> nat (alen (columns blk ! i)) = nat (num_rows blk)"
  using column_ok.elims(2) [of "nat (num_rows blk)" "schema blk ! i" "columns blk ! i"] by (fastforce simp: block_ok_def)

lemma inserted_ok:
  assumes ar: "arrow_ok ar" and ok: "ma_ok cts blk md" and r: "record_ok blk record widths" "num_rows blk < 2 ^ 31 - 1"
    and i: "ma_InsertRecord ar record widths (blk, md) = Inr (row, record', blk', md')"
  shows "ma_ok cts blk' md'"
proof (cases "sum_list widths \<le> get_bytes_left blk")
  case True
  obtain rec blk1 where b: "InsertRecord ar record widths blk = Inr (num_rows blk, rec, blk1)" "block_ok blk1" "schema blk1 = schema blk"
    using InsertRecord_ok [OF ar _ r(1) True r(2)] ok by (auto simp: ma_ok_def)
  have "num_rows blk \<noteq> -1" using ok by (auto simp: ma_ok_def block_ok_def)
  then have "blk' = blk1" "md' = InvalidateMetadata md" using i b(1) by (auto simp: ma_InsertRecord_def WrapInsertion_def)
  then show ?thesis using ok b by (simp add: ma_ok_def metadata_shape_def num_cols_def InvalidateMetadata_def metadata_sound_def)
next
  case False
  have "length widths = num_cols blk" using r(1) by (simp add: record_ok_def)
  then have "blk' = blk" "md' = md" using i False by (auto simp: ma_InsertRecord_def InsertRecord_def WrapInsertion_def)
  then show ?thesis using ok by simp
qed

lemma updated_ok:
  assumes ok: "ma_ok cts blk md" and i: "i < num_cols blk" "schema blk ! i = NumberType w" and row: "0 \<le> row" "row < num_rows blk"
    and pos: "0 \<le> pos" "pos + max bw 0 \<le> int (length record)" "bw \<le> int w"
    and u: "ma_UpdateColumnValue w i row pos bw record (blk, md) = Inr (record', blk', md')"
  shows "ma_ok cts blk' md'"
proof -
  have "block_ok blk'" "schema blk' = schema blk"
    using UpdateColumnValue_ok [OF _ i row pos] ok u by (auto simp: ma_ok_def ma_UpdateColumnValue_def and_then_Inr)
  moreover have "metadata_shape blk' md'" using ok u calculation(2)
    by (auto simp: ma_ok_def ma_UpdateColumnValue_def and_then_Inr InvalidateColumn_def metadata_shape_def num_cols_def)
  ultimately show ?thesis using ma_UpdateColumnValue_sound [OF _ u] ok by (simp add: ma_ok_def)
qed

lemma built_ok:
  assumes "min_max_ok cp" and ok: "ma_ok cts blk md" and b: "BuildColumnMetadata cp cts blk (int i) md = Inr md'"
  shows "ma_ok cts blk md'"
proof -
  have "i < num_cols blk" using ok b
    by (auto simp: ma_ok_def metadata_shape_def BuildColumnMetadata_def and_then_Inr at_offset_def fetch_def split: if_splits)
  moreover have "build_columns cp cts blk [i] md = Inr md'" using b by simp
  ultimately show ?thesis using build_columns_sound [OF assms(1), of "[i]" blk md cts md'] ok column_plain by (auto simp: ma_ok_def)
qed

lemma ma_reachable_ok:
  assumes "arrow_ok ar" "min_max_ok cp" "ma_reachable ar cp cts blk md"
  shows "ma_ok cts blk md"
  using assms(3)
proof (induction rule: ma_reachable.induct)
  case (created ts cap bid blk md)
  have "block_ok blk" using Block_new_ok [OF assms(1) created(1-3), of bid True] created(4) by (auto simp: MetadataAttachedBlock_new_def and_then_Inr)
  moreover have "md = metadata_new (num_cols blk)" using created(4) by (auto simp: MetadataAttachedBlock_new_def and_then_Inr)
  ultimately show ?case by (simp add: ma_ok_def metadata_new_ok)
next
  case (inserted blk md "record" widths row record' blk' md')
  then show ?case using inserted_ok [OF assms(1)] by blast
next
  case (updated blk md i w row pos bw "record" record' blk' md')
  then show ?case using updated_ok by blast
next
  case (built blk md i md')
  then show ?case using built_ok [OF assms(2)] by blast
qed


text \<open>The search for an equal value: read as the value, \<open>data()\<close> makes it compare the value with the
  greatest value of the block the wrong way round, so that a block is skipped for every value below its greatest
  one, even for the least value, which it has; read as the address it never excludes a block, for any comparison.
\<close>

theorem sma_equal_search:
  fixes cp :: "'v::linorder arrow_compute"
  assumes "\<forall>a b. compare_datums cp LESS_EQUAL (Scalar a) (Scalar b) = Inr (Some (a \<le> b))"
    "sma_min s = Scalar mn" "sma_max s = Scalar mx" "mn \<le> mx"
  shows "(value_data cp \<longrightarrow> (Sma_Search cp (Scalar x) EQUAL s \<longleftrightarrow> mx \<le> x) \<and> (mn < mx \<longrightarrow> \<not> Sma_Search cp (Scalar mn) EQUAL s))
    \<and> (pointer_data cp \<longrightarrow> (\<forall>op. Sma_Search cp (Scalar x) op s))"
proof (intro conjI impI allI)
  show "Sma_Search cp (Scalar x) EQUAL s \<longleftrightarrow> mx \<le> x" if "value_data cp"
    using assms that order_trans [OF assms(4), of x] by (simp add: Sma_Search_def value_data_def) blast
  show "\<not> Sma_Search cp (Scalar mn) EQUAL s" if "value_data cp" "mn < mx"
    using assms that by (simp add: Sma_Search_def value_data_def)
qed (rule pointer_search)

section \<open>An example\<close>

text \<open>Sixty-four bit integers, and kernels for them with either reading of \<open>data()\<close>.\<close>

definition of_le64 :: "u8 list \<Rightarrow> u64" where "of_le64 bs = foldr (\<lambda>b acc. acc * 256 + ucast b) bs 0"

definition int64_type :: "int c_type" where
  "int64_type = \<lparr>sizeof = 8, of_bytes = (\<lambda>bs. sint (of_le64 bs)),
     minus_u8 = (\<lambda>x lo. if x - uint lo < - (2 ^ 63) then Inl IntOverflow else Inr (word_of_int (x - uint lo)))\<rparr>"

definition int_compute :: "(bool option \<Rightarrow> bool) \<Rightarrow> int arrow_compute" where
  "int_compute dt = \<lparr>min_max = (\<lambda>ct a. let vs = values_of ct (nat (alen a)) a in
       Inr (if vs = [] then (NullScalar, NullScalar) else (Scalar (Min (set vs)), Scalar (Max (set vs))))),
     compare_datums = (\<lambda>op a b. case (a, b) of (Scalar x, Scalar y) \<Rightarrow> Inr (Some (comparator_fun op x y)) | _ \<Rightarrow> Inr None),
     scalar_data = dt, compare_array = (\<lambda>_ _ _. Inl ''NotImplemented''), first_byte = word_of_int\<rparr>"

lemma int_compute_ok: "min_max_ok (int_compute dt)" "compare_ok (int_compute dt)"
  by (auto simp: int_compute_def min_max_ok_def compare_ok_def sma_describes_def Let_def split: if_splits)

lemma int_compute_status [simp]: "sma_status (Sma_new (int_compute dt) ct a) = None"
  by (simp add: Sma_new_def int_compute_def Let_def)

lemma int_compute_data: "scalar_data (int_compute dt) = dt" by (simp add: int_compute_def)

theorem sma_equal_search_witness:
  "\<exists>s. Sma_new (int_compute (\<lambda>b. b = Some True)) int64_type \<lparr>alen = 2, aoffset = 0,
      buffer1 = \<lparr>bsize = 16, bytes = [3, 0, 0, 0, 0, 0, 0, 0, 5, 0, 0, 0, 0, 0, 0, 0]\<rparr>, buffer2 = no_buffer\<rparr> = s
    \<and> sma_min s = Scalar 3 \<and> sma_max s = Scalar 5
    \<and> \<not> Sma_Search (int_compute (\<lambda>b. b = Some True)) (Scalar 3) EQUAL s"
proof -
  let ?cp = "int_compute (\<lambda>b. b = Some True)"
  let ?s = "Sma_new ?cp int64_type \<lparr>alen = 2, aoffset = 0, buffer1 = \<lparr>bsize = 16, bytes = [3, 0, 0, 0, 0, 0, 0, 0, 5, 0, 0, 0, 0, 0, 0, 0]\<rparr>, buffer2 = no_buffer\<rparr>"
  have s: "sma_min ?s = Scalar 3" "sma_max ?s = Scalar 5"
    by (simp_all add: Sma_new_def int_compute_def values_of_def int64_type_def of_le64_def upt_rec)
  have "\<forall>a b. compare_datums ?cp LESS_EQUAL (Scalar a) (Scalar b) = Inr (Some (a \<le> b))" by (simp add: int_compute_def)
  moreover have "value_data ?cp" by (simp add: value_data_def int_compute_data)
  ultimately show ?thesis using sma_equal_search [of ?cp ?s 3 5 0] s by simp
qed


end
