(* ===== verification/Select.thy ===== *)
theory Select
  imports BlockMetadata
begin

text \<open>
  The selection operator (\<open>operators/select/select.cc\<close>, \<open>predicate.h\<close>, \<open>predicate.cc\<close>): a tree of predicates is
  evaluated on every block of a table, in batches of blocks that run as tasks, and gives a bitmap per block. First
  the operator, then the filter of one block, then the whole scan.
\<close>

unbundle bit_operations_syntax

section \<open>Predicates\<close>

datatype FilterOperator = AND_filter | OR_filter | NONE_filter

text \<open>The second value is only there for ranges: \<open>None\<close> is an empty datum.\<close>

record 'v Predicate =
  col_ref :: ColumnReference
  pred_comparator :: CompareOperator
  pred_value :: 'v
  pred_value2 :: "'v option"

datatype 'v tree_node = PredicateNode "'v Predicate" | ConnectiveNode "'v tree_node" "'v tree_node" FilterOperator

section \<open>The operator\<close>

text \<open>
  What the operator is given: the kernels, the C type of the type of a value, if it has one (\<open>type_switcher\<close> and
  \<open>has_ctype_member\<close>), the position of a column name, and the metadata of the blocks by their place in the store.
  \<open>text_value\<close> is the value that the bytes of a string stand for.
\<close>

record 'v select_env =
  buffers :: arrow
  compute :: "'v arrow_compute"
  ctype_of :: "'v \<Rightarrow> 'v c_type option"
  field_index :: "string \<Rightarrow> int"
  metas :: "nat \<Rightarrow> 'v metadata"
  text_value :: "u8 list \<Rightarrow> 'v"

text \<open>Filters are shared: a datum is the address of its array. \<open>filters_\<close> has one entry per block.\<close>

record filter_state =
  filter_heap :: "bool_array list"
  filters :: "nat option list"

definition new_filter :: "bool_array \<Rightarrow> filter_state \<Rightarrow> nat \<times> filter_state" where
  "new_filter a st = (length (filter_heap st), st\<lparr>filter_heap := filter_heap st @ [a]\<rparr>)"

definition set_filter :: "int \<Rightarrow> nat \<Rightarrow> filter_state \<Rightarrow> filter_state res" where
  "set_filter i a st = and_then (at_offset (filters st) i) (\<lambda>_. Inr (st\<lparr>filters := (filters st)[nat i := Some a]\<rparr>))"

definition get_column_by_name :: "'v select_env \<Rightarrow> string \<Rightarrow> block \<Rightarrow> array_data res" where
  "get_column_by_name env name blk = at_offset (columns blk) (field_index env name)"

text \<open>\<open>col_data[i]\<close>, where \<open>col_data\<close> is \<open>GetValues<T>(1)\<close>.\<close>

definition col_data :: "'v c_type \<Rightarrow> array_data \<Rightarrow> nat \<Rightarrow> 'v res" where
  "col_data ct col i =
    and_then (load ((aoffset col + int i) * int (sizeof ct)) (int (sizeof ct)) (bytes (buffer1 col))) (\<lambda>bs. Inr (of_bytes ct bs))"

fun fill_bytemap :: "(nat \<Rightarrow> u8 res) \<Rightarrow> nat \<Rightarrow> nat \<Rightarrow> u8 list \<Rightarrow> u8 list res" where
  "fill_bytemap f 0 i bytemap = Inr bytemap"
| "fill_bytemap f (Suc k) i bytemap =
    and_then (f i) (\<lambda>b. and_then (fetch bytemap i) (\<lambda>_. fill_bytemap f k (i + 1) (bytemap[i := b])))"

definition pack_filter :: "nat \<Rightarrow> u8 list \<Rightarrow> bool_array res" where
  "pack_filter n bytemap = and_then (pack n bytemap) (\<lambda>bits. Inr \<lparr>ba_length = n, ba_bits = bits\<rparr>)"

text \<open>The filter of a numeric type \<open>T\<close>, with the metadata of the block.\<close>

definition Filter_T :: "'v::linorder select_env \<Rightarrow> 'v c_type \<Rightarrow> nat \<Rightarrow> block \<Rightarrow> ColumnReference \<Rightarrow> 'v \<Rightarrow> CompareOperator \<Rightarrow> bool_array res" where
  "Filter_T env ct ref blk cref value op =
    (let n = nat (num_rows blk);
         bytemap = bytes (allocate (buffers env) n);
         name = col_name cref;
         compare_all = and_then (get_column_by_name env name blk) (\<lambda>col.
           fill_bytemap (\<lambda>i. and_then (col_data ct col i) (\<lambda>x. Inr (if comparator_fun op x value then 1 else 0))) n 0 bytemap)
     in and_then
          (if metadata_enabled blk
           then and_then (SearchMetadataByName (compute env) (field_index env) name (Scalar value) op (metas env ref)) (\<lambda>found.
             if \<not> found then fill_bytemap (\<lambda>i. Inr 0) n 0 bytemap else compare_all)
           else compare_all)
          (pack_filter n))"

text \<open>
  The branch of \<open>NOT_EQUAL\<close>: a range from the first byte of one value to the first byte of the other. An empty
  second datum has no scalar, which is an exception.
\<close>

definition Filter_range :: "'v select_env \<Rightarrow> 'v c_type \<Rightarrow> block \<Rightarrow> 'v Predicate \<Rightarrow> bool_array res" where
  "Filter_range env ct blk predicate =
    (let n = nat (num_rows blk) in
     and_then (get_column_by_name env (col_name (col_ref predicate)) blk) (\<lambda>col.
       let lo = first_byte (compute env) (pred_value predicate) in
       case pred_value2 predicate of None \<Rightarrow> Inl RuntimeError
       | Some value2 \<Rightarrow>
         let hi = first_byte (compute env) value2; diff = hi - lo in
         and_then (fill_bytemap (\<lambda>i. and_then (col_data ct col i) (\<lambda>x.
             and_then (minus_u8 ct x lo) (\<lambda>d. Inr (if d \<le> diff then 1 else 0)))) n 0 (bytes (allocate (buffers env) n)))
           (pack_filter n)))"

definition numeric_filter :: "'v::linorder select_env \<Rightarrow> 'v c_type \<Rightarrow> nat \<Rightarrow> block \<Rightarrow> 'v Predicate \<Rightarrow> filter_state
    \<Rightarrow> (nat \<times> filter_state) res" where
  "numeric_filter env ct ref blk predicate st =
    and_then (if pred_comparator predicate = NOT_EQUAL then Filter_range env ct blk predicate
              else Filter_T env ct ref blk (col_ref predicate) (pred_value predicate) (pred_comparator predicate))
      (\<lambda>a. Inr (new_filter a st))"

definition default_filter :: "'v select_env \<Rightarrow> block \<Rightarrow> 'v Predicate \<Rightarrow> filter_state \<Rightarrow> (nat \<times> filter_state) res" where
  "default_filter env blk predicate st =
    and_then (get_column_by_name env (col_name (col_ref predicate)) blk) (\<lambda>select_col.
      case compare_array (compute env) (pred_comparator predicate) select_col (Scalar (pred_value predicate)) of
        Inl _ \<Rightarrow> Inl RuntimeError
      | Inr a \<Rightarrow> let (p, st) = new_filter a st in and_then (set_filter (block_id blk) p st) (\<lambda>st. Inr (p, st)))"

definition Filter_predicate :: "'v::linorder select_env \<Rightarrow> nat \<Rightarrow> block \<Rightarrow> 'v Predicate \<Rightarrow> filter_state \<Rightarrow> (nat \<times> filter_state) res" where
  "Filter_predicate env ref blk predicate st =
    (case ctype_of env (pred_value predicate) of
       Some ct \<Rightarrow> numeric_filter env ct ref blk predicate st
     | None \<Rightarrow> default_filter env blk predicate st)"

text \<open>\<open>left_data[i] = left_data[i] & right_data[i]\<close> and the same with \<open>|\<close>.\<close>

fun combine :: "(u8 \<Rightarrow> u8 \<Rightarrow> u8) \<Rightarrow> nat \<Rightarrow> nat \<Rightarrow> u8 list \<Rightarrow> u8 list \<Rightarrow> u8 list res" where
  "combine f 0 i left_data right_data = Inr left_data"
| "combine f (Suc k) i left_data right_data =
    and_then (fetch left_data i) (\<lambda>l. and_then (fetch right_data i) (\<lambda>r.
      combine f k (i + 1) (left_data[i := f l r]) right_data))"

fun connect :: "FilterOperator \<Rightarrow> nat \<Rightarrow> u8 list \<Rightarrow> u8 list \<Rightarrow> u8 list res" where
  "connect AND_filter n l r = combine (AND) n 0 l r"
| "connect OR_filter n l r = combine (OR) n 0 l r"
| "connect NONE_filter n l r = Inr l"

fun Filter_node :: "'v::linorder select_env \<Rightarrow> nat \<Rightarrow> block \<Rightarrow> 'v tree_node \<Rightarrow> filter_state \<Rightarrow> (nat \<times> filter_state) res" where
  "Filter_node env ref blk (PredicateNode predicate) st = Filter_predicate env ref blk predicate st"
| "Filter_node env ref blk (ConnectiveNode left_child right_child connective) st =
    and_then (Filter_node env ref blk left_child st) (\<lambda>(p, st).
    and_then (Filter_node env ref blk right_child st) (\<lambda>(q, st).
    and_then (fetch (filter_heap st) p) (\<lambda>left.
    and_then (fetch (filter_heap st) q) (\<lambda>right.
      let num_bytes = 1 + (int (ba_length left) - 1) sdiv 8 in
      and_then (connect connective (nat num_bytes) (ba_bits left) (ba_bits right)) (\<lambda>left_data.
        Inr (p, st\<lparr>filter_heap := (filter_heap st)[p := left\<lparr>ba_bits := left_data\<rparr>]\<rparr>))))))"

definition ExecuteBlock :: "'v::linorder select_env \<Rightarrow> DBTable \<Rightarrow> 'v tree_node \<Rightarrow> nat \<Rightarrow> filter_state \<Rightarrow> filter_state res" where
  "ExecuteBlock env t tree block_index st =
    and_then (block_at block_index t) (\<lambda>(ref, blk).
    and_then (Filter_node env ref blk tree st) (\<lambda>(p, st). set_filter (int block_index) p st))"

fun execute_blocks :: "'v::linorder select_env \<Rightarrow> DBTable \<Rightarrow> 'v tree_node \<Rightarrow> nat list \<Rightarrow> filter_state \<Rightarrow> filter_state res" where
  "execute_blocks env t tree [] st = Inr st"
| "execute_blocks env t tree (i # is) st = and_then (ExecuteBlock env t tree i st) (execute_blocks env t tree is)"

text \<open>The blocks of a batch.\<close>

definition batch_blocks :: "u64 \<Rightarrow> nat \<times> u64 \<Rightarrow> nat list" where
  "batch_blocks num_blocks b =
    (case b of (batch_index, batch_size) \<Rightarrow>
     let base_index = of_nat batch_index * batch_size; batch_limit = min (base_index + batch_size) num_blocks
     in [unat base_index..<unat batch_limit])"

fun filter_chunks :: "bool_array list \<Rightarrow> nat option list \<Rightarrow> bool_array list res" where
  "filter_chunks hp [] = Inr []"
| "filter_chunks hp (None # ps) = Inl NullDeref"
| "filter_chunks hp (Some p # ps) = and_then (fetch hp p) (\<lambda>a. and_then (filter_chunks hp ps) (\<lambda>as. Inr (a # as)))"

text \<open>A Boolean array as the readers of the view see it.\<close>

definition bools :: "bool_array \<Rightarrow> bool list" where
  "bools a = map (\<lambda>i. bit (ba_bits a ! (i div 8)) (i mod 8)) [0..<ba_length a]"

text \<open>
  \<open>Execute\<close> with the constructor. The batches run as tasks in the order \<open>schedule\<close>; then the view is appended to the
  output. \<open>hw\<close> is the number of threads, \<open>db\<close> and \<open>tp\<close> are the table as the views know it.
\<close>

definition Select_new :: "DBTable \<Rightarrow> filter_state" where
  "Select_new t = \<lparr>filter_heap = [], filters = replicate (length (blocks t)) None\<rparr>"

definition Select_Execute :: "'v::linorder select_env \<Rightarrow> db_tables \<Rightarrow> table_ptr \<Rightarrow> u64 \<Rightarrow> ((nat \<times> u64) list \<Rightarrow> (nat \<times> u64) list)
    \<Rightarrow> DBTable \<Rightarrow> 'v tree_node \<Rightarrow> OperatorResult \<Rightarrow> OperatorResult res" where
  "Select_Execute env db tp hw schedule t tree output =
    (let num_blocks = of_nat (length (blocks t)) in
     and_then (ForEachBatch hw num_blocks) (\<lambda>batches.
     and_then (execute_blocks env t tree (concat (map (batch_blocks num_blocks) (schedule batches))) (Select_new t)) (\<lambda>st.
     and_then (filter_chunks (filter_heap st) (filters st)) (\<lambda>chunked_filter.
       Inr (append_lazy (LazyTable_new db tp (Some (map bools chunked_filter)) None None) output)))))"

section \<open>Bitmaps\<close>

definition bitmap_of :: "nat \<Rightarrow> (nat \<Rightarrow> bool) \<Rightarrow> bool_array \<Rightarrow> bool" where
  "bitmap_of n P a \<longleftrightarrow> ba_length a = n \<and> (n + 7) div 8 \<le> length (ba_bits a)
     \<and> (\<forall>r < n. bit (ba_bits a ! (r div 8)) (r mod 8) \<longleftrightarrow> P r)"

lemma bitmap_of_bools: "bitmap_of n P a \<Longrightarrow> bools a = map P [0..<n]"
  by (auto simp: bitmap_of_def bools_def)

lemma fill_bytemap_from:
  "\<lbrakk>\<forall>j. i \<le> j \<and> j < i + k \<longrightarrow> f j = Inr (g j); i + k \<le> length bm\<rbrakk>
    \<Longrightarrow> fill_bytemap f k i bm = Inr (take i bm @ map g [i..<i + k] @ drop (i + k) bm)"
proof (induction k arbitrary: i bm)
  case (Suc k)
  have "f i = Inr (g i)" using Suc.prems(1) by simp
  then have "fill_bytemap f (Suc k) i bm = fill_bytemap f k (i + 1) (bm[i := g i])" using Suc.prems(2) by simp
  also have "\<dots> = Inr (take (i + 1) (bm[i := g i]) @ map g [i + 1..<i + 1 + k] @ drop (i + 1 + k) (bm[i := g i]))"
    using Suc.prems by (intro Suc.IH) auto
  also have "take (i + 1) (bm[i := g i]) = take i bm @ [g i]" using Suc.prems(2) by (simp add: take_Suc_conv_app_nth)
  also have "drop (i + 1 + k) (bm[i := g i]) = drop (i + Suc k) bm" by simp
  also have "(take i bm @ [g i]) @ map g [i + 1..<i + 1 + k] @ drop (i + Suc k) bm = take i bm @ map g [i..<i + Suc k] @ drop (i + Suc k) bm"
    using upt_conv_Cons [of i "i + Suc k"] by (simp del: upt_Suc)
  finally show ?case .
qed simp

lemma fill_filter:
  assumes "\<forall>i < n. f i = Inr (if P i then 1 else 0)" "n \<le> length bm"
  shows "\<exists>a. and_then (fill_bytemap f n 0 bm) (pack_filter n) = Inr a \<and> bitmap_of n P a"
proof -
  let ?bm = "map (\<lambda>i. if P i then 1 else 0) [0..<n] @ drop n bm"
  have f: "fill_bytemap f n 0 bm = Inr ?bm"
    using fill_bytemap_from [of 0 n f "\<lambda>i. if P i then 1 else 0" bm] assms by simp
  obtain bits where b: "pack n ?bm = Inr bits" "length bits = (n + 7) div 8" "\<forall>i < n. bit (bits ! (i div 8)) (i mod 8) \<longleftrightarrow> ?bm ! i \<noteq> 0"
    using pack_ok [of n ?bm] by auto
  have "?bm ! i \<noteq> 0 \<longleftrightarrow> P i" if "i < n" for i using that by (simp add: nth_append)
  then show ?thesis using b by (simp add: f pack_filter_def bitmap_of_def)
qed

lemma combine_from:
  "\<lbrakk>i + k \<le> length l; i + k \<le> length r\<rbrakk> \<Longrightarrow> \<exists>xs. combine f k i l r = Inr xs \<and> length xs = length l
    \<and> (\<forall>j < length l. xs ! j = (if i \<le> j \<and> j < i + k then f (l ! j) (r ! j) else l ! j))"
proof (induction k arbitrary: i l)
  case (Suc k)
  let ?l = "l[i := f (l ! i) (r ! i)]"
  obtain xs where xs: "combine f k (i + 1) ?l r = Inr xs" "length xs = length l"
    "\<forall>j < length l. xs ! j = (if i + 1 \<le> j \<and> j < i + 1 + k then f (?l ! j) (r ! j) else ?l ! j)"
    using Suc.IH [of "i + 1" ?l] Suc.prems by auto
  have "combine f (Suc k) i l r = Inr xs" using xs(1) Suc.prems by simp
  moreover have "xs ! j = (if i \<le> j \<and> j < i + Suc k then f (l ! j) (r ! j) else l ! j)" if "j < length l" for j
    using xs(3) that by (cases "j = i") (auto simp: nth_list_update)
  ultimately show ?case using xs(2) by blast
qed auto

fun connected :: "FilterOperator \<Rightarrow> bool \<Rightarrow> bool \<Rightarrow> bool" where
  "connected AND_filter p q \<longleftrightarrow> p \<and> q"
| "connected OR_filter p q \<longleftrightarrow> p \<or> q"
| "connected NONE_filter p q \<longleftrightarrow> p"

lemma bitmap_bytes: "0 < n \<Longrightarrow> nat (1 + (int n - 1) sdiv 8) = (n + 7) div 8"
proof -
  assume "0 < n"
  then obtain m where m: "n = Suc m" by (cases n) auto
  then have "(int n - 1) sdiv 8 = int (m div 8)" by (cases "m = 0") (simp_all add: signed_divide_int_def zdiv_int)
  then show ?thesis using m by (simp add: nat_add_distrib)
qed

lemma connect_ok:
  assumes a: "bitmap_of n P a" and b: "bitmap_of n Q b" and n: "0 < n"
  shows "\<exists>bits. connect c (nat (1 + (int (ba_length a) - 1) sdiv 8)) (ba_bits a) (ba_bits b) = Inr bits
    \<and> bitmap_of n (\<lambda>r. connected c (P r) (Q r)) (a\<lparr>ba_bits := bits\<rparr>)"
proof (cases "c = NONE_filter")
  case True
  then show ?thesis using a by (auto simp: bitmap_of_def)
next
  case False
  define f where "f = (if c = AND_filter then (AND) else (OR) :: u8 \<Rightarrow> u8 \<Rightarrow> u8)"
  have f: "connect c k = combine f k 0" "bit (f x y) i \<longleftrightarrow> connected c (bit x i) (bit y i)" for k x y i
    using False by (cases c; simp add: f_def fun_eq_iff bit_and_iff bit_or_iff)+
  have k: "nat (1 + (int (ba_length a) - 1) sdiv 8) = (n + 7) div 8" using a bitmap_bytes [OF n] by (simp add: bitmap_of_def)
  obtain bits where x: "combine f ((n + 7) div 8) 0 (ba_bits a) (ba_bits b) = Inr bits" "length bits = length (ba_bits a)"
    "\<forall>j < length (ba_bits a). bits ! j = (if j < (n + 7) div 8 then f (ba_bits a ! j) (ba_bits b ! j) else ba_bits a ! j)"
    using combine_from [of 0 "(n + 7) div 8" "ba_bits a" "ba_bits b" f] a b by (auto simp: bitmap_of_def)
  have "bits ! (r div 8) = f (ba_bits a ! (r div 8)) (ba_bits b ! (r div 8))" if "r < n" for r
  proof -
    have "r div 8 < (n + 7) div 8" using that by linarith
    then show ?thesis using x(3) a by (auto simp: bitmap_of_def)
  qed
  then show ?thesis using x(1,2) a b by (auto simp: k f bitmap_of_def)
qed

section \<open>The filter of a block\<close>

text \<open>The rows that a predicate and a tree keep, by the values in the cells of the block.\<close>

definition leaf_column :: "'v select_env \<Rightarrow> 'v Predicate \<Rightarrow> nat" where
  "leaf_column env p = nat (field_index env (col_name (col_ref p)))"

definition leaf_holds :: "'v::linorder select_env \<Rightarrow> block \<Rightarrow> 'v Predicate \<Rightarrow> nat \<Rightarrow> bool" where
  "leaf_holds env blk p r =
    (let col = columns blk ! leaf_column env p;
         x = (case ctype_of env (pred_value p) of Some ct \<Rightarrow> values_of ct (nat (num_rows blk)) col ! r
              | None \<Rightarrow> text_value env (projr (cell StringType r col)))
     in comparator_fun (pred_comparator p) x (pred_value p))"

fun row_satisfies :: "'v::linorder select_env \<Rightarrow> block \<Rightarrow> 'v tree_node \<Rightarrow> nat \<Rightarrow> bool" where
  "row_satisfies env blk (PredicateNode p) r = leaf_holds env blk p r"
| "row_satisfies env blk (ConnectiveNode left right c) r = connected c (row_satisfies env blk left r) (row_satisfies env blk right r)"

text \<open>
  The metadata of a block does no harm when \<open>data()\<close> is an address, or when it is sound and the predicate is no
  equality. A predicate fits a block if its column is there with the type of its value.
\<close>

definition harmless :: "'v::linorder select_env \<Rightarrow> nat \<Rightarrow> block \<Rightarrow> nat \<Rightarrow> 'v c_type \<Rightarrow> CompareOperator \<Rightarrow> bool" where
  "harmless env ref blk c ct op \<longleftrightarrow> metadata_shape blk (metas env ref) \<and>
     (pointer_data (compute env) \<or>
      value_data (compute env) \<and> op \<noteq> EQUAL \<and> compare_ok (compute env) \<and> (\<exists>cts. cts c = ct \<and> metadata_sound cts blk (metas env ref)))"

definition leaf_ok :: "'v::linorder select_env \<Rightarrow> nat \<Rightarrow> block \<Rightarrow> 'v Predicate \<Rightarrow> bool" where
  "leaf_ok env ref blk p \<longleftrightarrow>
     0 \<le> field_index env (col_name (col_ref p)) \<and> leaf_column env p < num_cols blk
     \<and> (case ctype_of env (pred_value p) of
          Some ct \<Rightarrow> schema blk ! leaf_column env p = NumberType (sizeof ct) \<and> pred_comparator p \<noteq> NOT_EQUAL
            \<and> (metadata_enabled blk \<longrightarrow> harmless env ref blk (leaf_column env p) ct (pred_comparator p))
        | None \<Rightarrow> schema blk ! leaf_column env p = StringType)"

fun tree_ok :: "'v::linorder select_env \<Rightarrow> nat \<Rightarrow> block \<Rightarrow> 'v tree_node \<Rightarrow> bool" where
  "tree_ok env ref blk (PredicateNode p) \<longleftrightarrow> leaf_ok env ref blk p"
| "tree_ok env ref blk (ConnectiveNode left right c) \<longleftrightarrow> 0 < num_rows blk \<and> tree_ok env ref blk left \<and> tree_ok env ref blk right"

text \<open>The kernel that compares strings, for values without a C type.\<close>

definition text_kernel_ok :: "'v::linorder select_env \<Rightarrow> bool" where
  "text_kernel_ok env \<longleftrightarrow> (\<forall>op n col v. ctype_of env v = None \<longrightarrow> column_ok n StringType col \<longrightarrow>
     (\<exists>a. compare_array (compute env) op col (Scalar v) = Inr a
        \<and> bitmap_of n (\<lambda>r. comparator_fun op (text_value env (projr (cell StringType r col))) v) a))"

lemma col_data_ok:
  assumes "column_ok n (NumberType (sizeof ct)) col" "i < n"
  shows "col_data ct col i = Inr (values_of ct n col ! i)"
proof -
  have c: "aoffset col = 0" "n * sizeof ct \<le> length (bytes (buffer1 col))" using assms(1) by auto
  have "Suc i * sizeof ct \<le> n * sizeof ct" using assms(2) by (intro mult_right_mono) auto
  then have "int i * int (sizeof ct) + int (sizeof ct) \<le> int (length (bytes (buffer1 col)))"
    using c(2) by (simp add: add.commute flip: of_nat_mult of_nat_add)
  then show ?thesis using assms(2) c(1) by (simp add: col_data_def load_def values_of_def nat_mult_distrib)
qed

lemma Filter_T_ok:
  assumes ar: "arrow_ok (buffers env)" and blk: "block_ok blk" and c: "field_index env (col_name cref) = int c" "c < num_cols blk"
    and ct: "schema blk ! c = NumberType (sizeof ct)" and md: "metadata_enabled blk \<longrightarrow> harmless env ref blk c ct op"
  shows "\<exists>a. Filter_T env ct ref blk cref v op = Inr a
    \<and> bitmap_of (nat (num_rows blk)) (\<lambda>r. comparator_fun op (values_of ct (nat (num_rows blk)) (columns blk ! c) ! r) v) a"
proof -
  define n col where "n = nat (num_rows blk)" and "col = columns blk ! c"
  let ?bm = "bytes (allocate (buffers env) n)" and ?P = "\<lambda>r. comparator_fun op (values_of ct n col ! r) v"
  have col: "column_ok n (NumberType (sizeof ct)) col" "get_column_by_name env (col_name cref) blk = Inr col"
    using blk c ct by (auto simp: block_ok_def n_def col_def get_column_by_name_def)
  have bm: "n \<le> length ?bm" using ar by (simp add: arrow_ok_def)
  let ?f = "\<lambda>i. and_then (col_data ct col i) (\<lambda>x. Inr (if comparator_fun op x v then 1 else 0))"
  obtain a where a: "and_then (fill_bytemap ?f n 0 ?bm) (pack_filter n) = Inr a" "bitmap_of n ?P a"
    using fill_filter [of n ?f ?P ?bm] col_data_ok [OF col(1)] bm by auto
  show ?thesis
  proof (cases "metadata_enabled blk")
    case False
    then show ?thesis using a col(2) by (simp add: Filter_T_def Let_def n_def [symmetric] col_def [symmetric])
  next
    case True
    then have h: "harmless env ref blk c ct op" using md by simp
    then obtain b where b: "SearchMetadata (compute env) (int c) (Scalar v) op (metas env ref) = Inr b"
      using SearchMetadata_total [OF _ c(2)] by (fastforce simp: harmless_def)
    show ?thesis
    proof (cases b)
      case True
      then show ?thesis using a b col(2) \<open>metadata_enabled blk\<close> c(1)
        by (simp add: Filter_T_def SearchMetadataByName_def Let_def n_def [symmetric] col_def [symmetric])
    next
      case False
      have "\<not> pointer_data (compute env)"
      proof
        assume "pointer_data (compute env)"
        then have "search_units (Sma_Search (compute env) (Scalar v) op) us" for us
          by (induction us) (auto simp: pointer_search)
        then show False using b False by (auto simp: SearchMetadata_def and_then_Inr split: if_splits)
      qed
      then obtain cts where cts: "cts c = ct" "metadata_sound cts blk (metas env ref)" "compare_ok (compute env)" "usable (compute env) op"
        using h by (auto simp: harmless_def usable_def)
      have "\<not> ?P r" if "r < n" for r
      proof (rule SearchMetadata_sound [OF cts(2-4)])
        show "SearchMetadata (compute env) (int c) (Scalar v) op (metas env ref) = Inr False" using b False by simp
        show "values_of ct n col ! r \<in> set (column_at cts blk c)"
          using that cts(1) by (simp add: column_at_def n_def col_def values_of_def)
      qed
      then obtain a0 where a0: "and_then (fill_bytemap (\<lambda>i. Inr 0) n 0 ?bm) (pack_filter n) = Inr a0" "bitmap_of n ?P a0"
        using fill_filter [of n "\<lambda>i. Inr 0" ?P ?bm] bm by auto
      then show ?thesis using b False \<open>metadata_enabled blk\<close> c(1)
        by (simp add: Filter_T_def SearchMetadataByName_def Let_def n_def [symmetric] col_def [symmetric])
    qed
  qed
qed

text \<open>What evaluating a tree on a block leaves alone: the filters made before, and the entries of other blocks.\<close>

definition extends :: "nat \<Rightarrow> filter_state \<Rightarrow> filter_state \<Rightarrow> bool" where
  "extends b st st' \<longleftrightarrow> length (filter_heap st) \<le> length (filter_heap st')
     \<and> (\<forall>p < length (filter_heap st). filter_heap st' ! p = filter_heap st ! p)
     \<and> length (filters st') = length (filters st) \<and> (\<forall>j. j \<noteq> b \<longrightarrow> filters st' ! j = filters st ! j)"

lemma extends_trans: "extends b st st' \<Longrightarrow> extends b st' st'' \<Longrightarrow> extends b st st''"
  by (auto simp: extends_def)

definition filter_made :: "nat \<Rightarrow> nat \<Rightarrow> (nat \<Rightarrow> bool) \<Rightarrow> filter_state \<Rightarrow> nat \<times> filter_state \<Rightarrow> bool" where
  "filter_made b n P st r \<longleftrightarrow> extends b st (snd r) \<and> length (filter_heap st) \<le> fst r \<and> fst r < length (filter_heap (snd r))
     \<and> bitmap_of n P (filter_heap (snd r) ! fst r)"

lemma new_filter_made: "bitmap_of n P a \<Longrightarrow> filter_made b n P st (new_filter a st)"
  by (auto simp: filter_made_def new_filter_def extends_def nth_append)

lemma Filter_predicate_ok:
  assumes ar: "arrow_ok (buffers env)" and k: "text_kernel_ok env" and blk: "block_ok blk" and p: "leaf_ok env ref blk p"
    and b: "block_id blk = int b" "b < length (filters st)"
  shows "\<exists>r. Filter_predicate env ref blk p st = Inr r \<and> filter_made b (nat (num_rows blk)) (leaf_holds env blk p) st r"
proof -
  define c where "c = leaf_column env p"
  have c: "field_index env (col_name (col_ref p)) = int c" "c < num_cols blk" using p by (auto simp: leaf_ok_def c_def leaf_column_def)
  show ?thesis
  proof (cases "ctype_of env (pred_value p)")
    case (Some ct)
    have l: "schema blk ! c = NumberType (sizeof ct)" "pred_comparator p \<noteq> NOT_EQUAL"
      "metadata_enabled blk \<longrightarrow> harmless env ref blk c ct (pred_comparator p)" using p Some by (auto simp: leaf_ok_def c_def)
    from Filter_T_ok [OF ar blk c l(1,3), of "pred_value p"] obtain a where
      a: "Filter_T env ct ref blk (col_ref p) (pred_value p) (pred_comparator p) = Inr a" "bitmap_of (nat (num_rows blk)) (leaf_holds env blk p) a"
      using Some by (auto simp: leaf_holds_def c_def Let_def bitmap_of_def)
    have "Filter_predicate env ref blk p st = Inr (new_filter a st)"
      using a(1) l(2) Some by (simp add: Filter_predicate_def numeric_filter_def)
    then show ?thesis using new_filter_made [OF a(2)] by blast
  next
    case None
    then have s: "schema blk ! c = StringType" using p by (simp add: leaf_ok_def c_def)
    then have "column_ok (nat (num_rows blk)) StringType (columns blk ! c)" using blk c(2) by (auto simp: block_ok_def)
    from k [unfolded text_kernel_ok_def, rule_format, OF None this] obtain a where a: "compare_array (compute env) (pred_comparator p) (columns blk ! c) (Scalar (pred_value p)) = Inr a"
      "bitmap_of (nat (num_rows blk)) (leaf_holds env blk p) a"
      using None by (auto simp: leaf_holds_def Let_def c_def bitmap_of_def)
    define st1 where "st1 = st\<lparr>filter_heap := filter_heap st @ [a], filters := (filters st)[b := Some (length (filter_heap st))]\<rparr>"
    have "get_column_by_name env (col_name (col_ref p)) blk = Inr (columns blk ! c)"
      using blk c by (simp add: get_column_by_name_def block_ok_def)
    then have "Filter_predicate env ref blk p st = Inr (length (filter_heap st), st1)"
      using a(1) None b by (simp add: Filter_predicate_def default_filter_def new_filter_def set_filter_def st1_def)
    moreover have "filter_made b (nat (num_rows blk)) (leaf_holds env blk p) st (length (filter_heap st), st1)"
      using a(2) by (auto simp: filter_made_def extends_def st1_def nth_append)
    ultimately show ?thesis by blast
  qed
qed

lemma Filter_node_ok:
  assumes "arrow_ok (buffers env)" "text_kernel_ok env" "block_ok blk" "tree_ok env ref blk tree" "block_id blk = int b" "b < length (filters st)"
  shows "\<exists>r. Filter_node env ref blk tree st = Inr r \<and> filter_made b (nat (num_rows blk)) (row_satisfies env blk tree) st r"
  using assms(4,6)
proof (induction tree arbitrary: st)
  case (PredicateNode p)
  have "row_satisfies env blk (PredicateNode p) = leaf_holds env blk p" by (simp add: fun_eq_iff)
  then show ?case using Filter_predicate_ok [OF assms(1-3) _ assms(5)] PredicateNode by simp
next
  case (ConnectiveNode left right c)
  let ?n = "nat (num_rows blk)"
  obtain p st1 where l: "Filter_node env ref blk left st = Inr (p, st1)" "filter_made b ?n (row_satisfies env blk left) st (p, st1)"
    using ConnectiveNode by fastforce
  have b1: "b < length (filters st1)" using l(2) ConnectiveNode.prems(2) by (simp add: filter_made_def extends_def)
  obtain q st2 where r: "Filter_node env ref blk right st1 = Inr (q, st2)" "filter_made b ?n (row_satisfies env blk right) st1 (q, st2)"
    using ConnectiveNode b1 by fastforce
  have p: "p < length (filter_heap st2)" "filter_heap st2 ! p = filter_heap st1 ! p" "p \<noteq> q" "length (filter_heap st) \<le> p" and q: "q < length (filter_heap st2)"
    using l(2) r(2) by (auto simp: filter_made_def extends_def)
  have f: "bitmap_of ?n (row_satisfies env blk left) (filter_heap st2 ! p)" "bitmap_of ?n (row_satisfies env blk right) (filter_heap st2 ! q)"
    using l(2) r(2) p(2) by (auto simp: filter_made_def)
  obtain bits where bits: "connect c (nat (1 + (int (ba_length (filter_heap st2 ! p)) - 1) sdiv 8)) (ba_bits (filter_heap st2 ! p)) (ba_bits (filter_heap st2 ! q)) = Inr bits"
    "bitmap_of ?n (row_satisfies env blk (ConnectiveNode left right c)) ((filter_heap st2 ! p)\<lparr>ba_bits := bits\<rparr>)"
    using connect_ok [OF f, of c] ConnectiveNode.prems(1) by (auto simp: bitmap_of_def)
  define st3 where "st3 = st2\<lparr>filter_heap := (filter_heap st2)[p := (filter_heap st2 ! p)\<lparr>ba_bits := bits\<rparr>]\<rparr>"
  have "Filter_node env ref blk (ConnectiveNode left right c) st = Inr (p, st3)"
    using l(1) r(1) p(1) q bits(1) by (simp add: Let_def st3_def)
  moreover have "extends b st st2" using l(2) r(2) extends_trans by (auto simp: filter_made_def)
  then have "filter_made b ?n (row_satisfies env blk (ConnectiveNode left right c)) st (p, st3)"
    using bits(2) p by (auto simp: filter_made_def extends_def st3_def)
  ultimately show ?case by blast
qed

section \<open>The scan of a table\<close>

text \<open>
  A table that can be scanned: its blocks are numbered from zero, and the tree fits every one of them.
\<close>

definition scan_ok :: "'v::linorder select_env \<Rightarrow> DBTable \<Rightarrow> 'v tree_node \<Rightarrow> bool" where
  "scan_ok env t tree \<longleftrightarrow> blocks t \<noteq> [] \<and> length (blocks t) < 2 ^ 31 \<and>
     (\<forall>i < length (blocks t). \<exists>ref blk. block_at i t = Inr (ref, blk) \<and> block_ok blk \<and> block_id blk = int i \<and> tree_ok env ref blk tree)"

definition scanned_block :: "DBTable \<Rightarrow> nat \<Rightarrow> block" where
  "scanned_block t i = snd (projr (block_at i t))"

definition selected_rows :: "'v::linorder select_env \<Rightarrow> DBTable \<Rightarrow> 'v tree_node \<Rightarrow> nat \<Rightarrow> bool list" where
  "selected_rows env t tree i = map (row_satisfies env (scanned_block t i) tree) [0..<nat (num_rows (scanned_block t i))]"

text \<open>A filter that is entered is the filter of its block.\<close>

definition entered :: "'v::linorder select_env \<Rightarrow> DBTable \<Rightarrow> 'v tree_node \<Rightarrow> nat set \<Rightarrow> filter_state \<Rightarrow> bool" where
  "entered env t tree js st \<longleftrightarrow> length (filters st) = length (blocks t) \<and>
     (\<forall>j \<in> js. \<exists>p. filters st ! j = Some p \<and> p < length (filter_heap st) \<and> bools (filter_heap st ! p) = selected_rows env t tree j)"

lemma ExecuteBlock_ok:
  assumes e: "arrow_ok (buffers env)" "text_kernel_ok env" "scan_ok env t tree" and i: "i < length (blocks t)"
    and st: "entered env t tree js st" "js \<subseteq> {..<length (blocks t)}"
  shows "\<exists>st'. ExecuteBlock env t tree i st = Inr st' \<and> entered env t tree (insert i js) st'"
proof -
  obtain ref blk where b: "block_at i t = Inr (ref, blk)" "block_ok blk" "block_id blk = int i" "tree_ok env ref blk tree"
    using e(3) i by (auto simp: scan_ok_def)
  have len: "length (filters st) = length (blocks t)" using st(1) by (simp add: entered_def)
  obtain p st1 where f: "Filter_node env ref blk tree st = Inr (p, st1)"
    "filter_made i (nat (num_rows blk)) (row_satisfies env blk tree) st (p, st1)"
    using Filter_node_ok [OF e(1,2) b(2,4,3), of st] i len by auto
  have x: "extends i st st1" "p < length (filter_heap st1)" using f(2) by (auto simp: filter_made_def)
  have s: "bools (filter_heap st1 ! p) = selected_rows env t tree i"
    using f(2) b(1) by (auto simp: filter_made_def selected_rows_def scanned_block_def dest: bitmap_of_bools)
  define st2 where "st2 = st1\<lparr>filters := (filters st1)[i := Some p]\<rparr>"
  have "ExecuteBlock env t tree i st = Inr st2"
    using b(1) f(1) i len x(1) by (simp add: ExecuteBlock_def set_filter_def st2_def extends_def)
  moreover have "\<exists>p. filters st2 ! j = Some p \<and> p < length (filter_heap st2) \<and> bools (filter_heap st2 ! p) = selected_rows env t tree j"
    if j: "j \<in> insert i js" for j
  proof (cases "j = i")
    case True
    then show ?thesis using x s i len by (auto simp: st2_def extends_def)
  next
    case False
    then obtain q where "filters st ! j = Some q" "q < length (filter_heap st)" "bools (filter_heap st ! q) = selected_rows env t tree j"
      using st(1) j by (auto simp: entered_def)
    then show ?thesis using x(1) False by (auto simp: st2_def extends_def)
  qed
  ultimately show ?thesis using len x(1) by (auto simp: entered_def st2_def extends_def)
qed

lemma execute_blocks_ok:
  assumes e: "arrow_ok (buffers env)" "text_kernel_ok env" "scan_ok env t tree"
  shows "\<lbrakk>set is \<subseteq> {..<length (blocks t)}; entered env t tree js st; js \<subseteq> {..<length (blocks t)}\<rbrakk>
    \<Longrightarrow> \<exists>st'. execute_blocks env t tree is st = Inr st' \<and> entered env t tree (js \<union> set is) st'"
proof (induction "is" arbitrary: st js)
  case (Cons i "is")
  have i: "i < length (blocks t)" using Cons.prems(1) by simp
  obtain st1 where s: "ExecuteBlock env t tree i st = Inr st1" "entered env t tree (insert i js) st1"
    using ExecuteBlock_ok [OF e i Cons.prems(2,3)] by blast
  obtain st' where "execute_blocks env t tree is st1 = Inr st'" "entered env t tree (insert i js \<union> set is) st'"
    using Cons.IH [OF _ s(2)] Cons.prems i by auto
  then show ?case using s(1) by (auto simp: insert_commute)
qed auto

lemma batches_cover:
  assumes "hw \<noteq> 0" "n \<noteq> 0" "unat n < 2 ^ 31"
  shows "\<exists>bs. ForEachBatch hw n = Inr bs \<and> (\<Union>b \<in> set bs. set (batch_blocks n b)) = {..<unat n}"
proof -
  obtain k sz where f: "ForEachBatch hw n = Inr (map (\<lambda>i. (i, sz)) [0..<k])" "0 < unat sz" "(k - 1) * unat sz < unat n" "unat n \<le> k * unat sz"
    using ForEachBatch_ok [of hw n] assms(1,2) by (auto simp: word_less_nat_alt)
  have b: "batch_blocks n (i, sz) = [i * unat sz..<min (i * unat sz + unat sz) (unat n)]" if "i < k" for i
  proof -
    have le: "i * unat sz \<le> (k - 1) * unat sz" using that by (intro mult_right_mono) auto
    then have lt: "i * unat sz < 2 ^ 31" using f(3) assms(3) by linarith
    moreover have "i \<le> i * unat sz" using f(2) by simp
    ultimately have "i < 2 ^ 31" by (rule order.strict_trans1 [rotated])
    then have "i < 2 ^ 64" by simp
    then have "unat (of_nat i :: u64) = i" by (simp add: unsigned_of_nat take_bit_nat_eq_self)
    then have base: "unat (of_nat i * sz) = i * unat sz" using lt by (simp add: unat_word_ariths)
    have "i = 0 \<or> unat sz \<le> i * unat sz" by (cases i) auto
    then have "i * unat sz + unat sz < 2 ^ 64"
    proof
      assume "unat sz \<le> i * unat sz"
      then have "i * unat sz + unat sz < 2 ^ 31 + 2 ^ 31" using lt by linarith
      then show ?thesis by simp
    qed (use unsigned_less [of sz, where ?'a = nat] in simp)
    then have "unat (of_nat i * sz + sz) = i * unat sz + unat sz" using base by (simp add: unat_word_ariths)
    then show ?thesis using base by (simp add: batch_blocks_def Let_def min_def word_le_nat_alt)
  qed
  have "\<exists>i < k. i * unat sz \<le> j \<and> j < i * unat sz + unat sz" if "j < unat n" for j
    using that f(2,4) by (intro exI [of _ "j div unat sz"]) (auto simp: div_less_iff_less_mult mult.commute [of _ "unat sz"] intro: dividend_less_times_div [of "unat sz" j, unfolded add.commute [of "unat sz"]])
  then have "(\<Union>b \<in> set (map (\<lambda>i. (i, sz)) [0..<k]). set (batch_blocks n b)) = {..<unat n}"
    by (auto simp: b) fastforce
  then show ?thesis using f(1) by blast
qed

lemma filter_chunks_ok:
  "\<forall>j < length ps. \<exists>p. ps ! j = Some p \<and> p < length hp \<and> bools (hp ! p) = f j
    \<Longrightarrow> \<exists>as. filter_chunks hp ps = Inr as \<and> map bools as = map f [0..<length ps]"
proof (induction ps arbitrary: f)
  case (Cons x ps)
  obtain p where p: "x = Some p" "p < length hp" "bools (hp ! p) = f 0" using Cons.prems by fastforce
  obtain as where "filter_chunks hp ps = Inr as" "map bools as = map (\<lambda>j. f (Suc j)) [0..<length ps]"
    using Cons.IH [of "\<lambda>j. f (Suc j)"] Cons.prems by fastforce
  then show ?case using p by (simp add: map_upt_Suc del: upt_Suc)
qed simp


text \<open>An example: a block with the rows 7 and 9 in a table of its own.\<close>

definition sample_env :: "int select_env" where
  "sample_env = \<lparr>buffers = arrow64, compute = int_compute (\<lambda>_. True), ctype_of = (\<lambda>_. Some int64_type), field_index = (\<lambda>_. 0),
     metas = (\<lambda>_. metadata_new 1), text_value = (\<lambda>_. 0)\<rparr>"

definition sample_db :: db_tables where
  "sample_db = \<lparr>tb_num_cols = \<lambda>_. 1, tb_field = \<lambda>_ _. 0, tb_column = \<lambda>_ _. []\<rparr>"

lemma values_cell: "cell (NumberType (sizeof ct)) r col = Inr bs \<Longrightarrow> r < n \<Longrightarrow> values_of ct n col ! r = of_bytes ct bs"
  by (auto simp: cell_def load_def values_of_def nat_mult_distrib split: if_splits)

lemma sample_scan:
  "\<exists>blk. block_ok blk \<and> schema blk = [NumberType 8] \<and> block_id blk = 0 \<and> num_rows blk = 2
    \<and> rows blk = [[Inr [7, 0, 0, 0, 0, 0, 0, 0]], [Inr [9, 0, 0, 0, 0, 0, 0, 0]]]
    \<and> values_of int64_type 2 (columns blk ! 0) = [7, 9]"
proof -
  have ts: "list_all plain [NumberType 8]" "0 < row_width [NumberType 8]" "row_width [NumberType 8] \<le> 16" by (simp_all add: row_width_def)
  obtain b0 where b: "block_ok b0" "rows b0 = []" "schema b0 = [NumberType 8]" "capacity b0 = 16" "num_bytes b0 = 0" "num_rows b0 = 0" "block_id b0 = 0"
    using Block_new_ok [OF arrow64_ok ts, of 0 True] by blast
  have r: "record_ok blk [x] [1]" if "schema blk = [NumberType 8]" for blk x using that by (simp add: record_ok_def num_cols_def)
  obtain b1 where c: "block_ok b1" "rows b1 = [[Inr [7, 0, 0, 0, 0, 0, 0, 0]]]" "schema b1 = [NumberType 8]" "capacity b1 = 16" "num_bytes b1 = 8"
    "num_rows b1 = 1" "block_id b1 = 0"
    using InsertRecord_ok [OF arrow64_ok b(1) r, of 7] b(2-7) by (auto simp: get_bytes_left_def value_bytes_def numeral_eq_Suc)
  obtain b2 where d: "block_ok b2" "rows b2 = [[Inr [7, 0, 0, 0, 0, 0, 0, 0]], [Inr [9, 0, 0, 0, 0, 0, 0, 0]]]" "schema b2 = [NumberType 8]"
    "num_rows b2 = 2" "block_id b2 = 0"
    using InsertRecord_ok [OF arrow64_ok c(1) r, of 9] c(2-7) by (auto simp: get_bytes_left_def value_bytes_def numeral_eq_Suc)
  have cells: "cell (NumberType 8) 0 (columns b2 ! 0) = Inr [7, 0, 0, 0, 0, 0, 0, 0]" "cell (NumberType 8) 1 (columns b2 ! 0) = Inr [9, 0, 0, 0, 0, 0, 0, 0]"
    using d(2-4) by (simp_all add: rows_def num_cols_def upt_rec)
  have s8: "sizeof int64_type = 8" by (simp add: int64_type_def)
  have "values_of int64_type 2 (columns b2 ! 0) ! 0 = 7" "values_of int64_type 2 (columns b2 ! 0) ! 1 = 9"
    using values_cell [of int64_type 0 "columns b2 ! 0" _ 2] values_cell [of int64_type 1 "columns b2 ! 0" _ 2] cells
    by (simp_all add: s8) (simp_all add: int64_type_def of_le64_def)
  moreover have "length (values_of int64_type 2 (columns b2 ! 0)) = 2" by (simp add: values_of_def)
  ultimately have "values_of int64_type 2 (columns b2 ! 0) = [7, 9]" by (auto simp: numeral_2_eq_2 length_Suc_conv)
  then show ?thesis using d by blast
qed


text \<open>C40: \<open>NOT_EQUAL\<close> on a column of numbers is not the comparison: without a second value, as a query with
  \<open><>\<close> has it, the selection of any block throws; with one, a row is kept if the distance of its value from the
  first byte of the first value is, modulo 256, at most the distance between the first bytes of the two.
\<close>

theorem not_equal_is_range:
  assumes "ctype_of env (pred_value p) = Some ct" "pred_comparator p = NOT_EQUAL"
    "field_index env (col_name (col_ref p)) = int c" "c < num_cols blk" "block_ok blk"
  shows "(pred_value2 p = None \<longrightarrow> Filter_node env ref blk (PredicateNode p) st = Inl RuntimeError)
    \<and> (\<forall>v2 f. pred_value2 p = Some v2 \<longrightarrow> schema blk ! c = NumberType (sizeof ct) \<longrightarrow> arrow_ok (buffers env) \<longrightarrow>
         (\<forall>r < nat (num_rows blk). minus_u8 ct (values_of ct (nat (num_rows blk)) (columns blk ! c) ! r)
            (first_byte (compute env) (pred_value p)) = Inr (f r)) \<longrightarrow>
         (\<exists>q. Filter_node env ref blk (PredicateNode p) st = Inr q
            \<and> bools (filter_heap (snd q) ! fst q)
              = map (\<lambda>r. f r \<le> first_byte (compute env) v2 - first_byte (compute env) (pred_value p)) [0..<nat (num_rows blk)]))"
proof (intro conjI impI allI)
  have col: "get_column_by_name env (col_name (col_ref p)) blk = Inr (columns blk ! c)"
    using assms(3-5) by (simp add: get_column_by_name_def block_ok_def)
  show "Filter_node env ref blk (PredicateNode p) st = Inl RuntimeError" if "pred_value2 p = None"
    using that assms(1,2) col by (simp add: Filter_predicate_def numeric_filter_def Filter_range_def)
  fix v2 f
  let ?n = "nat (num_rows blk)" and ?lo = "first_byte (compute env) (pred_value p)" and ?hi = "first_byte (compute env) v2"
  assume a: "pred_value2 p = Some v2" "schema blk ! c = NumberType (sizeof ct)" "arrow_ok (buffers env)"
    "\<forall>r < ?n. minus_u8 ct (values_of ct ?n (columns blk ! c) ! r) ?lo = Inr (f r)"
  have ok: "column_ok ?n (NumberType (sizeof ct)) (columns blk ! c)" using assms(4,5) a(2) by (auto simp: block_ok_def)
  have bm: "?n \<le> length (bytes (allocate (buffers env) ?n))" using a(3) by (simp add: arrow_ok_def)
  let ?f = "\<lambda>i. and_then (col_data ct (columns blk ! c) i) (\<lambda>x. and_then (minus_u8 ct x ?lo) (\<lambda>d. Inr (if d \<le> ?hi - ?lo then 1 else 0)))"
  obtain b where b: "and_then (fill_bytemap ?f ?n 0 (bytes (allocate (buffers env) ?n))) (pack_filter ?n) = Inr b"
    "bitmap_of ?n (\<lambda>r. f r \<le> ?hi - ?lo) b"
    using fill_filter [of ?n ?f "\<lambda>r. f r \<le> ?hi - ?lo" "bytes (allocate (buffers env) ?n)"] col_data_ok [OF ok] a(4) bm by auto
  have "Filter_node env ref blk (PredicateNode p) st = Inr (new_filter b st)"
    using assms(1,2) col a(1) b(1) by (simp add: Filter_predicate_def numeric_filter_def Filter_range_def Let_def)
  then show "\<exists>q. Filter_node env ref blk (PredicateNode p) st = Inr q \<and> bools (filter_heap (snd q) ! fst q) = map (\<lambda>r. f r \<le> ?hi - ?lo) [0..<?n]"
    using bitmap_of_bools [OF b(2)] by (simp add: new_filter_def)
qed

theorem not_equal_is_range_witness:
  "\<exists>blk p r. rows blk = [[Inr [7, 0, 0, 0, 0, 0, 0, 0]], [Inr [9, 0, 0, 0, 0, 0, 0, 0]]]
    \<and> p = \<lparr>col_ref = \<lparr>ref_table = 1, col_name = ''a''\<rparr>, pred_comparator = NOT_EQUAL, pred_value = 0, pred_value2 = None\<rparr>
    \<and> Filter_node sample_env 0 blk (PredicateNode p) \<lparr>filter_heap = [], filters = [None]\<rparr> = Inl RuntimeError
    \<and> Filter_node sample_env 0 blk (PredicateNode (p\<lparr>pred_value2 := Some 264\<rparr>)) \<lparr>filter_heap = [], filters = [None]\<rparr> = Inr r
    \<and> bools (filter_heap (snd r) ! fst r) = [True, False]"
proof -
  obtain blk where b: "block_ok blk" "schema blk = [NumberType 8]" "num_rows blk = 2"
    "rows blk = [[Inr [7, 0, 0, 0, 0, 0, 0, 0]], [Inr [9, 0, 0, 0, 0, 0, 0, 0]]]" "values_of int64_type 2 (columns blk ! 0) = [7, 9]"
    using sample_scan by blast
  define p where "p = \<lparr>col_ref = \<lparr>ref_table = 1, col_name = ''a''\<rparr>, pred_comparator = NOT_EQUAL, pred_value = 0 :: int, pred_value2 = None\<rparr>"
  let ?q = "p\<lparr>pred_value2 := Some 264\<rparr>" and ?f = "\<lambda>r. [7, 9 :: u8] ! r"
  have e: "ctype_of sample_env v = Some int64_type" "field_index sample_env n = int 0" "first_byte (compute sample_env) v = word_of_int v"
    "buffers sample_env = arrow64" for v n by (simp_all add: sample_env_def int_compute_def)
  have c: "0 < num_cols blk" using b(2) by (simp add: num_cols_def)
  have "Filter_node sample_env 0 blk (PredicateNode p) \<lparr>filter_heap = [], filters = [None]\<rparr> = Inl RuntimeError"
    using not_equal_is_range [OF e(1) _ e(2) c b(1), of p] by (simp add: p_def)
  moreover have "minus_u8 int64_type ([7, 9] ! r) 0 = Inr (?f r)" if "r < 2" for r
    using that by (auto simp: int64_type_def less_2_cases_iff)
  then have "\<forall>r < nat (num_rows blk). minus_u8 int64_type (values_of int64_type (nat (num_rows blk)) (columns blk ! 0) ! r)
      (first_byte (compute sample_env) (pred_value ?q)) = Inr (?f r)" using b(3,5) by (simp add: e p_def)
  then have "\<exists>r. Filter_node sample_env 0 blk (PredicateNode ?q) \<lparr>filter_heap = [], filters = [None]\<rparr> = Inr r \<and> bools (filter_heap (snd r) ! fst r)
      = map (\<lambda>r. ?f r \<le> first_byte (compute sample_env) 264 - first_byte (compute sample_env) (pred_value ?q)) [0..<nat (num_rows blk)]"
    using not_equal_is_range [OF e(1) _ e(2) c b(1), of ?q] b(2) arrow64_ok by (simp add: p_def e int64_type_def)
  then have "\<exists>r. Filter_node sample_env 0 blk (PredicateNode ?q) \<lparr>filter_heap = [], filters = [None]\<rparr> = Inr r \<and> bools (filter_heap (snd r) ! fst r) = [True, False]"
    using b(3) by (simp add: e p_def upt_rec)
  ultimately show ?thesis using b(4) p_def by blast
qed

end
