(* ===== verification/Catalog.thy ===== *)
theory Catalog
  imports Prelude "HOL-Library.Char_ord" "HOL-Library.List_Lexorder" "HOL-Library.Countable"
begin

text \<open>
  The catalog (\<open>src/src/catalog\<close>) and the databases that use it (\<open>src/src/api/hustle_db.cc\<close>): schemas of columns
  and tables, the directory of tables with its file, and the SQL statement that creates a table in SQLite. First all
  operations, then the schema, then the directory.
\<close>

section \<open>Columns\<close>

datatype HustleType = INTEGER | CHAR_type

definition kDefaultCharSize :: int where "kDefaultCharSize = 64"

record ColumnType =
  ct_type :: HustleType
  ct_size :: "int option"

definition ColumnType_new :: "HustleType \<Rightarrow> ColumnType" where "ColumnType_new t = \<lparr>ct_type = t, ct_size = None\<rparr>"

definition ColumnType_sized :: "HustleType \<Rightarrow> int \<Rightarrow> ColumnType" where "ColumnType_sized t n = \<lparr>ct_type = t, ct_size = Some n\<rparr>"

definition has_size :: "ColumnType \<Rightarrow> bool" where "has_size ct \<longleftrightarrow> ct_size ct \<noteq> None"

text \<open>\<open>std::to_string\<close> of an integer.\<close>

fun digits :: "nat \<Rightarrow> string" where
  "digits n = (if n < 10 then [char_of (48 + n)] else digits (n div 10) @ [char_of (48 + n mod 10)])"

declare digits.simps [simp del]

definition to_string :: "int \<Rightarrow> string" where
  "to_string i = (if i < 0 then ''-'' @ digits (nat (- i)) else digits (nat i))"

text \<open>\<open>*size_\<close> of a type without a size is undefined.\<close>

definition ColumnType_toString :: "ColumnType \<Rightarrow> string res" where
  "ColumnType_toString ct =
    (case ct_type ct of INTEGER \<Rightarrow> Inr ''INT''
     | CHAR_type \<Rightarrow> (case ct_size ct of None \<Rightarrow> Inl NullDeref | Some n \<Rightarrow> Inr (''CHAR('' @ (to_string n @ '')''))))"

definition toSQLString :: "ColumnType \<Rightarrow> string res" where
  "toSQLString ct =
    (case ct_type ct of INTEGER \<Rightarrow> Inr ''INTEGER''
     | CHAR_type \<Rightarrow> (case ct_size ct of None \<Rightarrow> Inl NullDeref | Some n \<Rightarrow> Inr (''CHAR('' @ (to_string n @ '')''))))"

datatype field_type = Utf8 | Int64

record ColumnSchema =
  cs_name :: string
  cs_type :: ColumnType
  notNull :: bool
  unique :: bool
  cs_field :: "(string \<times> field_type) option"

definition ColumnSchema_new :: "string \<Rightarrow> ColumnType \<Rightarrow> bool \<Rightarrow> bool \<Rightarrow> ColumnSchema" where
  "ColumnSchema_new name ct nn u = \<lparr>cs_name = name, cs_type = ct, notNull = nn, unique = u,
     cs_field = Some (name, case ct_type ct of CHAR_type \<Rightarrow> Utf8 | INTEGER \<Rightarrow> Int64)\<rparr>"

definition ColumnSchema_toString :: "ColumnSchema \<Rightarrow> string res" where
  "ColumnSchema_toString c =
    and_then (ColumnType_toString (cs_type c)) (\<lambda>t.
      Inr (cs_name c @ '' '' @ t @ '' notNull: '' @ to_string (of_bool (notNull c)) @ '' unique: '' @ to_string (of_bool (unique c))))"

section \<open>Tables\<close>

text \<open>A hash map is the list of its entries, the last assigned first.\<close>

definition hash_put :: "'k \<Rightarrow> 'v \<Rightarrow> ('k \<times> 'v) list \<Rightarrow> ('k \<times> 'v) list" where
  "hash_put k v m = (k, v) # filter (\<lambda>(k', _). k' \<noteq> k) m"

lemma map_of_hash_put [simp]: "map_of (hash_put k v m) = (map_of m)(k \<mapsto> v)"
proof -
  have "x \<noteq> k \<Longrightarrow> map_of (filter (\<lambda>(k', _). k' \<noteq> k) m) x = map_of m x" for x by (induction m) auto
  then show ?thesis by (auto simp: hash_put_def fun_eq_iff)
qed

record TableSchema =
  ts_name :: string
  primary_key :: "string list"
  ts_columns :: "ColumnSchema list"
  arrow_fields :: "(string \<times> field_type) option list"
  name_to_id :: "(string \<times> nat) list"

definition TableSchema_new :: "string \<Rightarrow> TableSchema" where
  "TableSchema_new name = \<lparr>ts_name = name, primary_key = [], ts_columns = [], arrow_fields = [], name_to_id = []\<rparr>"

fun push_names :: "string list \<Rightarrow> string list \<Rightarrow> string list" where
  "push_names [] acc = acc"
| "push_names (c # pk) acc = push_names pk (acc @ [c])"

definition setPrimaryKey :: "string list \<Rightarrow> TableSchema \<Rightarrow> TableSchema" where
  "setPrimaryKey pk ts = ts\<lparr>primary_key := push_names pk []\<rparr>"

definition addColumn :: "ColumnSchema \<Rightarrow> TableSchema \<Rightarrow> bool \<times> TableSchema" where
  "addColumn c ts =
    (if map_of (name_to_id ts) (cs_name c) \<noteq> None then (False, ts)
     else let ts = ts\<lparr>arrow_fields := arrow_fields ts @ [cs_field c], ts_columns := ts_columns ts @ [c]\<rparr>
       in (True, ts\<lparr>name_to_id := hash_put (cs_name c) (length (ts_columns ts) - 1) (name_to_id ts)\<rparr>))"

definition ColumnExists :: "string \<Rightarrow> TableSchema \<Rightarrow> ColumnSchema option res" where
  "ColumnExists name ts =
    (case map_of (name_to_id ts) name of None \<Rightarrow> Inr None
     | Some i \<Rightarrow> and_then (fetch (ts_columns ts) i) (\<lambda>c. Inr (Some c)))"

definition getArrowSchema :: "TableSchema \<Rightarrow> (string \<times> field_type) option list" where "getArrowSchema ts = arrow_fields ts"

section \<open>The statement that creates a table\<close>

fun append_columns :: "ColumnSchema list \<Rightarrow> nat \<Rightarrow> nat \<Rightarrow> string \<Rightarrow> string res" where
  "append_columns [] i n sql = Inr sql"
| "append_columns (c # cs) i n sql =
    and_then (ColumnType_toString (cs_type c)) (\<lambda>t.
      let sql = sql @ cs_name c @ '' '' @ t @ '' '';
          sql = (if unique c then sql @ '' UNIQUE'' else sql);
          sql = (if notNull c then sql @ '' NOT NULL'' else sql);
          sql = (if i < n - 1 then sql @ '', '' else sql)
      in append_columns cs (i + 1) n sql)"

fun append_keys :: "string list \<Rightarrow> string \<Rightarrow> string" where
  "append_keys [] sql = sql"
| "append_keys (k # ks) sql = append_keys ks (sql @ '', '' @ k)"

definition createCreateSql :: "TableSchema \<Rightarrow> string res" where
  "createCreateSql ts =
    (let sql = ''BEGIN;''; sql = sql @ ''CREATE TABLE '' @ ts_name ts @ ''('' in
     and_then (append_columns (ts_columns ts) 0 (length (ts_columns ts)) sql) (\<lambda>sql.
       let sql = (case primary_key ts of [] \<Rightarrow> sql
                  | k # ks \<Rightarrow> append_keys ks ((sql @ '', PRIMARY KEY('') @ k) @ '')'')
       in Inr ((sql @ '');'') @ ''COMMIT;'')))"

section \<open>The directory of tables\<close>

text \<open>
  \<open>std::map\<close> is sorted by its keys, without duplicates. A table is a reference of type \<open>'t\<close>. The files, by their
  paths, and the state \<open>'d\<close> of SQLite are outside of the catalog.
\<close>

fun map_put :: "'k::linorder \<Rightarrow> 'v \<Rightarrow> ('k \<times> 'v) list \<Rightarrow> ('k \<times> 'v) list" where
  "map_put k v [] = [(k, v)]"
| "map_put k v ((k', v') # m) =
    (if k < k' then (k, v) # (k', v') # m else if k = k' then (k, v) # m else (k', v') # map_put k v m)"

definition map_erase :: "'k \<Rightarrow> ('k \<times> 'v) list \<Rightarrow> ('k \<times> 'v) list" where
  "map_erase k m = filter (\<lambda>(k', _). k' \<noteq> k) m"

record 't TableInfo =
  info_schema :: TableSchema
  info_table :: "'t option"

record 't Catalog =
  tables :: "(string \<times> 't TableInfo) list"
  CatalogPath :: string
  SqlitePath :: string

record 'd outside =
  files :: "string \<rightharpoonup> string"
  sqlite :: 'd

text \<open>
  SQLite, by its documented interface: \<open>sqlite3_exec\<close> of a statement gives whether it succeeds, the rows that are
  handed to the callback and the new state; when the callback does not return zero the statement is aborted.
\<close>

type_synonym sql_row = "string option list"

record 'd engine =
  sqlite3_exec :: "string \<Rightarrow> 'd \<Rightarrow> bool \<times> sql_row list \<times> 'd"
  sqlite3_abort :: "string \<Rightarrow> 'd \<Rightarrow> 'd"
  sqlite3_open :: "string \<Rightarrow> 'd \<Rightarrow> 'd"
  sqlite3_close :: "'d \<Rightarrow> 'd"
  sqlite3_load_hustle :: "string \<Rightarrow> 'd \<Rightarrow> 'd"
  remove_file :: "string \<Rightarrow> 'd \<Rightarrow> 'd"

fun print_fields :: "nat \<Rightarrow> sql_row \<Rightarrow> string \<Rightarrow> string" where
  "print_fields i [] result = result"
| "print_fields i (v # vs) result =
    (let result = (if i \<noteq> 0 then result @ '' | '' else result)
     in print_fields (i + 1) vs (result @ (case v of Some x \<Rightarrow> x | None \<Rightarrow> ''NULL'')))"

text \<open>The callback: the status it returns, and the result.\<close>

definition callback_print_plan :: "sql_row \<Rightarrow> string option \<Rightarrow> int \<times> string option" where
  "callback_print_plan row result =
    (case result of None \<Rightarrow> (-1, None) | Some r \<Rightarrow> (0, Some (print_fields 0 row r @ [CHR 0x0A])))"

fun callback_rows :: "sql_row list \<Rightarrow> string option \<Rightarrow> bool \<times> string option" where
  "callback_rows [] result = (True, result)"
| "callback_rows (row # rows) result =
    (case callback_print_plan row result of (rc, result) \<Rightarrow> if rc \<noteq> 0 then (False, result) else callback_rows rows result)"

definition exec_callback :: "'d engine \<Rightarrow> string \<Rightarrow> string option \<Rightarrow> 'd \<Rightarrow> bool \<times> string option \<times> 'd" where
  "exec_callback eng sql result d =
    (case sqlite3_exec eng sql d of (ok, rows, d') \<Rightarrow>
     case callback_rows rows result of (done, result) \<Rightarrow> if done then (ok, result, d') else (False, result, sqlite3_abort eng sql d))"

definition open_sqlite3_db :: "'d engine \<Rightarrow> string \<Rightarrow> 'd \<Rightarrow> 'd" where
  "open_sqlite3_db eng path d = snd (snd (sqlite3_exec eng ''PRAGMA journal_mode=WAL;'' (sqlite3_open eng path d)))"

fun load_tables :: "'d engine \<Rightarrow> string list \<Rightarrow> 'd \<Rightarrow> 'd" where
  "load_tables eng [] d = d"
| "load_tables eng (t # ts) d = load_tables eng ts (sqlite3_load_hustle eng t d)"

definition execute_sqlite_result :: "'d engine \<Rightarrow> string \<Rightarrow> 'd \<Rightarrow> string \<times> 'd" where
  "execute_sqlite_result eng sql d = (case exec_callback eng sql (Some []) d of (_, r, d) \<Rightarrow> (case r of Some x \<Rightarrow> x | None \<Rightarrow> [], d))"

definition execute_sqlite_query :: "'d engine \<Rightarrow> string \<Rightarrow> 'd \<Rightarrow> bool \<times> 'd" where
  "execute_sqlite_query eng sql d = (case exec_callback eng sql None d of (ok, _, d) \<Rightarrow> (ok, d))"

definition run_sql :: "'d engine \<Rightarrow> string \<Rightarrow> 'd outside \<Rightarrow> bool \<times> 'd outside" where
  "run_sql eng sql w = (case execute_sqlite_query eng sql (sqlite w) of (b, d) \<Rightarrow> (b, w\<lparr>sqlite := d\<rparr>))"

text \<open>
  What \<open>serialize\<close> writes and reads: of a column its name, type and constraints, of a table its name, columns, primary
  key and positions. Reading assigns to objects made by the default constructors.
\<close>

type_synonym column_archive = "string \<times> (HustleType \<times> int option) \<times> bool \<times> bool"
type_synonym schema_archive = "string \<times> column_archive list \<times> string list \<times> (string \<times> nat) list"
type_synonym archive = "string \<times> string \<times> (string \<times> schema_archive) list"

definition save_column :: "ColumnSchema \<Rightarrow> column_archive" where
  "save_column c = (cs_name c, (ct_type (cs_type c), ct_size (cs_type c)), notNull c, unique c)"

definition load_column :: "column_archive \<Rightarrow> ColumnSchema" where
  "load_column a = (case a of (name, (t, s), nn, u) \<Rightarrow>
     \<lparr>cs_name = name, cs_type = \<lparr>ct_type = t, ct_size = s\<rparr>, notNull = nn, unique = u, cs_field = None\<rparr>)"

definition save_schema :: "TableSchema \<Rightarrow> schema_archive" where
  "save_schema ts = (ts_name ts, map save_column (ts_columns ts), primary_key ts, name_to_id ts)"

definition load_schema :: "schema_archive \<Rightarrow> TableSchema" where
  "load_schema a = (case a of (name, cs, pk, ids) \<Rightarrow>
     \<lparr>ts_name = name, primary_key = pk, ts_columns = map load_column cs, arrow_fields = [], name_to_id = ids\<rparr>)"

definition save_catalog :: "'t Catalog \<Rightarrow> archive" where
  "save_catalog c = (CatalogPath c, SqlitePath c, map (\<lambda>(n, i). (n, save_schema (info_schema i))) (tables c))"

definition load_catalog :: "archive \<Rightarrow> 't Catalog" where
  "load_catalog a = (case a of (cp, sp, ts) \<Rightarrow>
     \<lparr>tables = map (\<lambda>(n, s). (n, \<lparr>info_schema = load_schema s, info_table = None\<rparr>)) ts, CatalogPath = cp, SqlitePath = sp\<rparr>)"

record json =
  write_json :: "archive \<Rightarrow> string"
  read_json :: "string \<Rightarrow> archive"

definition Catalog_new :: "string \<Rightarrow> string \<Rightarrow> 't Catalog" where
  "Catalog_new cp sp = \<lparr>tables = [], CatalogPath = cp, SqlitePath = sp\<rparr>"

definition SaveToFile :: "json \<Rightarrow> 't Catalog \<Rightarrow> 'd outside \<Rightarrow> 'd outside" where
  "SaveToFile js c w = w\<lparr>files := (files w)(CatalogPath c \<mapsto> write_json js (save_catalog c) @ [CHR 0x0A])\<rparr>"

definition GetTableById :: "nat \<Rightarrow> 't Catalog \<Rightarrow> 't option" where "GetTableById table_id c = None"

definition GetTable :: "string \<Rightarrow> 't Catalog \<Rightarrow> 't option" where
  "GetTable name c = (case map_of (tables c) name of None \<Rightarrow> None | Some i \<Rightarrow> info_table i)"

definition TableExists :: "string \<Rightarrow> 't Catalog \<Rightarrow> TableSchema option" where
  "TableExists name c = map_option info_schema (map_of (tables c) name)"

definition GetTableNames :: "'t Catalog \<Rightarrow> string list" where "GetTableNames c = map fst (tables c)"

definition GetTableSchemas :: "'t Catalog \<Rightarrow> TableSchema list" where "GetTableSchemas c = map (info_schema \<circ> snd) (tables c)"

definition DropTable :: "'d engine \<Rightarrow> string \<Rightarrow> 'd outside \<Rightarrow> bool \<times> 'd outside" where
  "DropTable eng name w = run_sql eng (''DROP TABLE '' @ name @ '';'') w"

definition DropMemTable :: "json \<Rightarrow> string \<Rightarrow> 't Catalog \<Rightarrow> 'd outside \<Rightarrow> bool \<times> 't Catalog \<times> 'd outside" where
  "DropMemTable js name c w =
    (case map_of (tables c) name of None \<Rightarrow> (False, c, w)
     | Some _ \<Rightarrow> let c = c\<lparr>tables := map_erase name (tables c)\<rparr> in (True, c, SaveToFile js c w))"

definition AddTable :: "json \<Rightarrow> 'd engine \<Rightarrow> TableSchema \<Rightarrow> 't option \<Rightarrow> 't Catalog \<Rightarrow> 'd outside
    \<Rightarrow> (bool \<times> 't Catalog \<times> 'd outside) res" where
  "AddTable js eng t table_ref c w =
    (case map_of (tables c) (ts_name t) of Some _ \<Rightarrow> Inr (False, c, w)
     | None \<Rightarrow>
       let c = c\<lparr>tables := map_put (ts_name t) \<lparr>info_schema = t, info_table = table_ref\<rparr> (tables c)\<rparr>;
           w = SaveToFile js c w
       in and_then (createCreateSql t) (\<lambda>sql. Inr (True, c, snd (run_sql eng sql w))))"

fun create_all :: "'d engine \<Rightarrow> TableSchema list \<Rightarrow> 'd outside \<Rightarrow> 'd outside res" where
  "create_all eng [] w = Inr w"
| "create_all eng (t # ts) w = and_then (createCreateSql t) (\<lambda>sql. create_all eng ts (snd (run_sql eng sql w)))"

definition CreateCatalog :: "json \<Rightarrow> 'd engine \<Rightarrow> string \<Rightarrow> string \<Rightarrow> 'd outside \<Rightarrow> ('t Catalog \<times> 'd outside) res" where
  "CreateCatalog js eng cp sp w =
    (case files w cp of
       Some text \<Rightarrow>
         let c = load_catalog (read_json js text); w = w\<lparr>sqlite := open_sqlite3_db eng sp (remove_file eng sp (sqlite w))\<rparr> in
         and_then (create_all eng (GetTableSchemas c) w) (\<lambda>w. Inr (c, w\<lparr>sqlite := sqlite3_close eng (sqlite w)\<rparr>))
     | None \<Rightarrow> Inr (Catalog_new cp sp, w))"

definition CreateCatalogObject :: "string \<Rightarrow> string \<Rightarrow> 't Catalog" where
  "CreateCatalogObject cp sp = Catalog_new cp sp"

section \<open>Databases\<close>

text \<open>
  The static map of catalogs holds addresses of shared catalogs; \<open>operator[]\<close> enters a null for a name it does not have.
\<close>

record ('t, 'd) hustle =
  registry :: "string \<rightharpoonup> nat option"
  catalog_heap :: "'t Catalog list"
  world :: "'d outside"

record HustleDB =
  db_path :: string
  db_catalog_path :: string
  db_sqlite_path :: string
  db_catalog :: nat

definition add_catalog :: "string \<Rightarrow> nat \<Rightarrow> ('t, 'd) hustle \<Rightarrow> ('t, 'd) hustle" where
  "add_catalog name a h = (case registry h name of Some _ \<Rightarrow> h | None \<Rightarrow> h\<lparr>registry := (registry h)(name \<mapsto> Some a)\<rparr>)"

definition get_catalog :: "string \<Rightarrow> ('t, 'd) hustle \<Rightarrow> nat option \<times> ('t, 'd) hustle" where
  "get_catalog name h = (case registry h name of Some a \<Rightarrow> (a, h) | None \<Rightarrow> (None, h\<lparr>registry := (registry h)(name \<mapsto> None)\<rparr>))"

definition HustleDB_new :: "'d engine \<Rightarrow> string \<Rightarrow> ('t, 'd) hustle \<Rightarrow> HustleDB \<times> ('t, 'd) hustle" where
  "HustleDB_new eng path h =
    (let cp = path @ ''/'' @ ''catalog.json''; sp = path @ ''/'' @ ''hustle_sqlite.db''; a = length (catalog_heap h);
         h = h\<lparr>catalog_heap := catalog_heap h @ [CreateCatalogObject cp sp]\<rparr>;
         h = add_catalog sp a h
     in (\<lparr>db_path = path, db_catalog_path = cp, db_sqlite_path = sp, db_catalog = a\<rparr>,
         h\<lparr>world := (world h)\<lparr>sqlite := open_sqlite3_db eng sp (sqlite (world h))\<rparr>\<rparr>))"

definition create_table :: "json \<Rightarrow> 'd engine \<Rightarrow> TableSchema \<Rightarrow> 't option \<Rightarrow> HustleDB \<Rightarrow> ('t, 'd) hustle \<Rightarrow> (bool \<times> ('t, 'd) hustle) res" where
  "create_table js eng ts table_ref db h =
    and_then (fetch (catalog_heap h) (db_catalog db)) (\<lambda>c.
    and_then (AddTable js eng ts table_ref c (world h)) (\<lambda>(b, c, w).
      Inr (b, h\<lparr>catalog_heap := (catalog_heap h)[db_catalog db := c], world := w\<rparr>)))"

definition drop_table :: "'d engine \<Rightarrow> string \<Rightarrow> HustleDB \<Rightarrow> ('t, 'd) hustle \<Rightarrow> bool \<times> ('t, 'd) hustle" where
  "drop_table eng name db h = (case DropTable eng name (world h) of (b, w) \<Rightarrow> (b, h\<lparr>world := w\<rparr>))"

definition drop_mem_table :: "json \<Rightarrow> string \<Rightarrow> HustleDB \<Rightarrow> ('t, 'd) hustle \<Rightarrow> (bool \<times> ('t, 'd) hustle) res" where
  "drop_mem_table js name db h =
    and_then (fetch (catalog_heap h) (db_catalog db)) (\<lambda>c.
      case DropMemTable js name c (world h) of (b, c, w) \<Rightarrow>
        Inr (b, h\<lparr>catalog_heap := (catalog_heap h)[db_catalog db := c], world := w\<rparr>))"

definition execute_query :: "'d engine \<Rightarrow> string \<Rightarrow> ('t, 'd) hustle \<Rightarrow> bool \<times> ('t, 'd) hustle" where
  "execute_query eng sql h = (case run_sql eng sql (world h) of (b, w) \<Rightarrow> (b, h\<lparr>world := w\<rparr>))"

definition reinitialize_sqlite_db :: "'d engine \<Rightarrow> HustleDB \<Rightarrow> ('t, 'd) hustle \<Rightarrow> ('t, 'd) hustle" where
  "reinitialize_sqlite_db eng db h =
    h\<lparr>world := (world h)\<lparr>sqlite := open_sqlite3_db eng (db_sqlite_path db) (sqlite3_close eng (sqlite (world h)))\<rparr>\<rparr>"

definition execute_query_result :: "'d engine \<Rightarrow> string \<Rightarrow> ('t, 'd) hustle \<Rightarrow> string \<times> ('t, 'd) hustle" where
  "execute_query_result eng sql h =
    (case execute_sqlite_result eng sql (sqlite (world h)) of (r, d) \<Rightarrow> (r, h\<lparr>world := (world h)\<lparr>sqlite := d\<rparr>\<rparr>))"

definition get_plan :: "'d engine \<Rightarrow> string \<Rightarrow> ('t, 'd) hustle \<Rightarrow> string \<times> ('t, 'd) hustle" where
  "get_plan eng sql h = execute_query_result eng sql h"

definition db_load_tables :: "'d engine \<Rightarrow> HustleDB \<Rightarrow> ('t, 'd) hustle \<Rightarrow> ('t, 'd) hustle res" where
  "db_load_tables eng db h =
    (let h = reinitialize_sqlite_db eng db h in
     case get_catalog (db_sqlite_path db) h of (None, h) \<Rightarrow> Inl NullDeref
     | (Some a, h) \<Rightarrow> and_then (fetch (catalog_heap h) a) (\<lambda>c.
         Inr (h\<lparr>world := (world h)\<lparr>sqlite := load_tables eng (GetTableNames c) (sqlite (world h))\<rparr>\<rparr>)))"

section \<open>Schemas\<close>

definition schema_ok :: "TableSchema \<Rightarrow> bool" where
  "schema_ok ts \<longleftrightarrow> distinct (map cs_name (ts_columns ts))
     \<and> (\<forall>n i. map_of (name_to_id ts) n = Some i \<longleftrightarrow> i < length (ts_columns ts) \<and> cs_name (ts_columns ts ! i) = n)"

lemma TableSchema_new_ok: "schema_ok (TableSchema_new name)"
  by (simp add: schema_ok_def TableSchema_new_def)

lemma schema_ok_dom: "schema_ok ts \<Longrightarrow> map_of (name_to_id ts) n = None \<longleftrightarrow> n \<notin> cs_name ` set (ts_columns ts)"
proof -
  assume ok: "schema_ok ts"
  have "(\<exists>i. map_of (name_to_id ts) n = Some i) \<longleftrightarrow> n \<in> cs_name ` set (ts_columns ts)"
    using ok unfolding schema_ok_def image_iff Bex_def in_set_conv_nth by metis
  then show ?thesis by (cases "map_of (name_to_id ts) n") auto
qed

lemma find_name_None: "find (\<lambda>c. cs_name c = n) cs = None \<longleftrightarrow> n \<notin> cs_name ` set cs"
  by (auto simp: find_None_iff)

lemma find_append: "find P (xs @ ys) = (case find P xs of Some x \<Rightarrow> Some x | None \<Rightarrow> find P ys)"
  by (induction xs) auto

lemma addColumn_ok: "schema_ok ts \<Longrightarrow> schema_ok (snd (addColumn c ts))"
proof (cases "map_of (name_to_id ts) (cs_name c)")
  case None
  assume ok: "schema_ok ts"
  have fresh: "cs_name c \<notin> cs_name ` set (ts_columns ts)" using schema_ok_dom [OF ok] None by simp
  then have "i < length (ts_columns ts) \<Longrightarrow> cs_name (ts_columns ts ! i) \<noteq> cs_name c" for i by (metis image_eqI nth_mem)
  then show ?thesis using ok None fresh
    by (auto simp: addColumn_def schema_ok_def Let_def nth_append less_Suc_eq)
qed (simp add: addColumn_def)

lemma ColumnExists_find:
  assumes "schema_ok ts"
  shows "ColumnExists n ts = Inr (find (\<lambda>c. cs_name c = n) (ts_columns ts))"
proof (cases "map_of (name_to_id ts) n")
  case None
  then show ?thesis using schema_ok_dom [OF assms, of n] find_name_None [of n "ts_columns ts"] by (simp add: ColumnExists_def)
next
  case (Some i)
  have i: "i < length (ts_columns ts)" "cs_name (ts_columns ts ! i) = n" using assms Some by (auto simp: schema_ok_def)
  have "cs_name (ts_columns ts ! j) \<noteq> n" if "j < i" for j
    using assms i that nth_eq_iff_index_eq [of "map cs_name (ts_columns ts)" i j] by (auto simp: schema_ok_def)
  then have "find (\<lambda>c. cs_name c = n) (ts_columns ts) = Some (ts_columns ts ! i)" using i by (auto simp: find_Some_iff)
  then show ?thesis using Some i(1) by (simp add: ColumnExists_def)
qed

lemma push_names_app [simp]: "push_names pk acc = acc @ pk"
  by (induction pk arbitrary: acc) auto

text \<open>The first column of each name.\<close>

fun first_columns :: "ColumnSchema list \<Rightarrow> ColumnSchema list \<Rightarrow> ColumnSchema list" where
  "first_columns acc [] = acc"
| "first_columns acc (c # cs) = first_columns (if cs_name c \<in> cs_name ` set acc then acc else acc @ [c]) cs"

abbreviation add_columns :: "ColumnSchema list \<Rightarrow> TableSchema \<Rightarrow> TableSchema" where
  "add_columns cs ts \<equiv> fold (\<lambda>c ts. snd (addColumn c ts)) cs ts"

lemma add_columns_ok:
  assumes "schema_ok ts" "arrow_fields ts = map cs_field (ts_columns ts)"
  shows "schema_ok (add_columns cs ts) \<and> ts_columns (add_columns cs ts) = first_columns (ts_columns ts) cs
    \<and> arrow_fields (add_columns cs ts) = map cs_field (ts_columns (add_columns cs ts))
    \<and> ts_name (add_columns cs ts) = ts_name ts \<and> primary_key (add_columns cs ts) = primary_key ts"
  using assms
proof (induction cs arbitrary: ts)
  case (Cons c cs)
  let ?ts = "snd (addColumn c ts)"
  have f: "arrow_fields ?ts = map cs_field (ts_columns ?ts)" "ts_name ?ts = ts_name ts" "primary_key ?ts = primary_key ts"
    using Cons.prems(2) by (auto simp: addColumn_def Let_def)
  have "ts_columns ?ts = (if cs_name c \<in> cs_name ` set (ts_columns ts) then ts_columns ts else ts_columns ts @ [c])"
    using schema_ok_dom [OF Cons.prems(1), of "cs_name c"] by (auto simp: addColumn_def Let_def)
  then show ?case using Cons.IH [OF addColumn_ok [OF Cons.prems(1)] f(1)] f by simp
qed simp

lemma find_first_columns:
  "find (\<lambda>c. cs_name c = n) (first_columns acc cs)
    = (case find (\<lambda>c. cs_name c = n) acc of Some c \<Rightarrow> Some c | None \<Rightarrow> find (\<lambda>c. cs_name c = n) cs)"
proof (induction cs arbitrary: acc)
  case (Cons c cs)
  show ?case
  proof (cases "cs_name c \<in> cs_name ` set acc")
    case True
    then have "cs_name c = n \<Longrightarrow> find (\<lambda>c. cs_name c = n) acc \<noteq> None" using find_name_None by blast
    then show ?thesis using Cons.IH [of acc] True by (auto split: option.splits)
  next
    case False
    then show ?thesis using Cons.IH [of "acc @ [c]"] by (simp add: find_append split: option.splits)
  qed
qed (simp split: option.splits)

text \<open>A table schema that is built by adding columns has the first column of each name, in order: \<open>addColumn\<close>
  refuses a second one, \<open>ColumnExists\<close> finds the column that was added first under a name, without leaving the
  array, and the Arrow schema has the fields of the columns in their order.
\<close>

theorem schema_columns:
  "\<exists>ts. ts = add_columns cs (TableSchema_new name) \<and> schema_ok ts \<and> ts_columns ts = first_columns [] cs
    \<and> getArrowSchema ts = map cs_field (ts_columns ts) \<and> (\<forall>n. ColumnExists n ts = Inr (find (\<lambda>c. cs_name c = n) cs))
    \<and> (\<forall>c. fst (addColumn c ts) \<longleftrightarrow> ColumnExists (cs_name c) ts = Inr None)"
proof -
  define ts where "ts = add_columns cs (TableSchema_new name)"
  have "arrow_fields (TableSchema_new name) = map cs_field (ts_columns (TableSchema_new name))" by (simp add: TableSchema_new_def)
  note a = add_columns_ok [OF TableSchema_new_ok this, of cs, folded ts_def]
  have c: "ts_columns ts = first_columns [] cs" using a by (simp add: TableSchema_new_def)
  have e: "ColumnExists n ts = Inr (find (\<lambda>c. cs_name c = n) cs)" for n
    using ColumnExists_find [of ts n] find_first_columns [of n "[]" cs] a by (simp add: c)
  have "fst (addColumn c ts) \<longleftrightarrow> ColumnExists (cs_name c) ts = Inr None" for c
  proof -
    have "fst (addColumn c ts) \<longleftrightarrow> map_of (name_to_id ts) (cs_name c) = None" by (simp add: addColumn_def Let_def)
    also have "\<dots> \<longleftrightarrow> find (\<lambda>d. cs_name d = cs_name c) (ts_columns ts) = None" using schema_ok_dom [of ts "cs_name c"] a by (simp only: find_name_None simp_thms)
    finally show ?thesis using ColumnExists_find [of ts "cs_name c"] a by simp
  qed
  then show ?thesis using a c e by (intro exI [of _ ts]) (simp add: ts_def getArrowSchema_def)
qed

section \<open>The statement\<close>

fun join :: "string \<Rightarrow> string list \<Rightarrow> string" where
  "join sep [] = []"
| "join sep [x] = x"
| "join sep (x # y # xs) = x @ sep @ join sep (y # xs)"

definition sized :: "ColumnSchema \<Rightarrow> bool" where
  "sized c \<longleftrightarrow> ct_type (cs_type c) = INTEGER \<or> ct_size (cs_type c) \<noteq> None"

definition column_def :: "ColumnSchema \<Rightarrow> string" where
  "column_def c = cs_name c @ '' '' @ (case ct_type (cs_type c) of INTEGER \<Rightarrow> ''INT'' | CHAR_type \<Rightarrow> ''CHAR('' @ to_string (the (ct_size (cs_type c))) @ '')'') @ '' ''
     @ (if unique c then '' UNIQUE'' else []) @ (if notNull c then '' NOT NULL'' else [])"

lemma toString_sized: "sized c \<Longrightarrow> \<exists>t. ColumnType_toString (cs_type c) = Inr t
    \<and> column_def c = cs_name c @ '' '' @ t @ '' '' @ (if unique c then '' UNIQUE'' else []) @ (if notNull c then '' NOT NULL'' else [])"
  by (cases "ct_type (cs_type c)") (auto simp: ColumnType_toString_def sized_def column_def_def)

lemma toString_unsized: "\<not> sized c \<Longrightarrow> ColumnType_toString (cs_type c) = Inl NullDeref"
  by (cases "ct_type (cs_type c)") (auto simp: ColumnType_toString_def sized_def)

lemma append_columns_ok:
  "i + length cs = n \<Longrightarrow> append_columns cs i n sql
    = (if \<forall>c \<in> set cs. sized c then Inr (sql @ join '', '' (map column_def cs)) else Inl NullDeref)"
proof (induction cs arbitrary: i sql)
  case (Cons c cs)
  show ?case
  proof (cases "sized c")
    case True
    from toString_sized [OF this] obtain t where t: "ColumnType_toString (cs_type c) = Inr t"
      "column_def c = cs_name c @ '' '' @ t @ '' '' @ (if unique c then '' UNIQUE'' else []) @ (if notNull c then '' NOT NULL'' else [])" by blast
    have last: "i < n - 1 \<longleftrightarrow> cs \<noteq> []" using Cons.prems by (cases cs) auto
    have "append_columns (c # cs) i n sql = append_columns cs (i + 1) n (sql @ column_def c @ (if cs = [] then [] else '', ''))"
      using last by (simp add: t Let_def)
    also have "\<dots> = (if \<forall>c \<in> set cs. sized c then Inr ((sql @ column_def c @ (if cs = [] then [] else '', '')) @ join '', '' (map column_def cs))
        else Inl NullDeref)" using Cons.prems by (intro Cons.IH) simp
    finally show ?thesis using True by (cases cs) simp_all
  qed (simp add: toString_unsized)
qed simp

lemma append_keys_join: "append_keys ks (sql @ k) = sql @ join '', '' (k # ks)"
proof (induction ks arbitrary: sql k)
  case (Cons x ks)
  have "append_keys (x # ks) (sql @ k) = append_keys ks ((sql @ k @ '', '') @ x)" by simp
  also have "\<dots> = (sql @ k @ '', '') @ join '', '' (x # ks)" by (rule Cons.IH)
  finally show ?case by simp
qed simp

lemma createCreateSql_eq:
  "createCreateSql ts = (if \<forall>c \<in> set (ts_columns ts). sized c then
     Inr (''BEGIN;CREATE TABLE '' @ ts_name ts @ ''('' @ join '', '' (map column_def (ts_columns ts))
       @ (if primary_key ts = [] then [] else '', PRIMARY KEY('' @ join '', '' (primary_key ts) @ '')'') @ '');COMMIT;'')
   else Inl NullDeref)"
proof -
  have "append_keys ks (sql @ CHR '','' # CHR '' '' # CHR ''P'' # CHR ''R'' # CHR ''I'' # CHR ''M'' # CHR ''A'' # CHR ''R'' # CHR ''Y'' # CHR '' ''
      # CHR ''K'' # CHR ''E'' # CHR ''Y'' # CHR ''('' # k) = sql @ '', PRIMARY KEY('' @ join '', '' (k # ks)" for ks sql k
    using append_keys_join [of ks "sql @ '', PRIMARY KEY(''" k] by simp
  then show ?thesis by (cases "primary_key ts") (simp_all add: createCreateSql_def append_columns_ok Let_def)
qed

section \<open>The directory\<close>

text \<open>
  A directory of named entries: entering a name that is there changes nothing, removing a name removes it. The steps
  are those of the catalog, and of the partial function that it stands for.
\<close>

fun dir_step :: "('s \<Rightarrow> 'k \<rightharpoonup> 'v) \<Rightarrow> ('k \<Rightarrow> 'v \<Rightarrow> 's \<Rightarrow> 's) \<Rightarrow> ('k \<Rightarrow> 's \<Rightarrow> 's) \<Rightarrow> 'k \<times> 'v option \<Rightarrow> 's \<Rightarrow> 's" where
  "dir_step lookup put del (k, Some v) s = (if lookup s k = None then put k v s else s)"
| "dir_step lookup put del (k, None) s = del k s"

abbreviation map_step :: "'k \<times> 'v option \<Rightarrow> ('k \<rightharpoonup> 'v) \<Rightarrow> ('k \<rightharpoonup> 'v)" where
  "map_step \<equiv> dir_step (\<lambda>m. m) (\<lambda>k v m. m(k \<mapsto> v)) (\<lambda>k m. m(k := None))"

locale directory =
  fixes lookup :: "'s \<Rightarrow> 'k \<rightharpoonup> 'v" and put :: "'k \<Rightarrow> 'v \<Rightarrow> 's \<Rightarrow> 's" and del :: "'k \<Rightarrow> 's \<Rightarrow> 's" and ok :: "'s \<Rightarrow> bool"
  assumes put_ok: "ok s \<Longrightarrow> ok (put k v s)" and del_ok: "ok s \<Longrightarrow> ok (del k s)"
    and lookup_put: "ok s \<Longrightarrow> lookup (put k v s) = (lookup s)(k \<mapsto> v)"
    and lookup_del: "ok s \<Longrightarrow> lookup (del k s) = (lookup s)(k := None)"
begin

lemma step: "ok s \<Longrightarrow> ok (dir_step lookup put del op s) \<and> lookup (dir_step lookup put del op s) = map_step op (lookup s)"
  by (cases op; cases "snd op") (auto simp: put_ok del_ok lookup_put lookup_del)

lemma steps: "ok s \<Longrightarrow> ok (fold (dir_step lookup put del) ops s)
    \<and> lookup (fold (dir_step lookup put del) ops s) = fold map_step ops (lookup s)"
  by (induction ops arbitrary: s) (auto simp: step)

end

definition map_ok :: "('k::linorder \<times> 'v) list \<Rightarrow> bool" where "map_ok m \<longleftrightarrow> sorted_wrt (<) (map fst m)"

lemma map_put_keys: "set (map fst (map_put k v m)) = insert k (set (map fst m))"
  by (induction k v m rule: map_put.induct) auto

lemma map_put_ok: "map_ok m \<Longrightarrow> map_ok (map_put k v m)"
proof (induction k v m rule: map_put.induct)
  case (2 k v k' v' m)
  have "\<forall>x \<in> set (map fst m). k' < x" "map_ok m" using 2(2) by (auto simp: map_ok_def)
  then show ?case using 2 map_put_keys [of k v m] by (auto simp: map_ok_def simp del: set_map)
qed (simp add: map_ok_def)

lemma map_of_put: "map_ok m \<Longrightarrow> map_of (map_put k v m) = (map_of m)(k \<mapsto> v)"
proof (induction k v m rule: map_put.induct)
  case (2 k v k' v' m)
  then show ?case by (auto simp: map_ok_def fun_eq_iff)
qed simp

lemma map_erase_ok: "map_ok m \<Longrightarrow> map_ok (map_erase k m)"
  unfolding map_ok_def map_erase_def by (induction m) auto

lemma map_of_erase: "map_of (map_erase k m) = (map_of m)(k := None)"
  by (induction m) (auto simp: map_erase_def fun_eq_iff)

interpretation tree: directory map_of map_put map_erase map_ok
  by unfold_locales (auto simp: map_put_ok map_erase_ok map_of_put map_of_erase)

text \<open>Sequences of calls on a catalog.\<close>

datatype 't cat_op = Add TableSchema "'t option" | Drop string

fun run_op :: "json \<Rightarrow> 'd engine \<Rightarrow> 't cat_op \<Rightarrow> 't Catalog \<times> 'd outside \<Rightarrow> ('t Catalog \<times> 'd outside) res" where
  "run_op js eng (Add t r) (c, w) = and_then (AddTable js eng t r c w) (\<lambda>(_, c, w). Inr (c, w))"
| "run_op js eng (Drop name) (c, w) = (case DropMemTable js name c w of (_, c, w) \<Rightarrow> Inr (c, w))"

fun run_ops :: "json \<Rightarrow> 'd engine \<Rightarrow> 't cat_op list \<Rightarrow> 't Catalog \<times> 'd outside \<Rightarrow> ('t Catalog \<times> 'd outside) res" where
  "run_ops js eng [] s = Inr s"
| "run_ops js eng (op # ops) s = and_then (run_op js eng op s) (run_ops js eng ops)"

fun dir_op :: "'t cat_op \<Rightarrow> string \<times> 't TableInfo option" where
  "dir_op (Add t r) = (ts_name t, Some \<lparr>info_schema = t, info_table = r\<rparr>)"
| "dir_op (Drop name) = (name, None)"

fun op_ok :: "'t cat_op \<Rightarrow> bool" where
  "op_ok (Add t r) \<longleftrightarrow> (\<forall>c \<in> set (ts_columns t). sized c)"
| "op_ok (Drop name) \<longleftrightarrow> True"

definition saved :: "json \<Rightarrow> 't Catalog \<Rightarrow> 'd outside \<Rightarrow> bool" where
  "saved js c w \<longleftrightarrow> files w (CatalogPath c) = Some (write_json js (save_catalog c) @ [CHR 0x0A])"

lemma run_sql_files [simp]: "files (snd (run_sql eng sql w)) = files w"
  by (simp add: run_sql_def split_def)

lemma SaveToFile_saved: "files w' = files (SaveToFile js c w) \<Longrightarrow> saved js c w'"
  by (simp add: saved_def SaveToFile_def)

lemma map_erase_absent: "map_of m k = None \<Longrightarrow> map_erase k m = m"
  by (auto simp: map_erase_def map_of_eq_None_iff image_iff intro!: filter_True)

lemma run_op_ok:
  assumes "op_ok op"
  shows "\<exists>c' w'. run_op js eng op (c, w) = Inr (c', w')
    \<and> c' = c\<lparr>tables := dir_step map_of map_put map_erase (dir_op op) (tables c)\<rparr> \<and> (c' = c \<and> w' = w \<or> saved js c' w')"
proof (cases op)
  case (Add t r)
  then obtain sql where "createCreateSql t = Inr sql" using assms by (simp add: createCreateSql_eq)
  then show ?thesis using Add
    by (auto simp: AddTable_def Let_def split: option.split intro!: disjI2 SaveToFile_saved)
next
  case (Drop name)
  then show ?thesis
    by (auto simp: DropMemTable_def Let_def map_erase_absent split: option.splits intro!: disjI2 SaveToFile_saved)
qed

lemma run_ops_ok:
  assumes "\<forall>op \<in> set ops. op_ok op"
  shows "\<exists>c' w'. run_ops js eng ops (c, w) = Inr (c', w')
    \<and> c' = c\<lparr>tables := fold (dir_step map_of map_put map_erase) (map dir_op ops) (tables c)\<rparr> \<and> (c' = c \<and> w' = w \<or> saved js c' w')"
  using assms
proof (induction ops arbitrary: c w)
  case (Cons op ops)
  obtain c1 w1 where 1: "run_op js eng op (c, w) = Inr (c1, w1)" "c1 = c\<lparr>tables := dir_step map_of map_put map_erase (dir_op op) (tables c)\<rparr>"
    "c1 = c \<and> w1 = w \<or> saved js c1 w1" using run_op_ok [of op js eng c w] Cons.prems by auto
  obtain c2 w2 where 2: "run_ops js eng ops (c1, w1) = Inr (c2, w2)"
    "c2 = c1\<lparr>tables := fold (dir_step map_of map_put map_erase) (map dir_op ops) (tables c1)\<rparr>" "c2 = c1 \<and> w2 = w1 \<or> saved js c2 w2"
    using Cons.IH [of c1 w1] Cons.prems by auto
  show ?case using 1 2 by auto
qed simp

text \<open>C36: the catalog is a directory: any sequence of \<open>AddTable\<close> and \<open>DropMemTable\<close> on a new catalog succeeds, a
  lookup of a name gives the schema and the table that were entered when the name was free, and not removed since;
  the names are sorted, and the file is up to date after the first change.
\<close>

theorem catalog_directory:
  assumes "\<forall>op \<in> set ops. op_ok op"
  shows "\<exists>c w'. run_ops js eng ops (Catalog_new cp sp, w) = Inr (c, w')
    \<and> (\<forall>n. TableExists n c = map_option info_schema (fold map_step (map dir_op ops) Map.empty n))
    \<and> (\<forall>n. GetTable n c = Option.bind (fold map_step (map dir_op ops) Map.empty n) info_table)
    \<and> sorted_wrt (<) (GetTableNames c) \<and> (tables c = [] \<and> w' = w \<or> saved js c w')"
proof -
  obtain c w' where c: "run_ops js eng ops (Catalog_new cp sp, w) = Inr (c, w')"
    "tables c = fold (dir_step map_of map_put map_erase) (map dir_op ops) []" "c = Catalog_new cp sp \<and> w' = w \<or> saved js c w'"
    using run_ops_ok [OF assms, of js eng "Catalog_new cp sp" w] by (auto simp: Catalog_new_def)
  have "map_ok (tables c) \<and> map_of (tables c) = fold map_step (map dir_op ops) Map.empty"
    using tree.steps [of "[]" "map dir_op ops"] by (simp add: c(2) map_ok_def)
  then show ?thesis using c(1,3)
    by (intro exI [of _ c] exI [of _ w']) (auto simp: TableExists_def GetTable_def GetTableNames_def map_ok_def Catalog_new_def split: option.split)
qed

section \<open>Reopening\<close>

definition json_ok :: "json \<Rightarrow> bool" where "json_ok js \<longleftrightarrow> (\<forall>a. read_json js (write_json js a @ [CHR 0x0A]) = a)"

text \<open>What is left of a schema after it was written and read.\<close>

definition reloaded :: "TableSchema \<Rightarrow> TableSchema" where
  "reloaded ts = ts\<lparr>ts_columns := map (\<lambda>c. c\<lparr>cs_field := None\<rparr>) (ts_columns ts), arrow_fields := []\<rparr>"

lemma load_save_schema: "load_schema (save_schema ts) = reloaded ts"
  by (simp add: load_schema_def save_schema_def reloaded_def load_column_def save_column_def comp_def)

lemma load_save_tables: "tables (load_catalog (save_catalog c)) = map (\<lambda>(n, i). (n, \<lparr>info_schema = reloaded (info_schema i), info_table = None\<rparr>)) (tables c)"
  by (simp add: load_catalog_def save_catalog_def load_save_schema split_def comp_def)

lemma create_all_ok: "\<forall>t \<in> set ts. \<forall>c \<in> set (ts_columns t). sized c \<Longrightarrow> \<exists>w'. create_all eng ts w = Inr w' \<and> files w' = files w"
proof (induction ts arbitrary: w)
  case (Cons t ts)
  then obtain sql where "createCreateSql t = Inr sql" by (simp add: createCreateSql_eq)
  then show ?case using Cons.IH [of "snd (run_sql eng sql w)"] Cons.prems by simp
qed simp

definition all_sized :: "(string \<times> 't TableInfo) list \<Rightarrow> bool" where
  "all_sized m \<longleftrightarrow> (\<forall>x \<in> set m. \<forall>c \<in> set (ts_columns (info_schema (snd x))). sized c)"

lemma fold_tables_sized:
  "\<lbrakk>\<forall>op \<in> set ops. op_ok op; all_sized m\<rbrakk> \<Longrightarrow> all_sized (fold (dir_step map_of map_put map_erase) (map dir_op ops) m)"
proof (induction ops arbitrary: m)
  case (Cons op ops)
  have put: "set (map_put k v m) \<subseteq> insert (k, v) (set m)" for k v by (induction k v m rule: map_put.induct) auto
  have "all_sized (dir_step map_of map_put map_erase (dir_op op) m)"
  proof (cases op)
    case (Add t r)
    then have "all_sized (map_put (ts_name t) \<lparr>info_schema = t, info_table = r\<rparr> m)"
      using Cons.prems put [of "ts_name t" "\<lparr>info_schema = t, info_table = r\<rparr>"] by (auto simp: all_sized_def)
    then show ?thesis using Add Cons.prems(2) by simp
  qed (use Cons.prems in \<open>auto simp: map_erase_def all_sized_def\<close>)
  then show ?case using Cons.IH Cons.prems(1) by simp
qed simp


text \<open>Two databases on the same path: the second one keeps a catalog of its own, empty although the file is
  there, while the map of catalogs, which the memlog asks, still has the first one: a table that is created through
  the second database is not found by a commit.
\<close>

theorem second_database:
  assumes new: "registry h (path @ ''/hustle_sqlite.db'') = None"
    and db: "HustleDB_new eng path h = (db1, h1)" "HustleDB_new eng path h1 = (db2, h2)" and ts: "\<forall>c \<in> set (ts_columns ts). sized c"
  shows "\<exists>h3. create_table js eng ts r db2 h2 = Inr (True, h3) \<and> get_catalog (db_sqlite_path db2) h3 = (Some (db_catalog db1), h3)
    \<and> TableExists (ts_name ts) (catalog_heap h3 ! db_catalog db1) = None
    \<and> TableExists (ts_name ts) (catalog_heap h3 ! db_catalog db2) = Some ts"
proof -
  let ?sp = "path @ ''/hustle_sqlite.db''" and ?cp = "path @ ''/catalog.json''" and ?n = "length (catalog_heap h)"
  have 1: "registry h1 = (registry h)(?sp \<mapsto> Some ?n)" "catalog_heap h1 = catalog_heap h @ [Catalog_new ?cp ?sp]" "db_catalog db1 = ?n"
    using db(1) new by (auto simp: HustleDB_new_def Let_def add_catalog_def CreateCatalogObject_def)
  have 2: "registry h2 = registry h1" "catalog_heap h2 = catalog_heap h1 @ [Catalog_new ?cp ?sp]" "db_catalog db2 = Suc ?n" "db_sqlite_path db2 = ?sp"
    using db(2) 1 by (auto simp: HustleDB_new_def Let_def add_catalog_def CreateCatalogObject_def)
  obtain sql where sql: "createCreateSql ts = Inr sql" using ts by (simp add: createCreateSql_eq)
  then show ?thesis using 1 2
    by (simp add: create_table_def AddTable_def Catalog_new_def Let_def get_catalog_def TableExists_def nth_append)
qed

text \<open>A query that returns a row is aborted by its callback, which has no string to write to.\<close>

lemma execute_query_rows:
  "sqlite3_exec eng sql (sqlite (world h)) = (ok, row # rows, d) \<Longrightarrow> \<not> fst (execute_query eng sql h)"
  by (simp add: execute_query_def run_sql_def execute_sqlite_query_def exec_callback_def callback_print_plan_def)

section \<open>An example\<close>

text \<open>Archives are countable, so that they can be written as texts.\<close>

instance HustleType :: countable
  by countable_datatype

definition sample_json :: json where
  "sample_json = \<lparr>write_json = (\<lambda>a. replicate (to_nat a) (CHR ''x'')), read_json = (\<lambda>s. from_nat (length s - 1))\<rparr>"

lemma sample_json_ok: "json_ok sample_json"
  by (simp add: json_ok_def sample_json_def)

definition sample_engine :: "string list engine" where
  "sample_engine = \<lparr>sqlite3_exec = (\<lambda>sql d. (True, [], d @ [sql])), sqlite3_abort = (\<lambda>_ d. d), sqlite3_open = (\<lambda>_ d. d),
     sqlite3_close = (\<lambda>d. d), sqlite3_load_hustle = (\<lambda>_ d. d), remove_file = (\<lambda>_ d. [])\<rparr>"

definition sample_schema :: TableSchema where
  "sample_schema = add_columns [ColumnSchema_new ''a'' (ColumnType_new INTEGER) True False,
     ColumnSchema_new ''b'' (ColumnType_sized CHAR_type 5) False False] (TableSchema_new ''T'')"

lemma sample_sized: "\<forall>c \<in> set (ts_columns sample_schema). sized c"
  by (simp add: sample_schema_def TableSchema_new_def addColumn_def ColumnSchema_new_def ColumnType_new_def ColumnType_sized_def sized_def hash_put_def)

lemma sample_name: "ts_name sample_schema = ''T''"
  by (simp add: sample_schema_def TableSchema_new_def addColumn_def Let_def)

theorem catalog_directory_witness:
  "\<exists>c w'. run_ops sample_json sample_engine [Add sample_schema (Some 3), Drop ''U'', Add sample_schema (Some 4)]
      (Catalog_new ''c'' ''s'', \<lparr>files = Map.empty, sqlite = []\<rparr>) = Inr (c, w')
    \<and> TableExists ''T'' c = Some sample_schema \<and> GetTable ''T'' c = Some (3 :: nat) \<and> GetTable ''U'' c = None"
proof -
  let ?ops = "[Add sample_schema (Some (3 :: nat)), Drop ''U'', Add sample_schema (Some 4)]"
  have "\<forall>op \<in> set ?ops. op_ok op" using sample_sized by simp
  from catalog_directory [OF this, of sample_json sample_engine "''c''" "''s''" "\<lparr>files = Map.empty, sqlite = []\<rparr>"]
  show ?thesis by (auto simp: sample_name)
qed


theorem second_database_witness:
  "\<exists>(h :: (nat, string list) hustle) db1 h1 db2 h2 h3. HustleDB_new sample_engine ''d'' h = (db1, h1) \<and> HustleDB_new sample_engine ''d'' h1 = (db2, h2)
    \<and> create_table sample_json sample_engine sample_schema (Some 3) db2 h2 = Inr (True, h3)
    \<and> get_catalog (db_sqlite_path db2) h3 = (Some (db_catalog db1), h3) \<and> TableExists ''T'' (catalog_heap h3 ! db_catalog db1) = None"
proof -
  define h :: "(nat, string list) hustle" where "h = \<lparr>registry = Map.empty, catalog_heap = [], world = \<lparr>files = Map.empty, sqlite = []\<rparr>\<rparr>"
  obtain db1 h1 where 1: "HustleDB_new sample_engine ''d'' h = (db1, h1)" by fastforce
  obtain db2 h2 where 2: "HustleDB_new sample_engine ''d'' h1 = (db2, h2)" by fastforce
  have "registry h (''d'' @ ''/hustle_sqlite.db'') = None" by (simp add: h_def)
  from second_database [OF this 1 2 sample_sized, of sample_json "Some 3"] obtain h3 where
    "create_table sample_json sample_engine sample_schema (Some 3) db2 h2 = Inr (True, h3)"
    "get_catalog (db_sqlite_path db2) h3 = (Some (db_catalog db1), h3)" "TableExists ''T'' (catalog_heap h3 ! db_catalog db1) = None"
    by (auto simp: sample_name)
  then show ?thesis using 1 2 by blast
qed

end
