(* ===== verification/DisjointSetForest.thy ===== *)
theory DisjointSetForest
  imports Prelude "HOL-Library.AList"
begin

text \<open>
  The disjoint-set forest (\<open>src/src/utils/disjoint_set_forest.h\<close>): its operations with their loops,
  that the roots of a forest exist and survive path compression, the partition the forest stands
  for, and, through the interface \<open>partition_store\<close>, that sequences of operations compute the least
  equivalence.
\<close>

section \<open>The forest\<close>

record forest_node =
  rank :: nat
  parent :: nat

record 'e DisjointSetForest =
  forest_nodes :: "forest_node list"
  elements_map :: "('e \<times> nat) list"

definition DisjointSetForest_new :: "'e DisjointSetForest" where
  "DisjointSetForest_new = \<lparr>forest_nodes = [], elements_map = []\<rparr>"

definition hasElement :: "'e \<Rightarrow> 'e DisjointSetForest \<Rightarrow> bool" where
  "hasElement e f \<longleftrightarrow> map_of (elements_map f) e \<noteq> None"

definition makeSet :: "'e \<Rightarrow> 'e DisjointSetForest \<Rightarrow> 'e DisjointSetForest" where
  "makeSet e f =
    (if hasElement e f then f
     else let pos = length (forest_nodes f)
          in \<lparr>forest_nodes = forest_nodes f @ [\<lparr>rank = 0, parent = pos\<rparr>], elements_map = AList.update e pos (elements_map f)\<rparr>)"

text \<open>The loop of \<open>find\<close>: \<open>None\<close> is a loop that does not end, a node that does not exist is an error.\<close>

partial_function (option) climb :: "forest_node list \<Rightarrow> nat \<Rightarrow> nat res option" where
  "climb ns root_id =
    (case fetch ns root_id of Inl e \<Rightarrow> Some (Inl e)
     | Inr nd \<Rightarrow> if parent nd \<noteq> root_id then climb ns (parent nd) else Some (Inr root_id))"

partial_function (option) compress_loop :: "forest_node list \<Rightarrow> nat \<Rightarrow> nat \<Rightarrow> nat \<Rightarrow> (nat \<times> forest_node list) res option" where
  "compress_loop ns node_id root_node_id max_rank =
    (if node_id \<noteq> root_node_id then
       (case fetch ns node_id of Inl e \<Rightarrow> Some (Inl e)
        | Inr nd \<Rightarrow> compress_loop (ns[node_id := nd\<lparr>parent := root_node_id\<rparr>]) (parent nd) root_node_id (max max_rank (rank nd)))
     else Some (Inr (max_rank, ns)))"

declare climb.simps [code] compress_loop.simps [code]

definition compress_path :: "nat \<Rightarrow> nat \<Rightarrow> forest_node list \<Rightarrow> forest_node list res option" where
  "compress_path leaf_node_id root_node_id ns =
    bind_opt (compress_loop ns leaf_node_id root_node_id 0) (\<lambda>(max_rank, ns).
      Some (and_then (fetch ns root_node_id) (\<lambda>nd. Inr (ns[root_node_id := nd\<lparr>rank := max_rank + 1\<rparr>]))))"

definition forest_find :: "'e \<Rightarrow> 'e DisjointSetForest \<Rightarrow> (nat \<times> 'e DisjointSetForest) res option" where
  "forest_find e f =
    (case map_of (elements_map f) e of None \<Rightarrow> Some (Inl AssertFailed)
     | Some node_id \<Rightarrow>
       bind_opt (climb (forest_nodes f) node_id) (\<lambda>root_id.
       bind_opt (compress_path node_id root_id (forest_nodes f)) (\<lambda>ns.
         Some (Inr (root_id, f\<lparr>forest_nodes := ns\<rparr>)))))"

definition link_roots :: "nat \<Rightarrow> nat \<Rightarrow> forest_node list \<Rightarrow> forest_node list res" where
  "link_roots root_id1 root_id2 ns =
    (if root_id1 = root_id2 then Inr ns
     else and_then (fetch ns root_id1) (\<lambda>n1. and_then (fetch ns root_id2) (\<lambda>n2. Inr
       (if rank n1 > rank n2 then ns[root_id2 := n2\<lparr>parent := root_id1\<rparr>]
        else if rank n1 < rank n2 then ns[root_id1 := n1\<lparr>parent := root_id2\<rparr>]
        else ns[root_id1 := n1\<lparr>parent := root_id2\<rparr>, root_id2 := n2\<lparr>rank := rank n2 + 1\<rparr>]))))"

definition forest_merge :: "'e \<Rightarrow> 'e \<Rightarrow> 'e DisjointSetForest \<Rightarrow> 'e DisjointSetForest res option" where
  "forest_merge e1 e2 f =
    bind_opt (forest_find e1 f) (\<lambda>(root_id1, f).
    bind_opt (forest_find e2 f) (\<lambda>(root_id2, f).
      Some (and_then (link_roots root_id1 root_id2 (forest_nodes f)) (\<lambda>ns. Inr (f\<lparr>forest_nodes := ns\<rparr>)))))"

definition isConnected :: "'e \<Rightarrow> 'e \<Rightarrow> 'e DisjointSetForest \<Rightarrow> (bool \<times> 'e DisjointSetForest) res option" where
  "isConnected e1 e2 f =
    bind_opt (forest_find e1 f) (\<lambda>(r1, f). bind_opt (forest_find e2 f) (\<lambda>(r2, f). Some (Inr (r1 = r2, f))))"

section \<open>Roots\<close>

text \<open>\<open>r\<close> is the root of \<open>i\<close>, \<open>n\<close> links above it.\<close>

fun above :: "forest_node list \<Rightarrow> nat \<Rightarrow> nat \<Rightarrow> nat \<Rightarrow> bool" where
  "above ns 0 i r \<longleftrightarrow> i = r \<and> r < length ns \<and> parent (ns ! r) = r"
| "above ns (Suc n) i r \<longleftrightarrow> i < length ns \<and> parent (ns ! i) \<noteq> i \<and> above ns n (parent (ns ! i)) r"

definition root :: "forest_node list \<Rightarrow> nat \<Rightarrow> nat \<Rightarrow> bool" where "root ns i r \<longleftrightarrow> (\<exists>n. above ns n i r)"

lemma above_det: "above ns n i r \<Longrightarrow> above ns m i q \<Longrightarrow> n = m \<and> r = q"
proof (induction n arbitrary: m i)
  case 0
  then show ?case by (cases m) auto
next
  case (Suc n)
  then show ?case by (cases m) auto
qed

lemma root_det: "root ns i r \<Longrightarrow> root ns i q \<Longrightarrow> r = q"
  using above_det by (auto simp: root_def)

lemma rootI: "i < length ns \<Longrightarrow> parent (ns ! i) = i \<Longrightarrow> root ns i i"
  unfolding root_def by (intro exI [of _ 0]) simp

lemma root_step: "i < length ns \<Longrightarrow> root ns (parent (ns ! i)) r \<Longrightarrow> root ns i r"
proof -
  assume i: "i < length ns" and r: "root ns (parent (ns ! i)) r"
  show "root ns i r"
  proof (cases "parent (ns ! i) = i")
    case False
    then show ?thesis using i r above.simps(2) [of ns _ i r] unfolding root_def by blast
  qed (use r in simp)
qed

lemma above_root: "above ns n i r \<Longrightarrow> r < length ns \<and> parent (ns ! r) = r"
  by (induction n arbitrary: i) auto

lemma above_lt: "above ns n i r \<Longrightarrow> i < length ns"
  by (cases n) auto

lemma root_induct [consumes 1, case_names base step]:
  assumes "root ns i r" and "r < length ns \<Longrightarrow> parent (ns ! r) = r \<Longrightarrow> P r"
    and "\<And>j. j < length ns \<Longrightarrow> parent (ns ! j) \<noteq> j \<Longrightarrow> root ns (parent (ns ! j)) r \<Longrightarrow> P (parent (ns ! j)) \<Longrightarrow> P j"
  shows "P i"
proof -
  from assms(1) obtain n where "above ns n i r" by (auto simp: root_def)
  then show ?thesis
  proof (induction n arbitrary: i)
    case 0
    then show ?case using assms(2) by simp
  next
    case (Suc n)
    then show ?case using assms(3) by (auto simp: root_def)
  qed
qed

lemma root_root: "root ns i r \<Longrightarrow> r < length ns \<and> parent (ns ! r) = r"
  using above_root by (auto simp: root_def)

lemma climb_root: "root ns i r \<Longrightarrow> climb ns i = Some (Inr r)"
  by (induction rule: root_induct) (subst climb.simps, simp add: fetch_def)+

text \<open>Changing one node keeps the roots when the new parent has the root the node had.\<close>

lemma root_update:
  assumes j: "root ns j q" and i: "i < length ns" "parent (ns ! i) \<noteq> i" "root ns i r" and nd: "parent nd = r"
  shows "root (ns[i := nd]) j q"
  using j
proof (induction rule: root_induct)
  case base
  then have "q \<noteq> i" using i(2) by auto
  then show ?case using base by (intro rootI) simp_all
next
  case (step j)
  show ?case
  proof (cases "j = i")
    case True
    have "q = r" using root_det [OF i(3)] root_step [of j ns q] step True by blast
    moreover have "r \<noteq> i" "r < length ns" "parent (ns ! r) = r" using root_root [OF i(3)] i(2) by auto
    ultimately show ?thesis using i(1) nd True rootI [of r "ns[i := nd]"] root_step [of i "ns[i := nd]" r] by simp
  next
    case False
    then show ?thesis using step root_step [of j "ns[i := nd]" q] by simp
  qed
qed

lemma above_update: "above ns n j r \<Longrightarrow> above ns m i q \<Longrightarrow> n < m \<Longrightarrow> above (ns[i := nd]) n j r"
proof (induction n arbitrary: j)
  case 0
  then have "i \<noteq> r" using above_det [of ns 0 r r m q] by fastforce
  then show ?case using 0 by simp
next
  case (Suc n)
  then have "i \<noteq> j" using above_det by blast
  then show ?case using Suc by simp
qed

lemma compress_loop_ok:
  "above ns n i r \<Longrightarrow> \<exists>mx ns'. compress_loop ns i r m = Some (Inr (mx, ns')) \<and> length ns' = length ns
    \<and> (\<forall>j q. root ns j q \<longrightarrow> root ns' j q)"
proof (induction n arbitrary: ns i m)
  case 0
  then show ?case by (subst compress_loop.simps) simp
next
  case (Suc n)
  let ?nd = "(ns ! i)\<lparr>parent := r\<rparr>"
  let ?ns = "ns[i := ?nd]"
  have a: "i < length ns" "parent (ns ! i) \<noteq> i" "above ns n (parent (ns ! i)) r" using Suc.prems by auto
  have "i \<noteq> r" using above_root [OF Suc.prems] a(2) by auto
  have "above ?ns n (parent (ns ! i)) r" by (rule above_update [OF a(3) Suc.prems]) simp
  from Suc.IH [OF this] obtain mx ns' where r: "compress_loop ?ns (parent (ns ! i)) r (max m (rank (ns ! i))) = Some (Inr (mx, ns'))"
    "length ns' = length ?ns" "\<forall>j q. root ?ns j q \<longrightarrow> root ns' j q" by blast
  have "root ns i r" using Suc.prems unfolding root_def by blast
  then have "\<forall>j q. root ns j q \<longrightarrow> root ?ns j q" using root_update [OF _ a(1,2)] by auto
  moreover have "compress_loop ns i r m = Some (Inr (mx, ns'))"
    using r(1) a(1) \<open>i \<noteq> r\<close> by (subst compress_loop.simps) (simp add: fetch_def)
  ultimately show ?case using r(2,3) by simp
qed

lemma root_rank:
  assumes "k < length ns"
  shows "root (ns[k := (ns ! k)\<lparr>rank := x\<rparr>]) j q \<longleftrightarrow> root ns j q"
proof -
  have p: "parent (ns[k := (ns ! k)\<lparr>rank := x\<rparr>] ! i) = parent (ns ! i)" for i
    using assms by (cases "i = k") auto
  have "above (ns[k := (ns ! k)\<lparr>rank := x\<rparr>]) n j q \<longleftrightarrow> above ns n j q" for n
    by (induction n arbitrary: j) (auto simp: p)
  then show ?thesis by (simp add: root_def)
qed

lemma compress_path_ok:
  assumes "root ns i r"
  shows "\<exists>ns'. compress_path i r ns = Some (Inr ns') \<and> length ns' = length ns \<and> (\<forall>j q. root ns j q \<longrightarrow> root ns' j q)"
proof -
  obtain n where "above ns n i r" using assms by (auto simp: root_def)
  from compress_loop_ok [OF this, of 0] obtain mx ns' where
    c: "compress_loop ns i r 0 = Some (Inr (mx, ns'))" "length ns' = length ns" "\<forall>j q. root ns j q \<longrightarrow> root ns' j q" by blast
  have "r < length ns'" using root_root [OF assms] c(2) by simp
  then show ?thesis using c root_rank [of r ns' "mx + 1"] by (simp add: compress_path_def fetch_def)
qed

section \<open>The invariant and the partition\<close>

definition forest_ok :: "'e DisjointSetForest \<Rightarrow> bool" where
  "forest_ok f \<longleftrightarrow> (\<forall>i < length (forest_nodes f). \<exists>r. root (forest_nodes f) i r)
     \<and> (\<forall>e i. map_of (elements_map f) e = Some i \<longrightarrow> i < length (forest_nodes f))"

definition rep :: "'e DisjointSetForest \<Rightarrow> 'e \<Rightarrow> nat \<Rightarrow> bool" where
  "rep f e r \<longleftrightarrow> (\<exists>i. map_of (elements_map f) e = Some i \<and> root (forest_nodes f) i r)"

definition conn :: "'e DisjointSetForest \<Rightarrow> 'e \<Rightarrow> 'e \<Rightarrow> bool" where
  "conn f a b \<longleftrightarrow> (\<exists>r. rep f a r \<and> rep f b r)"

lemma rep_det: "rep f e r \<Longrightarrow> rep f e q \<Longrightarrow> r = q"
  using root_det by (auto simp: rep_def)

lemma rep_ex: "forest_ok f \<Longrightarrow> hasElement e f \<Longrightarrow> \<exists>r. rep f e r"
  by (fastforce simp: forest_ok_def hasElement_def rep_def)

lemma rep_has: "rep f e r \<Longrightarrow> hasElement e f"
  by (auto simp: hasElement_def rep_def)

lemma forest_new_ok: "forest_ok DisjointSetForest_new" "\<not> hasElement e DisjointSetForest_new"
  by (simp_all add: forest_ok_def DisjointSetForest_new_def hasElement_def)

lemma root_append:
  assumes "root ns i r" shows "root (ns @ xs) i r"
  using assms
proof (induction rule: root_induct)
  case base
  then show ?case by (intro rootI) (simp_all add: nth_append)
next
  case (step j)
  then show ?case using root_step [of j "ns @ xs" r] by (simp add: nth_append)
qed

lemma makeSet_ok:
  assumes "forest_ok f"
  shows "forest_ok (makeSet e f)" "hasElement x (makeSet e f) \<longleftrightarrow> x = e \<or> hasElement x f"
    "conn (makeSet e f) a b \<longleftrightarrow> conn f a b \<or> a = e \<and> b = e"
proof -
  let ?ns = "forest_nodes f"
  have "forest_ok (makeSet e f) \<and> (hasElement x (makeSet e f) \<longleftrightarrow> x = e \<or> hasElement x f)
    \<and> (conn (makeSet e f) a b \<longleftrightarrow> conn f a b \<or> a = e \<and> b = e)"
  proof (cases "hasElement e f")
    case True
    then have "conn f e e" using rep_ex [OF assms] by (auto simp: conn_def)
    then show ?thesis using assms True by (auto simp: makeSet_def)
  next
    case False
    let ?p = "length ?ns" and ?ns' = "?ns @ [\<lparr>rank = 0, parent = length ?ns\<rparr>]"
    have m: "makeSet e f = \<lparr>forest_nodes = ?ns', elements_map = AList.update e ?p (elements_map f)\<rparr>"
      using False by (simp add: makeSet_def Let_def)
    have rp: "root ?ns' ?p r \<longleftrightarrow> r = ?p" for r using root_det rootI [of ?p ?ns'] by auto
    have old: "root ?ns' i r \<longleftrightarrow> root ?ns i r" if "i < length ?ns" for i r
      using root_append assms that root_det unfolding forest_ok_def by metis
    have en: "map_of (elements_map f) e = None" using False by (simp add: hasElement_def)
    have lt: "i < length ?ns" if "map_of (elements_map f) x = Some i" for x i using assms that by (auto simp: forest_ok_def)
    have "\<exists>r. root ?ns' i r" if "i < length ?ns'" for i
      using assms that rp old [of i] by (cases "i = ?p") (auto simp: forest_ok_def less_Suc_eq)
    then have ok: "forest_ok (makeSet e f)"
      unfolding forest_ok_def m using lt by (auto simp: less_Suc_eq update_conv' split: if_splits)
    have rep': "rep (makeSet e f) y r \<longleftrightarrow> (if y = e then r = ?p else rep f y r)" for y r
      unfolding rep_def m using lt old rp by (auto simp: update_conv')
    have lt': "r < ?p" if "rep f y r" for y r using that root_root by (auto simp: rep_def)
    have ne: "\<not> rep f e r" for r using rep_has [of f e r] False by auto
    have nr: "\<not> rep f y ?p" for y using lt' by blast
    have "conn (makeSet e f) a b \<longleftrightarrow> conn f a b \<or> a = e \<and> b = e"
      by (cases "a = e"; cases "b = e") (simp_all add: conn_def rep' ne nr)
    then show ?thesis using ok by (auto simp: m hasElement_def update_conv')
  qed
  then show "forest_ok (makeSet e f)" "hasElement x (makeSet e f) \<longleftrightarrow> x = e \<or> hasElement x f"
    "conn (makeSet e f) a b \<longleftrightarrow> conn f a b \<or> a = e \<and> b = e" by blast+
qed

lemma find_ok:
  assumes "forest_ok f" "hasElement e f"
  shows "\<exists>r f'. forest_find e f = Some (Inr (r, f')) \<and> rep f e r \<and> forest_ok f' \<and> rep f' = rep f
    \<and> elements_map f' = elements_map f \<and> length (forest_nodes f') = length (forest_nodes f)"
proof -
  obtain i where i: "map_of (elements_map f) e = Some i" using assms(2) by (auto simp: hasElement_def)
  then obtain r where r: "root (forest_nodes f) i r" using assms(1) unfolding forest_ok_def by blast
  obtain ns' where ns': "compress_path i r (forest_nodes f) = Some (Inr ns')" "length ns' = length (forest_nodes f)"
    "\<forall>j q. root (forest_nodes f) j q \<longrightarrow> root ns' j q" using compress_path_ok [OF r] by blast
  have iff: "root ns' j q \<longleftrightarrow> root (forest_nodes f) j q" if "j < length (forest_nodes f)" for j q
    using ns'(3) assms(1) that root_det unfolding forest_ok_def by metis
  let ?f = "f\<lparr>forest_nodes := ns'\<rparr>"
  have lt: "i < length (forest_nodes f)" if "map_of (elements_map f) x = Some i" for x i using assms(1) that by (auto simp: forest_ok_def)
  have "rep ?f x q \<longleftrightarrow> rep f x q" for x q using iff lt by (auto simp: rep_def)
  then have "rep ?f = rep f" by blast
  moreover have "forest_ok ?f" using assms(1) iff ns'(2) by (auto simp: forest_ok_def)
  moreover have "forest_find e f = Some (Inr (r, ?f))" using i climb_root [OF r] ns'(1) by (simp add: forest_find_def)
  moreover have "rep f e r" using i r by (auto simp: rep_def)
  ultimately show ?thesis using ns'(2) by auto
qed

text \<open>Hanging one root under another one.\<close>

lemma root_hang:
  assumes a: "a < length ns" "parent (ns ! a) = a" and b: "b < length ns" "parent (ns ! b) = b" and ab: "a \<noteq> b"
    and nd: "parent nd = b" and j: "root ns j q"
  shows "root (ns[a := nd]) j (if q = a then b else q)"
  using j
proof (induction rule: root_induct)
  case base
  have bb: "root (ns[a := nd]) b b" using b ab by (intro rootI) auto
  show ?case
  proof (cases "q = a")
    case True
    then show ?thesis using root_step [of a "ns[a := nd]" b] a(1) nd bb by simp
  next
    case False
    then show ?thesis using base rootI [of q "ns[a := nd]"] by simp
  qed
next
  case (step j)
  then have "j \<noteq> a" using a(2) by auto
  then show ?case using step root_step [of j "ns[a := nd]"] by simp
qed

lemma link_roots_ok:
  assumes "r1 < length ns" "parent (ns ! r1) = r1" "r2 < length ns" "parent (ns ! r2) = r2"
  shows "\<exists>ns' s d. link_roots r1 r2 ns = Inr ns' \<and> length ns' = length ns \<and> {s, d} = {r1, r2}
    \<and> (\<forall>j q. root ns j q \<longrightarrow> root ns' j (if q = s then d else q))"
proof (cases "r1 = r2")
  case True
  then show ?thesis by (auto simp: link_roots_def)
next
  case False
  note h = root_hang [OF assms(1-4) False]
  note h' = root_hang [OF assms(3,4,1,2) False [symmetric]]
  consider "rank (ns ! r1) > rank (ns ! r2)" | "rank (ns ! r1) < rank (ns ! r2)" | "rank (ns ! r1) = rank (ns ! r2)" by linarith
  then show ?thesis
  proof cases
    case 1
    then show ?thesis using assms False h' by (intro exI [of _ "ns[r2 := (ns ! r2)\<lparr>parent := r1\<rparr>]"] exI [of _ r2] exI [of _ r1])
        (auto simp: link_roots_def fetch_def)
  next
    case 2
    then show ?thesis using assms False h by (intro exI [of _ "ns[r1 := (ns ! r1)\<lparr>parent := r2\<rparr>]"] exI [of _ r1] exI [of _ r2])
        (auto simp: link_roots_def fetch_def)
  next
    case 3
    let ?ns = "ns[r1 := (ns ! r1)\<lparr>parent := r2\<rparr>]"
    have "link_roots r1 r2 ns = Inr (?ns[r2 := (?ns ! r2)\<lparr>rank := rank (ns ! r2) + 1\<rparr>])"
      using 3 assms False by (simp add: link_roots_def fetch_def)
    moreover have "root (?ns[r2 := (?ns ! r2)\<lparr>rank := rank (ns ! r2) + 1\<rparr>]) j (if q = r1 then r2 else q)" if "root ns j q" for j q
      using root_rank [of r2 ?ns] h [OF _ that, of "(ns ! r1)\<lparr>parent := r2\<rparr>"] assms(3) by simp
    ultimately show ?thesis by (intro exI [of _ "?ns[r2 := (?ns ! r2)\<lparr>rank := rank (ns ! r2) + 1\<rparr>]"] exI [of _ r1] exI [of _ r2]) auto
  qed
qed

lemma merge_ok:
  assumes "forest_ok f" "hasElement a f" "hasElement b f"
  shows "\<exists>f' s d ra rb. forest_merge a b f = Some (Inr f') \<and> forest_ok f' \<and> elements_map f' = elements_map f
    \<and> length (forest_nodes f') = length (forest_nodes f) \<and> rep f a ra \<and> rep f b rb \<and> {s, d} = {ra, rb}
    \<and> (\<forall>e r. rep f e r \<longrightarrow> rep f' e (if r = s then d else r))"
proof -
  obtain ra f1 where f1: "forest_find a f = Some (Inr (ra, f1))" "rep f a ra" "forest_ok f1" "rep f1 = rep f"
    "elements_map f1 = elements_map f" "length (forest_nodes f1) = length (forest_nodes f)" using find_ok [OF assms(1,2)] by blast
  have "hasElement b f1" using assms(3) f1(5) by (simp add: hasElement_def)
  then obtain rb f2 where f2: "forest_find b f1 = Some (Inr (rb, f2))" "rep f1 b rb" "forest_ok f2" "rep f2 = rep f1"
    "elements_map f2 = elements_map f1" "length (forest_nodes f2) = length (forest_nodes f1)" using find_ok [OF f1(3)] by blast
  let ?ns = "forest_nodes f2"
  have rr: "rep f2 a ra" "rep f2 b rb" using f1(2,4) f2(2,4) by simp_all
  then have "ra < length ?ns" "parent (?ns ! ra) = ra" "rb < length ?ns" "parent (?ns ! rb) = rb"
    using root_root by (auto simp: rep_def)
  from link_roots_ok [OF this] obtain ns' s d where l: "link_roots ra rb ?ns = Inr ns'" "length ns' = length ?ns" "{s, d} = {ra, rb}"
    "\<forall>j q. root ?ns j q \<longrightarrow> root ns' j (if q = s then d else q)" by blast
  let ?f = "f2\<lparr>forest_nodes := ns'\<rparr>"
  have "forest_merge a b f = Some (Inr ?f)" using f1(1) f2(1) l(1) by (simp add: forest_merge_def)
  moreover have "forest_ok ?f" using f2(3) l(2,4) by (fastforce simp: forest_ok_def)
  moreover have "\<forall>e r. rep f e r \<longrightarrow> rep ?f e (if r = s then d else r)"
  proof (intro allI impI)
    fix e r assume "rep f e r"
    then obtain i where "map_of (elements_map f2) e = Some i" "root ?ns i r" using f1(4) f2(4) by (metis rep_def)
    then show "rep ?f e (if r = s then d else r)" using l(4) by (auto simp: rep_def simp del: if_split)
  qed
  moreover have "elements_map ?f = elements_map f" "length (forest_nodes ?f) = length (forest_nodes f)" using f1 f2 l(2) by simp_all
  moreover have "rep f a ra" "rep f b rb" using f1(2,4) f2(2) by simp_all
  ultimately show ?thesis using l(3) by blast
qed

lemma merge_conn:
  assumes "forest_ok f" "hasElement a f" "hasElement b f"
  shows "\<exists>f'. forest_merge a b f = Some (Inr f') \<and> forest_ok f' \<and> elements_map f' = elements_map f
    \<and> (\<forall>x y. conn f' x y \<longleftrightarrow> conn f x y \<or> conn f x a \<and> conn f b y \<or> conn f x b \<and> conn f a y)"
proof -
  obtain f' s d ra rb where m: "forest_merge a b f = Some (Inr f')" "forest_ok f'" "elements_map f' = elements_map f"
    "rep f a ra" "rep f b rb" "{s, d} = {ra, rb}" "\<forall>e r. rep f e r \<longrightarrow> rep f' e (if r = s then d else r)"
    using merge_ok [OF assms] by blast
  have sd: "s = ra \<and> d = rb \<or> s = rb \<and> d = ra" using m(6) by (auto simp: doubleton_eq_iff)
  have rep': "rep f' x q \<longleftrightarrow> (\<exists>r. rep f x r \<and> q = (if r = s then d else r))" for x q
  proof
    assume "rep f' x q"
    moreover from this have "hasElement x f" using m(3) rep_has [of f' x q] by (simp add: hasElement_def)
    then obtain r where r: "rep f x r" using rep_ex [OF assms(1)] by blast
    ultimately show "\<exists>r. rep f x r \<and> q = (if r = s then d else r)" using m(7) rep_det [of f' x q] by blast
  qed (use m(7) in blast)
  have ca: "conn f x a \<longleftrightarrow> rep f x ra" "conn f a x \<longleftrightarrow> rep f x ra" "conn f x b \<longleftrightarrow> rep f x rb" "conn f b x \<longleftrightarrow> rep f x rb" for x
    using m(4,5) rep_det [of f a] rep_det [of f b] unfolding conn_def by blast+
  have "conn f' x y \<longleftrightarrow> conn f x y \<or> rep f x ra \<and> rep f y rb \<or> rep f x rb \<and> rep f y ra" for x y
  proof -
    have "conn f' x y \<longleftrightarrow> (\<exists>p q. rep f x p \<and> rep f y q \<and> (if p = s then d else p) = (if q = s then d else q))"
      unfolding conn_def rep' by blast
    also have "\<dots> \<longleftrightarrow> (\<exists>p q. rep f x p \<and> rep f y q \<and> (p = q \<or> p = s \<and> q = d \<or> p = d \<and> q = s))" by (intro ex_cong1) auto
    finally show ?thesis using sd unfolding conn_def by blast
  qed
  then show ?thesis using m(1-3) ca by blast
qed

section \<open>The least equivalence\<close>

text \<open>What a client of the forest relies on: the laws of a partition that is made finer by nothing and coarser by merging.\<close>

datatype 'e forest_op = MakeSet 'e | Merge 'e 'e

definition closure :: "('e \<times> 'e) set \<Rightarrow> ('e \<times> 'e) set" where "closure S = (S \<union> S\<inverse>)\<^sup>+"

fun op_pairs :: "'e forest_op \<Rightarrow> ('e \<times> 'e) set" where
  "op_pairs (MakeSet e) = {(e, e)}" | "op_pairs (Merge a b) = {(a, b)}"

definition pairs :: "'e forest_op list \<Rightarrow> ('e \<times> 'e) set" where "pairs ops = \<Union> (op_pairs ` set ops)"

text \<open>Elements are made before they are merged.\<close>

fun made_first :: "'e set \<Rightarrow> 'e forest_op list \<Rightarrow> bool" where
  "made_first E [] \<longleftrightarrow> True"
| "made_first E (MakeSet e # ops) \<longleftrightarrow> made_first (insert e E) ops"
| "made_first E (Merge a b # ops) \<longleftrightarrow> a \<in> E \<and> b \<in> E \<and> made_first E ops"

lemma closure_mono: "S \<subseteq> T \<Longrightarrow> closure S \<subseteq> closure T"
  unfolding closure_def by (intro trancl_mono_subset) auto

lemma closure_sub: "S \<subseteq> closure S"
  unfolding closure_def by auto

lemma closure_least: "S \<subseteq> T \<Longrightarrow> sym T \<Longrightarrow> trans T \<Longrightarrow> closure S \<subseteq> T"
proof -
  assume S: "S \<subseteq> T" "sym T" "trans T"
  then have "S \<union> S\<inverse> \<subseteq> T" by (auto dest: symD)
  then have "(S \<union> S\<inverse>)\<^sup>+ \<subseteq> T\<^sup>+" by (rule trancl_mono_subset)
  then show ?thesis using S(3) by (simp add: closure_def)
qed

lemma closure_equiv: "sym (closure S)" "trans (closure S)"
  by (simp_all add: closure_def sym_trancl sym_Un_converse)

lemma closure_step: "closure (closure S \<union> T) = closure (S \<union> T)"
proof
  show "closure (closure S \<union> T) \<subseteq> closure (S \<union> T)"
    using closure_mono [of S "S \<union> T"] closure_sub [of "S \<union> T"] by (intro closure_least closure_equiv) auto
  show "closure (S \<union> T) \<subseteq> closure (closure S \<union> T)" using closure_sub [of S] by (intro closure_mono) auto
qed

lemma merge_closure:
  assumes "sym R" "trans R" "(a, a) \<in> R" "(b, b) \<in> R"
  shows "{(x, y). (x, y) \<in> R \<or> (x, a) \<in> R \<and> (b, y) \<in> R \<or> (x, b) \<in> R \<and> (a, y) \<in> R} = closure (R \<union> {(a, b)})" (is "?M = _")
proof
  have s: "(y, x) \<in> R" if "(x, y) \<in> R" for x y using that assms(1) by (auto dest: symD)
  have t: "(x, z) \<in> R" if "(x, y) \<in> R" "(y, z) \<in> R" for x y z using that assms(2) by (auto dest: transD)
  have "sym ?M" by (rule symI) (use s in blast)
  moreover have "trans ?M"
  proof (rule transI)
    fix x y z assume "(x, y) \<in> ?M" "(y, z) \<in> ?M"
    then have "(x, y) \<in> R \<or> (x, a) \<in> R \<and> (b, y) \<in> R \<or> (x, b) \<in> R \<and> (a, y) \<in> R"
      "(y, z) \<in> R \<or> (y, a) \<in> R \<and> (b, z) \<in> R \<or> (y, b) \<in> R \<and> (a, z) \<in> R" by auto
    then show "(x, z) \<in> ?M" using s t by blast
  qed
  ultimately show "closure (R \<union> {(a, b)}) \<subseteq> ?M" using assms(3,4) by (intro closure_least) auto
  have c: "R \<subseteq> closure (R \<union> {(a, b)})" "(a, b) \<in> closure (R \<union> {(a, b)})" "(b, a) \<in> closure (R \<union> {(a, b)})"
    using closure_sub [of "R \<union> {(a, b)}"] closure_equiv(1) [of "R \<union> {(a, b)}"] by (auto dest: symD)
  then show "?M \<subseteq> closure (R \<union> {(a, b)})" using closure_equiv(2) [of "R \<union> {(a, b)}"] by (auto dest: transD)
qed

locale partition_store =
  fixes ok :: "'f \<Rightarrow> bool" and members :: "'f \<Rightarrow> 'e set" and same :: "'f \<Rightarrow> ('e \<times> 'e) set"
    and make :: "'e \<Rightarrow> 'f \<Rightarrow> 'f" and merge :: "'e \<Rightarrow> 'e \<Rightarrow> 'f \<Rightarrow> 'f res option"
  assumes same_equiv: "ok f \<Longrightarrow> sym (same f) \<and> trans (same f) \<and> (\<forall>x \<in> members f. (x, x) \<in> same f)"
    and make_law: "ok f \<Longrightarrow> ok (make e f) \<and> members (make e f) = insert e (members f) \<and> same (make e f) = same f \<union> {(e, e)}"
    and merge_law: "ok f \<Longrightarrow> a \<in> members f \<Longrightarrow> b \<in> members f \<Longrightarrow>
      \<exists>f'. merge a b f = Some (Inr f') \<and> ok f' \<and> members f' = members f
        \<and> same f' = {(x, y). (x, y) \<in> same f \<or> (x, a) \<in> same f \<and> (b, y) \<in> same f \<or> (x, b) \<in> same f \<and> (a, y) \<in> same f}"
begin

fun run :: "'e forest_op list \<Rightarrow> 'f \<Rightarrow> 'f res option" where
  "run [] f = Some (Inr f)"
| "run (MakeSet e # ops) f = run ops (make e f)"
| "run (Merge a b # ops) f = (case merge a b f of Some (Inr f') \<Rightarrow> run ops f' | r \<Rightarrow> r)"

lemma run_closure:
  "ok f \<Longrightarrow> made_first (members f) ops \<Longrightarrow> \<exists>f'. run ops f = Some (Inr f') \<and> ok f'
    \<and> members f' = members f \<union> {e. MakeSet e \<in> set ops} \<and> same f' = closure (same f \<union> pairs ops)"
proof (induction ops arbitrary: f)
  case Nil
  then have "closure (same f) = same f" using same_equiv [of f] closure_least [of "same f" "same f"] closure_sub by blast
  then show ?case using Nil by (simp add: pairs_def)
next
  case (Cons op ops)
  have p: "pairs (op # ops) = op_pairs op \<union> pairs ops" by (simp add: pairs_def)
  show ?case
  proof (cases op)
    case (MakeSet e)
    have "same f \<union> {(e, e)} \<union> pairs ops = same f \<union> pairs (op # ops)" using MakeSet p by auto
    then show ?thesis using Cons.IH [of "make e f"] make_law [of f e] Cons.prems MakeSet by (auto simp: insert_commute)
  next
    case (Merge a b)
    then have m: "a \<in> members f" "b \<in> members f" "made_first (members f) ops" using Cons.prems(2) by auto
    then obtain f1 where f1: "merge a b f = Some (Inr f1)" "ok f1" "members f1 = members f"
      "same f1 = {(x, y). (x, y) \<in> same f \<or> (x, a) \<in> same f \<and> (b, y) \<in> same f \<or> (x, b) \<in> same f \<and> (a, y) \<in> same f}"
      using merge_law Cons.prems(1) by blast
    have "same f1 = closure (same f \<union> {(a, b)})" unfolding f1(4)
      by (rule merge_closure) (use same_equiv [OF Cons.prems(1)] m(1,2) in auto)
    then have "closure (same f1 \<union> pairs ops) = closure (same f \<union> pairs (op # ops))"
      using closure_step [of "same f \<union> {(a, b)}" "pairs ops"] Merge p by (simp add: Un_assoc)
    then show ?thesis using Cons.IH [of f1] f1(1-3) m(3) Merge by auto
  qed
qed

end

interpretation forest: partition_store forest_ok "\<lambda>f. {e. hasElement e f}" "\<lambda>f. {(a, b). conn f a b}" makeSet forest_merge
proof
  fix f :: "'a DisjointSetForest" assume f: "forest_ok f"
  show "sym {(a, b). conn f a b} \<and> trans {(a, b). conn f a b} \<and> (\<forall>x \<in> {e. hasElement e f}. (x, x) \<in> {(a, b). conn f a b})"
    using rep_ex [OF f] by (auto simp: conn_def intro!: symI transI) (metis rep_det)
  show "forest_ok (makeSet e f) \<and> {x. hasElement x (makeSet e f)} = insert e {x. hasElement x f}
      \<and> {(a, b). conn (makeSet e f) a b} = {(a, b). conn f a b} \<union> {(e, e)}" for e
    using makeSet_ok(1,3) [OF f, of e] makeSet_ok(2) [OF f, of _ e] by auto
  show "\<exists>f'. forest_merge a b f = Some (Inr f') \<and> forest_ok f' \<and> {e. hasElement e f'} = {e. hasElement e f}
      \<and> {(a, b). conn f' a b} = {(x, y). (x, y) \<in> {(a, b). conn f a b} \<or> (x, a) \<in> {(a, b). conn f a b} \<and> (b, y) \<in> {(a, b). conn f a b}
          \<or> (x, b) \<in> {(a, b). conn f a b} \<and> (a, y) \<in> {(a, b). conn f a b}}"
    if "a \<in> {e. hasElement e f}" "b \<in> {e. hasElement e f}" for a b
    using merge_conn [OF f, of a b] that by (auto simp: hasElement_def)
qed

lemma isConnected_ok:
  assumes "forest_ok f" "hasElement a f" "hasElement b f"
  shows "\<exists>f'. isConnected a b f = Some (Inr (conn f a b, f')) \<and> forest_ok f' \<and> rep f' = rep f"
proof -
  obtain ra f1 where f1: "forest_find a f = Some (Inr (ra, f1))" "rep f a ra" "forest_ok f1" "rep f1 = rep f"
    "elements_map f1 = elements_map f" using find_ok [OF assms(1,2)] by blast
  have "hasElement b f1" using assms(3) f1(5) by (simp add: hasElement_def)
  then obtain rb f2 where f2: "forest_find b f1 = Some (Inr (rb, f2))" "rep f1 b rb" "forest_ok f2" "rep f2 = rep f1"
    using find_ok [OF f1(3)] by blast
  have "ra = rb \<longleftrightarrow> conn f a b" using f1(2,4) f2(2) rep_det [of f a ra] rep_det [of f b rb] unfolding conn_def by metis
  then show ?thesis using f1 f2 by (simp add: isConnected_def)
qed

fun run_ops :: "'e forest_op list \<Rightarrow> 'e DisjointSetForest \<Rightarrow> 'e DisjointSetForest res option" where
  "run_ops [] f = Some (Inr f)"
| "run_ops (MakeSet e # ops) f = run_ops ops (makeSet e f)"
| "run_ops (Merge a b # ops) f = bind_opt (forest_merge a b f) (run_ops ops)"

lemma run_ops_run: "run_ops ops f = forest.run ops f"
proof (induction ops f rule: run_ops.induct)
  case (3 a b ops f)
  then show ?case by (cases "(forest_merge a b f, run_ops ops)" rule: bind_opt.cases) auto
qed auto

text \<open>C32: After any sequence of \<open>makeSet\<close> and \<open>merge\<close> in which elements are made before they are merged,
  every loop ended, and \<open>isConnected\<close> of two elements returns whether they are related by the least
  equivalence that contains the merged pairs.
\<close>

theorem forest_partition:
  assumes "made_first {} ops" "MakeSet a \<in> set ops" "MakeSet b \<in> set ops"
  shows "\<exists>f f'. run_ops ops DisjointSetForest_new = Some (Inr f) \<and> isConnected a b f = Some (Inr ((a, b) \<in> closure (pairs ops), f'))"
proof -
  have n: "forest_ok DisjointSetForest_new" "{e. hasElement e DisjointSetForest_new} = {}" "{(a, b). conn DisjointSetForest_new a b} = {}"
    by (simp_all add: forest_new_ok) (simp add: conn_def rep_def DisjointSetForest_new_def)
  obtain f where f: "run_ops ops DisjointSetForest_new = Some (Inr f)" "forest_ok f" "{e. hasElement e f} = {e. MakeSet e \<in> set ops}"
    "{(a, b). conn f a b} = closure (pairs ops)"
    using forest.run_closure [OF n(1), of ops] assms(1) unfolding run_ops_run n(2,3) Un_empty_left by blast
  have "hasElement a f" "hasElement b f" "conn f a b \<longleftrightarrow> (a, b) \<in> closure (pairs ops)" using f(3,4) assms(2,3) by blast+
  then show ?thesis using isConnected_ok [OF f(2), of a b] f(1) by auto
qed

theorem forest_partition_witness:
  "\<exists>f f'. run_ops [MakeSet (1 :: nat), MakeSet 2, MakeSet 3, Merge 1 2, Merge 3 2] DisjointSetForest_new = Some (Inr f)
     \<and> isConnected 1 3 f = Some (Inr (True, f'))"
proof -
  let ?ops = "[MakeSet (1 :: nat), MakeSet 2, MakeSet 3, Merge 1 2, Merge 3 2]"
  have "(1, 2) \<in> closure (pairs ?ops)" "(2, 3) \<in> closure (pairs ?ops)"
    unfolding closure_def by (rule r_into_trancl, simp add: pairs_def)+
  then have "(1, 3) \<in> closure (pairs ?ops)" by (rule transD [OF closure_equiv(2)])
  then show ?thesis using forest_partition [of ?ops 1 3] by simp
qed

end
