(* ===== verification/Scheduler.thy ===== *)
theory Scheduler
  imports Prelude "HOL-Library.AList" "HOL-Library.Multiset"
begin

text \<open>
  The scheduler (\<open>src/src/scheduler/scheduler.h\<close>, \<open>scheduler.cc\<close>, \<open>node.h\<close>, \<open>task.h\<close>, \<open>worker.h\<close>,
  the messages and \<open>utils/thread_safe_queue.h\<close>): nodes with dependents and counts, tasks, the
  queues, the calls clients make, one turn of the scheduler's thread and one turn of a worker. Then
  the invariant of the dependency graph, that the walk over dependents keeps it and terminates
  within its bound, and what adding links and tasks does to it. The runs of the whole system are in
  \<open>SchedulerRun\<close>.
\<close>

unbundle bit_operations_syntax

section \<open>Identifiers\<close>

type_synonym WorkerID = nat
type_synonym NodeID = u64

definition kContinuationMask :: NodeID where "kContinuationMask = push_bit 63 1"
definition kInvalidNodeID :: NodeID where "kInvalidNodeID = 0"

definition IsContinuation :: "NodeID \<Rightarrow> bool" where
  "IsContinuation n \<longleftrightarrow> n AND kContinuationMask \<noteq> 0"

definition IsTaskID :: "NodeID \<Rightarrow> bool" where "IsTaskID n \<longleftrightarrow> \<not> IsContinuation n"

section \<open>Nodes\<close>

text \<open>
  \<open>dependents_\<close> is an unordered set: the list of its members. A \<open>DCHECK\<close> that does not hold is
  the error \<open>AssertFailed\<close>.
\<close>

record Node =
  dependents :: "NodeID list"
  dependency_count :: nat

definition Node_new :: Node where "Node_new = \<lparr>dependents = [], dependency_count = 0\<rparr>"

definition setChild :: "NodeID \<Rightarrow> Node \<Rightarrow> Node \<Rightarrow> (Node \<times> Node) res" where
  "setChild child_id child node =
    (if dependency_count child \<noteq> 0 \<or> dependents child \<noteq> [] then Inl AssertFailed
     else Inr (child\<lparr>dependents := dependents node, dependency_count := 1\<rparr>, node\<lparr>dependents := [child_id]\<rparr>))"

definition hasDependent :: "NodeID \<Rightarrow> Node \<Rightarrow> bool" where
  "hasDependent d node \<longleftrightarrow> d \<in> set (dependents node)"

definition addDependent :: "NodeID \<Rightarrow> Node \<Rightarrow> Node" where
  "addDependent d node = (if d \<in> set (dependents node) then node else node\<lparr>dependents := dependents node @ [d]\<rparr>)"

definition incDependency :: "Node \<Rightarrow> Node" where
  "incDependency node = node\<lparr>dependency_count := dependency_count node + 1\<rparr>"

definition decDependency :: "Node \<Rightarrow> Node res" where
  "decDependency node =
    (if dependency_count node = 0 then Inl AssertFailed
     else Inr (node\<lparr>dependency_count := dependency_count node - 1\<rparr>))"

section \<open>Tasks and messages\<close>

text \<open>A task is what it runs, its id and its continuation once it has been set up.\<close>

record 'b Task =
  task_id :: NodeID
  continuation :: NodeID
  has_scheduler :: bool
  body :: 'b

definition Task_new :: "'b \<Rightarrow> 'b Task" where
  "Task_new f = \<lparr>task_id = kInvalidNodeID, continuation = kInvalidNodeID, has_scheduler = False, body = f\<rparr>"

definition setup_task :: "NodeID \<Rightarrow> NodeID \<Rightarrow> 'b Task \<Rightarrow> 'b Task res" where
  "setup_task tid c t =
    (if task_id t \<noteq> kInvalidNodeID \<or> continuation t \<noteq> kInvalidNodeID \<or> has_scheduler t then Inl AssertFailed
     else Inr (t\<lparr>task_id := tid, continuation := c, has_scheduler := True\<rparr>))"

definition getID :: "'b Task \<Rightarrow> NodeID res" where
  "getID t = (if task_id t = kInvalidNodeID then Inl AssertFailed else Inr (task_id t))"

definition getContinuation :: "'b Task \<Rightarrow> NodeID" where "getContinuation t = continuation t"

datatype SchedulerMessage = kJoin | kNewTask | kTaskCompletion WorkerID NodeID
datatype 'b WorkerMessage = WorkerJoinMessage | WorkerTaskMessage "'b Task"

text \<open>
  The queue of messages. \<open>popOne\<close> blocks on an empty queue: \<open>None\<close>. A blocked thread only
  counts itself as a waiter until it is woken.
\<close>

definition push :: "'a \<Rightarrow> 'a list \<Rightarrow> 'a list" where "push x q = q @ [x]"

definition popOne :: "'a list \<Rightarrow> ('a \<times> 'a list) option" where
  "popOne q = (case q of [] \<Rightarrow> None | x # xs \<Rightarrow> Some (x, xs))"

definition popOneIfAvailable :: "'a list \<Rightarrow> 'a option \<times> 'a list" where
  "popOneIfAvailable q = (case q of [] \<Rightarrow> (None, []) | x # xs \<Rightarrow> (Some x, xs))"

section \<open>The scheduler\<close>

record 'b Scheduler =
  num_workers :: nat
  workers :: "'b WorkerMessage list list"
  available_workers :: "WorkerID list"
  task_queue :: "'b Task list"
  tasks :: "(NodeID \<times> 'b Task) list"
  nodes :: "(NodeID \<times> Node) list"
  scheduler_msg_queue :: "SchedulerMessage list"
  task_counter :: u64
  continuation_counter :: u64
  halt :: bool
  thread :: bool

text \<open>The iteration order of an unordered set is not known: it is a parameter.\<close>

type_synonym iter = "NodeID list \<Rightarrow> NodeID list"

definition iter_ok :: "iter \<Rightarrow> bool" where
  "iter_ok it \<longleftrightarrow> (\<forall>xs. set (it xs) = set xs \<and> (distinct xs \<longrightarrow> distinct (it xs)))"

definition clear :: "'b Scheduler \<Rightarrow> 'b Scheduler res" where
  "clear s =
    (if thread s then Inl AssertFailed
     else Inr (s\<lparr>available_workers := rev [0..<num_workers s], task_queue := [], tasks := [], nodes := [],
       scheduler_msg_queue := [], task_counter := 1, continuation_counter := kContinuationMask + 1, halt := False\<rparr>))"

definition Scheduler_new :: "nat \<Rightarrow> nat \<Rightarrow> 'b Scheduler res" where
  "Scheduler_new n hardware_concurrency =
    (let k = (if n > 0 then n else max 4 hardware_concurrency) in
     clear \<lparr>num_workers = k, workers = replicate k [], available_workers = [], task_queue = [], tasks = [],
       nodes = [], scheduler_msg_queue = [], task_counter = 0, continuation_counter = 0, halt = False, thread = False\<rparr>)"

definition allocateTaskID :: "'b Scheduler \<Rightarrow> NodeID \<times> 'b Scheduler" where
  "allocateTaskID s = (task_counter s, s\<lparr>task_counter := task_counter s + 1\<rparr>)"

definition allocateContinuation :: "'b Scheduler \<Rightarrow> NodeID \<times> 'b Scheduler" where
  "allocateContinuation s = (continuation_counter s, s\<lparr>continuation_counter := continuation_counter s + 1\<rparr>)"

text \<open>\<open>nodes_[id]\<close> makes a node that is not there.\<close>

definition node_at :: "NodeID \<Rightarrow> 'b Scheduler \<Rightarrow> Node" where
  "node_at n s = (case map_of (nodes s) n of None \<Rightarrow> Node_new | Some nd \<Rightarrow> nd)"

definition put_node :: "NodeID \<Rightarrow> Node \<Rightarrow> 'b Scheduler \<Rightarrow> 'b Scheduler" where
  "put_node n nd s = s\<lparr>nodes := AList.update n nd (nodes s)\<rparr>"

definition allocateContinuationAfter :: "NodeID \<Rightarrow> 'b Scheduler \<Rightarrow> (NodeID \<times> 'b Scheduler) res" where
  "allocateContinuationAfter dependency s =
    (if dependency = kInvalidNodeID then Inr (allocateContinuation s)
     else let (child_id, s) = allocateContinuation s in
       case map_of (nodes s) dependency of None \<Rightarrow> Inl AssertFailed
       | Some nd \<Rightarrow> and_then (setChild child_id (node_at child_id s) nd) (\<lambda>(child, nd).
           Inr (child_id, put_node dependency nd (put_node child_id child s))))"

definition sendMessage :: "SchedulerMessage \<Rightarrow> 'b Scheduler \<Rightarrow> 'b Scheduler" where
  "sendMessage m s = s\<lparr>scheduler_msg_queue := push m (scheduler_msg_queue s)\<rparr>"

definition addTaskIntoQueue :: "'b Task \<Rightarrow> 'b Scheduler \<Rightarrow> 'b Scheduler" where
  "addTaskIntoQueue t s = sendMessage kNewTask (s\<lparr>task_queue := task_queue s @ [t]\<rparr>)"

definition addLinkUnsafe :: "NodeID \<Rightarrow> NodeID \<Rightarrow> 'b Scheduler \<Rightarrow> 'b Scheduler" where
  "addLinkUnsafe dependency dependent s =
    (let nd = node_at dependency s; s = put_node dependency nd s in
     if hasDependent dependent nd then s
     else let s = put_node dependency (addDependent dependent nd) s
          in put_node dependent (incDependency (node_at dependent s)) s)"

definition addLink :: "NodeID \<Rightarrow> NodeID \<Rightarrow> 'b Scheduler \<Rightarrow> 'b Scheduler" where
  "addLink dependency dependent s = addLinkUnsafe dependency dependent s"

text \<open>
  \<open>addTask\<close> takes the lock of the nodes, then that of the tasks: its two critical sections. The
  second one stores a deferred task.
\<close>

definition addTaskNodes :: "'b Task \<Rightarrow> NodeID \<Rightarrow> NodeID \<Rightarrow> 'b Scheduler \<Rightarrow> ('b Task \<times> 'b Scheduler) res" where
  "addTaskNodes t dependency dependent s =
    (let (tid, s) = allocateTaskID s in
     and_then (setup_task tid dependent t) (\<lambda>t.
       let s = (if dependent \<noteq> kInvalidNodeID
                then let s = put_node tid (addDependent dependent (node_at tid s)) s
                     in put_node dependent (incDependency (node_at dependent s)) s
                else s)
       in Inr (t, if dependency = kInvalidNodeID then s else addLinkUnsafe dependency tid s)))"

definition addTaskStore :: "'b Task \<Rightarrow> NodeID \<Rightarrow> 'b Scheduler \<Rightarrow> 'b Scheduler" where
  "addTaskStore t dependency s =
    (if dependency = kInvalidNodeID then addTaskIntoQueue t s
     else s\<lparr>tasks := (case map_of (tasks s) (task_id t) of None \<Rightarrow> AList.update (task_id t) t (tasks s) | Some _ \<Rightarrow> tasks s)\<rparr>)"

definition addTask :: "'b Task \<Rightarrow> NodeID \<Rightarrow> NodeID \<Rightarrow> 'b Scheduler \<Rightarrow> (NodeID \<times> 'b Scheduler) res" where
  "addTask t dependency dependent s =
    and_then (addTaskNodes t dependency dependent s) (\<lambda>(t, s). Inr (task_id t, addTaskStore t dependency s))"

definition addTaskNow :: "'b Task \<Rightarrow> 'b Scheduler \<Rightarrow> (NodeID \<times> 'b Scheduler) res" where
  "addTaskNow t s = addTask t kInvalidNodeID kInvalidNodeID s"

definition addTaskWithDependent :: "'b Task \<Rightarrow> NodeID \<Rightarrow> 'b Scheduler \<Rightarrow> (NodeID \<times> 'b Scheduler) res" where
  "addTaskWithDependent t dependent s = addTask t kInvalidNodeID dependent s"

definition addTaskWithDependency :: "'b Task \<Rightarrow> NodeID \<Rightarrow> 'b Scheduler \<Rightarrow> (NodeID \<times> 'b Scheduler) res" where
  "addTaskWithDependency t dependency s = addTask t dependency kInvalidNodeID s"

definition spawnTask :: "'b Task \<Rightarrow> 'b Task \<Rightarrow> 'b Scheduler \<Rightarrow> 'b Scheduler res" where
  "spawnTask ctx t s =
    (if \<not> has_scheduler ctx then Inl AssertFailed
     else and_then (addTaskWithDependent t (getContinuation ctx) s) (\<lambda>(tid, s). Inr s))"

definition releaseTaskByID :: "NodeID \<Rightarrow> 'b Scheduler \<Rightarrow> ('b Task \<times> 'b Scheduler) res" where
  "releaseTaskByID tid s =
    (if \<not> IsTaskID tid then Inl AssertFailed
     else case map_of (tasks s) tid of None \<Rightarrow> Inl AssertFailed
     | Some t \<Rightarrow> Inr (t, s\<lparr>tasks := AList.delete tid (tasks s)\<rparr>))"

text \<open>
  The walk over the dependents of a node. The recursion is as deep as a chain of continuations:
  \<open>None\<close> is a recursion deeper than the bound.
\<close>

fun each_dependent :: "(NodeID \<Rightarrow> 's \<Rightarrow> 's res option) \<Rightarrow> NodeID list \<Rightarrow> 's \<Rightarrow> 's res option" where
  "each_dependent f [] s = Some (Inr s)"
| "each_dependent f (d # ds) s = bind_opt (f d s) (each_dependent f ds)"

definition process_dependent :: "(NodeID \<Rightarrow> 'b Scheduler \<Rightarrow> 'b Scheduler res option) \<Rightarrow> NodeID
    \<Rightarrow> 'b Scheduler \<Rightarrow> 'b Scheduler res option" where
  "process_dependent rec d s =
    (case map_of (nodes s) d of None \<Rightarrow> Some (Inl AssertFailed)
     | Some nd \<Rightarrow>
       (case decDependency nd of Inl e \<Rightarrow> Some (Inl e)
        | Inr nd \<Rightarrow>
          let s = put_node d nd s in
          if dependency_count nd = 0 then
            if IsTaskID d then Some (and_then (releaseTaskByID d s) (\<lambda>(t, s). Inr (addTaskIntoQueue t s)))
            else rec d s
          else Some (Inr s)))"

fun processDependentsUnsafe :: "iter \<Rightarrow> nat \<Rightarrow> NodeID \<Rightarrow> 'b Scheduler \<Rightarrow> 'b Scheduler res option" where
  "processDependentsUnsafe it 0 n s = None"
| "processDependentsUnsafe it (Suc k) n s =
    (let nd = node_at n s in
     if dependency_count nd \<noteq> 0 then Some (Inl AssertFailed)
     else bind_opt (each_dependent (process_dependent (processDependentsUnsafe it k)) (it (dependents nd)) s)
       (\<lambda>s. Some (Inr (s\<lparr>nodes := AList.delete n (nodes s)\<rparr>))))"

definition processDependents :: "iter \<Rightarrow> NodeID \<Rightarrow> 'b Scheduler \<Rightarrow> 'b Scheduler res option" where
  "processDependents it n s =
    (case map_of (nodes s) n of None \<Rightarrow> Some (Inr s)
     | Some _ \<Rightarrow> processDependentsUnsafe it (length (nodes s)) n s)"

definition fire :: "iter \<Rightarrow> NodeID \<Rightarrow> 'b Scheduler \<Rightarrow> 'b Scheduler res option" where
  "fire it entry s = processDependents it entry s"

section \<open>The scheduler's thread\<close>

definition sendWorker :: "WorkerID \<Rightarrow> 'b WorkerMessage \<Rightarrow> 'b Scheduler \<Rightarrow> 'b Scheduler res" where
  "sendWorker w m s =
    and_then (fetch (workers s) w) (\<lambda>q. Inr (s\<lparr>workers := (workers s)[w := push m q]\<rparr>))"

function processTaskQueue :: "'b Scheduler \<Rightarrow> 'b Scheduler res" where
  "processTaskQueue s =
    (case available_workers s of [] \<Rightarrow> Inr s
     | w # ws \<Rightarrow>
       (case task_queue s of [] \<Rightarrow> Inr s
        | t # ts \<Rightarrow>
          (case sendWorker w (WorkerTaskMessage t) (s\<lparr>available_workers := ws, task_queue := ts\<rparr>) of
             Inl e \<Rightarrow> Inl e | Inr s \<Rightarrow> processTaskQueue s)))"
  by pat_completeness auto
termination
  by (relation "measure (\<lambda>s. length (available_workers s))")
    (auto simp: sendWorker_def and_then_Inr)

definition handle_message :: "iter \<Rightarrow> SchedulerMessage \<Rightarrow> 'b Scheduler \<Rightarrow> 'b Scheduler res option" where
  "handle_message it m s =
    (case m of
       kJoin \<Rightarrow> Some (Inr (s\<lparr>halt := True\<rparr>))
     | kTaskCompletion w tid \<Rightarrow>
         bind_opt (processDependents it tid s) (\<lambda>s. Some (Inr (s\<lparr>available_workers := w # available_workers s\<rparr>)))
     | kNewTask \<Rightarrow> Some (Inr s))"

text \<open>One turn of \<open>execute\<close>: it goes on, waits for a message, or leaves the loop and stops the workers.\<close>

datatype 'b execute_result = Turn "'b Scheduler" | Waiting "'b Scheduler" | Stopped "'b Scheduler"

fun stop_workers :: "WorkerID list \<Rightarrow> 'b Scheduler \<Rightarrow> 'b Scheduler res" where
  "stop_workers [] s = Inr s"
| "stop_workers (w # ws) s = and_then (sendWorker w WorkerJoinMessage s) (stop_workers ws)"

definition execute_turn :: "iter \<Rightarrow> 'b Scheduler \<Rightarrow> 'b execute_result res option" where
  "execute_turn it s =
    bind_opt (Some (processTaskQueue s)) (\<lambda>s.
      if halt s \<and> length (available_workers s) = num_workers s \<and> task_queue s = []
      then Some (and_then (stop_workers [0..<length (workers s)] s) (\<lambda>s. Inr (Stopped s)))
      else (case popOne (scheduler_msg_queue s) of None \<Rightarrow> Some (Inr (Waiting s))
            | Some (m, q) \<Rightarrow> bind_opt (handle_message it m (s\<lparr>scheduler_msg_queue := q\<rparr>)) (\<lambda>s. Some (Inr (Turn s)))))"

definition isActive :: "'b Scheduler \<Rightarrow> bool" where "isActive s = thread s"

definition start :: "'b Scheduler \<Rightarrow> 'b Scheduler res" where
  "start s = (if thread s then Inl AssertFailed else Inr (s\<lparr>thread := True\<rparr>))"

text \<open>\<open>join\<close> sends the message, waits for the thread to end and clears the scheduler.\<close>

definition join_send :: "'b Scheduler \<Rightarrow> 'b Scheduler res" where
  "join_send s = (if thread s then Inr (sendMessage kJoin s) else Inl AssertFailed)"

definition join_end :: "'b Scheduler \<Rightarrow> 'b Scheduler res" where
  "join_end s = clear (s\<lparr>thread := False\<rparr>)"

section \<open>Workers\<close>

text \<open>
  One turn of a worker: the task it runs and whether it goes on; \<open>None\<close> when it waits. The calls
  a task makes on the scheduler are turns of their own.
\<close>

definition worker_turn :: "WorkerID \<Rightarrow> 'b Scheduler \<Rightarrow> ('b Task option \<times> bool \<times> 'b Scheduler) res option" where
  "worker_turn w s =
    (if w < length (workers s) then
       (case popOne (workers s ! w) of None \<Rightarrow> None
        | Some (m, q) \<Rightarrow>
          let s = s\<lparr>workers := (workers s)[w := q]\<rparr> in
          (case m of WorkerJoinMessage \<Rightarrow> Some (Inr (None, False, s))
           | WorkerTaskMessage t \<Rightarrow> Some (and_then (getID t) (\<lambda>tid. Inr (Some t, True, sendMessage (kTaskCompletion w tid) s)))))
     else None)"

section \<open>The invariant of the graph\<close>

text \<open>
  \<open>R\<close> has the dependents still to be visited of the nodes that are being processed. The count of a
  node is the number of nodes it waits for; the stored tasks are those that wait.
\<close>

type_synonym graph = "NodeID \<Rightarrow> Node option"
type_synonym rest = "NodeID \<Rightarrow> NodeID list option"

definition eff :: "rest \<Rightarrow> graph \<Rightarrow> NodeID \<Rightarrow> NodeID list" where
  "eff R m n = (case R n of Some ds \<Rightarrow> ds | None \<Rightarrow> (case m n of None \<Rightarrow> [] | Some nd \<Rightarrow> dependents nd))"

definition preds :: "rest \<Rightarrow> graph \<Rightarrow> NodeID \<Rightarrow> NodeID set" where
  "preds R m d = {n \<in> dom m. d \<in> set (eff R m n)}"

definition graph_ok :: "rest \<Rightarrow> graph \<Rightarrow> bool" where
  "graph_ok R m \<longleftrightarrow> finite (dom m) \<and> (\<forall>n. distinct (eff R m n)) \<and> (\<forall>n \<in> dom m. set (eff R m n) \<subseteq> dom m)
     \<and> (\<forall>d nd. m d = Some nd \<longrightarrow> dependency_count nd = card (preds R m d))
     \<and> (\<forall>n \<in> dom R. \<exists>nd. m n = Some nd \<and> dependency_count nd = 0)"

definition waits :: "graph \<Rightarrow> NodeID \<Rightarrow> bool" where
  "waits m d \<longleftrightarrow> (\<exists>nd. m d = Some nd \<and> 0 < dependency_count nd)"

definition tasks_ok :: "'b Scheduler \<Rightarrow> bool" where
  "tasks_ok s \<longleftrightarrow> (\<forall>d. d \<in> dom (map_of (tasks s)) \<longleftrightarrow> IsTaskID d \<and> waits (map_of (nodes s)) d)
     \<and> (\<forall>d t. map_of (tasks s) d = Some t \<longrightarrow> task_id t = d)"

lemma eff_upd [simp]: "eff (R(n \<mapsto> ds)) m n' = (if n' = n then ds else eff R m n')"
  by (simp add: eff_def)

lemma graph_ok_visit:
  assumes g: "graph_ok (R(n \<mapsto> d # ds)) m" and n: "n \<in> dom m" and d: "m d = Some nd"
  shows "graph_ok (R(n \<mapsto> ds)) (m(d \<mapsto> nd\<lparr>dependency_count := dependency_count nd - 1\<rparr>))"
    "0 < dependency_count nd" "d \<notin> dom (R(n \<mapsto> ds))"
proof -
  let ?Q = "R(n \<mapsto> d # ds)" and ?R = "R(n \<mapsto> ds)" and ?m = "m(d \<mapsto> nd\<lparr>dependency_count := dependency_count nd - 1\<rparr>)"
  have e0: "eff Q ?m x = eff Q m x" for Q x using d by (cases "x = d") (simp_all add: eff_def split: option.split)
  have e: "eff ?R ?m x = (if x = n then ds else eff R m x)" for x unfolding e0 by (rule eff_upd)
  have dm: "dom ?m = dom m" using d by auto
  have fin: "finite (preds ?Q m x)" for x using g by (auto simp: graph_ok_def preds_def)
  have dist: "distinct (d # ds)" using g unfolding graph_ok_def by (metis eff_upd)
  have nd: "n \<in> preds ?Q m d" using n by (simp add: preds_def)
  have cnt: "dependency_count nd = card (preds ?Q m d)" using g d by (simp add: graph_ok_def)
  then show pos: "0 < dependency_count nd" using nd fin by (auto simp: card_gt_0_iff)
  have rc: "\<exists>nd. m x = Some nd \<and> dependency_count nd = 0" if "x \<in> dom ?Q" for x using g that unfolding graph_ok_def by blast
  show dR: "d \<notin> dom ?R" using rc [of d] d pos by auto
  have p: "preds ?R ?m x = (if x = d then preds ?Q m d - {n} else preds ?Q m x)" for x
    unfolding preds_def dm e using dist n by auto
  have "dependency_count nd' = card (preds ?R ?m x)" if "?m x = Some nd'" for x nd'
  proof (cases "x = d")
    case True
    then have "dependency_count nd' = card (preds ?Q m d) - 1" using that cnt by auto
    then show ?thesis unfolding p using True nd fin by simp
  next
    case False
    then show ?thesis unfolding p using that g by (simp add: graph_ok_def)
  qed
  moreover have "set (eff ?R ?m x) \<subseteq> dom ?m" if "x \<in> dom ?m" for x
  proof -
    have "set (eff ?Q m x) \<subseteq> dom m" using g that unfolding graph_ok_def dm by blast
    then show ?thesis unfolding e dm by (auto split: if_splits)
  qed
  moreover have "distinct (eff ?R ?m x)" for x
  proof -
    have "distinct (eff ?Q m x)" using g by (simp add: graph_ok_def)
    then show ?thesis unfolding e using dist by (simp split: if_splits)
  qed
  moreover have "\<exists>nd. ?m x = Some nd \<and> dependency_count nd = 0" if "x \<in> dom ?R" for x
    using rc [of x] that dR by auto
  moreover have "finite (dom ?m)" using g dm by (simp add: graph_ok_def)
  ultimately show "graph_ok ?R ?m" unfolding graph_ok_def by blast
qed

lemma graph_ok_start:
  assumes "graph_ok R m" "m n = Some nd" "dependency_count nd = 0" "n \<notin> dom R" "iter_ok it"
  shows "graph_ok (R(n \<mapsto> it (dependents nd))) m"
proof -
  let ?R = "R(n \<mapsto> it (dependents nd))"
  have e: "eff R m n = dependents nd" using assms(2,4) by (auto simp: eff_def domIff)
  have s: "set (eff ?R m x) = set (eff R m x)" for x using assms(5) e by (simp add: iter_ok_def)
  have "distinct (dependents nd)" using assms(1) unfolding graph_ok_def e [symmetric] by blast
  then have "distinct (eff ?R m x)" for x using assms(1,5) by (simp add: graph_ok_def iter_ok_def)
  moreover have "preds ?R m x = preds R m x" for x unfolding preds_def s by (rule refl)
  moreover have "\<exists>nd. m x = Some nd \<and> dependency_count nd = 0" if "x \<in> dom ?R" for x
    using assms(1-3) that by (auto simp: graph_ok_def split: if_splits)
  ultimately show ?thesis using assms(1) s by (simp add: graph_ok_def)
qed

lemma graph_ok_erase:
  assumes g: "graph_ok (R(n \<mapsto> [])) m" and n: "n \<in> dom m" "n \<notin> dom R"
  shows "graph_ok R (m(n := None))"
proof -
  let ?R = "R(n \<mapsto> [])" and ?m = "m(n := None)"
  have Rn: "R n = None" using n by auto
  have e: "eff R ?m x = eff ?R m x" for x using Rn by (cases "x = n") (simp_all add: eff_def split: option.split)
  have fin: "finite (dom m)" using g by (simp add: graph_ok_def)
  obtain nd where "m n = Some nd" "dependency_count nd = 0" using g unfolding graph_ok_def by auto
  then have "card (preds ?R m n) = 0" using g by (simp add: graph_ok_def)
  then have pn: "preds ?R m n = {}" using fin by (simp add: preds_def)
  have p: "preds R ?m x = preds ?R m x" if "x \<noteq> n" for x by (auto simp: preds_def e)
  have "set (eff R ?m x) \<subseteq> dom ?m" if x: "x \<in> dom ?m" for x
  proof -
    have "x \<in> dom m" "x \<noteq> n" using x by (auto split: if_splits)
    then have "set (eff ?R m x) \<subseteq> dom m" using g unfolding graph_ok_def by blast
    moreover have "n \<notin> set (eff ?R m x)" using \<open>x \<in> dom m\<close> pn unfolding preds_def by blast
    ultimately have "set (eff ?R m x) \<subseteq> dom m - {n}" by blast
    then show ?thesis by (auto simp: e)
  qed
  moreover have "distinct (eff R ?m x)" for x using g unfolding e graph_ok_def by blast
  moreover have "\<exists>nd. ?m x = Some nd \<and> dependency_count nd = 0" if "x \<in> dom R" for x
    using g that Rn by (auto simp: graph_ok_def split: if_splits)
  moreover have "dependency_count nd = card (preds R ?m x)" if "?m x = Some nd" for x nd
    using that g p by (auto simp: graph_ok_def split: if_splits)
  ultimately show ?thesis using fin by (simp add: graph_ok_def)
qed

section \<open>Processing the dependents\<close>

text \<open>The tasks \<open>ts\<close> went from the store to the queue; nothing else changed but the nodes.\<close>

definition released :: "'b Task list \<Rightarrow> 'b Scheduler \<Rightarrow> 'b Scheduler \<Rightarrow> bool" where
  "released ts s s' \<longleftrightarrow>
     s' = s\<lparr>nodes := nodes s', tasks := tasks s', task_queue := task_queue s @ ts,
            scheduler_msg_queue := scheduler_msg_queue s @ replicate (length ts) kNewTask\<rparr>
     \<and> distinct (map task_id ts) \<and> list_all (\<lambda>t. map_of (tasks s) (task_id t) = Some t) ts
     \<and> map_of (tasks s') = (map_of (tasks s)) |` (- task_id ` set ts)
     \<and> (\<forall>n nd'. map_of (nodes s') n = Some nd' \<longrightarrow> (\<exists>nd. map_of (nodes s) n = Some nd \<and> dependents nd' = dependents nd))"

text \<open>
  A continuation that waited and is still there still waits: one that is ready is processed at
  once. No node starts to wait, and the nodes of tasks and those that did not wait are kept.
\<close>

definition still_waits :: "'b Scheduler \<Rightarrow> 'b Scheduler \<Rightarrow> bool" where
  "still_waits s s' \<longleftrightarrow> (\<forall>c \<in> dom (map_of (nodes s')). IsContinuation c \<and> waits (map_of (nodes s)) c \<longrightarrow> waits (map_of (nodes s')) c)"

lemma released_refl: "released [] s s"
  by (simp add: released_def restrict_map_def)

lemma released_trans:
  assumes a: "released ts s s'" and b: "released us s' s''"
  shows "released (ts @ us) s s''"
proof -
  have m: "map_of (tasks s') = (map_of (tasks s)) |` (- task_id ` set ts)" using a by (simp add: released_def)
  have u: "task_id u \<notin> task_id ` set ts \<and> map_of (tasks s) (task_id u) = Some u" if "u \<in> set us" for u
  proof -
    have "map_of (tasks s') (task_id u) = Some u" using b that by (auto simp: released_def list_all_iff)
    then show ?thesis unfolding m by (auto simp: restrict_map_def split: if_splits)
  qed
  have "distinct (map task_id ts)" "distinct (map task_id us)" using a b by (simp_all add: released_def)
  moreover have "set (map task_id ts) \<inter> set (map task_id us) = {}" using u by (auto simp: image_iff) metis
  ultimately have "distinct (map task_id (ts @ us))" by simp
  moreover have "list_all (\<lambda>t. map_of (tasks s) (task_id t) = Some t) (ts @ us)" using a u by (auto simp: released_def list_all_iff)
  moreover have "map_of (tasks s'') = (map_of (tasks s)) |` (- task_id ` set (ts @ us))"
    using b m by (auto simp: released_def restrict_map_def fun_eq_iff)
  moreover have "s'' = s\<lparr>nodes := nodes s'', tasks := tasks s'', task_queue := task_queue s @ (ts @ us),
      scheduler_msg_queue := scheduler_msg_queue s @ replicate (length (ts @ us)) kNewTask\<rparr>"
  proof -
    have "s' = s\<lparr>nodes := nodes s', tasks := tasks s', task_queue := task_queue s @ ts,
            scheduler_msg_queue := scheduler_msg_queue s @ replicate (length ts) kNewTask\<rparr>"
      "s'' = s'\<lparr>nodes := nodes s'', tasks := tasks s'', task_queue := task_queue s' @ us,
            scheduler_msg_queue := scheduler_msg_queue s' @ replicate (length us) kNewTask\<rparr>"
      using a b unfolding released_def by blast+
    then show ?thesis by (cases s; cases s'; cases s'') (simp add: replicate_add)
  qed
  moreover have "\<forall>n nd'. map_of (nodes s'') n = Some nd' \<longrightarrow> (\<exists>nd. map_of (nodes s) n = Some nd \<and> dependents nd' = dependents nd)"
    using a b unfolding released_def by metis
  ultimately show ?thesis unfolding released_def by blast
qed

lemma released_dom: "released ts s s' \<Longrightarrow> dom (map_of (nodes s')) \<subseteq> dom (map_of (nodes s))"
  by (auto simp: released_def)

definition keeps :: "NodeID set \<Rightarrow> 'b Scheduler \<Rightarrow> 'b Scheduler \<Rightarrow> bool" where
  "keeps X s s' \<longleftrightarrow> (\<forall>x. waits (map_of (nodes s')) x \<longrightarrow> waits (map_of (nodes s)) x)
     \<and> (\<forall>x \<in> dom (map_of (nodes s)) - X. IsTaskID x \<or> \<not> waits (map_of (nodes s)) x \<longrightarrow> x \<in> dom (map_of (nodes s')))"

lemma keeps_refl: "keeps X s s"
  by (simp add: keeps_def)

lemma keeps_trans: "keeps {} s s' \<Longrightarrow> keeps X s' s'' \<Longrightarrow> keeps X s s''"
  unfolding keeps_def by blast

lemma still_waits_refl: "still_waits s s"
  by (simp add: still_waits_def)

lemma still_waits_trans: "still_waits s s' \<Longrightarrow> still_waits s' s'' \<Longrightarrow> released ts s' s'' \<Longrightarrow> still_waits s s''"
  unfolding still_waits_def using released_dom by blast

lemma nodes_put [simp]: "map_of (nodes (put_node n nd s)) = (map_of (nodes s))(n \<mapsto> nd)"
  "tasks (put_node n nd s) = tasks s"
  by (simp_all add: put_node_def update_conv')

definition state_ok :: "rest \<Rightarrow> 'b Scheduler \<Rightarrow> bool" where
  "state_ok R s \<longleftrightarrow> graph_ok R (map_of (nodes s)) \<and> tasks_ok s"

text \<open>What a call of \<open>processDependentsUnsafe\<close> does, for a recursion of depth \<open>k\<close>.\<close>

definition processes :: "rest \<Rightarrow> nat \<Rightarrow> (NodeID \<Rightarrow> 'b Scheduler \<Rightarrow> 'b Scheduler res option) \<Rightarrow> bool" where
  "processes R k f \<longleftrightarrow> (\<forall>n nd s. state_ok R s \<and> map_of (nodes s) n = Some nd \<and> dependency_count nd = 0 \<and> n \<notin> dom R
     \<and> card (dom (map_of (nodes s)) - dom R) \<le> k \<longrightarrow>
     (\<exists>s' ts. f n s = Some (Inr s') \<and> state_ok R s' \<and> released ts s s' \<and> still_waits s s' \<and> keeps {n} s s'
        \<and> map_of (nodes s') n = None))"

lemma released_put: "released [] s (put_node d nd s)" if "map_of (nodes s) d = Some nd'" "dependents nd = dependents nd'"
  using that by (auto simp: released_def put_node_def update_conv' restrict_map_def)

lemma released_erase: "released [] s (s\<lparr>nodes := AList.delete n (nodes s)\<rparr>)"
  by (auto simp: released_def delete_conv' restrict_map_def)

lemma tasks_ok_dec:
  assumes "tasks_ok s" "map_of (nodes s) d = Some nd" "0 < dependency_count nd" "dependency_count nd' > 0 \<or> \<not> IsTaskID d"
  shows "tasks_ok (put_node d nd' s)"
proof -
  have "IsTaskID x \<and> waits ((map_of (nodes s))(d \<mapsto> nd')) x \<longleftrightarrow> IsTaskID x \<and> waits (map_of (nodes s)) x" for x
    using assms(2-4) by (auto simp: waits_def)
  then show ?thesis using assms(1) by (simp add: tasks_ok_def)
qed

lemma process_dependent_ok:
  assumes g: "state_ok (R(n \<mapsto> d # ds)) s" and f: "processes (R(n \<mapsto> ds)) k f"
    and k: "card (dom (map_of (nodes s)) - dom (R(n \<mapsto> ds))) \<le> k" and n: "n \<in> dom (map_of (nodes s))"
  shows "\<exists>s' ts. process_dependent f d s = Some (Inr s') \<and> state_ok (R(n \<mapsto> ds)) s' \<and> released ts s s'
    \<and> still_waits s s' \<and> keeps {} s s'"
proof -
  let ?m = "map_of (nodes s)" and ?R = "R(n \<mapsto> ds)"
  have go: "graph_ok (R(n \<mapsto> d # ds)) ?m" and to: "tasks_ok s" using g by (auto simp: state_ok_def)
  have "set (eff (R(n \<mapsto> d # ds)) ?m n) \<subseteq> dom ?m" using go n unfolding graph_ok_def by blast
  then obtain nd where d: "?m d = Some nd" by auto
  define nd' where "nd' = nd\<lparr>dependency_count := dependency_count nd - 1\<rparr>"
  note v = graph_ok_visit [OF go n d, folded nd'_def]
  have dec: "decDependency nd = Inr nd'" using v(2) by (simp add: decDependency_def nd'_def)
  have rp: "released [] s (put_node d nd' s)" using d by (rule released_put) (simp add: nd'_def)
  have gp: "graph_ok ?R (map_of (nodes (put_node d nd' s)))" using v(1) by simp
  consider (rest) "dependency_count nd' \<noteq> 0" | (task) "dependency_count nd' = 0" "IsTaskID d"
    | (cont) "dependency_count nd' = 0" "\<not> IsTaskID d" by blast
  then show ?thesis
  proof cases
    case rest
    then have "tasks_ok (put_node d nd' s)" using tasks_ok_dec [OF to d v(2)] by simp
    moreover have "still_waits s (put_node d nd' s)" using rest by (auto simp: still_waits_def waits_def)
    moreover have "keeps {} s (put_node d nd' s)" using d v(2) by (auto simp: keeps_def waits_def)
    ultimately show ?thesis using rest d dec gp rp by (fastforce simp: process_dependent_def state_ok_def)
  next
    case cont
    then have "tasks_ok (put_node d nd' s)" using tasks_ok_dec [OF to d v(2)] by simp
    then have so: "state_ok ?R (put_node d nd' s)" using gp by (simp add: state_ok_def)
    have "dom (map_of (nodes (put_node d nd' s))) = dom ?m" using d by auto
    then obtain s' ts where r: "f d (put_node d nd' s) = Some (Inr s')" "state_ok ?R s'" "released ts (put_node d nd' s) s'"
      "still_waits (put_node d nd' s) s'" "map_of (nodes s') d = None" "keeps {d} (put_node d nd' s) s'"
      using f so v(3) cont(1) k unfolding processes_def by (metis fun_upd_same nodes_put(1))
    have "still_waits s s'"
      unfolding still_waits_def
    proof (intro ballI impI, elim conjE)
      fix c assume c: "c \<in> dom (map_of (nodes s'))" "IsContinuation c" "waits ?m c"
      then have "c \<noteq> d" using r(5) by auto
      then have "waits (map_of (nodes (put_node d nd' s))) c" using c(3) by (simp add: waits_def)
      then show "waits (map_of (nodes s')) c" using r(4) c(1,2) unfolding still_waits_def by blast
    qed
    moreover have "keeps {} s s'"
    proof -
      have wd: "waits ?m d" using d v(2) by (simp add: waits_def)
      have "waits (map_of (nodes (put_node d nd' s))) x \<longleftrightarrow> x \<noteq> d \<and> waits ?m x" for x using cont(1) by (simp add: waits_def)
      then show ?thesis using r(6) wd cont(2) unfolding keeps_def by (auto simp del: not_gr_zero)
    qed
    ultimately show ?thesis using r(1,2) cont d dec released_trans [OF rp r(3)] by (auto simp: process_dependent_def)
  next
    case task
    have "d \<in> dom (map_of (tasks s))" using to task(2) d v(2) by (auto simp: tasks_ok_def waits_def)
    then obtain t where t: "map_of (tasks s) d = Some t" by blast
    then have td: "task_id t = d" using to unfolding tasks_ok_def by blast
    let ?s = "addTaskIntoQueue t ((put_node d nd' s)\<lparr>tasks := AList.delete d (tasks s)\<rparr>)"
    have eq: "process_dependent f d s = Some (Inr ?s)"
      using task d dec t by (simp add: process_dependent_def releaseTaskByID_def)
    have s: "nodes ?s = nodes (put_node d nd' s)" "tasks ?s = AList.delete d (tasks s)"
      by (simp_all add: addTaskIntoQueue_def sendMessage_def)
    have "x \<in> dom (map_of (tasks ?s)) \<longleftrightarrow> IsTaskID x \<and> waits (map_of (nodes ?s)) x" for x
      using to task d by (auto simp: s delete_conv' tasks_ok_def waits_def)
    then have "tasks_ok ?s" using to by (auto simp: tasks_ok_def s delete_conv' split: if_splits)
    moreover have "released [t] s ?s"
      using t td d nd'_def by (auto simp: released_def addTaskIntoQueue_def sendMessage_def push_def put_node_def delete_conv'
          update_conv' restrict_map_def)
    moreover have "keeps {} s ?s" using task(1) d by (auto simp: keeps_def s waits_def split: if_splits)
    moreover have "still_waits s ?s" unfolding still_waits_def s using task(2) by (auto simp: waits_def IsTaskID_def)
    ultimately show ?thesis using eq gp s(1) by (auto simp: state_ok_def)
  qed
qed

lemma card_less_rest:
  assumes "released ts s s'" "card (dom (map_of (nodes s)) - X) \<le> k"
  shows "card (dom (map_of (nodes s')) - X) \<le> k"
proof -
  have "card (dom (map_of (nodes s')) - X) \<le> card (dom (map_of (nodes s)) - X)"
    using released_dom [OF assms(1)] by (intro card_mono) (auto simp: finite_dom_map_of)
  then show ?thesis using assms(2) by simp
qed

lemma each_dependent_ok:
  assumes "state_ok (R(n \<mapsto> ds)) s" "\<And>ds. processes (R(n \<mapsto> ds)) k f"
    "card (dom (map_of (nodes s)) - insert n (dom R)) \<le> k"
  shows "\<exists>s' ts. each_dependent (process_dependent f) ds s = Some (Inr s') \<and> state_ok (R(n \<mapsto> [])) s'
    \<and> released ts s s' \<and> still_waits s s' \<and> keeps {} s s'"
  using assms(1,3)
proof (induction ds arbitrary: s)
  case Nil
  then show ?case using released_refl still_waits_refl keeps_refl by fastforce
next
  case (Cons d ds)
  have n: "n \<in> dom (map_of (nodes s))" using Cons.prems(1) unfolding state_ok_def graph_ok_def by fastforce
  have "card (dom (map_of (nodes s)) - dom (R(n \<mapsto> ds))) \<le> k" using Cons.prems(2) by simp
  from process_dependent_ok [OF Cons.prems(1) assms(2) this n]
  obtain s1 ts where s1: "process_dependent f d s = Some (Inr s1)" "state_ok (R(n \<mapsto> ds)) s1" "released ts s s1"
    "still_waits s s1" "keeps {} s s1" by blast
  from Cons.IH [OF s1(2) card_less_rest [OF s1(3) Cons.prems(2)]]
  obtain s' us where s': "each_dependent (process_dependent f) ds s1 = Some (Inr s')" "state_ok (R(n \<mapsto> [])) s'" "released us s1 s'"
    "still_waits s1 s'" "keeps {} s1 s'" by blast
  then have "each_dependent (process_dependent f) (d # ds) s = Some (Inr s')" using s1(1) by simp
  then show ?case using s'(2) released_trans [OF s1(3) s'(3)] still_waits_trans [OF s1(4) s'(4,3)] keeps_trans [OF s1(5) s'(5)] by blast
qed

lemma processDependentsUnsafe_ok:
  assumes it: "iter_ok it"
  shows "processes R k (processDependentsUnsafe it k)"
proof (induction k arbitrary: R)
  case 0
  then show ?case by (auto simp: processes_def finite_dom_map_of)
next
  case (Suc k)
  show ?case
    unfolding processes_def
  proof (intro allI impI, elim conjE)
    fix n nd and s :: "'a Scheduler"
    assume so: "state_ok R s" and n: "map_of (nodes s) n = Some nd" "dependency_count nd = 0" "n \<notin> dom R"
      and k: "card (dom (map_of (nodes s)) - dom R) \<le> Suc k"
    let ?ds = "it (dependents nd)"
    have "state_ok (R(n \<mapsto> ?ds)) s" 
      using so graph_ok_start [where R = R and m = "map_of (nodes s)", OF _ n it] by (simp add: state_ok_def)
    moreover have "card (dom (map_of (nodes s)) - insert n (dom R)) \<le> k"
    proof -
      have "dom (map_of (nodes s)) - insert n (dom R) = (dom (map_of (nodes s)) - dom R) - {n}" by blast
      moreover have "n \<in> dom (map_of (nodes s)) - dom R" using n by auto
      ultimately show ?thesis using k by (simp add: card_Diff_singleton finite_dom_map_of)
    qed
    ultimately obtain s1 ts where s1: "each_dependent (process_dependent (processDependentsUnsafe it k)) ?ds s = Some (Inr s1)"
      "state_ok (R(n \<mapsto> [])) s1" "released ts s s1" "still_waits s s1" "keeps {} s s1"
      using each_dependent_ok [OF _ Suc.IH, of R n ?ds s] by blast
    let ?s = "s1\<lparr>nodes := AList.delete n (nodes s1)\<rparr>"
    have nm: "map_of (nodes ?s) = (map_of (nodes s1))(n := None)" by (simp add: delete_conv')
    have nn: "n \<in> dom (map_of (nodes s1))" "\<not> waits (map_of (nodes s1)) n"
      using s1(2) unfolding state_ok_def graph_ok_def waits_def by fastforce+
    have "graph_ok R (map_of (nodes ?s))"
      unfolding nm using s1(2) nn(1) n(3) by (intro graph_ok_erase) (auto simp: state_ok_def)
    moreover have wx: "waits (map_of (nodes ?s)) x \<longleftrightarrow> waits (map_of (nodes s1)) x" for x
      using nn(2) unfolding nm by (auto simp: waits_def)
    ultimately have "state_ok R ?s" using s1(2) by (simp add: state_ok_def tasks_ok_def)
    moreover have "released ts s ?s" using released_trans [OF s1(3) released_erase] by simp
    moreover have "keeps {n} s ?s" using s1(5) unfolding keeps_def wx unfolding nm by auto
    moreover have "still_waits s ?s" using s1(4) unfolding still_waits_def nm by (auto simp: waits_def)
    moreover have "processDependentsUnsafe it (Suc k) n s = Some (Inr ?s)"
      using n s1(1) by (simp add: node_at_def)
    ultimately show "\<exists>s' ts. processDependentsUnsafe it (Suc k) n s = Some (Inr s') \<and> state_ok R s' \<and> released ts s s'
        \<and> still_waits s s' \<and> keeps {n} s s' \<and> map_of (nodes s') n = None" using nm by auto
  qed
qed

lemma processDependents_ok:
  assumes "iter_ok it" "state_ok Map.empty s" "\<not> waits (map_of (nodes s)) n"
  shows "\<exists>s' ts. processDependents it n s = Some (Inr s') \<and> state_ok Map.empty s' \<and> released ts s s'
    \<and> still_waits s s' \<and> keeps {n} s s' \<and> map_of (nodes s') n = None"
proof (cases "map_of (nodes s) n")
  case None
  then show ?thesis using assms(2) released_refl still_waits_refl keeps_refl by (fastforce simp: processDependents_def)
next
  case (Some nd)
  have "card (dom (map_of (nodes s))) \<le> length (nodes s)"
  proof -
    have "card (dom (map_of (nodes s))) = card (set (map fst (nodes s)))" by (simp add: dom_map_of_conv_image_fst)
    also have "\<dots> \<le> length (nodes s)" by (metis card_length length_map)
    finally show ?thesis .
  qed
  moreover have "dependency_count nd = 0" using assms(3) Some by (auto simp: waits_def)
  ultimately show ?thesis
    using processDependentsUnsafe_ok [OF assms(1), of Map.empty "length (nodes s)", unfolded processes_def, rule_format, of s n nd]
      assms(2) Some by (simp add: processDependents_def)
qed

section \<open>New links\<close>

definition nd_at :: "graph \<Rightarrow> NodeID \<Rightarrow> Node" where
  "nd_at m n = (case m n of None \<Rightarrow> Node_new | Some nd \<Rightarrow> nd)"

definition link :: "NodeID \<Rightarrow> NodeID \<Rightarrow> graph \<Rightarrow> graph" where
  "link a d m = (let m = m(a \<mapsto> addDependent d (nd_at m a)) in m(d \<mapsto> incDependency (nd_at m d)))"

abbreviation deps :: "graph \<Rightarrow> NodeID \<Rightarrow> NodeID list" where "deps m n \<equiv> eff Map.empty m n"

lemma node_at_nd: "node_at n s = nd_at (map_of (nodes s)) n"
  by (simp add: node_at_def nd_at_def)

lemma deps_eq: "deps m n = dependents (nd_at m n)"
  by (simp add: eff_def nd_at_def Node_new_def split: option.split)

lemma count_link:
  "dependency_count (nd_at (link a d m) x) = dependency_count (nd_at m x) + (if x = d then 1 else 0)"
  by (auto simp: link_def nd_at_def addDependent_def incDependency_def Let_def)

lemma deps_link:
  assumes "d \<notin> set (deps m a)"
  shows "deps (link a d m) x = deps m x @ (if x = a then [d] else [])"
  using assms by (auto simp: deps_eq link_def nd_at_def addDependent_def incDependency_def Let_def)

lemma dom_link: "dom (link a d m) = insert a (insert d (dom m))"
  by (auto simp: link_def Let_def)

lemma graph_ok_nd: "graph_ok Map.empty m \<longleftrightarrow> finite (dom m) \<and> (\<forall>n. distinct (deps m n)) \<and> (\<forall>n. set (deps m n) \<subseteq> dom m)
    \<and> (\<forall>d. dependency_count (nd_at m d) = card (preds Map.empty m d))"
  (is "?l \<longleftrightarrow> ?r")
proof -
  have out: "deps m n = []" if "n \<notin> dom m" for n using that by (auto simp: eff_def split: option.split)
  then have c: "(\<forall>n \<in> dom m. set (deps m n) \<subseteq> dom m) \<longleftrightarrow> (\<forall>n. set (deps m n) \<subseteq> dom m)" by (metis empty_subsetI list.set(1))
  have "preds Map.empty m d = {}" "dependency_count (nd_at m d) = 0" if "\<forall>n. set (deps m n) \<subseteq> dom m" "d \<notin> dom m" for d
    using that by (auto simp: preds_def nd_at_def Node_new_def split: option.split)
  then have "(\<forall>n. set (deps m n) \<subseteq> dom m) \<Longrightarrow>
      (\<forall>d nd. m d = Some nd \<longrightarrow> dependency_count nd = card (preds Map.empty m d))
      \<longleftrightarrow> (\<forall>d. dependency_count (nd_at m d) = card (preds Map.empty m d))"
    by (auto simp: nd_at_def domIff split: option.split)
  then show ?thesis unfolding graph_ok_def c by auto
qed

lemma waits_nd: "waits m d \<longleftrightarrow> 0 < dependency_count (nd_at m d)"
  by (auto simp: waits_def nd_at_def Node_new_def split: option.split)

lemma graph_ok_link:
  assumes g: "graph_ok Map.empty m" and d: "d \<notin> set (deps m a)"
  shows "graph_ok Map.empty (link a d m)" "waits (link a d m) x \<longleftrightarrow> x = d \<or> waits m x"
proof -
  have out: "deps m n = []" if "n \<notin> dom m" for n using that by (auto simp: eff_def split: option.split)
  have p: "preds Map.empty (link a d m) x = (if x = d then insert a (preds Map.empty m x) else preds Map.empty m x)" for x
    using out by (fastforce simp: preds_def deps_link [OF d] dom_link split: if_splits)
  have "a \<notin> preds Map.empty m d" "finite (preds Map.empty m d)" using d g by (auto simp: preds_def graph_ok_def)
  then have "dependency_count (nd_at (link a d m) x) = card (preds Map.empty (link a d m) x)" for x
    using g unfolding graph_ok_nd p count_link by simp
  moreover have "distinct (deps (link a d m) x)" for x using g d unfolding graph_ok_nd deps_link [OF d] by auto
  moreover have "set (deps (link a d m) x) \<subseteq> dom (link a d m)" for x
    using g unfolding graph_ok_nd deps_link [OF d] dom_link by auto
  moreover have "finite (dom (link a d m))" using g by (simp add: dom_link graph_ok_def)
  ultimately show "graph_ok Map.empty (link a d m)" unfolding graph_ok_nd by blast
  show "waits (link a d m) x \<longleftrightarrow> x = d \<or> waits m x" by (simp add: waits_nd count_link)
qed

lemma nodes_addLinkUnsafe:
  "map_of (nodes (addLinkUnsafe a d s))
    = (if d \<in> set (deps (map_of (nodes s)) a) then map_of (nodes s) else link a d (map_of (nodes s)))"
proof (cases "d \<in> set (deps (map_of (nodes s)) a)")
  case True
  then obtain nd where "map_of (nodes s) a = Some nd" by (cases "map_of (nodes s) a") (auto simp: eff_def)
  then show ?thesis using True
    by (auto simp: addLinkUnsafe_def hasDependent_def deps_eq node_at_nd nd_at_def)
next
  case False
  then show ?thesis
    by (simp add: addLinkUnsafe_def hasDependent_def deps_eq node_at_nd link_def Let_def nd_at_def fun_upd_twist cong: option.case_cong)
qed

lemma addLinkUnsafe_frame: "addLinkUnsafe a d s = s\<lparr>nodes := nodes (addLinkUnsafe a d s)\<rparr>"
  by (simp add: addLinkUnsafe_def put_node_def Let_def)

section \<open>Calls\<close>

text \<open>A link onto a continuation, or a stored task.\<close>

lemma addLink_ok:
  assumes s: "state_ok Map.empty s" and d: "IsContinuation d \<or> d \<in> dom (map_of (tasks s))"
  shows "state_ok Map.empty (addLink a d s)"
    "waits (map_of (nodes (addLink a d s))) x \<longleftrightarrow> waits (map_of (nodes s)) x \<or> x = d \<and> d \<notin> set (deps (map_of (nodes s)) a)"
    "dom (map_of (nodes (addLink a d s))) \<subseteq> insert a (insert d (dom (map_of (nodes s))))"
proof -
  have g: "graph_ok Map.empty (map_of (nodes s))" and t: "tasks_ok s" using s by (auto simp: state_ok_def)
  have tk: "tasks (addLink a d s) = tasks s" by (simp add: addLink_def addLinkUnsafe_def Let_def)
  show w: "waits (map_of (nodes (addLink a d s))) x \<longleftrightarrow> waits (map_of (nodes s)) x \<or> x = d \<and> d \<notin> set (deps (map_of (nodes s)) a)" for x
    using graph_ok_link(2) [OF g] by (auto simp: addLink_def nodes_addLinkUnsafe)
  have "IsTaskID x \<and> waits (map_of (nodes (addLink a d s))) x \<longleftrightarrow> IsTaskID x \<and> waits (map_of (nodes s)) x" for x
    unfolding w using d t by (auto simp: IsTaskID_def tasks_ok_def)
  then have "tasks_ok (addLink a d s)" using t unfolding tasks_ok_def tk by simp
  moreover have "graph_ok Map.empty (map_of (nodes (addLink a d s)))"
    using graph_ok_link(1) [OF g] g by (simp add: addLink_def nodes_addLinkUnsafe)
  ultimately show "state_ok Map.empty (addLink a d s)" by (simp add: state_ok_def)
  show "dom (map_of (nodes (addLink a d s))) \<subseteq> insert a (insert d (dom (map_of (nodes s))))"
    by (auto simp: addLink_def nodes_addLinkUnsafe dom_link)
qed

lemma addTask_ok:
  assumes s: "state_ok Map.empty s" and fresh: "task_counter s \<notin> dom (map_of (nodes s))" "IsTaskID (task_counter s)" "task_counter s \<noteq> 0"
    and dy: "dependency \<noteq> task_counter s" and dt: "dependent = kInvalidNodeID \<or> IsContinuation dependent"
  shows "\<exists>s'. addTask (Task_new b) dependency dependent s = Inr (task_counter s, s') \<and> state_ok Map.empty s'
    \<and> (let t = \<lparr>task_id = task_counter s, continuation = dependent, has_scheduler = True, body = b\<rparr> in
        s' = s\<lparr>task_counter := task_counter s + 1, nodes := nodes s', tasks := tasks s',
          task_queue := task_queue s @ (if dependency = kInvalidNodeID then [t] else []),
          scheduler_msg_queue := scheduler_msg_queue s @ (if dependency = kInvalidNodeID then [kNewTask] else [])\<rparr>
      \<and> map_of (tasks s') = (if dependency = kInvalidNodeID then map_of (tasks s) else (map_of (tasks s))(task_counter s \<mapsto> t)))
    \<and> dom (map_of (nodes s')) \<subseteq> dom (map_of (nodes s)) \<union> {n. n \<noteq> kInvalidNodeID \<and> n \<in> {dependent, dependency, task_counter s}}
    \<and> (\<forall>x. waits (map_of (nodes s')) x \<longleftrightarrow> waits (map_of (nodes s)) x
        \<or> x = dependent \<and> dependent \<noteq> kInvalidNodeID \<or> x = task_counter s \<and> dependency \<noteq> kInvalidNodeID)"
proof -
  let ?c = "task_counter s" and ?m = "map_of (nodes s)"
  let ?t = "\<lparr>task_id = ?c, continuation = dependent, has_scheduler = True, body = b\<rparr>"
  let ?s0 = "s\<lparr>task_counter := ?c + 1\<rparr>"
  have g: "graph_ok Map.empty ?m" and t: "tasks_ok s" using s by (auto simp: state_ok_def)
  have cd: "?c \<noteq> dependent" using dt fresh(2,3) by (auto simp: IsTaskID_def kInvalidNodeID_def)
  have dc: "deps ?m ?c = []" using fresh(1) by (auto simp: eff_def split: option.split)
  have nc: "?c \<notin> set (deps ?m n)" for n using g fresh(1) unfolding graph_ok_nd by blast
  define s1 where "s1 = (if dependent \<noteq> kInvalidNodeID
      then let s = put_node ?c (addDependent dependent (node_at ?c ?s0)) ?s0
           in put_node dependent (incDependency (node_at dependent s)) s else ?s0)"
  define m1 where "m1 = (if dependent \<noteq> kInvalidNodeID then link ?c dependent ?m else ?m)"
  have m1: "map_of (nodes s1) = m1" by (simp add: s1_def m1_def link_def node_at_nd Let_def)
  have f1: "s1 = ?s0\<lparr>nodes := nodes s1\<rparr>" by (simp add: s1_def put_node_def Let_def)
  have g1: "graph_ok Map.empty m1" using graph_ok_link(1) [OF g, of dependent ?c] g dc by (simp add: m1_def)
  have w1: "waits m1 x \<longleftrightarrow> waits ?m x \<or> x = dependent \<and> dependent \<noteq> kInvalidNodeID" for x
    using graph_ok_link(2) [OF g, of dependent ?c] dc by (auto simp: m1_def)
  have d1: "dom m1 \<subseteq> dom ?m \<union> {n. n \<noteq> kInvalidNodeID \<and> n \<in> {dependent, ?c}}"
    using fresh(3) by (auto simp: m1_def dom_link kInvalidNodeID_def)
  have nc1: "?c \<notin> set (deps m1 dependency)" using nc dc cd dy by (simp add: m1_def deps_link)
  define s2 where "s2 = (if dependency = kInvalidNodeID then s1 else addLinkUnsafe dependency ?c s1)"
  define m2 where "m2 = (if dependency = kInvalidNodeID then m1 else link dependency ?c m1)"
  have m2: "map_of (nodes s2) = m2" using nc1 by (simp add: s2_def m2_def m1 nodes_addLinkUnsafe)
  have f2: "s2 = ?s0\<lparr>nodes := nodes s2\<rparr>"
  proof -
    have "s1\<lparr>nodes := x\<rparr> = ?s0\<lparr>nodes := x\<rparr>" for x by (subst f1) simp
    moreover have "s2 = s1\<lparr>nodes := nodes s2\<rparr>" using addLinkUnsafe_frame [of dependency ?c s1] by (simp add: s2_def)
    ultimately show ?thesis by simp
  qed
  have g2: "graph_ok Map.empty m2" using graph_ok_link(1) [OF g1 nc1] g1 by (simp add: m2_def)
  have w2: "waits m2 x \<longleftrightarrow> waits ?m x \<or> x = dependent \<and> dependent \<noteq> kInvalidNodeID \<or> x = ?c \<and> dependency \<noteq> kInvalidNodeID" for x
    using graph_ok_link(2) [OF g1 nc1] w1 by (auto simp: m2_def)
  have d2: "dom m2 \<subseteq> dom ?m \<union> {n. n \<noteq> kInvalidNodeID \<and> n \<in> {dependent, dependency, ?c}}"
    using d1 fresh(3) by (auto simp: m2_def dom_link kInvalidNodeID_def split: if_splits)
  have nt: "?c \<notin> dom (map_of (tasks s))" using t fresh(1) by (auto simp: tasks_ok_def waits_def)
  define s3 where "s3 = addTaskStore ?t dependency s2"
  have n3: "nodes s3 = nodes s2" by (simp add: s3_def addTaskStore_def addTaskIntoQueue_def sendMessage_def)
  have ts2: "tasks s2 = tasks s" "task_queue s2 = task_queue s" "scheduler_msg_queue s2 = scheduler_msg_queue s"
    by (subst f2, simp)+
  have f3: "s3 = s\<lparr>task_counter := ?c + 1, nodes := nodes s3, tasks := tasks s3,
      task_queue := task_queue s @ (if dependency = kInvalidNodeID then [?t] else []),
      scheduler_msg_queue := scheduler_msg_queue s @ (if dependency = kInvalidNodeID then [kNewTask] else [])\<rparr>"
    using f2 n3 by (cases s; cases s2) (simp add: s3_def addTaskStore_def addTaskIntoQueue_def sendMessage_def push_def)
  have k3: "map_of (tasks s3) = (if dependency = kInvalidNodeID then map_of (tasks s) else (map_of (tasks s))(?c \<mapsto> ?t))"
    using nt by (auto simp: s3_def addTaskStore_def addTaskIntoQueue_def sendMessage_def ts2 update_conv' domIff)
  have "x \<in> dom (map_of (tasks s3)) \<longleftrightarrow> IsTaskID x \<and> waits m2 x" for x
  proof -
    have "x \<in> dom (map_of (tasks s)) \<longleftrightarrow> IsTaskID x \<and> waits ?m x" using t by (simp add: tasks_ok_def)
    then show ?thesis using dt fresh(2) unfolding w2 k3 by (auto simp: IsTaskID_def)
  qed
  moreover have "task_id t' = x" if "map_of (tasks s3) x = Some t'" for x t'
    using that t unfolding k3 by (auto simp: tasks_ok_def split: if_splits)
  ultimately have "state_ok Map.empty s3" using g2 by (simp add: state_ok_def tasks_ok_def n3 m2)
  moreover have "addTask (Task_new b) dependency dependent s = Inr (?c, s3)"
    by (simp add: addTask_def addTaskNodes_def allocateTaskID_def setup_task_def Task_new_def s3_def s2_def s1_def)
  ultimately show ?thesis using f3 k3 d2 w2 n3 m2 by (intro exI [of _ s3]) (simp add: Let_def)
qed

end
