(* ===== verification/SchedulerRun.thy ===== *)
theory SchedulerRun
  imports Scheduler
begin

text \<open>
  Runs of the scheduler with its workers: the calls of the clients and the turns of the threads as
  step relations, the invariant every reachable system has, progress and termination of the turns,
  and the properties of the scheduler.

  A step is what a thread does between two points where another thread can tell the difference.
  \<open>processTaskQueue\<close> is one step although it takes its lock once per task: a task appended in between
  goes to the back of the queue, as one appended before. \<open>addTask\<close> is one step of a client although it
  has two critical sections; what can happen between them is the subject of a property of its own. The
  calls a task makes while a worker runs it are steps before the one that ends it.
\<close>

unbundle bit_operations_syntax

section \<open>The scheduler and its workers\<close>

text \<open>A system is a scheduler with its workers' queues, and the ids of the tasks that were run, in order.\<close>

type_synonym 'b system = "'b Scheduler \<times> NodeID list"

definition held :: "'b Scheduler \<Rightarrow> (WorkerID \<times> 'b WorkerMessage) multiset" where
  "held s = (\<Sum>w<length (workers s). image_mset (Pair w) (mset (workers s ! w)))"

fun completions :: "SchedulerMessage list \<Rightarrow> (WorkerID \<times> NodeID) list" where
  "completions [] = []"
| "completions (kTaskCompletion w t # ms) = (w, t) # completions ms"
| "completions (_ # ms) = completions ms"

fun message_id :: "'b WorkerMessage \<Rightarrow> NodeID" where
  "message_id (WorkerTaskMessage t) = task_id t" | "message_id WorkerJoinMessage = kInvalidNodeID"

text \<open>Every task the scheduler ever took: stored, queued, held by a worker, or run.\<close>

definition ids :: "'b system \<Rightarrow> NodeID multiset" where
  "ids S = (case S of (s, ex) \<Rightarrow> image_mset task_id (mset (task_queue s)) + image_mset (message_id \<circ> snd) (held s)
     + mset ex + mset_set (dom (map_of (tasks s))))"

definition live :: "'b Scheduler \<Rightarrow> NodeID set" where
  "live s = task_id ` set (task_queue s) \<union> (message_id \<circ> snd) ` set_mset (held s) \<union> snd ` set (completions (scheduler_msg_queue s))"

definition workers_ok :: "'b Scheduler \<Rightarrow> bool" where
  "workers_ok s \<longleftrightarrow> 0 < num_workers s \<and> length (workers s) = num_workers s
     \<and> mset (available_workers s) + image_mset fst (held s) + mset (map fst (completions (scheduler_msg_queue s)))
        = mset [0..<num_workers s]
     \<and> (\<forall>x \<in># held s. \<exists>t. snd x = WorkerTaskMessage t)"

definition ids_ok :: "'b system \<Rightarrow> bool" where
  "ids_ok S \<longleftrightarrow> (\<forall>i. count (ids S) i \<le> 1) \<and> task_counter (fst S) \<noteq> 0
     \<and> (\<forall>i \<in># ids S. IsTaskID i \<and> i \<noteq> 0 \<and> i < task_counter (fst S))
     \<and> snd ` set (completions (scheduler_msg_queue (fst S))) \<subseteq> set (snd S)"

definition nodes_ok :: "'b Scheduler \<Rightarrow> bool" where
  "nodes_ok s \<longleftrightarrow> (\<forall>n \<in> dom (map_of (nodes s)). n \<noteq> 0
     \<and> (IsTaskID n \<longrightarrow> n < task_counter s \<and> (waits (map_of (nodes s)) n \<or> n \<in> live s)))"

definition system_ok :: "'b system \<Rightarrow> bool" where
  "system_ok S \<longleftrightarrow> state_ok Map.empty (fst S) \<and> workers_ok (fst S) \<and> ids_ok S \<and> nodes_ok (fst S)"

lemma completions_append [simp]: "completions (xs @ ys) = completions xs @ completions ys"
  by (induction xs rule: completions.induct) auto

lemma completions_new [simp]: "completions (replicate n kNewTask) = []"
  by (induction n) auto

lemma held_update:
  assumes "w < length (workers s)"
  shows "held (s\<lparr>workers := (workers s)[w := q]\<rparr>) + image_mset (Pair w) (mset (workers s ! w))
    = held s + image_mset (Pair w) (mset q)"
proof -
  let ?f = "\<lambda>v. image_mset (Pair v) (mset (workers s ! v))" and ?g = "\<lambda>v. image_mset (Pair v) (mset ((workers s)[w := q] ! v))"
  have w: "w \<in> {..<length (workers s)}" using assms by simp
  have "sum ?g ({..<length (workers s)} - {w}) = sum ?f ({..<length (workers s)} - {w})" by (intro sum.cong) auto
  then show ?thesis using sum.remove [OF _ w, of ?f] sum.remove [OF _ w, of ?g] assms by (simp add: held_def)
qed

lemma released_frame:
  assumes "released ts s s'"
  shows "task_queue s' = task_queue s @ ts" "scheduler_msg_queue s' = scheduler_msg_queue s @ replicate (length ts) kNewTask"
    "workers s' = workers s" "available_workers s' = available_workers s" "num_workers s' = num_workers s"
    "task_counter s' = task_counter s" "held s' = held s"
proof -
  have "s' = s\<lparr>nodes := nodes s', tasks := tasks s', task_queue := task_queue s @ ts,
            scheduler_msg_queue := scheduler_msg_queue s @ replicate (length ts) kNewTask\<rparr>"
    using assms by (simp add: released_def)
  then obtain ns ks where s': "s' = s\<lparr>nodes := ns, tasks := ks, task_queue := task_queue s @ ts,
            scheduler_msg_queue := scheduler_msg_queue s @ replicate (length ts) kNewTask\<rparr>" by blast
  show "task_queue s' = task_queue s @ ts" "scheduler_msg_queue s' = scheduler_msg_queue s @ replicate (length ts) kNewTask"
    "workers s' = workers s" "available_workers s' = available_workers s" "num_workers s' = num_workers s"
    "task_counter s' = task_counter s" "held s' = held s"
    unfolding s' by (simp_all add: held_def)
qed

lemma released_ids:
  assumes "released ts s s'"
  shows "ids (s', ex) = ids (s, ex)"
proof -
  note f = released_frame [OF assms]
  let ?A = "task_id ` set ts" and ?D = "dom (map_of (tasks s))"
  have r: "distinct (map task_id ts)" "?A \<subseteq> ?D" "dom (map_of (tasks s')) = ?D - ?A"
    using assms by (auto simp: released_def list_all_iff)
  have fin: "finite ?D" by (simp add: finite_dom_map_of)
  have "mset_set ?D = mset_set ?A + mset_set (?D - ?A)"
    using r(2) fin by (metis Diff_disjoint Diff_partition finite_subset finite_Diff mset_set_Union)
  moreover have "mset_set ?A = image_mset task_id (mset ts)" using r(1) by (metis mset_map mset_set_set set_map)
  ultimately show ?thesis using r(3) f by (simp add: ids_def)
qed

lemma waits_tasks: "tasks_ok s \<Longrightarrow> IsTaskID n \<Longrightarrow> waits (map_of (nodes s)) n \<longleftrightarrow> n \<in> dom (map_of (tasks s))"
  by (simp add: tasks_ok_def)

text \<open>After the dependents of a node were processed, a task node still waits or is on its way.\<close>

lemma released_nodes:
  assumes r: "released ts s s'" and s: "tasks_ok s" "tasks_ok s'" and n: "n \<in> dom (map_of (nodes s'))" "IsTaskID n"
    and o: "waits (map_of (nodes s)) n \<or> n \<in> L" and L: "L \<subseteq> live s'"
  shows "waits (map_of (nodes s')) n \<or> n \<in> live s'"
proof (cases "waits (map_of (nodes s)) n")
  case True
  then have "n \<in> dom (map_of (tasks s))" using waits_tasks [OF s(1) n(2)] by simp
  moreover have "dom (map_of (tasks s')) = dom (map_of (tasks s)) - task_id ` set ts" using r by (auto simp: released_def)
  ultimately have "n \<in> task_id ` set ts \<or> waits (map_of (nodes s')) n" using waits_tasks [OF s(2) n(2)] by blast
  then show ?thesis using released_frame(1) [OF r] by (auto simp: live_def)
qed (use o L in auto)

section \<open>Steps\<close>

text \<open>
  The calls clients may make: a dependency is a continuation or a task that has not completed, a
  dependent is a continuation or, for a link, a task that still waits, and only a continuation that
  waits for nothing is fired.
\<close>

definition may_precede :: "'b Scheduler \<Rightarrow> NodeID \<Rightarrow> bool" where
  "may_precede s n \<longleftrightarrow> IsContinuation n \<or> n \<in> live s \<or> n \<in> dom (map_of (tasks s))"

inductive call :: "iter \<Rightarrow> 'b system \<Rightarrow> 'b system \<Rightarrow> bool" for it where
  add_task: "addTask (Task_new b) dependency dependent s = Inr (tid, s') \<Longrightarrow> IsTaskID (task_counter s)
    \<Longrightarrow> dependency = kInvalidNodeID \<or> may_precede s dependency
    \<Longrightarrow> dependent = kInvalidNodeID \<or> IsContinuation dependent \<Longrightarrow> call it (s, ex) (s', ex)"
| add_link: "may_precede s a \<Longrightarrow> IsContinuation d \<or> d \<in> dom (map_of (tasks s)) \<Longrightarrow> call it (s, ex) (addLink a d s, ex)"
| allocate: "call it (s, ex) (snd (allocateContinuation s), ex)"
| fire: "fire it entry s = Some (Inr s') \<Longrightarrow> IsContinuation entry \<Longrightarrow> \<not> waits (map_of (nodes s)) entry
    \<Longrightarrow> call it (s, ex) (s', ex)"
| join: "join_send s = Inr s' \<Longrightarrow> call it (s, ex) (s', ex)"

text \<open>The turns of the scheduler's thread and of the workers.\<close>

inductive turn :: "iter \<Rightarrow> 'b system \<Rightarrow> 'b system \<Rightarrow> bool" for it where
  dispatch: "processTaskQueue s = Inr s' \<Longrightarrow> available_workers s \<noteq> [] \<Longrightarrow> task_queue s \<noteq> [] \<Longrightarrow> turn it (s, ex) (s', ex)"
| receive: "popOne (scheduler_msg_queue s) = Some (m, q) \<Longrightarrow>
    handle_message it m (s\<lparr>scheduler_msg_queue := q\<rparr>) = Some (Inr s') \<Longrightarrow> turn it (s, ex) (s', ex)"
| work: "worker_turn w s = Some (Inr (Some t, True, s')) \<Longrightarrow> turn it (s, ex) (s', ex @ [task_id t])"

inductive_cases turnE: "turn it S S'"
inductive_cases callE: "call it S S'"

section \<open>The turns keep the invariant\<close>

lemma held_frame [simp]: "held (s\<lparr>available_workers := a\<rparr>) = held s" "held (s\<lparr>task_queue := q\<rparr>) = held s"
  "held (s\<lparr>scheduler_msg_queue := m\<rparr>) = held s" "held (s\<lparr>nodes := n\<rparr>) = held s" "held (s\<lparr>tasks := k\<rparr>) = held s"
  "held (s\<lparr>halt := h\<rparr>) = held s" "held (s\<lparr>task_counter := c\<rparr>) = held s" "held (s\<lparr>continuation_counter := c\<rparr>) = held s"
  by (simp_all add: held_def)

lemma released_system:
  assumes S: "workers_ok s" "ids_ok (s, ex)" and r: "released ts s s'"
  shows "workers_ok s'" "ids_ok (s', ex)"
  using S released_frame [OF r] released_ids [OF r, of ex] by (simp_all add: workers_ok_def ids_ok_def)

text \<open>One round of \<open>processTaskQueue\<close>.\<close>

definition assigned :: "WorkerID \<Rightarrow> 'b Task \<Rightarrow> WorkerID list \<Rightarrow> 'b Task list \<Rightarrow> 'b Scheduler \<Rightarrow> 'b Scheduler" where
  "assigned w t ws ts s = s\<lparr>available_workers := ws, task_queue := ts, workers := (workers s)[w := workers s ! w @ [WorkerTaskMessage t]]\<rparr>"

lemma held_assigned:
  assumes "w < length (workers s)"
  shows "held (assigned w t ws ts s) = held s + {#(w, WorkerTaskMessage t)#}"
proof -
  have "held (assigned w t ws ts s) = held (s\<lparr>workers := (workers s)[w := workers s ! w @ [WorkerTaskMessage t]]\<rparr>)"
    by (simp add: held_def assigned_def)
  then show ?thesis using held_update [OF assms, of "workers s ! w @ [WorkerTaskMessage t]"] by simp
qed

lemma assigned_ok:
  assumes S: "system_ok (s, ex)" and q: "available_workers s = w # ws" "task_queue s = t # ts"
  shows "system_ok (assigned w t ws ts s, ex)" "ids (assigned w t ws ts s, ex) = ids (s, ex)"
    "sendWorker w (WorkerTaskMessage t) (s\<lparr>available_workers := ws, task_queue := ts\<rparr>) = Inr (assigned w t ws ts s)"
proof -
  let ?s = "assigned w t ws ts s"
  have wo: "workers_ok s" "ids_ok (s, ex)" "nodes_ok s" "state_ok Map.empty s" using S by (auto simp: system_ok_def)
  have "w \<in># mset [0..<num_workers s]" using wo(1) q(1) unfolding workers_ok_def
    by (metis add_mset_add_single list.set_intros(1) set_mset_mset union_iff)
  then have w: "w < length (workers s)" using wo(1) by (simp add: workers_ok_def)
  note h = held_assigned [OF w, of t ws ts]
  have f: "nodes ?s = nodes s" "tasks ?s = tasks s" "scheduler_msg_queue ?s = scheduler_msg_queue s"
    "task_counter ?s = task_counter s" "num_workers ?s = num_workers s" "available_workers ?s = ws" "task_queue ?s = ts"
    "length (workers ?s) = length (workers s)"
    by (simp_all add: assigned_def)
  show i: "ids (?s, ex) = ids (s, ex)" using q(2) by (simp add: ids_def h f)
  have "workers_ok ?s" using wo(1) q(1) by (auto simp: workers_ok_def h f)
  moreover have "ids_ok (?s, ex)" using wo(2) i by (simp add: ids_ok_def f)
  moreover have "live ?s = live s" using q(2) by (auto simp: live_def h f)
  then have "nodes_ok ?s" using wo(3) by (simp add: nodes_ok_def f)
  moreover have "state_ok Map.empty ?s" using wo(4) by (simp add: state_ok_def tasks_ok_def f)
  ultimately show "system_ok (?s, ex)" by (simp add: system_ok_def)
  show "sendWorker w (WorkerTaskMessage t) (s\<lparr>available_workers := ws, task_queue := ts\<rparr>) = Inr ?s"
    using w by (simp add: sendWorker_def fetch_def push_def assigned_def)
qed

declare processTaskQueue.simps [simp del]

lemma processTaskQueue_ok:
  assumes "system_ok (s, ex)"
  shows "\<exists>s'. processTaskQueue s = Inr s' \<and> system_ok (s', ex) \<and> ids (s', ex) = ids (s, ex)
    \<and> (available_workers s' = [] \<or> task_queue s' = [])
    \<and> length (task_queue s) = length (task_queue s') + (size (held s') - size (held s)) \<and> size (held s) \<le> size (held s')
    \<and> scheduler_msg_queue s' = scheduler_msg_queue s \<and> tasks s' = tasks s"
  using assms
proof (induction s rule: processTaskQueue.induct)
  case (1 s)
  show ?case
  proof (cases "available_workers s = [] \<or> task_queue s = []")
    case True
    then have "processTaskQueue s = Inr s" by (subst processTaskQueue.simps) (auto split: list.split)
    then show ?thesis using 1(2) True by simp
  next
    case False
    then obtain w ws t ts where q: "available_workers s = w # ws" "task_queue s = t # ts" by (meson list.exhaust)
    note a = assigned_ok [OF 1(2) q]
    let ?s = "assigned w t ws ts s"
    have eq: "processTaskQueue s = processTaskQueue ?s" using q a(3) by (subst processTaskQueue.simps) simp
    have w: "w < length (workers s)"
      using a(3) by (auto simp: sendWorker_def fetch_def split: if_splits)
    have sz: "size (held ?s) = size (held s) + 1" using held_assigned [OF w] by simp
    from 1(1) [OF q a(3) a(1)] obtain s' where "processTaskQueue ?s = Inr s'" "system_ok (s', ex)" "ids (s', ex) = ids (?s, ex)"
      "available_workers s' = [] \<or> task_queue s' = []"
      "length (task_queue ?s) = length (task_queue s') + (size (held s') - size (held ?s))" "size (held ?s) \<le> size (held s')"
      "scheduler_msg_queue s' = scheduler_msg_queue ?s" "tasks s' = tasks ?s" by blast
    then show ?thesis using eq a(2) sz q by (intro exI [of _ s']) (auto simp: assigned_def)
  qed
qed

lemma not_waiting:
  assumes S: "state_ok Map.empty s" "ids_ok (s, ex)" and i: "i \<in> set ex"
  shows "\<not> waits (map_of (nodes s)) i"
proof
  assume w: "waits (map_of (nodes s)) i"
  have "i \<in># ids (s, ex)" using i by (simp add: ids_def)
  then have "IsTaskID i" using S(2) by (auto simp: ids_ok_def)
  then have "i \<in> dom (map_of (tasks s))" using w S(1) by (simp add: state_ok_def tasks_ok_def)
  then have "1 \<le> count (mset_set (dom (map_of (tasks s)))) i" by (simp add: finite_dom_map_of)
  moreover have "1 \<le> count (mset ex) i" using i by (metis One_nat_def Suc_leI count_greater_zero_iff set_mset_mset)
  moreover have "count (ids (s, ex)) i \<le> 1" using S(2) unfolding ids_ok_def by blast
  ultimately show False by (simp add: ids_def)
qed

lemma system_ok_halt: "system_ok (s\<lparr>halt := h\<rparr>, ex) \<longleftrightarrow> system_ok (s, ex)"
proof -
  have "ids (s\<lparr>halt := h\<rparr>, ex) = ids (s, ex)" "live (s\<lparr>halt := h\<rparr>) = live s" by (simp_all add: ids_def live_def)
  then show ?thesis by (simp add: system_ok_def state_ok_def tasks_ok_def workers_ok_def ids_ok_def nodes_ok_def)
qed

lemma receive_ok:
  assumes it: "iter_ok it" and S: "system_ok (s, ex)" and m: "scheduler_msg_queue s = m # q"
  shows "\<exists>s' ts. handle_message it m (s\<lparr>scheduler_msg_queue := q\<rparr>) = Some (Inr s') \<and> system_ok (s', ex)
    \<and> ids (s', ex) = ids (s, ex) \<and> task_queue s' = task_queue s @ ts \<and> held s' = held s
    \<and> scheduler_msg_queue s' = q @ replicate (length ts) kNewTask
    \<and> card (dom (map_of (tasks s))) = card (dom (map_of (tasks s'))) + length ts"
proof -
  let ?s = "s\<lparr>scheduler_msg_queue := q\<rparr>"
  have S': "state_ok Map.empty s" "workers_ok s" "ids_ok (s, ex)" "nodes_ok s" using S by (auto simp: system_ok_def)
  have so: "state_ok Map.empty ?s" using S'(1) by (simp add: state_ok_def tasks_ok_def)
  have ie: "ids (?s, ex) = ids (s, ex)" by (simp add: ids_def)
  have ids0: "ids_ok (?s, ex)" using S'(3) m ie by (cases m) (auto simp: ids_ok_def)
  show ?thesis
  proof (cases "\<exists>w tid. m = kTaskCompletion w tid")
    case False
    have w0: "workers_ok ?s" using S'(2) m False by (cases m) (auto simp: workers_ok_def)
    have "live ?s = live s" using m False by (cases m) (auto simp: live_def)
    then have n0: "nodes_ok ?s" using S'(4) by (simp add: nodes_ok_def)
    have "system_ok (?s, ex)" using so w0 ids0 n0 by (simp add: system_ok_def)
    then have "system_ok (?s, ex)" "system_ok (?s\<lparr>halt := True\<rparr>, ex)" using system_ok_halt [where s = ?s and h = True] by blast+
    then show ?thesis using False ie by (cases m) (auto simp: handle_message_def ids_def intro!: exI [of _ "[]"])
  next
    case True
    then obtain w tid where me: "m = kTaskCompletion w tid" by blast
    have "tid \<in> set ex" using S'(3) m me by (auto simp: ids_ok_def)
    then have "\<not> waits (map_of (nodes ?s)) tid" using not_waiting [OF so ids0] by simp
    from processDependents_ok [OF it so this] obtain s1 ts where
      p: "processDependents it tid ?s = Some (Inr s1)" "state_ok Map.empty s1" "released ts ?s s1" "map_of (nodes s1) tid = None"
      by blast
    let ?t = "s1\<lparr>available_workers := w # available_workers s1\<rparr>"
    note f = released_frame [OF p(3)]
    have c: "completions (scheduler_msg_queue s) = (w, tid) # completions q" using m me by simp
    have "workers_ok ?t" using S'(2) f by (simp add: workers_ok_def c)
    moreover have i1: "ids (?t, ex) = ids (s, ex)" using released_ids [OF p(3), of ex] ie by (simp add: ids_def)
    then have "ids_ok (?t, ex)" using ids0 ie f by (simp add: ids_ok_def)
    moreover have "nodes_ok ?t"
      unfolding nodes_ok_def
    proof (intro ballI conjI impI)
      fix n assume n: "n \<in> dom (map_of (nodes ?t))"
      then have n1: "n \<in> dom (map_of (nodes s1))" by simp
      then have n0: "n \<in> dom (map_of (nodes s))" "n \<noteq> tid" using released_dom [OF p(3)] p(4) by auto
      then show "n \<noteq> 0" using S'(4) by (simp add: nodes_ok_def)
      assume ti: "IsTaskID n"
      have o: "n < task_counter s" "waits (map_of (nodes s)) n \<or> n \<in> live s" using S'(4) n0(1) ti by (auto simp: nodes_ok_def)
      then show "n < task_counter ?t" using f(6) by simp
      have "live s - {tid} \<subseteq> live s1" using f by (auto simp: live_def c)
      moreover have "waits (map_of (nodes ?s)) n \<or> n \<in> live s - {tid}" using o(2) n0(2) by auto
      ultimately have "waits (map_of (nodes s1)) n \<or> n \<in> live s1"
        using released_nodes [OF p(3) _ _ n1 ti, of "live s - {tid}"] so p(2) unfolding state_ok_def by blast
      then show "waits (map_of (nodes ?t)) n \<or> n \<in> live ?t" by (simp add: live_def)
    qed
    moreover have "state_ok Map.empty ?t" using p(2) by (simp add: state_ok_def tasks_ok_def)
    ultimately have "system_ok (?t, ex)" by (simp add: system_ok_def)
    moreover have "card (dom (map_of (tasks s))) = card (dom (map_of (tasks s1))) + length ts"
    proof -
      have "size (ids (s1, ex)) = size (ids (?s, ex))" using released_ids [OF p(3)] by simp
      then show ?thesis using f by (simp add: ids_def)
    qed
    ultimately show ?thesis using me p(1) i1 f by (auto simp: handle_message_def)
  qed
qed

lemma work_ok:
  assumes S: "system_ok (s, ex)" and w: "w < length (workers s)" "workers s ! w = m # q"
  shows "\<exists>t s'. m = WorkerTaskMessage t \<and> worker_turn w s = Some (Inr (Some t, True, s')) \<and> system_ok (s', ex @ [task_id t])
    \<and> ids (s', ex @ [task_id t]) = ids (s, ex) \<and> task_queue s' = task_queue s \<and> tasks s' = tasks s
    \<and> size (held s) = size (held s') + 1
    \<and> scheduler_msg_queue s' = scheduler_msg_queue s @ [kTaskCompletion w (task_id t)]"
proof -
  have S': "state_ok Map.empty s" "workers_ok s" "ids_ok (s, ex)" "nodes_ok s" using S by (auto simp: system_ok_def)
  let ?s = "s\<lparr>workers := (workers s)[w := q]\<rparr>"
  have h: "held s = held ?s + {#(w, m)#}" using held_update [OF w(1), of q] w(2) by simp
  then have "(w, m) \<in># held s" by simp
  then obtain t where t: "m = WorkerTaskMessage t" using S'(2) by (fastforce simp: workers_ok_def)
  let ?t = "sendMessage (kTaskCompletion w (task_id t)) ?s"
  have "task_id t \<in># ids (s, ex)" using t by (simp add: ids_def h)
  then have "task_id t \<noteq> 0" using S'(3) unfolding ids_ok_def fst_conv by blast
  then have eq: "worker_turn w s = Some (Inr (Some t, True, ?t))" using w t by (simp add: worker_turn_def popOne_def getID_def kInvalidNodeID_def)
  have f: "scheduler_msg_queue ?t = scheduler_msg_queue s @ [kTaskCompletion w (task_id t)]" "held ?t = held ?s"
    "task_queue ?t = task_queue s" "tasks ?t = tasks s" "nodes ?t = nodes s" "available_workers ?t = available_workers s"
    "num_workers ?t = num_workers s" "length (workers ?t) = length (workers s)" "task_counter ?t = task_counter s"
    by (simp_all add: sendMessage_def push_def)
  have i: "ids (?t, ex @ [task_id t]) = ids (s, ex)" using t by (simp add: ids_def f h)
  have "workers_ok ?t" using S'(2) by (auto simp: workers_ok_def f h)
  moreover have "ids_ok (?t, ex @ [task_id t])" using S'(3) i by (auto simp: ids_ok_def f)
  moreover have "live ?t = live s" using t by (auto simp: live_def f h)
  then have "nodes_ok ?t" using S'(4) by (simp add: nodes_ok_def f)
  moreover have "state_ok Map.empty ?t" using S'(1) by (simp add: state_ok_def tasks_ok_def f)
  ultimately show ?thesis using t eq i f h by (auto simp: system_ok_def)
qed

section \<open>The calls keep the invariant\<close>

lemma IsTaskID_less: "IsTaskID n \<longleftrightarrow> unat n < 2 ^ 63"
proof -
  have k: "bit kContinuationMask k \<longleftrightarrow> k = 63" for k
    unfolding kContinuationMask_def bit_push_bit_iff bit_1_iff by auto
  have "n AND kContinuationMask \<noteq> 0 \<longleftrightarrow> bit n 63"
    unfolding bit_eq_iff [of "n AND kContinuationMask" 0] by (auto simp: bit_and_iff k)
  moreover have "bit n 63 \<longleftrightarrow> 2 ^ 63 \<le> unat n"
  proof -
    have "unat n < 2 ^ 64" using unsigned_less [of n, where ?'a = nat] by simp
    then have d: "unat n div 2 ^ 63 < 2" by (simp add: less_mult_imp_div_less)
    have "bit n 63 \<longleftrightarrow> bit (unat n) 63" by (simp add: bit_unsigned_iff)
    also have "\<dots> \<longleftrightarrow> odd (unat n div 2 ^ 63)" by (rule bit_iff_odd)
    also have "\<dots> \<longleftrightarrow> 1 \<le> unat n div 2 ^ 63" using d by (metis One_nat_def less_2_cases_iff even_zero odd_one le_refl not_one_le_zero)
    also have "\<dots> \<longleftrightarrow> 2 ^ 63 \<le> unat n" by (simp add: Suc_le_eq div_greater_zero_iff)
    finally show ?thesis .
  qed
  ultimately show ?thesis by (auto simp: IsTaskID_def IsContinuation_def)
qed

lemma counter_step:
  assumes "IsTaskID c"
  shows "c < c + 1" "c + 1 \<noteq> 0"
proof -
  have "unat (c + 1) = unat c + 1" using assms by (simp add: IsTaskID_less unat_word_ariths)
  then show "c < c + 1" "c + 1 \<noteq> 0" by (auto simp: word_less_nat_alt)
qed

lemma fire_ok:
  assumes it: "iter_ok it" and S: "system_ok (s, ex)" and f: "fire it entry s = Some (Inr s')" "\<not> waits (map_of (nodes s)) entry"
  shows "system_ok (s', ex)"
proof -
  have S': "state_ok Map.empty s" "workers_ok s" "ids_ok (s, ex)" "nodes_ok s" using S by (auto simp: system_ok_def)
  obtain ts where p: "state_ok Map.empty s'" "released ts s s'"
    using processDependents_ok [OF it S'(1) f(2)] f(1) by (auto simp: fire_def)
  note fr = released_frame [OF p(2)]
  have L: "live s \<subseteq> live s'" using fr by (auto simp: live_def)
  have "nodes_ok s'"
    unfolding nodes_ok_def
  proof (intro ballI conjI impI)
    fix n assume n: "n \<in> dom (map_of (nodes s'))"
    then have n0: "n \<in> dom (map_of (nodes s))" using released_dom [OF p(2)] by auto
    then show "n \<noteq> 0" using S'(4) by (simp add: nodes_ok_def)
    assume ti: "IsTaskID n"
    have o: "n < task_counter s" "waits (map_of (nodes s)) n \<or> n \<in> live s" using S'(4) n0 ti by (auto simp: nodes_ok_def)
    then show "n < task_counter s'" using fr(6) by simp
    show "waits (map_of (nodes s')) n \<or> n \<in> live s'"
      using released_nodes [OF p(2) _ _ n ti o(2) L] S'(1) p(1) by (simp add: state_ok_def)
  qed
  then show ?thesis using p released_system [OF S'(2,3) p(2)] by (simp add: system_ok_def)
qed

lemma add_link_ok:
  assumes S: "system_ok (s, ex)" and a: "may_precede s a" and d: "IsContinuation d \<or> d \<in> dom (map_of (tasks s))"
  shows "system_ok (addLink a d s, ex)"
proof -
  have S': "state_ok Map.empty s" "workers_ok s" "ids_ok (s, ex)" "nodes_ok s" using S by (auto simp: system_ok_def)
  let ?s = "addLink a d s"
  note l = addLink_ok [OF S'(1) d]
  have f: "?s = s\<lparr>nodes := nodes ?s\<rparr>" using addLinkUnsafe_frame [of a d s] by (simp add: addLink_def)
  then obtain ns where ns: "?s = s\<lparr>nodes := ns\<rparr>" by blast
  have lv: "live ?s = live s" "tasks ?s = tasks s" "task_counter ?s = task_counter s" unfolding ns by (simp_all add: live_def)
  have i: "ids (?s, ex) = ids (s, ex)" unfolding ns by (simp add: ids_def)
  have t: "tasks_ok s" using S'(1) by (simp add: state_ok_def)
  have idl: "x < task_counter s \<and> x \<noteq> 0" if "x \<in> live s \<or> x \<in> dom (map_of (tasks s))" for x
  proof -
    have "x \<in># ids (s, ex)" using that S'(3) by (fastforce simp: ids_def live_def finite_dom_map_of ids_ok_def)
    then show ?thesis using S'(3) by (simp add: ids_ok_def)
  qed
  have c0: "\<not> IsContinuation 0" by (simp add: IsContinuation_def)
  have "nodes_ok ?s"
    unfolding nodes_ok_def lv
  proof (intro ballI conjI impI)
    fix n assume n: "n \<in> dom (map_of (nodes ?s))"
    then consider "n \<in> dom (map_of (nodes s))" | "n = a" | "n = d" using l(3) [of a] by blast
    then show "n \<noteq> 0" using S'(4) a d idl c0 by cases (auto simp: nodes_ok_def may_precede_def)
    assume ti: "IsTaskID n"
    have "n \<in> dom (map_of (nodes s)) \<or> n \<in> live s \<or> n \<in> dom (map_of (tasks s))"
      using n l(3) [of a] a d ti by (auto simp: may_precede_def IsTaskID_def)
    then show "n < task_counter s" using S'(4) idl ti by (auto simp: nodes_ok_def)
    have "waits (map_of (nodes s)) n \<or> n \<in> live s"
      using \<open>n \<in> dom (map_of (nodes s)) \<or> n \<in> live s \<or> n \<in> dom (map_of (tasks s))\<close> S'(4) ti waits_tasks [OF t ti] by (auto simp: nodes_ok_def)
    then show "waits (map_of (nodes ?s)) n \<or> n \<in> live s" using l(2) [of a n] by blast
  qed
  moreover have "workers_ok ?s" using S'(2) unfolding ns by (simp add: workers_ok_def)
  moreover have "ids_ok (?s, ex)" using S'(3) i unfolding ns by (simp add: ids_ok_def)
  ultimately show ?thesis using l(1) by (simp add: system_ok_def)
qed

lemma fresh_id: "ids_ok (s, ex) \<Longrightarrow> task_counter s \<notin># ids (s, ex)"
  by (auto simp: ids_ok_def)

lemma add_task_ok:
  assumes S: "system_ok (s, ex)" and c: "IsTaskID (task_counter s)"
    and dy: "dependency = kInvalidNodeID \<or> may_precede s dependency" and dt: "dependent = kInvalidNodeID \<or> IsContinuation dependent"
  shows "\<exists>s'. addTask (Task_new b) dependency dependent s = Inr (task_counter s, s') \<and> system_ok (s', ex)
    \<and> ids (s', ex) = ids (s, ex) + {#task_counter s#}"
proof -
  have S': "state_ok Map.empty s" "workers_ok s" "ids_ok (s, ex)" "nodes_ok s" using S by (auto simp: system_ok_def)
  let ?c = "task_counter s"
  have t: "tasks_ok s" using S'(1) by (simp add: state_ok_def)
  have idl: "x < ?c \<and> x \<noteq> 0" if "x \<in> live s \<or> x \<in> dom (map_of (tasks s))" for x
  proof -
    have "x \<in># ids (s, ex)" using that S'(3) by (fastforce simp: ids_def live_def finite_dom_map_of ids_ok_def)
    then show ?thesis using S'(3) by (simp add: ids_ok_def)
  qed
  have c1: "?c \<notin> dom (map_of (nodes s))" using S'(4) c by (auto simp: nodes_ok_def)
  have c2: "?c \<noteq> 0" using S'(3) by (simp add: ids_ok_def)
  have c3: "dependency \<noteq> ?c" using dy c c2 idl by (auto simp: may_precede_def IsTaskID_def kInvalidNodeID_def)
  from addTask_ok [OF S'(1) c1 c c2 c3 dt, of b] obtain s' where
    s': "addTask (Task_new b) dependency dependent s = Inr (?c, s')" "state_ok Map.empty s'"
    "s' = s\<lparr>task_counter := ?c + 1, nodes := nodes s', tasks := tasks s',
          task_queue := task_queue s @ (if dependency = kInvalidNodeID then [\<lparr>task_id = ?c, continuation = dependent, has_scheduler = True, body = b\<rparr>] else []),
          scheduler_msg_queue := scheduler_msg_queue s @ (if dependency = kInvalidNodeID then [kNewTask] else [])\<rparr>"
    "map_of (tasks s') = (if dependency = kInvalidNodeID then map_of (tasks s)
        else (map_of (tasks s))(?c \<mapsto> \<lparr>task_id = ?c, continuation = dependent, has_scheduler = True, body = b\<rparr>))"
    "dom (map_of (nodes s')) \<subseteq> dom (map_of (nodes s)) \<union> {n. n \<noteq> kInvalidNodeID \<and> n \<in> {dependent, dependency, ?c}}"
    "\<And>x. waits (map_of (nodes s')) x \<longleftrightarrow> waits (map_of (nodes s)) x
        \<or> x = dependent \<and> dependent \<noteq> kInvalidNodeID \<or> x = ?c \<and> dependency \<noteq> kInvalidNodeID"
    by (auto simp: Let_def)
  obtain ns ks where e: "s' = s\<lparr>task_counter := ?c + 1, nodes := ns, tasks := ks,
          task_queue := task_queue s @ (if dependency = kInvalidNodeID then [\<lparr>task_id = ?c, continuation = dependent, has_scheduler = True, body = b\<rparr>] else []),
          scheduler_msg_queue := scheduler_msg_queue s @ (if dependency = kInvalidNodeID then [kNewTask] else [])\<rparr>"
    using s'(3) by blast
  have f: "task_counter s' = ?c + 1" "held s' = held s" "workers s' = workers s" "num_workers s' = num_workers s"
    "available_workers s' = available_workers s" "completions (scheduler_msg_queue s') = completions (scheduler_msg_queue s)"
    "image_mset task_id (mset (task_queue s')) = image_mset task_id (mset (task_queue s)) + (if dependency = kInvalidNodeID then {#?c#} else {#})"
    unfolding e by simp_all
  have nt: "?c \<notin> dom (map_of (tasks s))" using idl by blast
  have i: "ids (s', ex) = ids (s, ex) + {#?c#}"
    using nt by (simp add: ids_def f s'(4) finite_dom_map_of)
  have "ids_ok (s', ex)"
  proof -
    have "count (ids (s', ex)) x \<le> 1" for x
      using S'(3) fresh_id [OF S'(3)] unfolding i ids_ok_def by (cases "x = ?c") (auto simp: not_in_iff)
    moreover have "IsTaskID x \<and> x \<noteq> 0 \<and> x < ?c + 1" if "x \<in># ids (s', ex)" for x
      using that S'(3) c c2 counter_step(1) [OF c] unfolding i ids_ok_def by (auto intro: less_trans)
    ultimately show ?thesis using S'(3) counter_step(2) [OF c] by (simp add: ids_ok_def f)
  qed
  moreover have "workers_ok s'" using S'(2) by (simp add: workers_ok_def f)
  moreover have "nodes_ok s'"
    unfolding nodes_ok_def
  proof (intro ballI conjI impI)
    have lv: "live s \<subseteq> live s'" unfolding live_def f(2,6) unfolding e by auto
    have lc: "dependency = kInvalidNodeID \<Longrightarrow> ?c \<in> live s'" unfolding live_def e by auto
    fix n assume n: "n \<in> dom (map_of (nodes s'))"
    then have n': "n \<in> dom (map_of (nodes s)) \<or> n \<noteq> 0 \<and> n \<in> {dependent, dependency, ?c}" using s'(5) by (auto simp: kInvalidNodeID_def)
    then show "n \<noteq> 0" using S'(4) by (auto simp: nodes_ok_def)
    assume ti: "IsTaskID n"
    have n'': "n \<in> dom (map_of (nodes s)) \<or> n \<in> live s \<or> n \<in> dom (map_of (tasks s)) \<or> n = ?c"
      using n' dy dt ti by (auto simp: may_precede_def IsTaskID_def kInvalidNodeID_def)
    then have "n < ?c \<or> n = ?c" using S'(4) idl ti by (auto simp: nodes_ok_def)
    then show "n < task_counter s'" using counter_step(1) [OF c] f(1) by (auto intro: less_trans)
    show "waits (map_of (nodes s')) n \<or> n \<in> live s'"
      using n'' S'(4) ti waits_tasks [OF t ti] lv lc s'(6) [of n] by (auto simp: nodes_ok_def)
  qed
  ultimately show ?thesis using s'(1,2) i by (auto simp: system_ok_def)
qed

lemma call_ok:
  assumes "call it S S'" "iter_ok it" "system_ok S"
  shows "system_ok S'"
  using assms
proof (cases rule: call.cases)
  case (add_task b dependency dependent s tid s' ex)
  then show ?thesis using add_task_ok [of s ex dependency dependent b] assms(3) by auto
next
  case (add_link s a d ex)
  then show ?thesis using add_link_ok assms(3) by blast
next
  case (allocate s ex)
  have "ids (s\<lparr>continuation_counter := c\<rparr>, ex) = ids (s, ex)" "live (s\<lparr>continuation_counter := c\<rparr>) = live s" for c
    by (simp_all add: ids_def live_def)
  then show ?thesis using allocate assms(3)
    by (simp add: allocateContinuation_def system_ok_def state_ok_def tasks_ok_def workers_ok_def ids_ok_def nodes_ok_def)
next
  case (fire entry s s' ex)
  then show ?thesis using fire_ok assms(2,3) by blast
next
  case (join s s' ex)
  then have s': "s' = s\<lparr>scheduler_msg_queue := scheduler_msg_queue s @ [kJoin]\<rparr>"
    by (auto simp: join_send_def sendMessage_def push_def split: if_splits)
  have "ids (s', ex) = ids (s, ex)" "live s' = live s" by (simp_all add: s' ids_def live_def)
  then show ?thesis using join(1,2) assms(3)
    by (simp add: s' system_ok_def state_ok_def tasks_ok_def workers_ok_def ids_ok_def nodes_ok_def)
qed

section \<open>Progress\<close>

definition potential :: "'b system \<Rightarrow> nat" where
  "potential S = 5 * card (dom (map_of (tasks (fst S)))) + 3 * length (task_queue (fst S)) + 2 * size (held (fst S))
     + length (scheduler_msg_queue (fst S))"

definition quiescent :: "'b system \<Rightarrow> bool" where
  "quiescent S \<longleftrightarrow> task_queue (fst S) = [] \<and> held (fst S) = {#} \<and> scheduler_msg_queue (fst S) = []"

lemma turn_ok:
  assumes "turn it S S'" "iter_ok it" "system_ok S"
  shows "system_ok S' \<and> ids S' = ids S \<and> potential S' < potential S"
  using assms(1)
proof (cases rule: turn.cases)
  case (dispatch s s' ex)
  obtain w ws t ts where q: "available_workers s = w # ws" "task_queue s = t # ts" using dispatch(4,5) by (meson list.exhaust)
  have S: "system_ok (s, ex)" using assms(3) dispatch(1) by simp
  note a = assigned_ok [OF S q]
  let ?s = "assigned w t ws ts s"
  have eq: "processTaskQueue s = processTaskQueue ?s" using q a(3) by (subst processTaskQueue.simps) simp
  have w: "w < length (workers s)" using a(3) by (auto simp: sendWorker_def fetch_def split: if_splits)
  have sz: "size (held ?s) = size (held s) + 1" using held_assigned [OF w] by simp
  have s': "system_ok (s', ex)" "ids (s', ex) = ids (?s, ex)"
    "length (task_queue ?s) = length (task_queue s') + (size (held s') - size (held ?s))" "size (held ?s) \<le> size (held s')"
    "scheduler_msg_queue s' = scheduler_msg_queue ?s" "tasks s' = tasks ?s"
    using processTaskQueue_ok [OF a(1)] eq dispatch(3) by auto
  have f: "task_queue ?s = ts" "scheduler_msg_queue ?s = scheduler_msg_queue s" "tasks ?s = tasks s" by (simp_all add: assigned_def)
  show ?thesis using s' a(2) sz f q(2) dispatch(1,2) by (auto simp: potential_def)
next
  case (receive s m q s' ex)
  have m: "scheduler_msg_queue s = m # q" using receive(3) by (auto simp: popOne_def split: list.splits)
  have S: "system_ok (s, ex)" using assms(3) receive(1) by simp
  obtain s'' ts where r: "handle_message it m (s\<lparr>scheduler_msg_queue := q\<rparr>) = Some (Inr s'')" "system_ok (s'', ex)"
    "ids (s'', ex) = ids (s, ex)" "task_queue s'' = task_queue s @ ts" "held s'' = held s"
    "scheduler_msg_queue s'' = q @ replicate (length ts) kNewTask"
    "card (dom (map_of (tasks s))) = card (dom (map_of (tasks s''))) + length ts"
    using receive_ok [OF assms(2) S m] by blast
  have "s'' = s'" using r(1) receive(4) by simp
  then show ?thesis using r(2-7) m receive(1,2) by (auto simp: potential_def)
next
  case (work w s t s' ex)
  have S: "system_ok (s, ex)" using assms(3) work(1) by simp
  have w: "w < length (workers s)" using work(3) by (auto simp: worker_turn_def split: if_splits)
  obtain m q where mq: "workers s ! w = m # q" using work(3) w by (cases "workers s ! w") (auto simp: worker_turn_def popOne_def)
  obtain t' s'' where r: "worker_turn w s = Some (Inr (Some t', True, s''))" "system_ok (s'', ex @ [task_id t'])"
    "ids (s'', ex @ [task_id t']) = ids (s, ex)" "task_queue s'' = task_queue s" "tasks s'' = tasks s"
    "size (held s) = size (held s'') + 1" "scheduler_msg_queue s'' = scheduler_msg_queue s @ [kTaskCompletion w (task_id t')]"
    using work_ok [OF S w mq] by blast
  have "t' = t" "s'' = s'" using r(1) work(3) by auto
  then show ?thesis using r(2-7) work(1,2) by (auto simp: potential_def)
qed

lemma mem_sum_mset: "x \<in># (\<Sum>i<n. f i) \<longleftrightarrow> (\<exists>i<n. x \<in># f i)" for n :: nat
  by (induction n) (auto simp: less_Suc_eq)

lemma held_memD: "(w, m) \<in># held s \<Longrightarrow> w < length (workers s) \<and> m \<in> set (workers s ! w)"
  unfolding held_def mem_sum_mset by auto

lemma progress:
  assumes it: "iter_ok it" and S: "system_ok S" and q: "\<not> quiescent S"
  shows "\<exists>S'. turn it S S'"
proof -
  obtain s ex where Se: "S = (s, ex)" by (cases S)
  have S': "system_ok (s, ex)" using S Se by simp
  have wo: "workers_ok s" using S' by (simp add: system_ok_def)
  consider "scheduler_msg_queue s \<noteq> []" | "held s \<noteq> {#}" | "scheduler_msg_queue s = []" "held s = {#}" "task_queue s \<noteq> []"
    using q by (auto simp: quiescent_def Se)
  then show ?thesis
  proof cases
    case 1
    then obtain m ms where m: "scheduler_msg_queue s = m # ms" by (meson list.exhaust)
    obtain s' where "handle_message it m (s\<lparr>scheduler_msg_queue := ms\<rparr>) = Some (Inr s')" using receive_ok [OF it S' m] by blast
    then show ?thesis unfolding Se using turn.receive [of s m ms it s' ex] m by (auto simp: popOne_def)
  next
    case 2
    then obtain w m where "(w, m) \<in># held s" by (metis multiset_nonemptyE surj_pair)
    then have w: "w < length (workers s)" "m \<in> set (workers s ! w)" using held_memD by fastforce+
    then obtain m' ms where mq: "workers s ! w = m' # ms" by (cases "workers s ! w") auto
    obtain t s' where "worker_turn w s = Some (Inr (Some t, True, s'))" using work_ok [OF S' w(1) mq] by blast
    then show ?thesis unfolding Se using turn.work by blast
  next
    case 3
    then have "mset (available_workers s) = mset [0..<num_workers s]" "0 < num_workers s" using wo by (simp_all add: workers_ok_def)
    then have "length (available_workers s) = num_workers s" by (metis diff_zero length_upt size_mset)
    then have "available_workers s \<noteq> []" using \<open>0 < num_workers s\<close> by auto
    moreover obtain s' where "processTaskQueue s = Inr s'" using processTaskQueue_ok [OF S'] by blast
    ultimately show ?thesis unfolding Se using turn.dispatch 3(3) by blast
  qed
qed

text \<open>A system whose steps keep an invariant and take a measure down, and which only stops when it is done.\<close>

locale progress_system =
  fixes step :: "'s \<Rightarrow> 's \<Rightarrow> bool" and inv :: "'s \<Rightarrow> bool" and measure_of :: "'s \<Rightarrow> nat" and finished :: "'s \<Rightarrow> bool"
  assumes inv_step: "inv S \<Longrightarrow> step S S' \<Longrightarrow> inv S'"
    and measure_step: "inv S \<Longrightarrow> step S S' \<Longrightarrow> measure_of S' < measure_of S"
    and progress_step: "inv S \<Longrightarrow> \<not> finished S \<Longrightarrow> \<exists>S'. step S S'"
begin

lemma bounded_run: "(step ^^ n) S S' \<Longrightarrow> inv S \<Longrightarrow> inv S' \<and> measure_of S' + n \<le> measure_of S"
proof (induction n arbitrary: S')
  case (Suc n)
  then obtain T where T: "(step ^^ n) S T" "step T S'" by auto
  then have "inv T \<and> measure_of T + n \<le> measure_of S" using Suc by blast
  then show ?case using inv_step [OF _ T(2)] measure_step [OF _ T(2)] by auto
qed simp

lemma reaches_finished: "inv S \<Longrightarrow> \<exists>S'. step\<^sup>*\<^sup>* S S' \<and> finished S'"
proof (induction "measure_of S" arbitrary: S rule: less_induct)
  case less
  show ?case
  proof (cases "finished S")
    case False
    then obtain T where T: "step S T" using progress_step [OF less.prems] by blast
    then show ?thesis using less.hyps [of T] inv_step [OF less.prems T] measure_step [OF less.prems T]
      by (meson converse_rtranclp_into_rtranclp)
  qed blast
qed

end

interpretation run: progress_system "turn it" "\<lambda>S. iter_ok it \<and> system_ok S" potential quiescent
  using turn_ok progress by unfold_locales blast+

text \<open>What is left when nothing moves any more.\<close>

definition edges :: "graph \<Rightarrow> (NodeID \<times> NodeID) set" where
  "edges m = {(a, d). a \<in> dom m \<and> d \<in> set (deps m a)}"

lemma quiescent_done:
  assumes S: "system_ok (s, ex)" and q: "quiescent (s, ex)"
  shows "ids (s, ex) = mset ex + mset_set (dom (map_of (tasks s)))"
    "mset (available_workers s) = mset [0..<num_workers s]"
    "acyclic (edges (map_of (nodes s))) \<Longrightarrow> (\<And>c. c \<in> dom (map_of (nodes s)) \<Longrightarrow> IsContinuation c \<Longrightarrow> waits (map_of (nodes s)) c)
      \<Longrightarrow> tasks s = []"
proof -
  show "ids (s, ex) = mset ex + mset_set (dom (map_of (tasks s)))" using q by (simp add: ids_def quiescent_def)
  show "mset (available_workers s) = mset [0..<num_workers s]" using S q by (simp add: system_ok_def workers_ok_def quiescent_def)
  assume ac: "acyclic (edges (map_of (nodes s)))"
    and c: "\<And>c. c \<in> dom (map_of (nodes s)) \<Longrightarrow> IsContinuation c \<Longrightarrow> waits (map_of (nodes s)) c"
  let ?m = "map_of (nodes s)"
  have g: "graph_ok Map.empty ?m" "tasks_ok s" "nodes_ok s" using S by (auto simp: system_ok_def state_ok_def)
  have "live s = {}" using q by (simp add: live_def quiescent_def)
  then have w: "waits ?m n" if "n \<in> dom ?m" for n using that c g(3) by (auto simp: nodes_ok_def IsTaskID_def)
  have "finite (edges ?m)"
    by (rule finite_subset [of _ "dom ?m \<times> dom ?m"]) (use g(1) in \<open>auto simp: edges_def graph_ok_nd\<close>)
  then have wf: "wf (edges ?m)" using ac by (rule finite_acyclic_wf)
  have "dom ?m = {}"
  proof (rule ccontr)
    assume "dom ?m \<noteq> {}"
    then obtain z0 where z0: "z0 \<in> dom ?m" by blast
    obtain z where z: "z \<in> dom ?m" "\<And>y. (y, z) \<in> edges ?m \<Longrightarrow> y \<notin> dom ?m" by (rule wfE_min [OF wf z0]) blast
    have "0 < card (preds Map.empty ?m z)" using w [OF z(1)] g(1) unfolding graph_ok_nd waits_nd by simp
    then have "preds Map.empty ?m z \<noteq> {}" by (rule card_gt_0_iff [THEN iffD1, THEN conjunct1])
    then obtain y where "y \<in> preds Map.empty ?m z" by blast
    then have y: "y \<in> dom ?m" "(y, z) \<in> edges ?m" unfolding edges_def by (simp_all add: preds_def)
    show False using z(2) [OF y(2)] y(1) by contradiction
  qed
  then have "dom (map_of (tasks s)) = {}" using g(2) by (auto simp: tasks_ok_def waits_def)
  then show "tasks s = []" by (cases "tasks s") auto
qed

section \<open>Reachable systems\<close>

inductive reachable :: "iter \<Rightarrow> 'b system \<Rightarrow> bool" for it where
  init: "Scheduler_new n hc = Inr s \<Longrightarrow> reachable it (s, [])"
| start: "reachable it (s, ex) \<Longrightarrow> start s = Inr s' \<Longrightarrow> reachable it (s', ex)"
| call: "reachable it S \<Longrightarrow> call it S S' \<Longrightarrow> reachable it S'"
| turn: "reachable it S \<Longrightarrow> turn it S S' \<Longrightarrow> reachable it S'"

lemma Scheduler_new_ok:
  "\<exists>s. Scheduler_new n hc = Inr s \<and> system_ok (s, []) \<and> \<not> thread s"
proof -
  have h: "held (s\<lparr>workers := replicate k []\<rparr>) = {#}" for k and s :: "'a Scheduler" by (simp add: held_def)
  have "(\<Sum>w<k. image_mset (Pair w) (mset (replicate k ([] :: 'a WorkerMessage list) ! w))) = {#}" for k by simp
  then show ?thesis
    by (auto simp: Scheduler_new_def clear_def Let_def system_ok_def state_ok_def graph_ok_def tasks_ok_def workers_ok_def
        ids_ok_def nodes_ok_def ids_def held_def waits_def preds_def eff_def rev_map [symmetric])
qed

lemma system_ok_thread: "system_ok (s\<lparr>thread := b\<rparr>, ex) \<longleftrightarrow> system_ok (s, ex)"
proof -
  have "ids (s\<lparr>thread := b\<rparr>, ex) = ids (s, ex)" "live (s\<lparr>thread := b\<rparr>) = live s" "held (s\<lparr>thread := b\<rparr>) = held s"
    by (simp_all add: ids_def live_def held_def)
  then show ?thesis by (simp add: system_ok_def state_ok_def tasks_ok_def workers_ok_def ids_ok_def nodes_ok_def)
qed

lemma reachable_ok: "reachable it S \<Longrightarrow> iter_ok it \<Longrightarrow> system_ok S" for S :: "'b system"
proof (induction rule: reachable.induct)
  case (init n hc s)
  obtain s' :: "'b Scheduler" where "Scheduler_new n hc = Inr s'" "system_ok (s', [])" using Scheduler_new_ok [of n hc] by blast
  then show ?case using init by simp
next
  case (start s ex s')
  then show ?case using system_ok_thread [where s = s and b = True and ex = ex] by (simp add: start_def split: if_splits)
next
  case (call S S')
  then show ?case using call_ok by blast
next
  case (turn S S')
  then show ?case using turn_ok by blast
qed

section \<open>Turns of the scheduler's loop\<close>

lemma mset_upt_length: "mset xs + A = mset [0..<n] \<Longrightarrow> length xs = n \<Longrightarrow> A = {#}"
  by (metis add_diff_cancel_left' diff_zero length_upt size_eq_0_iff_empty size_mset size_union diff_self_eq_0)

lemma all_available:
  assumes "workers_ok s" "length (available_workers s) = num_workers s"
  shows "held s = {#}" "completions (scheduler_msg_queue s) = []"
proof -
  have "image_mset fst (held s) + mset (map fst (completions (scheduler_msg_queue s))) = {#}"
    by (rule mset_upt_length [OF _ assms(2)]) (use assms(1) in \<open>unfold workers_ok_def add.assoc, blast\<close>)
  then show "held s = {#}" "completions (scheduler_msg_queue s) = []" by simp_all
qed

lemma held_memD': "w < length (workers s) \<Longrightarrow> m \<in> set (workers s ! w) \<Longrightarrow> (w, m) \<in># held s"
  unfolding held_def mem_sum_mset by auto

lemma held_empty: "held s = {#} \<Longrightarrow> w < length (workers s) \<Longrightarrow> workers s ! w = []"
  using held_memD' [of w s] by (cases "workers s ! w") auto

lemma stop_workers_appends:
  "\<forall>w \<in> set ws. w < length (workers s) \<Longrightarrow> distinct ws \<Longrightarrow> stop_workers ws s = Inr s' \<Longrightarrow>
   s' = s\<lparr>workers := map (\<lambda>w. workers s ! w @ (if w \<in> set ws then [WorkerJoinMessage] else [])) [0..<length (workers s)]\<rparr>"
proof (induction ws arbitrary: s)
  case Nil
  then show ?case by (simp add: map_nth)
next
  case (Cons w ws)
  let ?s = "s\<lparr>workers := (workers s)[w := workers s ! w @ [WorkerJoinMessage]]\<rparr>"
  have "stop_workers ws ?s = Inr s'" using Cons.prems by (simp add: sendWorker_def fetch_def push_def)
  from Cons.IH [OF _ _ this] show ?case using Cons.prems
    by (auto simp: nth_list_update intro!: arg_cong [where f = "\<lambda>x. s\<lparr>workers := x\<rparr>"])
qed

lemma stop_workers_ok: "\<forall>w \<in> set ws. w < length (workers s) \<Longrightarrow> \<exists>s'. stop_workers ws s = Inr s'"
  by (induction ws arbitrary: s) (auto simp: sendWorker_def fetch_def)

lemma processTaskQueue_frame: "processTaskQueue s = Inr s' \<Longrightarrow> halt s' = halt s \<and> num_workers s' = num_workers s \<and> nodes s' = nodes s"
proof (induction s rule: processTaskQueue.induct)
  case (1 s)
  from 1(2) show ?case
    by (subst (asm) processTaskQueue.simps)
      (auto split: list.splits sum.splits simp: sendWorker_def and_then_Inr dest!: 1(1))
qed

lemma processTaskQueue_turns:
  assumes "processTaskQueue s = Inr s'"
  shows "(turn it)\<^sup>*\<^sup>* (s, ex) (s', ex)"
proof (cases "available_workers s = [] \<or> task_queue s = []")
  case True
  then have "processTaskQueue s = Inr s" by (subst processTaskQueue.simps) (auto split: list.split)
  then show ?thesis using assms by simp
next
  case False
  then show ?thesis using turn.dispatch [OF assms] by blast
qed

lemma execute_turn_cases:
  assumes it: "iter_ok it" and S: "system_ok (s, ex)"
  obtains s1 where "processTaskQueue s = Inr s1" "system_ok (s1, ex)" "halt s1" "length (available_workers s1) = num_workers s1"
      "task_queue s1 = []" "execute_turn it s = Some (and_then (stop_workers [0..<length (workers s1)] s1) (\<lambda>s. Inr (Stopped s)))"
  | s1 where "processTaskQueue s = Inr s1" "system_ok (s1, ex)" "scheduler_msg_queue s1 = []"
      "execute_turn it s = Some (Inr (Waiting s1))"
  | s1 m q s2 where "processTaskQueue s = Inr s1" "system_ok (s1, ex)" "scheduler_msg_queue s1 = m # q"
      "handle_message it m (s1\<lparr>scheduler_msg_queue := q\<rparr>) = Some (Inr s2)" "execute_turn it s = Some (Inr (Turn s2))"
proof -
  obtain s1 where s1: "processTaskQueue s = Inr s1" "system_ok (s1, ex)" using processTaskQueue_ok [OF S] by blast
  let ?h = "halt s1 \<and> length (available_workers s1) = num_workers s1 \<and> task_queue s1 = []"
  consider ?h | "\<not> ?h" "scheduler_msg_queue s1 = []" | m q where "\<not> ?h" "scheduler_msg_queue s1 = m # q"
    by (cases "scheduler_msg_queue s1") auto
  then show thesis
  proof cases
    case 1
    then show ?thesis using s1 that(1) by (simp add: execute_turn_def)
  next
    case 2
    then have "execute_turn it s = Some (Inr (Waiting s1))" using s1(1) by (auto simp: execute_turn_def popOne_def)
    then show ?thesis using s1 2(2) that(2) by blast
  next
    case (3 m q)
    obtain s2 where "handle_message it m (s1\<lparr>scheduler_msg_queue := q\<rparr>) = Some (Inr s2)" using receive_ok [OF it s1(2) 3(2)] by blast
    moreover from this have "execute_turn it s = Some (Inr (Turn s2))" using s1(1) 3 by (auto simp: execute_turn_def popOne_def)
    ultimately show ?thesis using 3(2) s1 that(3) by blast
  qed
qed

lemma iter_one: "iter_ok it \<Longrightarrow> it [x] = [x]"
proof -
  assume "iter_ok it"
  then have "set (it [x]) = {x}" "distinct (it [x])" by (auto simp: iter_ok_def)
  moreover from this have "length (it [x]) = 1" by (metis One_nat_def card.empty card.insert distinct_card empty_iff finite.emptyI)
  ultimately show "it [x] = [x]" by (cases "it [x]") auto
qed

section \<open>The invariant in plain terms\<close>

lemma distinct_count_le: "(\<forall>i. count (mset xs) i \<le> 1) \<longleftrightarrow> distinct xs"
  by (induction xs) (auto simp: le_Suc_eq not_in_iff count_list_0_iff)

lemma once_executed:
  assumes "\<And>i. count (ids (s, ex)) i \<le> 1" "i \<in> set ex"
  shows "i \<notin> task_id ` set (task_queue s) \<and> i \<notin> dom (map_of (tasks s))"
proof -
  let ?q = "image_mset task_id (mset (task_queue s))" and ?d = "mset_set (dom (map_of (tasks s)))"
  have "0 < count (mset ex) i" using assms(2) by (simp add: count_greater_zero_iff)
  then have "count ?q i = 0" "count ?d i = 0" using assms(1) [of i] unfolding ids_def prod.case count_union by linarith+
  then show ?thesis unfolding count_eq_zero_iff by (simp add: finite_dom_map_of)
qed

lemma graph_ok_plain:
  assumes "graph_ok Map.empty m" "m n = Some nd"
  shows "set (dependents nd) \<subseteq> dom m" "dependency_count nd = card {p. \<exists>q. m p = Some q \<and> n \<in> set (dependents q)}"
proof -
  have e: "eff Map.empty m p = dependents q" if "m p = Some q" for p q using that by (simp add: eff_def)
  have "n \<in> dom m" using assms(2) by blast
  then have "set (eff Map.empty m n) \<subseteq> dom m" using assms(1) unfolding graph_ok_def by blast
  then show "set (dependents nd) \<subseteq> dom m" using e [OF assms(2)] by simp
  have "preds Map.empty m n = {p. \<exists>q. m p = Some q \<and> n \<in> set (dependents q)}" by (auto simp: preds_def e)
  then show "dependency_count nd = card {p. \<exists>q. m p = Some q \<and> n \<in> set (dependents q)}"
    using assms unfolding graph_ok_def by metis
qed

section \<open>The turns only take the graph down\<close>

definition settled :: "'b Scheduler \<Rightarrow> bool" where
  "settled s \<longleftrightarrow> acyclic (edges (map_of (nodes s)))
     \<and> (\<forall>c \<in> dom (map_of (nodes s)). IsContinuation c \<longrightarrow> waits (map_of (nodes s)) c)"

lemma released_edges: "released ts s s' \<Longrightarrow> edges (map_of (nodes s')) \<subseteq> edges (map_of (nodes s))"
  by (fastforce simp: edges_def released_def eff_def)

lemma released_settled:
  assumes "released ts s s'" "still_waits s s'" "settled s"
  shows "settled s'"
proof -
  have "acyclic (edges (map_of (nodes s')))" using released_edges [OF assms(1)] assms(3) acyclic_subset unfolding settled_def by blast
  then show ?thesis using assms released_dom [OF assms(1)] unfolding settled_def still_waits_def by blast
qed

lemma settled_cong: "nodes s' = nodes s \<Longrightarrow> settled s' \<longleftrightarrow> settled s"
  by (simp add: settled_def)

lemma receive_settled:
  assumes it: "iter_ok it" and S: "system_ok (s, ex)" and m: "scheduler_msg_queue s = m # q"
    and h: "handle_message it m (s\<lparr>scheduler_msg_queue := q\<rparr>) = Some (Inr s')" and o: "settled s"
  shows "settled s'"
proof (cases "\<exists>w tid. m = kTaskCompletion w tid")
  case False
  then have "nodes s' = nodes s" using h by (cases m) (auto simp: handle_message_def)
  then show ?thesis using o settled_cong by blast
next
  case True
  then obtain w tid where me: "m = kTaskCompletion w tid" by blast
  let ?s = "s\<lparr>scheduler_msg_queue := q\<rparr>"
  have S0: "state_ok Map.empty s" "ids_ok (s, ex)" using S by (auto simp: system_ok_def)
  have "ids (?s, ex) = ids (s, ex)" by (simp add: ids_def)
  then have S': "state_ok Map.empty ?s" "ids_ok (?s, ex)"
    using S0 m me by (simp_all add: state_ok_def tasks_ok_def ids_ok_def)
  have "tid \<in> set ex" using S m me by (auto simp: system_ok_def ids_ok_def)
  then obtain s1 ts where p: "processDependents it tid ?s = Some (Inr s1)" "released ts ?s s1" "still_waits ?s s1"
    using processDependents_ok [OF it S'(1)] not_waiting [OF S'] by blast
  have "settled ?s" using o by (simp add: settled_def)
  then have "settled s1" by (rule released_settled [OF p(2,3)])
  moreover have "nodes s' = nodes s1" using h me p(1) by (auto simp: handle_message_def)
  ultimately show ?thesis using settled_cong by blast
qed

lemma turn_settled:
  assumes "turn it S S'" "iter_ok it" "system_ok S" "settled (fst S)"
  shows "settled (fst S')"
  using assms(1)
proof (cases rule: turn.cases)
  case (dispatch s s' ex)
  then show ?thesis using assms(4) processTaskQueue_frame settled_cong by (metis fst_conv)
next
  case (receive s m q s' ex)
  have m: "scheduler_msg_queue s = m # q" using receive(3) by (auto simp: popOne_def split: list.splits)
  show ?thesis using receive_settled [OF assms(2) _ m receive(4)] assms(3,4) receive(1,2) by auto
next
  case (work w s t s' ex)
  then have "nodes s' = nodes s" by (auto simp: worker_turn_def getID_def sendMessage_def Let_def split: if_splits option.splits prod.splits WorkerMessage.splits)
  then show ?thesis using assms(4) settled_cong work(1,2) by (metis fst_conv)
qed

lemma rtranclp_turn_ok:
  assumes "(turn it)\<^sup>*\<^sup>* S S'" "iter_ok it" "system_ok S"
  shows "system_ok S'" "ids S' = ids S" "settled (fst S) \<Longrightarrow> settled (fst S')"
proof -
  have "system_ok S' \<and> ids S' = ids S \<and> (settled (fst S) \<longrightarrow> settled (fst S'))"
    using assms(1)
  proof (induction rule: rtranclp_induct)
    case (step T U)
    then show ?case using turn_ok [OF step(2) assms(2)] turn_settled [OF step(2) assms(2)] by simp
  qed (simp add: assms(3))
  then show "system_ok S'" "ids S' = ids S" "settled (fst S) \<Longrightarrow> settled (fst S')" by blast+
qed

section \<open>A run with two tasks\<close>

text \<open>A scheduler with one worker, and the same one after two tasks, the second one after the first through a continuation.\<close>

definition in_order :: iter where "in_order xs = xs"

definition one_worker :: "unit Scheduler" where
  "one_worker = \<lparr>num_workers = 1, workers = [[]], available_workers = [0], task_queue = [], tasks = [], nodes = [],
     scheduler_msg_queue = [], task_counter = 1, continuation_counter = 9223372036854775809, halt = False, thread = False\<rparr>"

definition two_tasks :: "unit Scheduler" where
  "two_tasks = one_worker\<lparr>task_counter := 3, continuation_counter := 9223372036854775810,
     task_queue := [\<lparr>task_id = 1, continuation = 9223372036854775809, has_scheduler = True, body = ()\<rparr>],
     scheduler_msg_queue := [kNewTask],
     tasks := [(2, \<lparr>task_id = 2, continuation = 0, has_scheduler = True, body = ()\<rparr>)],
     nodes := [(1, \<lparr>dependents = [9223372036854775809], dependency_count = 0\<rparr>),
       (9223372036854775809, \<lparr>dependents = [2], dependency_count = 1\<rparr>), (2, \<lparr>dependents = [], dependency_count = 1\<rparr>)]\<rparr>"

lemma in_order_ok: "iter_ok in_order"
  by (simp add: iter_ok_def in_order_def)

lemma mask_numeral [simp]: "kContinuationMask = 9223372036854775808"
  by (simp add: kContinuationMask_def)

lemma ids_numeral [simp]: "IsTaskID 1" "IsTaskID 2" "IsContinuation 9223372036854775809" "\<not> IsContinuation 1" "\<not> IsContinuation 2"
  by (simp_all add: IsTaskID_def IsContinuation_def)

lemma one_worker_reachable: "reachable in_order (one_worker, [])"
  by (rule reachable.init [of 1 0]) (simp add: Scheduler_new_def clear_def one_worker_def)

lemma two_tasks_reachable: "reachable in_order (two_tasks, [])"
proof -
  let ?c = "9223372036854775809 :: NodeID"
  let ?s1 = "snd (allocateContinuation one_worker)"
  let ?s2 = "one_worker\<lparr>task_counter := 2, continuation_counter := ?c + 1,
     task_queue := [\<lparr>task_id = 1, continuation = ?c, has_scheduler = True, body = ()\<rparr>], scheduler_msg_queue := [kNewTask],
     nodes := [(1, \<lparr>dependents = [?c], dependency_count = 0\<rparr>), (?c, \<lparr>dependents = [], dependency_count = 1\<rparr>)]\<rparr>"
  note d = addTask_def addTaskNodes_def allocateTaskID_def setup_task_def Task_new_def addTaskStore_def addTaskIntoQueue_def sendMessage_def
    push_def put_node_def node_at_def addDependent_def incDependency_def hasDependent_def Node_new_def addLinkUnsafe_def
    allocateContinuation_def kInvalidNodeID_def one_worker_def two_tasks_def
  have r1: "reachable in_order (?s1, [])" by (rule reachable.call [OF one_worker_reachable call.allocate])
  have a1: "addTask (Task_new ()) kInvalidNodeID ?c ?s1 = Inr (1, ?s2)" by (simp add: d)
  have r2: "reachable in_order (?s2, [])"
    by (rule reachable.call [OF r1 call.add_task [OF a1]]) (simp_all add: allocateContinuation_def one_worker_def)
  have a2: "addTask (Task_new ()) ?c kInvalidNodeID ?s2 = Inr (2, two_tasks)" by (simp add: d)
  show ?thesis by (rule reachable.call [OF r2 call.add_task [OF a2]]) (simp_all add: may_precede_def)
qed

lemma two_tasks_settled: "settled two_tasks"
proof -
  let ?m = "map_of (nodes two_tasks)"
  let ?f = "\<lambda>n :: NodeID. if n = 2 then 2 else if n = 1 then 0 else (1 :: nat)"
  have "edges ?m \<subseteq> measure ?f" by (auto simp: edges_def eff_def two_tasks_def split: if_splits)
  then have "acyclic (edges ?m)" using wf_measure wf_subset wf_acyclic by blast
  then show ?thesis by (auto simp: settled_def two_tasks_def waits_def)
qed

lemma two_tasks_ids: "ids (two_tasks, []) = {#1, 2#}"
  by (simp add: ids_def two_tasks_def one_worker_def held_def)

section \<open>Properties\<close>







lemma once_stored:
  assumes "count (ids (s, ex)) i \<le> 1" "i \<in> dom (map_of (tasks s))"
  shows "i \<notin> set ex \<and> i \<notin> task_id ` set (task_queue s) \<and> (\<forall>x \<in># held s. message_id (snd x) \<noteq> i)"
proof -
  let ?q = "image_mset task_id (mset (task_queue s))" and ?h = "image_mset (message_id \<circ> snd) (held s)"
  have "0 < count (mset_set (dom (map_of (tasks s)))) i" using assms(2) by (simp add: finite_dom_map_of)
  then have "count ?q i = 0" "count ?h i = 0" "count (mset ex) i = 0"
    using assms(1) unfolding ids_def prod.case count_union by linarith+
  then show ?thesis unfolding count_eq_zero_iff by auto
qed



text \<open>C11: In every reachable state \<open>addTask\<close> returns a fresh id and takes exactly one more task, for a
  dependency that is a continuation or a task that has not completed and a dependent that is a
  continuation; and \<open>fire\<close> on a continuation that waits for nothing returns and removes it.
\<close>

theorem scheduler_calls:
  assumes "iter_ok it" "reachable it (s, ex)"
  shows "(IsTaskID (task_counter s) \<and> (dependency = kInvalidNodeID \<or> may_precede s dependency)
        \<and> (dependent = kInvalidNodeID \<or> IsContinuation dependent) \<longrightarrow>
      (\<exists>s'. addTask (Task_new b) dependency dependent s = Inr (task_counter s, s') \<and> reachable it (s', ex)
        \<and> ids (s', ex) = ids (s, ex) + {#task_counter s#} \<and> task_counter s \<notin># ids (s, ex)))
    \<and> (IsContinuation c \<and> (\<forall>nd. map_of (nodes s) c = Some nd \<longrightarrow> dependency_count nd = 0) \<longrightarrow>
      (\<exists>s'. fire it c s = Some (Inr s') \<and> reachable it (s', ex) \<and> ids (s', ex) = ids (s, ex) \<and> c \<notin> dom (map_of (nodes s'))))"
proof (intro conjI impI, elim conjE)
  have S: "system_ok (s, ex)" using reachable_ok [OF assms(2,1)] .
  assume c: "IsTaskID (task_counter s)" "dependency = kInvalidNodeID \<or> may_precede s dependency"
    "dependent = kInvalidNodeID \<or> IsContinuation dependent"
  obtain s' where s': "addTask (Task_new b) dependency dependent s = Inr (task_counter s, s')"
    "ids (s', ex) = ids (s, ex) + {#task_counter s#}" using add_task_ok [OF S c] by blast
  then show "\<exists>s'. addTask (Task_new b) dependency dependent s = Inr (task_counter s, s') \<and> reachable it (s', ex)
        \<and> ids (s', ex) = ids (s, ex) + {#task_counter s#} \<and> task_counter s \<notin># ids (s, ex)"
    using reachable.call [OF assms(2) call.add_task [OF s'(1) c]] S fresh_id by (auto simp: system_ok_def)
next
  have S: "state_ok Map.empty s" using reachable_ok [OF assms(2,1)] by (simp add: system_ok_def)
  assume "IsContinuation c \<and> (\<forall>nd. map_of (nodes s) c = Some nd \<longrightarrow> dependency_count nd = 0)"
  then have c: "IsContinuation c" "\<not> waits (map_of (nodes s)) c" by (auto simp: waits_def)
  obtain s' ts where s': "fire it c s = Some (Inr s')" "released ts s s'" "map_of (nodes s') c = None"
    using processDependents_ok [OF assms(1) S c(2)] unfolding fire_def by blast
  then show "\<exists>s'. fire it c s = Some (Inr s') \<and> reachable it (s', ex) \<and> ids (s', ex) = ids (s, ex) \<and> c \<notin> dom (map_of (nodes s'))"
    using reachable.call [OF assms(2) call.fire [OF s'(1) c]] released_ids [OF s'(2)] by auto
qed

theorem scheduler_calls_witness: "iter_ok in_order \<and> reachable in_order (one_worker, [])
    \<and> (\<exists>s'. addTask (Task_new ()) kInvalidNodeID kInvalidNodeID one_worker = Inr (1, s') \<and> ids (s', []) = {#1#})
    \<and> (\<exists>s'. fire in_order 9223372036854775809 one_worker = Some (Inr s'))"
proof -
  have i: "ids (one_worker, []) = {#}" "task_counter one_worker = 1" "nodes one_worker = []"
    by (simp_all add: ids_def one_worker_def held_def)
  show ?thesis
    using scheduler_calls [OF in_order_ok one_worker_reachable, of kInvalidNodeID kInvalidNodeID "()" 9223372036854775809]
      in_order_ok one_worker_reachable i by auto
qed

lemma bind_opt_nil: "bind_opt x (each_dependent f []) = x"
  by (cases "(x, each_dependent f [])" rule: bind_opt.cases) auto

text \<open>C12: \<open>addTask\<close> adds the node of a deferred task and only then, under another lock, stores the task. A
  dependency that completes between the two critical sections makes \<open>releaseTaskByID\<close> miss the
  task: the \<open>DCHECK\<close> fails. Once the task is stored, the same completion queues it.
\<close>

theorem addTask_race:
  assumes "iter_ok it" "reachable it (s, ex)" "IsTaskID (task_counter s)" "dependency \<noteq> kInvalidNodeID"
    "may_precede s dependency" "dependency \<notin> dom (map_of (nodes s))"
  shows "\<exists>t s1. addTaskNodes (Task_new b) dependency kInvalidNodeID s = Inr (t, s1)
    \<and> processDependents it dependency s1 = Some (Inl AssertFailed)
    \<and> (\<exists>s2. processDependents it dependency (addTaskStore t dependency s1) = Some (Inr s2) \<and> task_queue s2 = task_queue s @ [t])"
proof -
  let ?c = "task_counter s" and ?m = "map_of (nodes s)"
  let ?t = "(Task_new b)\<lparr>task_id := ?c, has_scheduler := True\<rparr>"
  let ?nd = "Node_new\<lparr>dependents := [?c]\<rparr>" and ?nc = "Node_new\<lparr>dependency_count := 1\<rparr>"
  have S: "system_ok (s, ex)" using reachable_ok [OF assms(2,1)] .
  then have c: "?c \<notin> dom ?m" "?c \<notin># ids (s, ex)" using fresh_id assms(3) by (auto simp: system_ok_def nodes_ok_def)
  then have ct: "map_of (tasks s) ?c = None" by (auto simp: ids_def finite_dom_map_of)
  have "dependency \<in># ids (s, ex) \<or> IsContinuation dependency"
    using assms(5) S by (auto simp: may_precede_def live_def ids_def system_ok_def ids_ok_def finite_dom_map_of)
  then have dc: "dependency \<noteq> ?c" using c(2) assms(3) by (auto simp: IsTaskID_def)
  have d: "?m dependency = None" using assms(6) by blast
  let ?s = "s\<lparr>task_counter := ?c + 1\<rparr>"
  let ?s1 = "put_node ?c ?nc (put_node dependency ?nd (put_node dependency Node_new ?s))"
  have a: "addTaskNodes (Task_new b) dependency kInvalidNodeID s = Inr (?t, ?s1)"
    using d c(1) dc assms(4) by (simp add: addTaskNodes_def allocateTaskID_def setup_task_def Task_new_def addLinkUnsafe_def node_at_def
        hasDependent_def addDependent_def incDependency_def Node_new_def kInvalidNodeID_def Let_def domIff)
  have m: "map_of (nodes ?s1) = ?m(dependency \<mapsto> ?nd, ?c \<mapsto> ?nc)" by simp
  have "nodes ?s1 \<noteq> []" using m by (metis fun_upd_same map_of.simps(1) option.distinct(1))
  then obtain k where k: "length (nodes ?s1) = Suc k" by (meson length_0_conv not0_implies_Suc)
  have p: "processDependents it dependency s1 =
     bind_opt (process_dependent (processDependentsUnsafe it k) ?c s1) (\<lambda>s. Some (Inr (s\<lparr>nodes := AList.delete dependency (nodes s)\<rparr>)))"
    if "nodes s1 = nodes ?s1" for s1
    using that m k dc iter_one [OF assms(1)] by (simp add: processDependents_def node_at_def Node_new_def bind_opt_nil)
  have q: "process_dependent f ?c s1 = Some (and_then (releaseTaskByID ?c (put_node ?c Node_new s1)) (\<lambda>(t, s). Inr (addTaskIntoQueue t s)))"
    if "nodes s1 = nodes ?s1" for s1 f
    using that m assms(3) by (simp add: process_dependent_def decDependency_def Node_new_def)
  have "processDependents it dependency ?s1 = Some (Inl AssertFailed)"
    using ct assms(3) by (simp add: p q releaseTaskByID_def)
  moreover have "\<exists>s2. processDependents it dependency (addTaskStore ?t dependency ?s1) = Some (Inr s2) \<and> task_queue s2 = task_queue s @ [?t]"
  proof -
    let ?s2 = "addTaskStore ?t dependency ?s1"
    have n: "nodes ?s2 = nodes ?s1" "map_of (tasks ?s2) ?c = Some ?t" "task_queue ?s2 = task_queue s"
      using ct assms(4) by (simp_all add: addTaskStore_def update_conv' put_node_def)
    then show ?thesis using assms(3)
      by (simp add: p q releaseTaskByID_def addTaskIntoQueue_def sendMessage_def put_node_def)
  qed
  ultimately show ?thesis using a by blast
qed

theorem addTask_race_witness: "iter_ok in_order \<and> reachable in_order (one_worker, [])
    \<and> (\<exists>t s1. addTaskNodes (Task_new ()) 9223372036854775809 kInvalidNodeID one_worker = Inr (t, s1)
        \<and> processDependents in_order 9223372036854775809 s1 = Some (Inl AssertFailed))"
proof -
  have "task_counter one_worker = 1" "nodes one_worker = []" "may_precede one_worker 9223372036854775809"
    by (simp_all add: one_worker_def may_precede_def)
  then show ?thesis
    using addTask_race [OF in_order_ok one_worker_reachable, of 9223372036854775809 "()"] in_order_ok one_worker_reachable
    by (auto simp: kInvalidNodeID_def)
qed

end
