(* ===== verification/ExecutionPlan.thy ===== *)
theory ExecutionPlan
  imports SchedulerRun
begin

text \<open>
  Execution plans (\<open>src/src/execution/execution_plan.h\<close>, \<open>execution_plan.cc\<close>): operators, links,
  merging, and \<open>execute\<close>, which turns a plan into tasks, continuations and links of the scheduler.
  Then what the calls do to the graph of the scheduler, the graph of a plan before and after its
  entry is fired, the order of tasks along a run, and the properties.
\<close>

section \<open>Plans\<close>

text \<open>
  An operator is its index and what its task runs. A plan holds its operators as owning pointers, a
  moved-from one is \<open>None\<close>, and for each producer the set of its consumers. Results and columns are
  of types the plan does not look into.
\<close>

record 'b Operator =
  op_index :: nat
  op_body :: 'b

record ('b, 'r, 'c) ExecutionPlan =
  query_id :: nat
  operators :: "'b Operator option list"
  plan_dependents :: "(nat \<times> nat list) list"
  input_result :: "'r option"
  result_out :: "'r option"
  result_cols :: "'c list"

definition ExecutionPlan_new :: "nat \<Rightarrow> ('b, 'r, 'c) ExecutionPlan" where
  "ExecutionPlan_new q = \<lparr>query_id = q, operators = [], plan_dependents = [], input_result = None, result_out = None, result_cols = []\<rparr>"

definition set_operator_index :: "nat \<Rightarrow> 'b Operator \<Rightarrow> 'b Operator" where
  "set_operator_index i op = op\<lparr>op_index := i\<rparr>"

definition addOperator :: "'b Operator \<Rightarrow> ('b, 'r, 'c) ExecutionPlan \<Rightarrow> nat \<times> ('b, 'r, 'c) ExecutionPlan" where
  "addOperator op p =
    (let i = length (operators p) in (i, p\<lparr>operators := operators p @ [Some (set_operator_index i op)]\<rparr>))"

definition getDependents :: "nat \<Rightarrow> (nat \<times> nat list) list \<Rightarrow> nat list" where
  "getDependents producer ds = (case map_of ds producer of None \<Rightarrow> [] | Some cs \<Rightarrow> cs)"

definition emplace_link :: "nat \<Rightarrow> nat \<Rightarrow> (nat \<times> nat list) list \<Rightarrow> (nat \<times> nat list) list" where
  "emplace_link producer consumer ds = AList.update producer (List.insert consumer (getDependents producer ds)) ds"

definition createLink :: "nat \<Rightarrow> nat \<Rightarrow> ('b, 'r, 'c) ExecutionPlan \<Rightarrow> ('b, 'r, 'c) ExecutionPlan" where
  "createLink producer consumer p = p\<lparr>plan_dependents := emplace_link producer consumer (plan_dependents p)\<rparr>"

definition plan_size :: "('b, 'r, 'c) ExecutionPlan \<Rightarrow> nat" where "plan_size p = length (operators p)"

text \<open>The links of a plan. The order in which the containers give them is a parameter.\<close>

definition plan_links :: "(nat \<times> nat list) list \<Rightarrow> (nat \<times> nat) list" where
  "plan_links ds = concat (map (\<lambda>(a, bs). map (Pair a) bs) ds)"

type_synonym link_order = "(nat \<times> nat) list \<Rightarrow> (nat \<times> nat) list"

definition order_ok :: "link_order \<Rightarrow> bool" where "order_ok ord \<longleftrightarrow> (\<forall>xs. set (ord xs) = set xs)"

definition merge_links :: "link_order \<Rightarrow> nat \<Rightarrow> (nat \<times> nat list) list \<Rightarrow> (nat \<times> nat list) list \<Rightarrow> (nat \<times> nat list) list" where
  "merge_links ord k ds acc = fold (\<lambda>(a, b). emplace_link (a + k) (b + k)) (ord (plan_links ds)) acc"

definition plan_merge :: "link_order \<Rightarrow> ('b, 'r, 'c) ExecutionPlan \<Rightarrow> ('b, 'r, 'c) ExecutionPlan
    \<Rightarrow> ('b, 'r, 'c) ExecutionPlan \<times> ('b, 'r, 'c) ExecutionPlan" where
  "plan_merge ord plan p =
    (let initial_op_size = length (operators p) in
     (p\<lparr>operators := operators p @ operators plan,
        plan_dependents := (merge_links ord initial_op_size (plan_dependents plan) ^^ plan_size plan) (plan_dependents p),
        result_out := result_out plan, result_cols := result_cols plan\<rparr>,
      plan\<lparr>operators := map (\<lambda>_. None) (operators plan)\<rparr>))"

definition setOperatorResult :: "'r option \<Rightarrow> ('b, 'r, 'c) ExecutionPlan \<Rightarrow> ('b, 'r, 'c) ExecutionPlan" where
  "setOperatorResult r p = p\<lparr>result_out := r\<rparr>"

section \<open>Running a plan\<close>

definition createTask :: "'b Operator \<Rightarrow> 'b Task" where "createTask op = Task_new (op_body op)"

definition store_at :: "nat \<Rightarrow> 'a \<Rightarrow> 'a list \<Rightarrow> 'a list res" where
  "store_at i x xs = (if i < length xs then Inr (xs[i := x]) else Inl OutOfBounds)"

fun add_operators :: "NodeID \<Rightarrow> NodeID \<Rightarrow> 'b Operator option list \<Rightarrow> NodeID list \<Rightarrow> NodeID list \<Rightarrow> 'b Scheduler
    \<Rightarrow> (NodeID list \<times> NodeID list \<times> 'b Scheduler) res" where
  "add_operators c_enter c_exit [] task_ids c_operators s = Inr (task_ids, c_operators, s)"
| "add_operators c_enter c_exit (None # ops) task_ids c_operators s = Inl AssertFailed"
| "add_operators c_enter c_exit (Some op # ops) task_ids c_operators s =
    (let (op_cont, s) = allocateContinuation s in
     and_then (addTask (createTask op) c_enter op_cont s) (\<lambda>(op_task_id, s).
       let s = addLink op_cont c_exit s in
       and_then (store_at (op_index op) op_task_id task_ids) (\<lambda>task_ids.
       and_then (store_at (op_index op) op_cont c_operators) (\<lambda>c_operators.
         add_operators c_enter c_exit ops task_ids c_operators s))))"

fun add_links :: "NodeID list \<Rightarrow> NodeID list \<Rightarrow> (nat \<times> nat) list \<Rightarrow> 'b Scheduler \<Rightarrow> 'b Scheduler res" where
  "add_links task_ids c_operators [] s = Inr s"
| "add_links task_ids c_operators ((producer, consumer) # ls) s =
    and_then (fetch c_operators producer) (\<lambda>c_producer.
    and_then (fetch task_ids consumer) (\<lambda>t.
      add_links task_ids c_operators ls (addLink c_producer t s)))"

text \<open>
  \<open>execute\<close> runs in the plan's own task \<open>ctx\<close>; \<open>finish\<close> is what the last task runs. The operators
  move into that task.
\<close>

definition execute_plan :: "iter \<Rightarrow> link_order \<Rightarrow> 'b \<Rightarrow> 'b Task \<Rightarrow> ('b, 'r, 'c) ExecutionPlan \<Rightarrow> 'b Scheduler
    \<Rightarrow> (('b, 'r, 'c) ExecutionPlan \<times> 'b Scheduler) res option" where
  "execute_plan it ord finish ctx p s =
    (if \<not> has_scheduler ctx then Some (Inl AssertFailed)
     else
       let (c_enter, s) = allocateContinuation s;
           (c_exit, s) = allocateContinuation s;
           n = length (operators p)
       in bind_opt (Some (add_operators c_enter c_exit (operators p) (replicate n 0) (replicate n 0) s)) (\<lambda>(task_ids, c_operators, s).
          bind_opt (Some (add_links task_ids c_operators (ord (plan_links (plan_dependents p))) s)) (\<lambda>s.
          bind_opt (Some (addTask (Task_new finish) c_exit (getContinuation ctx) s)) (\<lambda>(_, s).
          bind_opt (fire it c_enter s) (\<lambda>s. Some (Inr (p\<lparr>operators := []\<rparr>, s)))))))"

section \<open>Building a plan\<close>

definition links :: "('b, 'r, 'c) ExecutionPlan \<Rightarrow> (nat \<times> nat) set" where
  "links p = set (plan_links (plan_dependents p))"

definition numbered :: "('b, 'r, 'c) ExecutionPlan \<Rightarrow> bool" where
  "numbered p \<longleftrightarrow> (\<forall>i < length (operators p). \<exists>op. operators p ! i = Some op \<and> op_index op = i)"

definition plan_ok :: "('b, 'r, 'c) ExecutionPlan \<Rightarrow> bool" where
  "plan_ok p \<longleftrightarrow> numbered p \<and> distinct (map fst (plan_dependents p))
     \<and> links p \<subseteq> {..<length (operators p)} \<times> {..<length (operators p)}"

lemma mem_plan_links: "distinct (map fst ds) \<Longrightarrow> (a, b) \<in> set (plan_links ds) \<longleftrightarrow> b \<in> set (getDependents a ds)"
  by (force simp: plan_links_def getDependents_def split: option.split dest: map_of_SomeD)

lemma emplace_links:
  assumes "distinct (map fst ds)"
  shows "distinct (map fst (emplace_link a b ds))" "set (plan_links (emplace_link a b ds)) = insert (a, b) (set (plan_links ds))"
proof -
  show d: "distinct (map fst (emplace_link a b ds))" using assms by (simp add: emplace_link_def distinct_update)
  have "(x, y) \<in> set (plan_links (emplace_link a b ds)) \<longleftrightarrow> (x, y) = (a, b) \<or> (x, y) \<in> set (plan_links ds)" for x y
    unfolding mem_plan_links [OF d] mem_plan_links [OF assms]
    by (auto simp: emplace_link_def getDependents_def update_conv' split: option.split)
  then show "set (plan_links (emplace_link a b ds)) = insert (a, b) (set (plan_links ds))" by auto
qed

lemma ExecutionPlan_new_ok: "plan_ok (ExecutionPlan_new q)"
  by (simp add: plan_ok_def numbered_def links_def plan_links_def ExecutionPlan_new_def)

lemma addOperator_ok:
  assumes "plan_ok p" "addOperator op p = (i, p')"
  shows "plan_ok p'" "i = length (operators p)" "links p' = links p" "length (operators p') = Suc i"
  using assms by (auto simp: plan_ok_def numbered_def links_def addOperator_def set_operator_index_def nth_append less_Suc_eq Let_def)

lemma createLink_ok:
  assumes "plan_ok p" "a < length (operators p)" "b < length (operators p)"
  shows "plan_ok (createLink a b p)" "links (createLink a b p) = insert (a, b) (links p)"
  using assms emplace_links [of "plan_dependents p" a b] by (auto simp: plan_ok_def numbered_def links_def createLink_def)

section \<open>What the calls do to the graph\<close>

abbreviation graph_of :: "'b Scheduler \<Rightarrow> graph" where "graph_of s \<equiv> map_of (nodes s)"

lemma deps_out: "n \<notin> dom m \<Longrightarrow> deps m n = []"
  by (simp add: eff_def domIff)

lemma deps_in: "graph_ok Map.empty m \<Longrightarrow> set (deps m n) \<subseteq> dom m"
  unfolding graph_ok_nd by blast

lemma edges_deps: "(a, d) \<in> edges m \<longleftrightarrow> d \<in> set (deps m a)"
  by (cases "a \<in> dom m") (simp_all add: edges_def deps_out)

lemma deps_src: "d \<in> set (deps m a) \<Longrightarrow> a \<in> dom m"
  by (cases "a \<in> dom m") (simp_all add: deps_out)

lemma edges_dom: "graph_ok Map.empty m \<Longrightarrow> edges m \<subseteq> dom m \<times> dom m"
  using deps_in by (fastforce simp: edges_def)

lemma edges_link: "d \<notin> set (deps m a) \<Longrightarrow> edges (link a d m) = insert (a, d) (edges m)"
  by (auto simp: edges_deps deps_link split: if_splits)

lemma edges_addLink: "edges (graph_of (addLink a d s)) = insert (a, d) (edges (graph_of s))"
  by (auto simp: addLink_def nodes_addLinkUnsafe edges_link edges_deps)

lemma dom_addLink:
  assumes "graph_ok Map.empty (graph_of s)"
  shows "dom (graph_of (addLink a d s)) = insert a (insert d (dom (graph_of s)))"
proof (cases "d \<in> set (deps (graph_of s) a)")
  case True
  then have "a \<in> dom (graph_of s)" "d \<in> dom (graph_of s)" using deps_in [OF assms, of a] deps_src [OF True] by auto
  then show ?thesis using True by (auto simp: addLink_def nodes_addLinkUnsafe)
qed (simp add: addLink_def nodes_addLinkUnsafe dom_link)

lemma addLink_frame: "tasks (addLink a d s) = tasks s" "task_queue (addLink a d s) = task_queue s"
  "task_counter (addLink a d s) = task_counter s" "continuation_counter (addLink a d s) = continuation_counter s"
  "ids (addLink a d s, ex) = ids (s, ex)" "live (addLink a d s) = live s"
proof -
  obtain ns where ns: "addLink a d s = s\<lparr>nodes := ns\<rparr>" using addLinkUnsafe_frame [of a d s] by (auto simp: addLink_def)
  show "tasks (addLink a d s) = tasks s" "task_queue (addLink a d s) = task_queue s"
    "task_counter (addLink a d s) = task_counter s" "continuation_counter (addLink a d s) = continuation_counter s"
    "ids (addLink a d s, ex) = ids (s, ex)" "live (addLink a d s) = live s"
    unfolding ns by (simp_all add: ids_def live_def)
qed

text \<open>A deferred task with a dependent.\<close>

definition task_edges :: "NodeID \<Rightarrow> NodeID \<Rightarrow> NodeID \<Rightarrow> (NodeID \<times> NodeID) set" where
  "task_edges dependency tid dependent = insert (dependency, tid) (if dependent = kInvalidNodeID then {} else {(tid, dependent)})"

definition added :: "'b \<Rightarrow> NodeID \<Rightarrow> NodeID \<Rightarrow> 'b Scheduler \<Rightarrow> 'b Scheduler \<Rightarrow> bool" where
  "added b dependency dependent s s' \<longleftrightarrow>
     edges (graph_of s') = edges (graph_of s) \<union> task_edges dependency (task_counter s) dependent
   \<and> dom (graph_of s') = dom (graph_of s) \<union> {dependency, task_counter s} \<union> ({dependent} - {kInvalidNodeID})
   \<and> map_of (tasks s') = (map_of (tasks s))(task_counter s \<mapsto>
        \<lparr>task_id = task_counter s, continuation = dependent, has_scheduler = True, body = b\<rparr>)
   \<and> task_queue s' = task_queue s \<and> task_counter s' = task_counter s + 1 \<and> continuation_counter s' = continuation_counter s
   \<and> live s' = live s"

lemma addTask_effect:
  assumes r: "reachable it (s, ex)" "iter_ok it" and c: "IsTaskID (task_counter s)" and dy: "IsContinuation dependency"
    and dt: "dependent = kInvalidNodeID \<or> IsContinuation dependent"
  shows "\<exists>s'. addTask (Task_new b) dependency dependent s = Inr (task_counter s, s') \<and> reachable it (s', ex)
    \<and> ids (s', ex) = ids (s, ex) + {#task_counter s#} \<and> added b dependency dependent s s'"
proof -
  let ?c = "task_counter s" and ?m = "graph_of s"
  let ?t = "\<lparr>task_id = ?c, continuation = dependent, has_scheduler = True, body = b\<rparr>"
  have S: "system_ok (s, ex)" using reachable_ok [OF r] .
  have dy0: "dependency \<noteq> kInvalidNodeID" "dependency \<noteq> ?c" using dy c by (auto simp: IsTaskID_def IsContinuation_def kInvalidNodeID_def)
  have dt0: "dependent \<noteq> ?c" using dt c S by (auto simp: system_ok_def ids_ok_def IsTaskID_def kInvalidNodeID_def)
  have mp: "may_precede s dependency" using dy by (simp add: may_precede_def)
  obtain s' where a: "addTask (Task_new b) dependency dependent s = Inr (?c, s')" "ids (s', ex) = ids (s, ex) + {#?c#}"
    using add_task_ok [OF S c _ dt] mp by blast
  have rs: "reachable it (s', ex)" using reachable.call [OF r(1) call.add_task [OF a(1) c _ dt]] mp by blast
  have fr: "?c \<notin> dom ?m" "?c \<notin># ids (s, ex)" using S c fresh_id by (auto simp: system_ok_def nodes_ok_def)
  have g: "graph_ok Map.empty ?m" using S by (simp add: system_ok_def state_ok_def)
  have dc: "deps ?m ?c = []" "\<And>n. ?c \<notin> set (deps ?m n)" using fr(1) deps_in [OF g] deps_out [of ?c ?m] by auto
  have tn: "map_of (tasks s) ?c = None" using fr(2) by (auto simp: ids_def finite_dom_map_of)
  define m1 where "m1 = (if dependent \<noteq> kInvalidNodeID then link ?c dependent ?m else ?m)"
  have e1: "edges m1 = edges ?m \<union> (if dependent = kInvalidNodeID then {} else {(?c, dependent)})"
    "dom m1 = dom ?m \<union> (if dependent = kInvalidNodeID then {} else {?c, dependent})" "?c \<notin> set (deps m1 dependency)"
    using dc dt0 dy0 by (auto simp: m1_def edges_link dom_link deps_link)
  let ?s0 = "s\<lparr>task_counter := ?c + 1\<rparr>"
  define s1 where "s1 = (if dependent \<noteq> kInvalidNodeID
      then let s = put_node ?c (addDependent dependent (node_at ?c ?s0)) ?s0
           in put_node dependent (incDependency (node_at dependent s)) s else ?s0)"
  have g1: "graph_of s1 = m1" by (simp add: s1_def m1_def link_def node_at_nd Let_def)
  have f1: "s1 = ?s0\<lparr>nodes := nodes s1\<rparr>" by (simp add: s1_def put_node_def Let_def)
  have "addTaskNodes (Task_new b) dependency dependent s = Inr (?t, addLinkUnsafe dependency ?c s1)"
    using dy0(1) by (simp add: addTaskNodes_def allocateTaskID_def setup_task_def Task_new_def s1_def Let_def)
  then have "s' = addTaskStore ?t dependency (addLinkUnsafe dependency ?c s1)" using a(1) by (simp add: addTask_def)
  moreover have "tasks (addLinkUnsafe dependency ?c s1) = tasks s" by (subst addLinkUnsafe_frame, subst f1) simp
  ultimately have s': "s' = (addLinkUnsafe dependency ?c s1)\<lparr>tasks := AList.update ?c ?t (tasks s)\<rparr>"
    using tn dy0(1) by (simp add: addTaskStore_def)
  have n1: "graph_of s' = link dependency ?c m1" using e1(3) by (simp add: s' nodes_addLinkUnsafe g1)
  have f: "s' = s\<lparr>task_counter := ?c + 1, nodes := nodes s', tasks := AList.update ?c ?t (tasks s)\<rparr>"
    unfolding s' by (subst addLinkUnsafe_frame, subst f1) simp
  have "edges (graph_of s') = edges ?m \<union> task_edges dependency ?c dependent"
    unfolding n1 edges_link [OF e1(3)] e1(1) by (auto simp: task_edges_def)
  moreover have "dom (graph_of s') = dom ?m \<union> {dependency, ?c} \<union> ({dependent} - {kInvalidNodeID})"
    unfolding n1 dom_link e1(2) by auto
  moreover have "map_of (tasks s') = (map_of (tasks s))(?c \<mapsto> ?t)" "task_queue s' = task_queue s" "task_counter s' = ?c + 1"
    "continuation_counter s' = continuation_counter s" "live s' = live s"
    by (subst f, simp add: update_conv' live_def)+
  ultimately show ?thesis using a rs unfolding added_def by blast
qed

section \<open>The graph of a plan\<close>

text \<open>The ids the scheduler hands out next.\<close>

definition tid :: "'b Scheduler \<Rightarrow> nat \<Rightarrow> NodeID" where "tid s i = task_counter s + of_nat i"
definition cid :: "'b Scheduler \<Rightarrow> nat \<Rightarrow> NodeID" where "cid s i = continuation_counter s + of_nat i"

definition room :: "'b Scheduler \<Rightarrow> nat \<Rightarrow> bool" where
  "room s n \<longleftrightarrow> unat (task_counter s) + n < 2 ^ 63 \<and> 2 ^ 63 \<le> unat (continuation_counter s)
     \<and> unat (continuation_counter s) + n + 1 < 2 ^ 64"

lemma unat_tid: "room s n \<Longrightarrow> i \<le> n \<Longrightarrow> unat (tid s i) = unat (task_counter s) + i"
  unfolding tid_def room_def by (subst unat_word_ariths) (simp add: unat_of_nat)

lemma unat_cid: "room s n \<Longrightarrow> i \<le> Suc n \<Longrightarrow> unat (cid s i) = unat (continuation_counter s) + i"
  unfolding cid_def room_def by (subst unat_word_ariths) (simp add: unat_of_nat)

lemma IsTaskID_tid: "room s n \<Longrightarrow> i \<le> n \<Longrightarrow> IsTaskID (tid s i)"
  by (simp add: IsTaskID_less unat_tid) (simp add: room_def)

lemma IsContinuation_cid: "room s n \<Longrightarrow> i \<le> Suc n \<Longrightarrow> IsContinuation (cid s i)"
  using IsTaskID_less [of "cid s i"] by (simp add: IsTaskID_def unat_cid) (simp add: room_def)

lemma tid_inj: "room s n \<Longrightarrow> i \<le> n \<Longrightarrow> j \<le> n \<Longrightarrow> tid s i = tid s j \<longleftrightarrow> i = j"
  by (metis add_left_cancel unat_tid)

lemma cid_inj: "room s n \<Longrightarrow> i \<le> Suc n \<Longrightarrow> j \<le> Suc n \<Longrightarrow> cid s i = cid s j \<longleftrightarrow> i = j"
  by (metis add_left_cancel unat_cid)

text \<open>Operator \<open>i\<close>: its task comes after the entry and before its continuation, which comes before the exit.\<close>

definition op_edges :: "'b Scheduler \<Rightarrow> nat \<Rightarrow> (NodeID \<times> NodeID) set" where
  "op_edges s k = (\<Union>i<k. {(cid s 0, tid s i), (tid s i, cid s (i + 2)), (cid s (i + 2), cid s 1)})"

definition link_edges :: "'b Scheduler \<Rightarrow> (nat \<times> nat) set \<Rightarrow> (NodeID \<times> NodeID) set" where
  "link_edges s L = (\<lambda>(a, b). (cid s (a + 2), tid s b)) ` L"

definition grown :: "(NodeID \<times> NodeID) set \<Rightarrow> 'b Scheduler \<Rightarrow> 'b Scheduler \<Rightarrow> bool" where
  "grown F s S \<longleftrightarrow> edges (graph_of S) = edges (graph_of s) \<union> F \<and> dom (graph_of S) = dom (graph_of s) \<union> Field F
     \<and> task_queue S = task_queue s \<and> live S = live s"

lemma grown_refl: "grown {} s s"
  by (simp add: grown_def)

lemma grown_trans: "grown F s S \<Longrightarrow> grown G S T \<Longrightarrow> grown (F \<union> G) s T"
  by (auto simp: grown_def Field_Un)

lemma grown_link: "graph_ok Map.empty (graph_of s) \<Longrightarrow> grown {(a, d)} s (addLink a d s)"
  by (auto simp: grown_def edges_addLink dom_addLink addLink_frame)

lemma grown_task: "added b dependency dependent s s' \<Longrightarrow> grown (task_edges dependency (task_counter s) dependent) s s'"
  by (auto simp: grown_def added_def task_edges_def)

definition stage :: "iter \<Rightarrow> NodeID list \<Rightarrow> 'b list \<Rightarrow> nat \<Rightarrow> 'b Scheduler \<Rightarrow> 'b Scheduler \<Rightarrow> bool" where
  "stage it ex bs k s S \<longleftrightarrow> reachable it (S, ex) \<and> grown (op_edges s k) s S
     \<and> task_counter S = tid s k \<and> continuation_counter S = cid s (k + 2)
     \<and> ids (S, ex) = ids (s, ex) + mset (map (tid s) [0..<k])
     \<and> (\<forall>i < k. \<exists>t. map_of (tasks S) (tid s i) = Some t \<and> body t = bs ! i)"

lemma tid_Suc: "tid s (Suc k) = tid s k + 1" "cid s (Suc k) = cid s k + 1"
  by (simp_all add: tid_def cid_def)

lemma reachable_graph: "reachable it (s, ex) \<Longrightarrow> iter_ok it \<Longrightarrow> graph_ok Map.empty (graph_of s) \<and> tasks_ok s"
  using reachable_ok [of it "(s, ex)"] by (simp add: system_ok_def state_ok_def)

lemma stage_step:
  assumes it: "iter_ok it" and rm: "room s n" and st: "stage it ex bs k s S" and k: "k < n" and b: "b = bs ! k"
  shows "\<exists>S1 S2. addTask (Task_new b) (cid s 0) (cid s (k + 2)) (snd (allocateContinuation S)) = Inr (tid s k, S1)
    \<and> S2 = addLink (cid s (k + 2)) (cid s 1) S1 \<and> stage it ex bs (Suc k) s S2"
proof -
  let ?S = "snd (allocateContinuation S)" and ?c = "cid s (k + 2)"
  have S: "reachable it (S, ex)" "grown (op_edges s k) s S" "task_counter S = tid s k" "continuation_counter S = ?c"
    "ids (S, ex) = ids (s, ex) + mset (map (tid s) [0..<k])"
    "\<forall>i < k. \<exists>t. map_of (tasks S) (tid s i) = Some t \<and> body t = bs ! i" using st by (auto simp: stage_def)
  have r0: "reachable it (?S, ex)" by (rule reachable.call [OF S(1) call.allocate])
  have f0: "task_counter ?S = tid s k" "continuation_counter ?S = cid s (Suc k + 2)" "tasks ?S = tasks S" "nodes ?S = nodes S"
    "task_queue ?S = task_queue S" "live ?S = live S" "ids (?S, ex) = ids (S, ex)"
    using S(3,4) tid_Suc(2) [of s "k + 2"] by (simp_all add: allocateContinuation_def live_def ids_def)
  have g0: "grown (op_edges s k) s ?S" using S(2) f0 by (simp add: grown_def)
  have c: "IsContinuation (cid s 0)" "IsContinuation ?c" "IsContinuation (cid s 1)" using IsContinuation_cid [OF rm] k by auto
  obtain S1 where S1: "addTask (Task_new b) (cid s 0) ?c ?S = Inr (tid s k, S1)" "reachable it (S1, ex)"
    "ids (S1, ex) = ids (?S, ex) + {#tid s k#}" "added b (cid s 0) ?c ?S S1"
    using addTask_effect [OF r0 it, of "cid s 0" ?c b] IsTaskID_tid [OF rm, of k] k c f0(1) by auto
  let ?S2 = "addLink ?c (cid s 1) S1"
  have r2: "reachable it (?S2, ex)"
    by (rule reachable.call [OF S1(2) call.add_link]) (use c in \<open>simp_all add: may_precede_def\<close>)
  have "c \<noteq> kInvalidNodeID" if "IsContinuation c" for c using that by (auto simp: IsContinuation_def kInvalidNodeID_def)
  then have te: "task_edges (cid s 0) (tid s k) ?c = {(cid s 0, tid s k), (tid s k, ?c)}" using c(2) by (auto simp: task_edges_def)
  have g1: "grown {(cid s 0, tid s k), (tid s k, ?c)} ?S S1" using grown_task [OF S1(4)] f0(1) te by simp
  have g2: "grown {(?c, cid s 1)} S1 ?S2" using grown_link reachable_graph [OF S1(2) it] by blast
  have "op_edges s (Suc k) = op_edges s k \<union> {(cid s 0, tid s k), (tid s k, ?c)} \<union> {(?c, cid s 1)}"
    unfolding op_edges_def lessThan_Suc by auto
  then have "grown (op_edges s (Suc k)) s ?S2" using grown_trans [OF grown_trans [OF g0 g1] g2] by simp
  moreover have "task_counter ?S2 = tid s (Suc k)" "continuation_counter ?S2 = cid s (Suc k + 2)"
    using S1(4) f0(1,2) tid_Suc(1) [of s k] by (simp_all add: addLink_frame added_def)
  moreover have "ids (?S2, ex) = ids (s, ex) + mset (map (tid s) [0..<Suc k])" using S1(3) S(5) f0(7) by (simp add: addLink_frame)
  moreover have "\<forall>i < Suc k. \<exists>t. map_of (tasks ?S2) (tid s i) = Some t \<and> body t = bs ! i"
    using S1(4) S(6) f0(1,3) b tid_inj [OF rm] k by (auto simp: addLink_frame added_def less_Suc_eq)
  ultimately show ?thesis using S1(1) r2 unfolding stage_def by blast
qed

lemma add_operators_ok:
  assumes it: "iter_ok it" and rm: "room s n"
  shows "stage it ex bs k s S \<Longrightarrow> k + length ops = n \<Longrightarrow> length ts = n \<Longrightarrow> length cs = n
    \<Longrightarrow> (\<forall>i < k. ts ! i = tid s i \<and> cs ! i = cid s (i + 2))
    \<Longrightarrow> (\<forall>j < length ops. op_index (ops ! j) = k + j \<and> op_body (ops ! j) = bs ! (k + j))
    \<Longrightarrow> \<exists>S'. add_operators (cid s 0) (cid s 1) (map Some ops) ts cs S
          = Inr (map (tid s) [0..<n], map (\<lambda>i. cid s (i + 2)) [0..<n], S') \<and> stage it ex bs n s S'"
proof (induction ops arbitrary: k S ts cs)
  case Nil
  then have "ts = map (tid s) [0..<n]" "cs = map (\<lambda>i. cid s (i + 2)) [0..<n]" by (auto intro!: nth_equalityI)
  then show ?case using Nil by auto
next
  case (Cons op ops)
  have k: "k < n" "op_index op = k" "op_body op = bs ! k" using Cons.prems(2,6) by force+
  define S0 where "S0 = snd (allocateContinuation S)"
  obtain S1 S2 where S2: "addTask (Task_new (op_body op)) (cid s 0) (cid s (k + 2)) S0 = Inr (tid s k, S1)"
    "S2 = addLink (cid s (k + 2)) (cid s 1) S1" "stage it ex bs (Suc k) s S2"
    using stage_step [OF it rm Cons.prems(1) k(1,3)] unfolding S0_def by blast
  have a: "allocateContinuation S = (cid s (k + 2), S0)"
    using Cons.prems(1) by (simp add: S0_def allocateContinuation_def stage_def)
  have j: "\<forall>j < length ops. op_index (ops ! j) = Suc k + j \<and> op_body (ops ! j) = bs ! (Suc k + j)"
    using Cons.prems(6) by (metis Suc_less_eq add_Suc_shift length_Cons nth_Cons_Suc)
  from Cons.IH [OF S2(3), of "ts[k := tid s k]" "cs[k := cid s (k + 2)]"] obtain S' where
    "add_operators (cid s 0) (cid s 1) (map Some ops) (ts[k := tid s k]) (cs[k := cid s (k + 2)]) S2
        = Inr (map (tid s) [0..<n], map (\<lambda>i. cid s (i + 2)) [0..<n], S')" "stage it ex bs n s S'"
    using Cons.prems(2-5) k(1) j by (auto simp: nth_list_update less_Suc_eq)
  moreover have "add_operators (cid s 0) (cid s 1) (map Some (op # ops)) ts cs S
      = add_operators (cid s 0) (cid s 1) (map Some ops) (ts[k := tid s k]) (cs[k := cid s (k + 2)]) S2"
    using S2(1,2) k Cons.prems(3,4) by (simp add: a createTask_def store_at_def Let_def)
  ultimately show ?case by simp
qed

lemma add_links_ok:
  assumes it: "iter_ok it" and rm: "room s n"
  shows "reachable it (S, ex) \<Longrightarrow> (\<forall>i < n. tid s i \<in> dom (map_of (tasks S))) \<Longrightarrow> set ls \<subseteq> {..<n} \<times> {..<n}
    \<Longrightarrow> \<exists>S'. add_links (map (tid s) [0..<n]) (map (\<lambda>i. cid s (i + 2)) [0..<n]) ls S = Inr S' \<and> reachable it (S', ex)
        \<and> grown (link_edges s (set ls)) S S' \<and> tasks S' = tasks S \<and> task_counter S' = task_counter S \<and> ids (S', ex) = ids (S, ex)"
proof (induction ls arbitrary: S)
  case Nil
  then show ?case using grown_refl by (simp add: link_edges_def)
next
  case (Cons l ls)
  obtain a b where l: "l = (a, b)" by (cases l)
  then have ab: "a < n" "b < n" using Cons.prems(3) by auto
  let ?S = "addLink (cid s (a + 2)) (tid s b) S"
  have c: "IsContinuation (cid s (a + 2))" using IsContinuation_cid [OF rm] ab by simp
  have r: "reachable it (?S, ex)"
    by (rule reachable.call [OF Cons.prems(1) call.add_link]) (use c Cons.prems(2) ab in \<open>simp_all add: may_precede_def\<close>)
  obtain S' where S': "add_links (map (tid s) [0..<n]) (map (\<lambda>i. cid s (i + 2)) [0..<n]) ls ?S = Inr S'" "reachable it (S', ex)"
    "grown (link_edges s (set ls)) ?S S'" "tasks S' = tasks ?S" "task_counter S' = task_counter ?S" "ids (S', ex) = ids (?S, ex)"
    using Cons.IH [OF r] Cons.prems(2,3) by (auto simp: addLink_frame)
  have "grown {(cid s (a + 2), tid s b)} S ?S" using grown_link reachable_graph [OF Cons.prems(1) it] by blast
  from grown_trans [OF this S'(3)] have "grown (link_edges s (set (l # ls))) S S'" by (simp add: l link_edges_def)
  moreover have "add_links (map (tid s) [0..<n]) (map (\<lambda>i. cid s (i + 2)) [0..<n]) (l # ls) S = Inr S'"
    using S'(1) ab by (simp add: l fetch_def)
  ultimately show ?case using S'(2,4-6) by (simp add: addLink_frame)
qed

section \<open>After the entry was fired\<close>

lemma waits_edges: "graph_ok Map.empty m \<Longrightarrow> waits m x \<longleftrightarrow> (\<exists>a. (a, x) \<in> edges m)"
proof -
  assume g: "graph_ok Map.empty m"
  have "finite (preds Map.empty m x)" using g by (auto simp: preds_def graph_ok_def)
  moreover have "waits m x \<longleftrightarrow> 0 < card (preds Map.empty m x)" using g unfolding graph_ok_nd waits_nd by simp
  moreover have "preds Map.empty m x = {a. (a, x) \<in> edges m}" by (auto simp: preds_def edges_def)
  ultimately show ?thesis by (auto simp: card_gt_0_iff)
qed

lemma stored_edges: "reachable it (s, ex) \<Longrightarrow> iter_ok it \<Longrightarrow> IsTaskID i \<Longrightarrow>
    i \<in> dom (map_of (tasks s)) \<longleftrightarrow> (\<exists>a. (a, i) \<in> edges (graph_of s))"
  using reachable_graph [of it s ex] waits_edges waits_tasks by blast

lemma released_edges_eq:
  assumes "released ts s s'"
  shows "(a, d) \<in> edges (graph_of s') \<longleftrightarrow> a \<in> dom (graph_of s') \<and> (a, d) \<in> edges (graph_of s)"
proof (cases "graph_of s' a")
  case (Some nd')
  then obtain nd where "graph_of s a = Some nd" "dependents nd' = dependents nd" using assms unfolding released_def by blast
  then show ?thesis using Some by (auto simp: edges_deps eff_def)
qed (simp add: edges_deps eff_def domIff)

text \<open>The ids of a plan are new, and the continuation of its task is older than they are.\<close>

definition fresh_conts :: "'b Scheduler \<Rightarrow> bool" where
  "fresh_conts s \<longleftrightarrow> (\<forall>c \<in> dom (graph_of s). IsContinuation c \<longrightarrow> c < continuation_counter s)"

definition ctx_ok :: "'b Task \<Rightarrow> 'b Scheduler \<Rightarrow> bool" where
  "ctx_ok ctx s \<longleftrightarrow> has_scheduler ctx
     \<and> (continuation ctx = kInvalidNodeID \<or> IsContinuation (continuation ctx) \<and> continuation ctx < continuation_counter s)"

definition plan_edges :: "'b Scheduler \<Rightarrow> nat \<Rightarrow> (nat \<times> nat) set \<Rightarrow> NodeID \<Rightarrow> (NodeID \<times> NodeID) set" where
  "plan_edges s n L c = op_edges s n \<union> link_edges s L \<union> task_edges (cid s 1) (tid s n) c"

definition level :: "'b Scheduler \<Rightarrow> nat \<Rightarrow> NodeID \<Rightarrow> NodeID \<Rightarrow> nat \<times> nat \<times> nat \<times> NodeID" where
  "level s n c x =
    (if x \<in> dom (graph_of s) \<or> x = c then (4, 0, 0, x)
     else if IsTaskID x then let i = unat x - unat (task_counter s) in if i < n then (1, i, 0, x) else (3, 0, 0, x)
     else let j = unat x - unat (continuation_counter s) in
       if j = 0 then (0, 0, 0, x) else if j = 1 then (2, 0, 0, x) else (1, j - 2, 1, x))"

definition plan_ready :: "iter \<Rightarrow> NodeID list \<Rightarrow> nat \<Rightarrow> NodeID \<Rightarrow> 'b Scheduler \<Rightarrow> bool" where
  "plan_ready it ex n c s \<longleftrightarrow> reachable it (s, ex) \<and> iter_ok it \<and> room s n \<and> fresh_conts s
     \<and> (c = kInvalidNodeID \<or> IsContinuation c \<and> c < continuation_counter s)"

lemma plan_readyD:
  assumes "plan_ready it ex n c s"
  shows "reachable it (s, ex)" "iter_ok it" "room s n" "fresh_conts s" "c = kInvalidNodeID \<or> IsContinuation c \<and> c < continuation_counter s"
  using assms by (auto simp: plan_ready_def)

lemma tid_new:
  assumes pr: "plan_ready it ex n c s" and i: "i \<le> n"
  shows "tid s i \<notin> dom (graph_of s) \<and> tid s i \<noteq> c \<and> tid s i \<noteq> kInvalidNodeID"
proof -
  note r = plan_readyD(1,2) [OF pr] and rm = plan_readyD(3) [OF pr] and fr = plan_readyD(4) [OF pr] and c = plan_readyD(5) [OF pr]
  have S: "system_ok (s, ex)" using reachable_ok [OF r] .
  then have "task_counter s \<noteq> 0" by (simp add: system_ok_def ids_ok_def)
  then have "0 < unat (tid s i)" "unat (task_counter s) \<le> unat (tid s i)" using unat_tid [OF rm i] by (simp_all add: unat_gt_0)
  then have t: "tid s i \<noteq> kInvalidNodeID" "\<not> tid s i < task_counter s" by (auto simp: kInvalidNodeID_def word_less_nat_alt)
  then show ?thesis using S IsTaskID_tid [OF rm i] c by (auto simp: system_ok_def nodes_ok_def IsTaskID_def)
qed

lemma cid_new:
  assumes pr: "plan_ready it ex n c s" and i: "i \<le> Suc n"
  shows "cid s i \<notin> dom (graph_of s) \<and> cid s i \<noteq> c \<and> cid s i \<noteq> kInvalidNodeID"
proof -
  note r = plan_readyD(1,2) [OF pr] and rm = plan_readyD(3) [OF pr] and fr = plan_readyD(4) [OF pr] and c = plan_readyD(5) [OF pr]
  have "\<not> cid s i < continuation_counter s" using unat_cid [OF rm i] by (simp add: word_less_nat_alt)
  moreover have "cid s i \<noteq> kInvalidNodeID" using IsContinuation_cid [OF rm i] by (auto simp: IsContinuation_def kInvalidNodeID_def)
  ultimately show ?thesis using fr c IsContinuation_cid [OF rm i] by (auto simp: fresh_conts_def)
qed

lemma cid_tid: "room s n \<Longrightarrow> i \<le> Suc n \<Longrightarrow> j \<le> n \<Longrightarrow> cid s i \<noteq> tid s j"
  using IsContinuation_cid IsTaskID_tid by (metis IsTaskID_def)

lemma levels:
  assumes pr: "plan_ready it ex n c s"
  shows "i < n \<Longrightarrow> level s n c (tid s i) = (1, i, 0, tid s i)" "level s n c (tid s n) = (3, 0, 0, tid s n)"
  "level s n c (cid s 0) = (0, 0, 0, cid s 0)" "level s n c (cid s 1) = (2, 0, 0, cid s 1)"
  "i < n \<Longrightarrow> level s n c (cid s (i + 2)) = (1, i, 1, cid s (i + 2))"
  "x \<in> dom (graph_of s) \<or> x = c \<Longrightarrow> level s n c x = (4, 0, 0, x)"
proof -
  note r = plan_readyD(1,2) [OF pr] and rm = plan_readyD(3) [OF pr] and fr = plan_readyD(4) [OF pr] and c = plan_readyD(5) [OF pr]
  have t: "IsTaskID (tid s i)" "unat (tid s i) - unat (task_counter s) = i" if "i \<le> n" for i
    using IsTaskID_tid [OF rm that] unat_tid [OF rm that] by simp_all
  have k: "\<not> IsTaskID (cid s i)" "unat (cid s i) - unat (continuation_counter s) = i" if "i \<le> Suc n" for i
    using IsContinuation_cid [OF rm that] unat_cid [OF rm that] by (simp_all add: IsTaskID_def)
  show "i < n \<Longrightarrow> level s n c (tid s i) = (1, i, 0, tid s i)" "level s n c (tid s n) = (3, 0, 0, tid s n)"
    using t tid_new [OF pr] by (simp_all add: level_def)
  show "level s n c (cid s 0) = (0, 0, 0, cid s 0)" "level s n c (cid s 1) = (2, 0, 0, cid s 1)"
    "i < n \<Longrightarrow> level s n c (cid s (i + 2)) = (1, i, 1, cid s (i + 2))"
    using k cid_new [OF pr] by (simp_all add: level_def)
  show "x \<in> dom (graph_of s) \<or> x = c \<Longrightarrow> level s n c x = (4, 0, 0, x)" by (simp add: level_def)
qed

lemma plan_acyclic:
  assumes pr: "plan_ready it ex n c s" and L: "L \<subseteq> {..<n} \<times> {..<n}" "acyclic L" and E: "acyclic (edges (graph_of s))"
  shows "acyclic (edges (graph_of s) \<union> plan_edges s n L c)"
proof -
  note r = plan_readyD(1,2) [OF pr] and rm = plan_readyD(3) [OF pr] and fr = plan_readyD(4) [OF pr] and c = plan_readyD(5) [OF pr]
  note lv = levels [OF pr]
  have g: "graph_ok Map.empty (graph_of s)" using reachable_graph [OF r] by blast
  have ed: "edges (graph_of s) \<subseteq> dom (graph_of s) \<times> dom (graph_of s)" using edges_dom [OF g] .
  have "finite (edges (graph_of s))" by (rule finite_subset [OF ed]) (simp add: finite_dom_map_of)
  moreover have "finite L" by (rule finite_subset [OF L(1)]) simp
  ultimately have w: "wf (edges (graph_of s))" "wf L" using E L(2) finite_acyclic_wf by blast+
  let ?R = "less_than <*lex*> (L <*lex*> (less_than <*lex*> edges (graph_of s)))"
  have "edges (graph_of s) \<union> plan_edges s n L c \<subseteq> inv_image ?R (level s n c)"
  proof (rule subsetI)
    fix e assume e: "e \<in> edges (graph_of s) \<union> plan_edges s n L c"
    obtain x y where xy: "e = (x, y)" by (cases e)
    from e consider "(x, y) \<in> edges (graph_of s)"
      | i where "i < n" "(x, y) \<in> {(cid s 0, tid s i), (tid s i, cid s (i + 2)), (cid s (i + 2), cid s 1)}"
      | a b where "(a, b) \<in> L" "x = cid s (a + 2)" "y = tid s b" | "x = cid s 1" "y = tid s n" | "x = tid s n" "y = c"
      unfolding xy plan_edges_def op_edges_def link_edges_def task_edges_def by (auto split: if_splits)
    then show "e \<in> inv_image ?R (level s n c)"
    proof cases
      case 1
      then have "x \<in> dom (graph_of s)" "y \<in> dom (graph_of s)" using ed by auto
      then show ?thesis using 1 lv(6) [of x] lv(6) [of y] by (simp add: xy)
    next
      case (2 i)
      then show ?thesis using lv(1) [of i] lv(5) [of i] lv(3,4) by (auto simp: xy)
    next
      case (3 a b)
      then show ?thesis using L(1) lv(1) [of b] lv(5) [of a] by (auto simp: xy)
    next
      case 4
      then show ?thesis using lv(2,4) by (simp add: xy)
    next
      case 5
      then show ?thesis using lv(2) lv(6) [of c] by (simp add: xy)
    qed
  qed
  moreover have "wf (inv_image ?R (level s n c))" using w by (intro wf_inv_image wf_lex_prod wf_less_than)
  ultimately show ?thesis using wf_subset wf_acyclic by blast
qed

lemma plan_targets:
  assumes pr: "plan_ready it ex n c s" and L: "L \<subseteq> {..<n} \<times> {..<n}"
  shows "(x, cid s 0) \<notin> edges (graph_of s) \<union> plan_edges s n L c"
    "i < n \<Longrightarrow> (x, tid s i) \<in> edges (graph_of s) \<union> plan_edges s n L c \<longleftrightarrow> x = cid s 0 \<or> (\<exists>a. (a, i) \<in> L \<and> x = cid s (a + 2))"
proof -
  note r = plan_readyD(1,2) [OF pr] and rm = plan_readyD(3) [OF pr] and fr = plan_readyD(4) [OF pr] and c = plan_readyD(5) [OF pr]
  note tn = tid_new [OF pr] and cn = cid_new [OF pr] and ct = cid_tid [OF rm]
  have g: "graph_ok Map.empty (graph_of s)" using reachable_graph [OF r] by blast
  have ed: "(a, b) \<in> edges (graph_of s) \<Longrightarrow> b \<in> dom (graph_of s)" for a b using edges_dom [OF g] by auto
  have "(x, cid s 0) \<notin> edges (graph_of s)" using ed [of x "cid s 0"] cn [of 0] by auto
  moreover have "(x, cid s 0) \<notin> op_edges s n"
    using ct [of 0] cid_inj [OF rm, of 0] by (auto simp: op_edges_def)
  moreover have "(x, cid s 0) \<notin> link_edges s L"
  proof
    assume "(x, cid s 0) \<in> link_edges s L"
    then obtain a b where "(a, b) \<in> L" "cid s 0 = tid s b" by (auto simp: link_edges_def)
    moreover from this have "b < n" using L by auto
    ultimately show False using ct [of 0 b] by simp
  qed
  moreover have "(x, cid s 0) \<notin> task_edges (cid s 1) (tid s n) c" using ct [of 0 n] cn [of 0] by (auto simp: task_edges_def)
  ultimately show "(x, cid s 0) \<notin> edges (graph_of s) \<union> plan_edges s n L c" by (simp add: plan_edges_def)
  show "(x, tid s i) \<in> edges (graph_of s) \<union> plan_edges s n L c \<longleftrightarrow> x = cid s 0 \<or> (\<exists>a. (a, i) \<in> L \<and> x = cid s (a + 2))" if i: "i < n"
  proof -
    have o: "(x, tid s i) \<notin> edges (graph_of s)" using ed [of x "tid s i"] tn [of i] i by auto
    have op: "(x, tid s i) \<in> op_edges s n \<longleftrightarrow> x = cid s 0"
      unfolding op_edges_def using tid_inj [OF rm, of i] ct [of _ i] i by (auto dest: sym)
    have "tid s i = tid s b \<longleftrightarrow> i = b" if "(a, b) \<in> L" for a b using that L i tid_inj [OF rm, of i b] by auto
    moreover have "(x, tid s i) \<in> link_edges s L \<longleftrightarrow> (\<exists>a b. (a, b) \<in> L \<and> x = cid s (a + 2) \<and> tid s i = tid s b)"
      by (auto simp: link_edges_def)
    ultimately have lk: "(x, tid s i) \<in> link_edges s L \<longleftrightarrow> (\<exists>a. (a, i) \<in> L \<and> x = cid s (a + 2))" by blast
    have tk: "(x, tid s i) \<notin> task_edges (cid s 1) (tid s n) c"
      using tid_inj [OF rm, of i n] tn [of i] i by (auto simp: task_edges_def)
    show ?thesis using o op lk tk by (simp add: plan_edges_def)
  qed
qed

lemma execute_prepare:
  fixes p :: "('b, 'r, 'c) ExecutionPlan"
  assumes pr: "plan_ready it ex n c s" and ctx: "has_scheduler ctx" "continuation ctx = c" and od: "order_ok ord"
    and p: "plan_ok p" "n = length (operators p)"
  shows "\<exists>S. execute_plan it ord fin ctx p s = bind_opt (fire it (cid s 0) S) (\<lambda>s. Some (Inr (p\<lparr>operators := []\<rparr>, s)))
    \<and> reachable it (S, ex) \<and> grown (plan_edges s n (links p) c) s S
    \<and> ids (S, ex) = ids (s, ex) + mset (map (tid s) [0..<Suc n])
    \<and> (\<forall>i < n. \<exists>t op. map_of (tasks S) (tid s i) = Some t \<and> operators p ! i = Some op \<and> body t = op_body op)"
proof -
  note it = plan_readyD(2) [OF pr] and rm = plan_readyD(3) [OF pr]
  define ops where "ops = map the (operators p)"
  have ops: "operators p = map Some ops" "length ops = n" "\<forall>j < n. op_index (ops ! j) = j"
    using p by (auto simp: ops_def plan_ok_def numbered_def intro!: nth_equalityI)
  let ?bs = "map op_body ops"
  define s2 where "s2 = s\<lparr>continuation_counter := cid s 2\<rparr>"
  have a1: "allocateContinuation s = (cid s 0, s\<lparr>continuation_counter := cid s 1\<rparr>)"
    "allocateContinuation (s\<lparr>continuation_counter := cid s 1\<rparr>) = (cid s 1, s2)"
    by (simp_all add: allocateContinuation_def cid_def s2_def)
  have r2: "reachable it (s2, ex)"
    using reachable.call [OF reachable.call [OF plan_readyD(1) [OF pr] call.allocate] call.allocate] unfolding a1 snd_conv .
  have "stage it ex ?bs 0 s s2"
    using r2 by (simp add: stage_def grown_def op_edges_def s2_def live_def ids_def tid_def numeral_2_eq_2)
  from add_operators_ok [OF it rm this, of ops "replicate n 0" "replicate n 0"] ops obtain S1 where
    S1: "add_operators (cid s 0) (cid s 1) (operators p) (replicate n 0) (replicate n 0) s2
          = Inr (map (tid s) [0..<n], map (\<lambda>i. cid s (i + 2)) [0..<n], S1)" "stage it ex ?bs n s S1" by auto
  have S1': "reachable it (S1, ex)" "grown (op_edges s n) s S1" "task_counter S1 = tid s n"
    "ids (S1, ex) = ids (s, ex) + mset (map (tid s) [0..<n])"
    "\<forall>i < n. \<exists>t. map_of (tasks S1) (tid s i) = Some t \<and> body t = ?bs ! i" using S1(2) by (auto simp: stage_def)
  let ?ls = "ord (plan_links (plan_dependents p))"
  have ls: "set ?ls = links p" "set ?ls \<subseteq> {..<n} \<times> {..<n}" using od p by (auto simp: order_ok_def links_def plan_ok_def)
  have "\<forall>i < n. tid s i \<in> dom (map_of (tasks S1))" using S1'(5) by blast
  from add_links_ok [OF it rm S1'(1) this ls(2)] obtain S2 where
    S2: "add_links (map (tid s) [0..<n]) (map (\<lambda>i. cid s (i + 2)) [0..<n]) ?ls S1 = Inr S2" "reachable it (S2, ex)"
      "grown (link_edges s (links p)) S1 S2" "tasks S2 = tasks S1" "task_counter S2 = task_counter S1" "ids (S2, ex) = ids (S1, ex)"
    unfolding ls(1) by blast
  have c: "c = kInvalidNodeID \<or> IsContinuation c" using plan_readyD(5) [OF pr] by blast
  have tn: "IsTaskID (task_counter S2)" "IsContinuation (cid s 1)" using IsTaskID_tid [OF rm] IsContinuation_cid [OF rm] S2(5) S1'(3) by simp_all
  obtain S where S: "addTask (Task_new fin) (cid s 1) c S2 = Inr (task_counter S2, S)" "reachable it (S, ex)"
    "ids (S, ex) = ids (S2, ex) + {#task_counter S2#}" "added fin (cid s 1) c S2 S"
    using addTask_effect [OF S2(2) it tn c] by blast
  have "execute_plan it ord fin ctx p s = bind_opt (fire it (cid s 0) S) (\<lambda>s. Some (Inr (p\<lparr>operators := []\<rparr>, s)))"
    using ctx S1(1) S2(1) S(1) p(2) by (simp add: execute_plan_def a1 [unfolded One_nat_def] getContinuation_def)
  moreover have "grown (plan_edges s n (links p) c) s S"
    using grown_trans [OF grown_trans [OF S1'(2) S2(3)] grown_task [OF S(4)]] S2(5) S1'(3) by (simp add: plan_edges_def)
  moreover have "ids (S, ex) = ids (s, ex) + mset (map (tid s) [0..<Suc n])" using S(3) S2(5,6) S1'(3,4) by simp
  moreover have "\<forall>i < n. \<exists>t op. map_of (tasks S) (tid s i) = Some t \<and> operators p ! i = Some op \<and> body t = op_body op"
    using S(4) S2(4,5) S1'(3,5) tid_inj [OF rm] ops(1,2) by (auto simp: added_def)
  ultimately show ?thesis using S(2) by blast
qed

lemma plan_waiting:
  assumes pr: "plan_ready it ex n c s" and L: "L \<subseteq> {..<n} \<times> {..<n}" and g: "grown (plan_edges s n L c) s S" "graph_ok Map.empty (graph_of S)"
    and st: "settled s" and n: "0 < n" and k: "k \<in> dom (graph_of S)" "IsContinuation k" "k \<noteq> cid s 0"
  shows "waits (graph_of S) k"
proof -
  have e: "edges (graph_of S) = edges (graph_of s) \<union> plan_edges s n L c" "dom (graph_of S) = dom (graph_of s) \<union> Field (plan_edges s n L c)"
    using g(1) by (simp_all add: grown_def)
  note tt = IsTaskID_tid [OF plan_readyD(3) [OF pr]]
  have nt: "k \<noteq> tid s i" if "i \<le> n" for i using k(2) tt [OF that] by (auto simp: IsTaskID_def)
  have op: "(tid s i, cid s (i + 2)) \<in> plan_edges s n L c" "(cid s (i + 2), cid s 1) \<in> plan_edges s n L c" if "i < n" for i
    using that by (auto simp: plan_edges_def op_edges_def)
  have "\<exists>a. (a, k) \<in> edges (graph_of S)"
  proof (cases "k \<in> dom (graph_of s)")
    case True
    then have "waits (graph_of s) k" using st k(2) by (simp add: settled_def)
    then show ?thesis using waits_edges reachable_graph [OF plan_readyD(1,2) [OF pr]] unfolding e by blast
  next
    case False
    then have f: "k \<in> Field (plan_edges s n L c)" using k(1) e(2) by blast
    consider (range) a where "(a, k) \<in> plan_edges s n L c" | (source) b where "(k, b) \<in> plan_edges s n L c" using f by (auto simp: Field_def)
    then show ?thesis
    proof cases
      case range
      then show ?thesis unfolding e by blast
    next
      case source
      from source consider i where "i < n" "k = cid s (i + 2)" | "k = cid s 1"
        unfolding plan_edges_def op_edges_def link_edges_def task_edges_def using nt k(3) L by (auto split: if_splits)
      then show ?thesis using op op(2) [OF n] unfolding e by cases blast+
    qed
  qed
  then show ?thesis using waits_edges [OF g(2)] by blast
qed

text \<open>What firing the entry leaves of the graph of a plan.\<close>

lemma plan_fired:
  assumes pr: "plan_ready it ex n c s" and L: "L \<subseteq> {..<n} \<times> {..<n}" and n: "0 < n"
    and S: "reachable it (S, ex)" "grown (plan_edges s n L c) s S"
    and f: "released ts S s'" "keeps {cid s 0} S s'" "graph_of s' (cid s 0) = None" "reachable it (s', ex)"
  shows "i < n \<Longrightarrow> (tid s i, cid s (i + 2)) \<in> edges (graph_of s')"
    "(a, b) \<in> L \<Longrightarrow> (cid s (a + 2), tid s b) \<in> edges (graph_of s')"
    "i < n \<Longrightarrow> tid s i \<in> dom (map_of (tasks s')) \<longleftrightarrow> (\<exists>a. (a, i) \<in> L)"
    "tid s n \<in> dom (map_of (tasks s'))"
proof -
  note it = plan_readyD(2) [OF pr] and rm = plan_readyD(3) [OF pr] and ee = released_edges_eq [OF f(1)]
  note g = reachable_graph [OF S(1) it] and gs = reachable_graph [OF f(4) it]
  have eS: "edges (graph_of S) = edges (graph_of s) \<union> plan_edges s n L c" using S(2) by (simp add: grown_def)
  have op: "{(cid s 0, tid s i), (tid s i, cid s (i + 2)), (cid s (i + 2), cid s 1)} \<subseteq> edges (graph_of S)" if "i < n" for i
    using that unfolding eS by (auto simp: plan_edges_def op_edges_def)
  show c1: "(tid s i, cid s (i + 2)) \<in> edges (graph_of s')" if i: "i < n" for i
  proof -
    have "tid s i \<in> dom (graph_of S)" using op [OF i] edges_dom g by blast
    moreover have "tid s i \<noteq> cid s 0" using cid_tid [OF rm, of 0 i] i by simp
    ultimately have "tid s i \<in> dom (graph_of s')" using f(2) IsTaskID_tid [OF rm, of i] i by (auto simp: keeps_def)
    then show ?thesis using op [OF i] unfolding ee by blast
  qed
  have cdom: "cid s (i + 2) \<in> dom (graph_of s')" if "i < n" for i using c1 [OF that] edges_dom gs by blast
  show c2: "(cid s (a + 2), tid s b) \<in> edges (graph_of s')" if "(a, b) \<in> L" for a b
    unfolding ee using cdom [of a] that L unfolding eS by (auto simp: plan_edges_def link_edges_def)
  show "tid s i \<in> dom (map_of (tasks s')) \<longleftrightarrow> (\<exists>a. (a, i) \<in> L)" if i: "i < n" for i
  proof -
    have "tid s i \<in> dom (map_of (tasks s')) \<longleftrightarrow> (\<exists>x. (x, tid s i) \<in> edges (graph_of s'))"
      using stored_edges [OF f(4) it] IsTaskID_tid [OF rm] i by simp
    also have "\<dots> \<longleftrightarrow> (\<exists>a. (a, i) \<in> L)"
      using plan_targets(2) [OF pr L i] f(3) c2 unfolding ee eS by (metis domIff option.distinct(1))
    finally show ?thesis .
  qed
  have "(cid s (0 + 2), cid s 1) \<in> edges (graph_of s')" using op [OF n] cdom [OF n] unfolding ee by blast
  then have "cid s 1 \<in> dom (graph_of s')" using edges_dom gs by blast
  then have "(cid s 1, tid s n) \<in> edges (graph_of s')" unfolding ee eS by (auto simp: plan_edges_def task_edges_def)
  then show "tid s n \<in> dom (map_of (tasks s'))" using stored_edges [OF f(4) it IsTaskID_tid [OF rm]] by blast
qed

lemma plan_settled:
  assumes pr: "plan_ready it ex n c s" and L: "L \<subseteq> {..<n} \<times> {..<n}" "acyclic L" and n: "0 < n"
    and S: "reachable it (S, ex)" "grown (plan_edges s n L c) s S" and st: "settled s"
    and f: "released ts S s'" "still_waits S s'" "graph_of s' (cid s 0) = None"
  shows "settled s'"
proof -
  have g: "graph_ok Map.empty (graph_of S)" using reachable_graph [OF S(1) plan_readyD(2) [OF pr]] by blast
  have "edges (graph_of S) = edges (graph_of s) \<union> plan_edges s n L c" using S(2) by (simp add: grown_def)
  then have "acyclic (edges (graph_of S))" using plan_acyclic [OF pr L] st by (simp add: settled_def)
  then have "acyclic (edges (graph_of s'))" using released_edges [OF f(1)] acyclic_subset by blast
  moreover have "waits (graph_of s') k" if k: "k \<in> dom (graph_of s')" "IsContinuation k" for k
  proof -
    have "k \<in> dom (graph_of S)" "k \<noteq> cid s 0" using released_dom [OF f(1)] k(1) f(3) by auto
    then have "waits (graph_of S) k" using plan_waiting [OF pr L(1) S(2) g st n _ k(2)] by blast
    then show ?thesis using f(2) k unfolding still_waits_def by blast
  qed
  ultimately show ?thesis by (simp add: settled_def)
qed

lemma released_queue:
  assumes "released ts S s'" "map_of (tasks S) i = Some t" "i \<notin> dom (map_of (tasks s'))"
  shows "t \<in> set (task_queue s') \<and> task_id t = i"
proof -
  have "i \<in> task_id ` set ts" using assms by (auto simp: released_def restrict_map_def domIff split: if_splits)
  then obtain u where u: "u \<in> set ts" "task_id u = i" by auto
  then have "map_of (tasks S) i = Some u" using assms(1) by (auto simp: released_def list_all_iff)
  then show ?thesis using assms(2) u released_frame(1) [OF assms(1)] by simp
qed

text \<open>A plan that is run: the state after \<open>execute\<close>.\<close>

definition plan_started :: "('b, 'r, 'c) ExecutionPlan \<Rightarrow> nat \<Rightarrow> 'b Scheduler \<Rightarrow> 'b Scheduler \<Rightarrow> bool" where
  "plan_started p n s s' \<longleftrightarrow>
     (\<forall>(a, b) \<in> links p. (tid s a, cid s (a + 2)) \<in> edges (graph_of s') \<and> (cid s (a + 2), tid s b) \<in> edges (graph_of s'))
   \<and> (\<forall>i < n. if \<exists>a. (a, i) \<in> links p then tid s i \<in> dom (map_of (tasks s'))
        else \<exists>t op. t \<in> set (task_queue s') \<and> task_id t = tid s i \<and> operators p ! i = Some op \<and> body t = op_body op)
   \<and> tid s n \<in> dom (map_of (tasks s'))"

lemma execute_plan_ok:
  fixes p :: "('b, 'r, 'c) ExecutionPlan"
  assumes pr: "plan_ready it ex n c s" and ctx: "has_scheduler ctx" "continuation ctx = c" and od: "order_ok ord"
    and p: "plan_ok p" "n = length (operators p)" and n: "0 < n"
  shows "\<exists>s'. execute_plan it ord fin ctx p s = Some (Inr (p\<lparr>operators := []\<rparr>, s')) \<and> reachable it (s', ex)
    \<and> ids (s', ex) = ids (s, ex) + mset (map (tid s) [0..<Suc n]) \<and> plan_started p n s s'
    \<and> (settled s \<and> acyclic (links p) \<longrightarrow> settled s')"
proof -
  note it = plan_readyD(2) [OF pr] and rm = plan_readyD(3) [OF pr]
  have L: "links p \<subseteq> {..<n} \<times> {..<n}" using p by (simp add: plan_ok_def)
  obtain S where S: "execute_plan it ord fin ctx p s = bind_opt (fire it (cid s 0) S) (\<lambda>s. Some (Inr (p\<lparr>operators := []\<rparr>, s)))"
    "reachable it (S, ex)" "grown (plan_edges s n (links p) c) s S" "ids (S, ex) = ids (s, ex) + mset (map (tid s) [0..<Suc n])"
    "\<forall>i < n. \<exists>t op. map_of (tasks S) (tid s i) = Some t \<and> operators p ! i = Some op \<and> body t = op_body op"
    using execute_prepare [OF pr ctx od p] by blast
  have g: "graph_ok Map.empty (graph_of S)" "state_ok Map.empty S" using reachable_graph [OF S(2) it] by (auto simp: state_ok_def)
  have w0: "\<not> waits (graph_of S) (cid s 0)"
    unfolding waits_edges [OF g(1)] using S(3) plan_targets(1) [OF pr L] by (auto simp: grown_def)
  from processDependents_ok [OF it g(2) w0] obtain s' ts where
    f: "fire it (cid s 0) S = Some (Inr s')" and rl: "released ts S s'" and sw: "still_waits S s'" and kp: "keeps {cid s 0} S s'"
      and gone: "graph_of s' (cid s 0) = None" unfolding fire_def by blast
  have rs: "reachable it (s', ex)" using reachable.call [OF S(2) call.fire [OF f IsContinuation_cid [OF rm] w0]] by simp
  note pf = plan_fired [OF pr L n S(2,3) rl kp gone rs]
  have "\<exists>t op. t \<in> set (task_queue s') \<and> task_id t = tid s i \<and> operators p ! i = Some op \<and> body t = op_body op"
    if "i < n" "\<not> (\<exists>a. (a, i) \<in> links p)" for i
    using that S(5) released_queue [OF rl] pf(3) by blast
  then have "plan_started p n s s'" unfolding plan_started_def using pf L by (auto split: if_splits)
  then show ?thesis using S(1,4) f rs released_ids [OF rl] plan_settled [OF pr L _ n S(2,3) _ rl sw gone] by fastforce
qed

section \<open>Order along a run\<close>

definition before :: "'a \<Rightarrow> 'a \<Rightarrow> 'a list \<Rightarrow> bool" where
  "before x y xs \<longleftrightarrow> (\<exists>us vs. xs = us @ vs \<and> x \<in> set us \<and> y \<in> set vs)"

definition sequenced :: "NodeID \<Rightarrow> NodeID \<Rightarrow> NodeID \<Rightarrow> 'b system \<Rightarrow> bool" where
  "sequenced x k y S \<longleftrightarrow> (let (s, ex) = S in
     ((x, k) \<in> edges (graph_of s) \<and> (k, y) \<in> edges (graph_of s) \<or> x \<in> set ex) \<and> (y \<in> set ex \<longrightarrow> before x y ex))"

lemma before_snoc: "x \<in> set xs \<Longrightarrow> before x y (xs @ [y])"
  unfolding before_def by (intro exI [of _ xs] exI [of _ "[y]"]) simp

lemma before_append: "before x y xs \<Longrightarrow> before x y (xs @ ys)"
  unfolding before_def by (metis Un_iff append.assoc set_append)

text \<open>A walk over dependents that does not start at \<open>x\<close> keeps a chain through \<open>x\<close>.\<close>

lemma released_chain:
  assumes rl: "released ts s s'" and kp: "keeps {n} s s'" and g: "graph_ok Map.empty (graph_of s)" "graph_ok Map.empty (graph_of s')"
    and x: "IsTaskID x" "x \<noteq> n" and e: "(x, k) \<in> edges (graph_of s)" "(k, y) \<in> edges (graph_of s)"
  shows "(x, k) \<in> edges (graph_of s') \<and> (k, y) \<in> edges (graph_of s')"
proof -
  have "x \<in> dom (graph_of s)" using e(1) edges_dom [OF g(1)] by blast
  then have "x \<in> dom (graph_of s')" using kp x by (auto simp: keeps_def)
  then have "(x, k) \<in> edges (graph_of s')" using e(1) released_edges_eq [OF rl] by blast
  moreover from this have "k \<in> dom (graph_of s')" using edges_dom [OF g(2)] by blast
  ultimately show ?thesis using e(2) released_edges_eq [OF rl] by blast
qed

lemma completion_ok:
  assumes it: "iter_ok it" and S: "system_ok (s, ex)" and m: "scheduler_msg_queue s = kTaskCompletion w i # q"
  shows "\<exists>s1 ts. processDependents it i (s\<lparr>scheduler_msg_queue := q\<rparr>) = Some (Inr s1) \<and> released ts (s\<lparr>scheduler_msg_queue := q\<rparr>) s1
    \<and> keeps {i} (s\<lparr>scheduler_msg_queue := q\<rparr>) s1 \<and> state_ok Map.empty s1 \<and> i \<in> set ex"
proof -
  let ?s = "s\<lparr>scheduler_msg_queue := q\<rparr>"
  have S0: "state_ok Map.empty s" "ids_ok (s, ex)" using S by (auto simp: system_ok_def)
  have "ids (?s, ex) = ids (s, ex)" by (simp add: ids_def)
  then have S': "state_ok Map.empty ?s" "ids_ok (?s, ex)" using S0 m by (simp_all add: state_ok_def tasks_ok_def ids_ok_def)
  have i: "i \<in> set ex" using S0 m by (auto simp: ids_ok_def)
  then show ?thesis using processDependents_ok [OF it S'(1)] not_waiting [OF S'] by blast
qed

lemma worker_turn_task:
  assumes "worker_turn w s = Some (Inr (Some t, True, s'))"
  shows "w < length (workers s)" "WorkerTaskMessage t \<in> set (workers s ! w)" "nodes s' = nodes s"
  using assms by (auto simp: worker_turn_def popOne_def getID_def sendMessage_def Let_def
      split: if_splits option.splits prod.splits list.splits WorkerMessage.splits)

lemma receive_chain:
  assumes it: "iter_ok it" and S: "system_ok (s, ex)" "system_ok (s', ex)" and m: "scheduler_msg_queue s = m # q"
    and h: "handle_message it m (s\<lparr>scheduler_msg_queue := q\<rparr>) = Some (Inr s')"
    and x: "IsTaskID x" "x \<notin> set ex" and e: "(x, k) \<in> edges (graph_of s)" "(k, y) \<in> edges (graph_of s)"
  shows "(x, k) \<in> edges (graph_of s') \<and> (k, y) \<in> edges (graph_of s')"
proof (cases "\<exists>w i. m = kTaskCompletion w i")
  case False
  then have "nodes s' = nodes s" using h by (cases m) (auto simp: handle_message_def)
  then show ?thesis using e by simp
next
  case True
  then obtain w i where me: "m = kTaskCompletion w i" by blast
  let ?s = "s\<lparr>scheduler_msg_queue := q\<rparr>"
  obtain s1 ts where p: "processDependents it i ?s = Some (Inr s1)" "released ts ?s s1" "keeps {i} ?s s1" "state_ok Map.empty s1" "i \<in> set ex"
    using completion_ok [OF it S(1)] m me by blast
  have g: "graph_ok Map.empty (graph_of ?s)" "graph_ok Map.empty (graph_of s1)" using S(1) p(4) by (simp_all add: system_ok_def state_ok_def)
  have "nodes s' = nodes s1" using h me p(1) by (auto simp: handle_message_def)
  moreover have "(x, k) \<in> edges (graph_of s1) \<and> (k, y) \<in> edges (graph_of s1)"
    using released_chain [OF p(2,3) g x(1), of k y] e x(2) p(5) by auto
  ultimately show ?thesis by simp
qed

lemma order_held:
  assumes "reachable it (s, ex)" "iter_ok it" "IsTaskID y" "(k, y) \<in> edges (graph_of s)"
    and "w < length (workers s)" "WorkerTaskMessage t \<in> set (workers s ! w)"
  shows "task_id t \<noteq> y"
proof -
  have "y \<in> dom (map_of (tasks s))" using stored_edges [OF assms(1-3)] assms(4) by blast
  moreover have "count (ids (s, ex)) y \<le> 1" using reachable_ok [OF assms(1,2)] by (simp add: system_ok_def ids_ok_def)
  ultimately show ?thesis using once_stored held_memD' [OF assms(5,6)] by fastforce
qed

lemma turn_sequenced:
  assumes t: "turn it S S'" and it: "iter_ok it" and r: "reachable it S" and x: "IsTaskID x" and y: "IsTaskID y" "x \<noteq> y"
    and q: "sequenced x k y S"
  shows "sequenced x k y S'"
  using t
proof (cases rule: turn.cases)
  case (dispatch s s' ex)
  then show ?thesis using q processTaskQueue_frame [OF dispatch(3)] by (simp add: sequenced_def)
next
  case (receive s m ms s' ex)
  have m: "scheduler_msg_queue s = m # ms" using receive(3) by (auto simp: popOne_def split: list.splits)
  have S: "system_ok (s, ex)" "system_ok (s', ex)"
    using reachable_ok [OF r it] reachable_ok [OF reachable.turn [OF r t] it] receive(1,2) by auto
  show ?thesis using q receive_chain [OF it S m receive(4) x, of k y] receive(1,2) by (auto simp: sequenced_def)
next
  case (work w s t' s' ex)
  note w = worker_turn_task [OF work(3)]
  have n: "x \<in> set ex" if "task_id t' = y"
  proof (rule ccontr)
    assume "x \<notin> set ex"
    then have "(k, y) \<in> edges (graph_of s)" using q work(1) by (simp add: sequenced_def)
    then show False using order_held [OF _ it y(1) _ w(1,2)] r work(1) that by blast
  qed
  show ?thesis
  proof (cases "task_id t' = y")
    case True
    then show ?thesis using q n [OF True] work(1,2) w(3) before_snoc [of x ex y] by (simp add: sequenced_def)
  next
    case False
    then show ?thesis using q work(1,2) w(3) before_append [of x y ex] by (auto simp: sequenced_def)
  qed
qed

lemma turns_sequenced:
  assumes "(turn it)\<^sup>*\<^sup>* S S'" "iter_ok it" "reachable it S" "IsTaskID x" "IsTaskID y" "x \<noteq> y" "sequenced x k y S"
  shows "reachable it S' \<and> sequenced x k y S'"
  using assms(1)
proof (induction rule: rtranclp_induct)
  case (step T U)
  then show ?case using turn_sequenced [OF step(2) assms(2) _ assms(4-6)] reachable.turn by blast
qed (simp add: assms)

lemma quiescent_all_run:
  assumes "iter_ok it" "reachable it S" "settled (fst S)" "(turn it)\<^sup>*\<^sup>* S (s', ex')" "quiescent (s', ex')"
  shows "mset ex' = ids S"
proof -
  note o = rtranclp_turn_ok [OF assms(4,1) reachable_ok [OF assms(2,1)]]
  have "tasks s' = []" using quiescent_done(3) [OF o(1) assms(5)] o(3) [OF assms(3)] by (simp add: settled_def)
  then show ?thesis using quiescent_done(1) [OF o(1) assms(5)] o(2) by simp
qed

lemma plan_before:
  assumes it: "iter_ok it" and r: "reachable it (s', ex)" and run: "(turn it)\<^sup>*\<^sup>* (s', ex) (s'', ex')"
    and x: "IsTaskID x" "IsTaskID y" "x \<noteq> y" and e: "(x, k) \<in> edges (graph_of s')" "(k, y) \<in> edges (graph_of s')" and y: "y \<in> set ex'"
  shows "before x y ex'"
proof -
  have "y \<in> dom (map_of (tasks s'))" using stored_edges [OF r it x(2)] e(2) by blast
  moreover have "count (ids (s', ex)) y \<le> 1" using reachable_ok [OF r it] by (simp add: system_ok_def ids_ok_def)
  ultimately have "y \<notin> set ex" using once_stored by blast
  then have "sequenced x k y (s', ex)" using e by (simp add: sequenced_def)
  then have "sequenced x k y (s'', ex')" using turns_sequenced [OF run it r x] by blast
  then show ?thesis using y by (simp add: sequenced_def)
qed

section \<open>A plan of two operators\<close>

definition two_operators :: "(unit, unit, unit) ExecutionPlan" where
  "two_operators = \<lparr>query_id = 1, operators = [Some \<lparr>op_index = 0, op_body = ()\<rparr>, Some \<lparr>op_index = 1, op_body = ()\<rparr>],
     plan_dependents = [(0, [1])], input_result = None, result_out = None, result_cols = []\<rparr>"

definition plan_task :: "unit Task" where
  "plan_task = \<lparr>task_id = 1, continuation = 0, has_scheduler = True, body = ()\<rparr>"

lemma two_operators_built: "two_operators = createLink 0 1 (snd (addOperator \<lparr>op_index = 0, op_body = ()\<rparr>
    (snd (addOperator \<lparr>op_index = 0, op_body = ()\<rparr> (ExecutionPlan_new 1)))))"
  by (simp add: two_operators_def createLink_def emplace_link_def getDependents_def addOperator_def set_operator_index_def ExecutionPlan_new_def)

lemma two_operators_ok: "plan_ok two_operators" "length (operators two_operators) = 2" "links two_operators = {(0, 1)}" "acyclic (links two_operators)"
proof -
  show l: "links two_operators = {(0, 1)}" "length (operators two_operators) = 2" by (simp_all add: two_operators_def links_def plan_links_def)
  have "wf {(0 :: nat, 1 :: nat)}" by (rule wf_subset [OF wf_less_than]) auto
  then show "acyclic (links two_operators)" unfolding l by (rule wf_acyclic)
  have "numbered two_operators" by (auto simp: two_operators_def numbered_def less_Suc_eq)
  then show "plan_ok two_operators" using l by (simp add: plan_ok_def) (simp add: two_operators_def)
qed

lemma one_worker_ready: "n \<le> 2 \<Longrightarrow> plan_ready in_order [] n 0 one_worker" "settled one_worker" "ids (one_worker, []) = {#}"
  "tid one_worker i = 1 + of_nat i"
proof -
  show "n \<le> 2 \<Longrightarrow> plan_ready in_order [] n 0 one_worker"
    using one_worker_reachable in_order_ok
    by (simp add: plan_ready_def room_def fresh_conts_def kInvalidNodeID_def) (simp add: one_worker_def)
  show "settled one_worker" by (simp add: settled_def one_worker_def edges_def acyclic_def)
  show "ids (one_worker, []) = {#}" by (simp add: ids_def one_worker_def held_def)
  show "tid one_worker i = 1 + of_nat i" by (simp add: tid_def one_worker_def)
qed

section \<open>Properties\<close>

text \<open>C3: \<open>execute\<close> of a plan whose operators are numbered by position, whose links stay inside it and have
  no cycle, on a scheduler that has nothing left unfired: it succeeds; operators without a producer
  are queued, the others wait behind the continuations of their producers; every run of turns ends,
  and when nothing is left to do, every operator and the final task has been run exactly once, each
  consumer after its producers.
\<close>

theorem execute_plan_runs:
  fixes p :: "('b, 'r, 'c) ExecutionPlan"
  assumes "plan_ready it ex n c s" "settled s" "has_scheduler ctx" "continuation ctx = c" "order_ok ord"
    and "plan_ok p" "n = length (operators p)" "0 < n" "acyclic (links p)"
  shows "\<exists>s'. execute_plan it ord fin ctx p s = Some (Inr (p\<lparr>operators := []\<rparr>, s')) \<and> plan_started p n s s'
    \<and> (\<forall>k S'. (turn it ^^ k) (s', ex) S' \<longrightarrow> k \<le> potential (s', ex))
    \<and> (\<exists>S'. (turn it)\<^sup>*\<^sup>* (s', ex) S' \<and> quiescent S')
    \<and> (\<forall>s'' ex'. (turn it)\<^sup>*\<^sup>* (s', ex) (s'', ex') \<and> quiescent (s'', ex') \<longrightarrow>
         mset ex' = ids (s, ex) + mset (map (tid s) [0..<Suc n]) \<and> distinct ex'
       \<and> (\<forall>(a, b) \<in> links p. before (tid s a) (tid s b) ex'))"
proof -
  note it = plan_readyD(2) [OF assms(1)] and rm = plan_readyD(3) [OF assms(1)]
  obtain s' where s': "execute_plan it ord fin ctx p s = Some (Inr (p\<lparr>operators := []\<rparr>, s'))" "reachable it (s', ex)"
    "ids (s', ex) = ids (s, ex) + mset (map (tid s) [0..<Suc n])" "plan_started p n s s'" "settled s'"
    using execute_plan_ok [OF assms(1,3-8), of fin] assms(2,9) by blast
  have sy: "system_ok (s', ex)" using reachable_ok [OF s'(2) it] .
  have "mset ex' = ids (s, ex) + mset (map (tid s) [0..<Suc n]) \<and> distinct ex' \<and> (\<forall>(a, b) \<in> links p. before (tid s a) (tid s b) ex')"
    if run: "(turn it)\<^sup>*\<^sup>* (s', ex) (s'', ex')" "quiescent (s'', ex')" for s'' ex'
  proof (intro conjI)
    show m: "mset ex' = ids (s, ex) + mset (map (tid s) [0..<Suc n])"
      using quiescent_all_run [OF it s'(2) _ run] s'(3,5) by simp
    show "distinct ex'" using m s'(3) sy unfolding distinct_count_le [symmetric] by (simp add: system_ok_def ids_ok_def)
    have "before (tid s a) (tid s b) ex'" if ab: "(a, b) \<in> links p" for a b
    proof -
      have lt: "a < n" "b < n" using assms(6,7) ab by (auto simp: plan_ok_def)
      have "a \<noteq> b" using assms(9) ab by (auto simp: acyclic_def)
      then have "tid s a \<noteq> tid s b" using tid_inj [OF rm] lt by simp
      moreover have "tid s b \<in> set ex'" using m lt(2) by (metis UnCI atLeast0LessThan image_eqI lessThan_iff less_SucI set_map set_mset_mset set_mset_union set_upt)
      ultimately show ?thesis using plan_before [OF it s'(2) run(1)] IsTaskID_tid [OF rm] lt s'(4) ab by (fastforce simp: plan_started_def)
    qed
    then show "\<forall>(a, b) \<in> links p. before (tid s a) (tid s b) ex'" by blast
  qed
  then show ?thesis using s'(1,4) run.bounded_run [of _ it "(s', ex)"] run.reaches_finished [of it "(s', ex)"] sy it by fastforce
qed

theorem execute_plan_runs_witness:
  "plan_ready in_order [] 2 0 one_worker \<and> (\<exists>s' s'' ex'. execute_plan in_order (\<lambda>xs. xs) () plan_task two_operators one_worker
        = Some (Inr (two_operators\<lparr>operators := []\<rparr>, s'))
     \<and> (turn in_order)\<^sup>*\<^sup>* (s', []) (s'', ex') \<and> quiescent (s'', ex') \<and> mset ex' = {#1, 2, 3#} \<and> before 1 2 ex')"
proof -
  have o: "order_ok (\<lambda>xs. xs)" "has_scheduler plan_task" "continuation plan_task = 0" by (simp_all add: order_ok_def plan_task_def)
  obtain s' where s': "execute_plan in_order (\<lambda>xs. xs) () plan_task two_operators one_worker = Some (Inr (two_operators\<lparr>operators := []\<rparr>, s'))"
    "\<exists>S'. (turn in_order)\<^sup>*\<^sup>* (s', []) S' \<and> quiescent S'"
    "\<forall>s'' ex'. (turn in_order)\<^sup>*\<^sup>* (s', []) (s'', ex') \<and> quiescent (s'', ex') \<longrightarrow>
         mset ex' = ids (one_worker, []) + mset (map (tid one_worker) [0..<Suc 2]) \<and> distinct ex'
       \<and> (\<forall>(a, b) \<in> links two_operators. before (tid one_worker a) (tid one_worker b) ex')"
    using execute_plan_runs [OF one_worker_ready(1,2) o(2,3,1) two_operators_ok(1) two_operators_ok(2) [symmetric] _ two_operators_ok(4), of "()"] by auto
  have "mset (map (tid one_worker) [0..<Suc 2]) = {#1, 2, 3#}" by (simp add: one_worker_ready(4) upt_rec)
  then show ?thesis using s' one_worker_ready(1) [of 2] two_operators_ok(3) one_worker_ready(3,4) by fastforce
qed

lemma merge_links_ok:
  assumes "order_ok ord" "distinct (map fst acc)"
  shows "distinct (map fst (merge_links ord k ds acc))"
    "set (plan_links (merge_links ord k ds acc)) = set (plan_links acc) \<union> (\<lambda>(a, b). (a + k, b + k)) ` set (plan_links ds)"
proof -
  have "distinct (map fst (fold (\<lambda>(a, b). emplace_link (a + k) (b + k)) ls acc))
    \<and> set (plan_links (fold (\<lambda>(a, b). emplace_link (a + k) (b + k)) ls acc)) = set (plan_links acc) \<union> (\<lambda>(a, b). (a + k, b + k)) ` set ls" for ls
    using assms(2)
  proof (induction ls arbitrary: acc)
    case (Cons l ls)
    obtain a b where "l = (a, b)" by (cases l)
    then show ?case using Cons.IH [OF emplace_links(1) [OF Cons.prems]] emplace_links(2) [OF Cons.prems] by auto
  qed simp
  from this [of "ord (plan_links ds)"] assms(1)
  show "distinct (map fst (merge_links ord k ds acc))"
    "set (plan_links (merge_links ord k ds acc)) = set (plan_links acc) \<union> (\<lambda>(a, b). (a + k, b + k)) ` set (plan_links ds)"
    by (simp_all add: merge_links_def order_ok_def)
qed

lemma merge_links_iter:
  assumes "order_ok ord" "distinct (map fst acc)"
  shows "distinct (map fst ((merge_links ord k ds ^^ j) acc))
    \<and> set (plan_links ((merge_links ord k ds ^^ j) acc))
      = set (plan_links acc) \<union> (if j = 0 then {} else (\<lambda>(a, b). (a + k, b + k)) ` set (plan_links ds))"
proof (induction j)
  case (Suc j)
  then show ?case using merge_links_ok [OF assms(1), of "(merge_links ord k ds ^^ j) acc"] by auto
qed (simp add: assms(2))

text \<open>\<open>merge\<close> appends the operators of the other plan and its links, shifted by the number of operators,
  but it leaves the operators their old indices: the merged plan of two plans with operators is not
  numbered by position, so \<open>execute\<close> writes two operators to the same slot.
\<close>

theorem plan_merge_links:
  assumes "order_ok ord" "plan_ok p" "plan_ok q"
  shows "\<exists>p' q'. plan_merge ord q p = (p', q')
    \<and> links p' = links p \<union> (\<lambda>(a, b). (a + length (operators p), b + length (operators p))) ` links q
    \<and> operators p' = operators p @ operators q \<and> result_out p' = result_out q
    \<and> (operators p \<noteq> [] \<and> operators q \<noteq> [] \<longrightarrow> \<not> numbered p')"
proof -
  have d: "distinct (map fst (plan_dependents p))" using assms(2) by (simp add: plan_ok_def)
  have e: "links q = {}" if "operators q = []" using assms(3) that by (auto simp: plan_ok_def)
  have "\<not> numbered (fst (plan_merge ord q p))" if ne: "operators p \<noteq> []" "operators q \<noteq> []"
  proof
    let ?k = "length (operators p)"
    assume "numbered (fst (plan_merge ord q p))"
    then have "\<forall>i < length (operators p @ operators q). \<exists>op. (operators p @ operators q) ! i = Some op \<and> op_index op = i"
      by (simp add: numbered_def plan_merge_def Let_def)
    moreover have "?k < length (operators p @ operators q)" using ne(2) by simp
    ultimately obtain op where "(operators p @ operators q) ! ?k = Some op" "op_index op = ?k" by blast
    moreover obtain op' where "operators q ! 0 = Some op'" "op_index op' = 0"
      using assms(3) ne(2) unfolding plan_ok_def numbered_def by blast
    ultimately show False using ne(1) by (simp add: nth_append)
  qed
  then show ?thesis using merge_links_iter [OF assms(1) d] e
    by (auto simp: plan_merge_def links_def plan_size_def Let_def)
qed

theorem plan_merge_links_witness:
  "\<exists>p' q' :: (unit, unit, unit) ExecutionPlan. order_ok (\<lambda>xs. xs)
    \<and> plan_merge (\<lambda>xs. xs) (snd (addOperator \<lparr>op_index = 0, op_body = ()\<rparr> (ExecutionPlan_new 1)))
        (snd (addOperator \<lparr>op_index = 0, op_body = ()\<rparr> (ExecutionPlan_new 1))) = (p', q')
    \<and> links p' = {} \<and> \<not> numbered p'"
proof -
  let ?p = "snd (addOperator \<lparr>op_index = 0, op_body = ()\<rparr> (ExecutionPlan_new 1)) :: (unit, unit, unit) ExecutionPlan"
  have p: "plan_ok ?p" "operators ?p \<noteq> []" "links ?p = {}"
    using addOperator_ok [OF ExecutionPlan_new_ok [of 1], of "\<lparr>op_index = 0, op_body = ()\<rparr>" 0 ?p]
    by (auto simp: addOperator_def ExecutionPlan_new_def links_def plan_links_def)
  have o: "order_ok (\<lambda>xs. xs)" by (simp add: order_ok_def)
  show ?thesis using plan_merge_links [OF o p(1) p(1)] p(2,3) o by auto
qed

text \<open>A task behind a continuation that waits for nothing and that nobody fires.\<close>

definition stuck :: "NodeID \<Rightarrow> NodeID \<Rightarrow> 'b system \<Rightarrow> bool" where
  "stuck k y S \<longleftrightarrow> (k, y) \<in> edges (graph_of (fst S)) \<and> \<not> waits (graph_of (fst S)) k \<and> y \<notin> set (snd S)"

lemma receive_stuck:
  assumes it: "iter_ok it" and S: "system_ok (s, ex)" and m: "scheduler_msg_queue s = m # q"
    and h: "handle_message it m (s\<lparr>scheduler_msg_queue := q\<rparr>) = Some (Inr s')" and k: "IsContinuation k" and st: "stuck k y (s, ex)"
  shows "stuck k y (s', ex)"
proof (cases "\<exists>w i. m = kTaskCompletion w i")
  case False
  then have "nodes s' = nodes s" using h by (cases m) (auto simp: handle_message_def)
  then show ?thesis using st by (simp add: stuck_def)
next
  case True
  then obtain w i where me: "m = kTaskCompletion w i" by blast
  obtain s1 ts where p: "processDependents it i (s\<lparr>scheduler_msg_queue := q\<rparr>) = Some (Inr s1)" "released ts (s\<lparr>scheduler_msg_queue := q\<rparr>) s1"
    "keeps {i} (s\<lparr>scheduler_msg_queue := q\<rparr>) s1" "i \<in> set ex"
    using completion_ok [OF it S] m me by blast
  have "i \<in># ids (s, ex)" using p(4) by (simp add: ids_def)
  then have "k \<noteq> i" using S k by (auto simp: system_ok_def ids_ok_def IsTaskID_def)
  have st': "(k, y) \<in> edges (graph_of s)" "\<not> waits (graph_of s) k" "y \<notin> set ex" using st by (simp_all add: stuck_def)
  then have "k \<in> dom (graph_of s)" by (simp add: edges_def)
  then have "k \<in> dom (graph_of s1)" "\<not> waits (graph_of s1) k" using p(3) st'(2) \<open>k \<noteq> i\<close> by (auto simp: keeps_def)
  moreover have "(k, y) \<in> edges (graph_of s1) \<longleftrightarrow> k \<in> dom (graph_of s1) \<and> (k, y) \<in> edges (graph_of s)"
    using released_edges_eq [OF p(2)] by simp
  moreover have "nodes s' = nodes s1" using h me p(1) by (auto simp: handle_message_def)
  ultimately show ?thesis using st' by (simp add: stuck_def)
qed

lemma turns_stuck:
  assumes "(turn it)\<^sup>*\<^sup>* S S'" "iter_ok it" "reachable it S" "IsContinuation k" "IsTaskID y" "stuck k y S"
  shows "reachable it S' \<and> stuck k y S'"
  using assms(1)
proof (induction rule: rtranclp_induct)
  case (step T U)
  then have r: "reachable it T" "stuck k y T" by auto
  from step(2) have "stuck k y U"
  proof (cases rule: turn.cases)
    case (dispatch s s' ex)
    then show ?thesis using r(2) processTaskQueue_frame [OF dispatch(3)] by (simp add: stuck_def)
  next
    case (receive s m ms s' ex)
    have m: "scheduler_msg_queue s = m # ms" using receive(3) by (auto simp: popOne_def split: list.splits)
    show ?thesis using receive_stuck [OF assms(2) _ m receive(4) assms(4)] reachable_ok [OF r(1) assms(2)] r(2) receive(1,2) by simp
  next
    case (work w s t' s' ex)
    note w = worker_turn_task [OF work(3)]
    have "task_id t' \<noteq> y" using order_held [OF _ assms(2,5) _ w(1,2)] r work(1) by (auto simp: stuck_def)
    then show ?thesis using r(2) work(1,2) w(3) by (simp add: stuck_def)
  qed
  then show ?case using reachable.turn [OF r(1) step(2)] by blast
qed (simp add: assms)

text \<open>\<open>execute\<close> of a plan without operators: the final task waits for the exit continuation, which
  waits for nothing and is never fired, so no run of turns runs it.
\<close>

theorem execute_plan_empty:
  fixes p :: "('b, 'r, 'c) ExecutionPlan"
  assumes "plan_ready it ex 0 c s" "has_scheduler ctx" "continuation ctx = c" "order_ok ord" "plan_ok p" "operators p = []"
  shows "\<exists>s'. execute_plan it ord fin ctx p s = Some (Inr (p, s')) \<and> ids (s', ex) = ids (s, ex) + {#task_counter s#}
    \<and> (\<forall>s'' ex'. (turn it)\<^sup>*\<^sup>* (s', ex) (s'', ex') \<longrightarrow> task_counter s \<notin> set ex')"
proof -
  note pr = assms(1) and it = plan_readyD(2) [OF assms(1)] and rm = plan_readyD(3) [OF assms(1)]
  have L: "links p = {}" "0 = length (operators p)" using assms(5,6) by (auto simp: plan_ok_def)
  obtain S where S: "execute_plan it ord fin ctx p s = bind_opt (fire it (cid s 0) S) (\<lambda>s. Some (Inr (p\<lparr>operators := []\<rparr>, s)))"
    "reachable it (S, ex)" "grown (plan_edges s 0 {} c) s S" "ids (S, ex) = ids (s, ex) + mset (map (tid s) [0..<Suc 0])"
    using execute_prepare [OF assms(1-5) L(2), of fin] unfolding L(1) by blast
  have t0: "tid s 0 = task_counter s" by (simp add: tid_def)
  have e: "plan_edges s 0 {} c = task_edges (cid s 1) (tid s 0) c" by (simp add: plan_edges_def op_edges_def link_edges_def)
  have new: "cid s 0 \<notin> dom (graph_of s)" "cid s 1 \<notin> dom (graph_of s)" "cid s 1 \<noteq> c" "cid s 0 \<noteq> c" "cid s 1 \<noteq> cid s 0"
    using cid_new [OF pr, of 0] cid_new [OF pr, of 1] cid_inj [OF rm, of 0 1] by auto
  have ct: "cid s 0 \<noteq> tid s 0" "cid s 1 \<noteq> tid s 0" using cid_tid [OF rm] by simp_all
  have "cid s 0 \<notin> Field (task_edges (cid s 1) (tid s 0) c)" using new ct by (auto simp: task_edges_def Field_def split: if_splits)
  then have "cid s 0 \<notin> dom (graph_of S)" using S(3) new(1) by (simp add: grown_def e)
  then have f: "fire it (cid s 0) S = Some (Inr S)" by (auto simp: fire_def processDependents_def split: option.split)
  have pp: "p\<lparr>operators := []\<rparr> = p" using assms(6) by (cases p) simp
  have g: "graph_ok Map.empty (graph_of s)" "graph_ok Map.empty (graph_of S)"
    using reachable_graph [OF plan_readyD(1,2) [OF pr]] reachable_graph [OF S(2) it] by auto
  have eS: "edges (graph_of S) = edges (graph_of s) \<union> task_edges (cid s 1) (tid s 0) c" using S(3) by (simp add: grown_def e)
  have "(a, cid s 1) \<notin> edges (graph_of S)" for a
    using new ct edges_dom [OF g(1)] by (auto simp: eS task_edges_def split: if_splits)
  then have "\<not> waits (graph_of S) (cid s 1)" using waits_edges [OF g(2)] by blast
  moreover have in_e: "(cid s 1, tid s 0) \<in> edges (graph_of S)" by (simp add: eS task_edges_def)
  moreover have "tid s 0 \<notin> set ex"
  proof -
    have "task_counter s \<notin># ids (s, ex)" using fresh_id reachable_ok [OF plan_readyD(1,2) [OF pr]] by (auto simp: system_ok_def)
    then show ?thesis by (simp add: ids_def t0)
  qed
  ultimately have st: "stuck (cid s 1) (tid s 0) (S, ex)" by (simp add: stuck_def)
  have "task_counter s \<notin> set ex'" if "(turn it)\<^sup>*\<^sup>* (S, ex) (s'', ex')" for s'' ex'
  proof -
    have "stuck (cid s 1) (tid s 0) (s'', ex')"
      using turns_stuck [OF that it S(2) _ _ st] IsContinuation_cid [OF rm, of 1] IsTaskID_tid [OF rm, of 0] by simp
    then show ?thesis by (simp add: stuck_def t0)
  qed
  then show ?thesis using S(1,4) f pp t0 by auto
qed

theorem execute_plan_empty_witness:
  "plan_ready in_order [] 0 0 one_worker \<and> (\<exists>s'. execute_plan in_order (\<lambda>xs. xs) () plan_task (ExecutionPlan_new 1 :: (unit, unit, unit) ExecutionPlan) one_worker
     = Some (Inr (ExecutionPlan_new 1, s')) \<and> 1 \<in># ids (s', []))"
proof -
  have o: "order_ok (\<lambda>xs. xs)" "has_scheduler plan_task" "continuation plan_task = 0" by (simp_all add: order_ok_def plan_task_def)
  have "operators (ExecutionPlan_new 1 :: (unit, unit, unit) ExecutionPlan) = []" by (simp add: ExecutionPlan_new_def)
  from execute_plan_empty [OF one_worker_ready(1) o(2,3,1) ExecutionPlan_new_ok this, of "()"] show ?thesis
    using one_worker_ready(1) [of 0] one_worker_ready(4) [of 0] by (auto simp: one_worker_def)
qed

end
