(* ===== verification/XorFilter.thy ===== *)
theory XorFilter
  imports Prelude "HOL-Library.Multiset" "HOL-Library.Log_Nat"
begin

text \<open>
  The xor filters of \<open>src/src/utils/xorfilter.h\<close>: approximate membership with eight- or
  sixteen-bit fingerprints. The two widths are the same code over another fingerprint type, so
  the definitions are polymorphic in the width and \<open>xor8_*\<close>, \<open>xor16_*\<close> are their instances.

  An attempt of the construction counts, for each of three blocks of sets, how many keys hash to
  a set; it then peels keys off sets that hold a single key, stacking them, and on success
  assigns the fingerprints in the reverse order. The three loops over \<open>Q0\<close>, \<open>Q1\<close>, \<open>Q2\<close>
  are one definition over the block. Arrays are lists with checked accesses, so that
  \<^const>\<open>Inr\<close> means that no access was out of range, and the loops are partial functions, so
  that \<^const>\<open>Some\<close> means that they end.

  \<open>peel_inv\<close> is the invariant of the peeling: the sets hold the multisets of the keys that are
  left, pending or owned. From it follow the bounds of the queues and of the stack, the
  termination, and that no assignment overwrites a position another stacked key needs. Its
  parameter for pending decrements serves the buffered variant.
\<close>

unbundle bit_operations_syntax

section \<open>Hashing\<close>

definition xor_murmur64 :: "u64 \<Rightarrow> u64" where
  "xor_murmur64 h =
    (let h = h XOR drop_bit 33 h;
         h = h * 0xff51afd7ed558ccd;
         h = h XOR drop_bit 33 h;
         h = h * 0xc4ceb9fe1a85ec53
     in h XOR drop_bit 33 h)"

definition xor_mix_split :: "u64 \<Rightarrow> u64 \<Rightarrow> u64" where
  "xor_mix_split key seed = xor_murmur64 (key + seed)"

definition xor_rotl64 :: "u64 \<Rightarrow> u32 \<Rightarrow> u64" where
  "xor_rotl64 n c = push_bit (unat (c AND 63)) n OR drop_bit (unat ((- c) AND 63)) n"

definition xor_reduce :: "u32 \<Rightarrow> u32 \<Rightarrow> u32" where
  "xor_reduce hash n = ucast (drop_bit 32 (ucast hash * ucast n :: u64))"

definition xor_fingerprint :: "u64 \<Rightarrow> u64" where
  "xor_fingerprint hash = hash XOR drop_bit 32 hash"

text \<open>The random number and the new seed.\<close>

definition xor_rng_splitmix64 :: "u64 \<Rightarrow> u64 \<times> u64" where
  "xor_rng_splitmix64 seed =
    (let seed = seed + 0x9E3779B97F4A7C15;
         z = seed;
         z = (z XOR drop_bit 30 z) * 0xBF58476D1CE4E5B9;
         z = (z XOR drop_bit 27 z) * 0x94D049BB133111EB
     in (z XOR drop_bit 31 z, seed))"

section \<open>The filter record\<close>

record 'f xor_filter =
  seed :: u64
  blockLength :: u64
  fingerprints :: "'f list"

type_synonym xor8_t = "u8 xor_filter"
type_synonym xor16_t = "u16 xor_filter"

definition xor_get_h0 :: "u64 \<Rightarrow> u64 \<Rightarrow> u32" where
  "xor_get_h0 hash bl = xor_reduce (ucast hash) (ucast bl)"
definition xor_get_h1 :: "u64 \<Rightarrow> u64 \<Rightarrow> u32" where
  "xor_get_h1 hash bl = xor_reduce (ucast (xor_rotl64 hash 21)) (ucast bl)"
definition xor_get_h2 :: "u64 \<Rightarrow> u64 \<Rightarrow> u32" where
  "xor_get_h2 hash bl = xor_reduce (ucast (xor_rotl64 hash 42)) (ucast bl)"

definition xor_contain :: "u64 \<Rightarrow> 'f::len word xor_filter \<Rightarrow> bool res" where
  "xor_contain key flt =
    (let hash = xor_mix_split key (seed flt);
         f = ucast (xor_fingerprint hash) :: 'f word;
         bl = blockLength flt;
         h0 = xor_get_h0 hash bl;
         h1 = ucast (ucast (xor_get_h1 hash bl) + bl) :: u32;
         h2 = ucast (ucast (xor_get_h2 hash bl) + 2 * bl) :: u32
     in and_then (fetch (fingerprints flt) (unat h0)) (\<lambda>f0.
        and_then (fetch (fingerprints flt) (unat h1)) (\<lambda>f1.
        and_then (fetch (fingerprints flt) (unat h2)) (\<lambda>f2.
          Inr (f = (f0 XOR f1 XOR f2))))))"

definition xor8_contain :: "u64 \<Rightarrow> xor8_t \<Rightarrow> bool res" where
  "xor8_contain = xor_contain"
definition xor16_contain :: "u64 \<Rightarrow> xor16_t \<Rightarrow> bool res" where
  "xor16_contain = xor_contain"

section \<open>Allocation\<close>

text \<open>
  \<open>32 + 1.23 * n_keys\<close> in double precision, truncated. A double in this range is a natural number of
  \<open>2 ^ -52\<close> units; \<open>round53\<close> rounds to 53 significant bits, ties to even; the constant is the
  double nearest to 1.23.
\<close>

definition round53 :: "nat \<Rightarrow> nat" where
  "round53 n =
    (let e = floorlog 2 n - 53; q = n div 2 ^ e; r = n mod 2 ^ e
     in if 2 * r > 2 ^ e \<or> 2 * r = 2 ^ e \<and> odd q then (q + 1) * 2 ^ e else q * 2 ^ e)"

definition capacity_of :: "u32 \<Rightarrow> nat" where
  "capacity_of n_keys = round53 (32 * 2 ^ 52 + round53 (5539427541665710 * unat n_keys)) div 2 ^ 52"

text \<open>\<open>junk\<close> is what \<open>malloc\<close> leaves in the memory; \<^const>\<open>None\<close> is a failed allocation.\<close>

definition xor8_allocate :: "(nat \<Rightarrow> u8) option \<Rightarrow> u32 \<Rightarrow> xor8_t \<Rightarrow> bool \<times> xor8_t" where
  "xor8_allocate mem n_keys flt =
    (let capacity = capacity_of n_keys div 3 * 3 in
     case mem of
       None \<Rightarrow> (False, flt\<lparr>fingerprints := []\<rparr>)
     | Some junk \<Rightarrow> (True, flt\<lparr>fingerprints := map junk [0..<capacity], blockLength := of_nat (capacity div 3)\<rparr>))"

definition xor16_allocate :: "(nat \<Rightarrow> u16) option \<Rightarrow> u32 \<Rightarrow> xor16_t \<Rightarrow> bool \<times> xor16_t" where
  "xor16_allocate mem n_keys flt =
    (let capacity = capacity_of n_keys;
         flt = flt\<lparr>blockLength := of_nat (capacity div 3)\<rparr>;
         capacity = capacity div 3 * 3
     in case mem of
       None \<Rightarrow> (False, flt\<lparr>fingerprints := []\<rparr>)
     | Some junk \<Rightarrow> (True, flt\<lparr>fingerprints := map junk [0..<capacity], blockLength := of_nat (capacity div 3)\<rparr>))"

text \<open>\<open>sizeof(xor8_t)\<close> and \<open>sizeof(xor16_t)\<close> are 24.\<close>

definition xor8_size_in_bytes :: "xor8_t \<Rightarrow> u64" where
  "xor8_size_in_bytes flt = 3 * blockLength flt * 1 + 24"
definition xor16_size_in_bytes :: "xor16_t \<Rightarrow> u64" where
  "xor16_size_in_bytes flt = 3 * blockLength flt * 2 + 24"

definition xor8_free :: "xor8_t \<Rightarrow> xor8_t" where
  "xor8_free flt = flt\<lparr>fingerprints := [], blockLength := 0\<rparr>"
definition xor16_free :: "xor16_t \<Rightarrow> xor16_t" where
  "xor16_free flt = flt\<lparr>fingerprints := [], blockLength := 0\<rparr>"

section \<open>Construction\<close>

record xor_xorset =
  xormask :: u64
  count :: u32

record xor_keyindex =
  hash :: u64
  index :: u32

text \<open>
  The arrays of the construction come in three blocks (\<open>sets0\<close>, \<open>sets1\<close>, \<open>sets2\<close> and \<open>Q0\<close>,
  \<open>Q1\<close>, \<open>Q2\<close>) of \<open>blockLength\<close> entries each. A queue \<open>Qb[0..Qbsize)\<close> and the stack are
  lists whose head is the entry with the highest index.
\<close>

datatype block = B0 | B1 | B2

fun block_no :: "block \<Rightarrow> nat" where
  "block_no B0 = 0" | "block_no B1 = 1" | "block_no B2 = 2"

fun others :: "block \<Rightarrow> block \<times> block" where
  "others B0 = (B1, B2)" | "others B1 = (B0, B2)" | "others B2 = (B0, B1)"

fun xor_get_h :: "block \<Rightarrow> u64 \<Rightarrow> u64 \<Rightarrow> u32" where
  "xor_get_h B0 = xor_get_h0" | "xor_get_h B1 = xor_get_h1" | "xor_get_h B2 = xor_get_h2"

record peeling =
  sets :: "block \<Rightarrow> xor_xorset list"
  Q :: "block \<Rightarrow> xor_keyindex list"
  stack :: "xor_keyindex list"

definition incr_set :: "u64 \<Rightarrow> xor_xorset \<Rightarrow> xor_xorset" where
  "incr_set h s = \<lparr>xormask = xormask s XOR h, count = count s + 1\<rparr>"

definition decr_set :: "u64 \<Rightarrow> xor_xorset \<Rightarrow> xor_xorset" where
  "decr_set h s = \<lparr>xormask = xormask s XOR h, count = count s - 1\<rparr>"

definition put_set :: "block \<Rightarrow> nat \<Rightarrow> xor_xorset \<Rightarrow> peeling \<Rightarrow> peeling" where
  "put_set b i s st = st\<lparr>sets := (sets st)(b := (sets st b)[i := s])\<rparr>"

definition increment :: "block \<Rightarrow> u32 \<Rightarrow> u64 \<Rightarrow> peeling \<Rightarrow> peeling res" where
  "increment b i h st =
    and_then (fetch (sets st b) (unat i)) (\<lambda>s. Inr (put_set b (unat i) (incr_set h s) st))"

definition add_key :: "u64 \<Rightarrow> u64 \<Rightarrow> u64 \<Rightarrow> peeling \<Rightarrow> peeling res" where
  "add_key sd bl key st =
    (let h = xor_mix_split key sd in
     and_then (increment B0 (xor_get_h0 h bl) h st) (\<lambda>st.
     and_then (increment B1 (xor_get_h1 h bl) h st) (\<lambda>st.
       increment B2 (xor_get_h2 h bl) h st)))"

fun add_keys :: "u64 \<Rightarrow> u64 \<Rightarrow> u64 list \<Rightarrow> peeling \<Rightarrow> peeling res" where
  "add_keys sd bl [] st = Inr st"
| "add_keys sd bl (k # ks) st = and_then (add_key sd bl k st) (add_keys sd bl ks)"

text \<open>A queue of a block has room for \<open>blockLength\<close> entries.\<close>

definition push_Q :: "u64 \<Rightarrow> block \<Rightarrow> xor_keyindex \<Rightarrow> peeling \<Rightarrow> peeling res" where
  "push_Q bl b ki st =
    (if length (Q st b) < unat bl then Inr (st\<lparr>Q := (Q st)(b := ki # Q st b)\<rparr>)
     else Inl OutOfBounds)"

text \<open>The scan for sets with one key, from entry \<open>i\<close> on.\<close>

fun scan :: "u64 \<Rightarrow> block \<Rightarrow> nat list \<Rightarrow> peeling \<Rightarrow> peeling res" where
  "scan bl b [] st = Inr st"
| "scan bl b (i # is) st =
    and_then (fetch (sets st b) i) (\<lambda>s.
      if count s = 1
      then and_then (push_Q bl b \<lparr>hash = xormask s, index = of_nat i\<rparr> st) (scan bl b is)
      else scan bl b is st)"

definition decrement :: "u64 \<Rightarrow> block \<Rightarrow> u32 \<Rightarrow> u64 \<Rightarrow> peeling \<Rightarrow> peeling res" where
  "decrement bl b i h st =
    and_then (fetch (sets st b) (unat i)) (\<lambda>s.
      let s = decr_set h s; st = put_set b (unat i) s st
      in if count s = 1 then push_Q bl b \<lparr>hash = xormask s, index = i\<rparr> st else Inr st)"

definition push_stack :: "nat \<Rightarrow> xor_keyindex \<Rightarrow> peeling \<Rightarrow> peeling res" where
  "push_stack n_keys ki st =
    (if length (stack st) < n_keys then Inr (st\<lparr>stack := ki # stack st\<rparr>) else Inl OutOfBounds)"

text \<open>One round of \<open>while (Qbsize > 0)\<close>.\<close>

definition peel_one :: "u64 \<Rightarrow> nat \<Rightarrow> block \<Rightarrow> peeling \<Rightarrow> peeling res" where
  "peel_one bl n_keys b st =
    (case Q st b of [] \<Rightarrow> Inr st
     | ki # q \<Rightarrow>
       let st = st\<lparr>Q := (Q st)(b := q)\<rparr> in
       and_then (fetch (sets st b) (unat (index ki))) (\<lambda>s.
         if count s = 0 then Inr st
         else
           let h = hash ki;
               (b1, b2) = others b;
               ki = ki\<lparr>index := ucast (ucast (index ki) + of_nat (block_no b) * bl)\<rparr>
           in and_then (push_stack n_keys ki st) (\<lambda>st.
              and_then (decrement bl b1 (xor_get_h b1 h bl) h st) (\<lambda>st.
                decrement bl b2 (xor_get_h b2 h bl) h st))))"

partial_function (option) peel_block ::
    "u64 \<Rightarrow> nat \<Rightarrow> block \<Rightarrow> peeling \<Rightarrow> peeling res option" where
  "peel_block bl n_keys b st =
    (if Q st b = [] then Some (Inr st)
     else case peel_one bl n_keys b st of Inl e \<Rightarrow> Some (Inl e)
          | Inr st \<Rightarrow> peel_block bl n_keys b st)"

partial_function (option) peel :: "u64 \<Rightarrow> nat \<Rightarrow> peeling \<Rightarrow> peeling res option" where
  "peel bl n_keys st =
    (if length (Q st B0) + length (Q st B1) + length (Q st B2) = 0 then Some (Inr st)
     else case peel_block bl n_keys B0 st of None \<Rightarrow> None | Some (Inl e) \<Rightarrow> Some (Inl e)
     | Some (Inr st) \<Rightarrow>
       (case peel_block bl n_keys B1 st of None \<Rightarrow> None | Some (Inl e) \<Rightarrow> Some (Inl e)
        | Some (Inr st) \<Rightarrow>
          (case peel_block bl n_keys B2 st of None \<Rightarrow> None | Some (Inl e) \<Rightarrow> Some (Inl e)
           | Some (Inr st) \<Rightarrow> peel bl n_keys st)))"

text \<open>The reverse pass that assigns the fingerprints.\<close>

definition assign_one :: "u64 \<Rightarrow> xor_keyindex \<Rightarrow> 'f::len word list \<Rightarrow> 'f word list res" where
  "assign_one bl ki fp =
    (let h = hash ki;
         at0 = fetch fp (unat (xor_get_h0 h bl));
         at1 = fetch fp (unat bl + unat (xor_get_h1 h bl));
         at2 = fetch fp (2 * unat bl + unat (xor_get_h2 h bl));
         (a, b) = (if ucast (index ki) < bl then (at1, at2)
                   else if ucast (index ki) < 2 * bl then (at0, at2) else (at0, at1))
     in and_then a (\<lambda>x. and_then b (\<lambda>y.
          if unat (index ki) < length fp
          then Inr (fp[unat (index ki) := ucast (xor_fingerprint h XOR (ucast x XOR ucast y))])
          else Inl OutOfBounds)))"

fun assign :: "u64 \<Rightarrow> xor_keyindex list \<Rightarrow> 'f::len word list \<Rightarrow> 'f word list res" where
  "assign bl [] fp = Inr fp"
| "assign bl (ki # kis) fp = and_then (assign_one bl ki fp) (assign bl kis)"

definition cleared :: "u64 \<Rightarrow> peeling" where
  "cleared bl = \<lparr>sets = \<lambda>_. replicate (unat bl) \<lparr>xormask = 0, count = 0\<rparr>, Q = \<lambda>_. [], stack = []\<rparr>"

text \<open>The sets and the queues of one attempt, before the peeling.\<close>

definition prepare :: "u64 \<Rightarrow> u64 \<Rightarrow> u64 list \<Rightarrow> peeling res" where
  "prepare sd bl keys =
    and_then (add_keys sd bl keys (cleared bl)) (\<lambda>st.
    and_then (scan bl B0 [0..<unat bl] st) (\<lambda>st.
    and_then (scan bl B1 [0..<unat bl] st) (\<lambda>st.
      scan bl B2 [0..<unat bl] st)))"

declare peel_block.simps [code] peel.simps [code]

definition XOR_MAX_ITERATIONS :: nat where "XOR_MAX_ITERATIONS = 100"

text \<open>
  The attempts that are left, the state of the random number generator and the filter. The
  result is the value returned and the filter.
\<close>

fun attempts :: "nat \<Rightarrow> u64 list \<Rightarrow> u64 \<Rightarrow> 'f::len word xor_filter
    \<Rightarrow> (bool \<times> 'f word xor_filter) res option" where
  "attempts 0 keys rng flt = Some (Inr (False, flt))"
| "attempts (Suc n) keys rng flt =
    (case prepare (seed flt) (blockLength flt) keys of Inl e \<Rightarrow> Some (Inl e)
     | Inr st \<Rightarrow>
       (case peel (blockLength flt) (length keys) st of None \<Rightarrow> None
        | Some (Inl e) \<Rightarrow> Some (Inl e)
        | Some (Inr st) \<Rightarrow>
          if length (stack st) = length keys then
            Some (and_then (assign (blockLength flt) (stack st) (fingerprints flt)) (\<lambda>fp.
              Inr (True, flt\<lparr>fingerprints := fp\<rparr>)))
          else (case xor_rng_splitmix64 rng of (sd, rng) \<Rightarrow>
            attempts n keys rng (flt\<lparr>seed := sd\<rparr>))))"

text \<open>\<open>oom\<close>: one of the three allocations fails.\<close>

definition xor_populate :: "bool \<Rightarrow> u64 list \<Rightarrow> 'f::len word xor_filter
    \<Rightarrow> (bool \<times> 'f word xor_filter) res option" where
  "xor_populate oom keys flt =
    (case xor_rng_splitmix64 1 of (sd, rng) \<Rightarrow>
       if oom then Some (Inr (False, flt\<lparr>seed := sd\<rparr>))
       else attempts XOR_MAX_ITERATIONS keys rng (flt\<lparr>seed := sd\<rparr>))"

definition xor8_populate :: "bool \<Rightarrow> u64 list \<Rightarrow> xor8_t \<Rightarrow> (bool \<times> xor8_t) res option" where
  "xor8_populate = xor_populate"
definition xor16_populate :: "bool \<Rightarrow> u64 list \<Rightarrow> xor16_t \<Rightarrow> (bool \<times> xor16_t) res option" where
  "xor16_populate = xor_populate"

section \<open>Hash positions\<close>

lemma unat_u32_u64: "unat (ucast (x :: u32) :: u64) = unat x"
proof -
  have "unat x < 2 ^ LENGTH(32)" by (rule unsigned_less)
  then show ?thesis by (simp add: unsigned_ucast_eq take_bit_nat_eq_self)
qed

lemma unat_u64_u32: "unat (ucast (x :: u64) :: u32) = unat x mod 2 ^ 32"
  by (simp add: unsigned_ucast_eq take_bit_eq_mod)

lemma xor_reduce_unat: "unat (xor_reduce h n) = unat h * unat n div 2 ^ 32"
proof -
  have h: "unat h < 2 ^ 32" "unat n < 2 ^ 32"
    using unsigned_less [of h, where 'a = nat] unsigned_less [of n, where 'a = nat] by simp_all
  have "unat h * unat n < 2 ^ 32 * 2 ^ 32" using h by (intro mult_strict_mono) auto
  then have "unat (ucast h * ucast n :: u64) = unat h * unat n"
    by (simp add: unat_word_ariths unat_u32_u64)
  moreover have "unat h * unat n div 2 ^ 32 < 2 ^ 32"
    using \<open>unat h * unat n < 2 ^ 32 * 2 ^ 32\<close> by (simp add: less_mult_imp_div_less)
  ultimately show ?thesis
    by (simp add: xor_reduce_def unat_u64_u32 drop_bit_eq_div unat_div_distrib)
qed

lemma xor_reduce_less: "0 < unat n \<Longrightarrow> unat (xor_reduce h n) < unat n"
proof -
  assume n: "0 < unat n"
  have "unat h < 2 ^ 32" using unsigned_less [of h, where 'a = nat] by simp
  then have "unat h * unat n < unat n * 2 ^ 32" using n by (simp add: mult.commute)
  then show ?thesis by (simp add: xor_reduce_unat less_mult_imp_div_less)
qed

text \<open>The block length the construction works with: positive, and three blocks fit 32 bits.\<close>

definition bl_ok :: "u64 \<Rightarrow> bool" where
  "bl_ok bl \<longleftrightarrow> 0 < unat bl \<and> 3 * unat bl < 2 ^ 32"

lemma get_h_less: "bl_ok bl \<Longrightarrow> unat (xor_get_h b h bl) < unat bl"
proof -
  assume "bl_ok bl"
  then have "unat (ucast bl :: u32) = unat bl" "0 < unat bl" by (simp_all add: bl_ok_def unat_u64_u32)
  then show ?thesis
    using xor_reduce_less [of "ucast bl"] by (cases b) (simp_all add: xor_get_h0_def xor_get_h1_def xor_get_h2_def)
qed

section \<open>The exclusive or of a multiset\<close>

interpretation xor_fold: comp_fun_commute "(XOR) :: u64 \<Rightarrow> u64 \<Rightarrow> u64"
  by unfold_locales (simp add: fun_eq_iff xor.left_commute)

definition xor_sum :: "u64 multiset \<Rightarrow> u64" where
  "xor_sum M = fold_mset (XOR) 0 M"

lemma xor_sum_simps [simp]: "xor_sum {#} = 0" "xor_sum (add_mset h M) = h XOR xor_sum M"
  by (simp_all add: xor_sum_def)

lemma xor_cancel: "h XOR x XOR h = (x :: u64)" 
  by (simp add: xor.commute xor.left_commute)

section \<open>The invariant of the peeling\<close>

definition occ :: "u64 \<Rightarrow> block \<Rightarrow> nat \<Rightarrow> u64 multiset \<Rightarrow> u64 multiset" where
  "occ bl b i M = filter_mset (\<lambda>h. unat (xor_get_h b h bl) = i) M"

definition block_of :: "u64 \<Rightarrow> xor_keyindex \<Rightarrow> block" where
  "block_of bl e = (if unat (index e) < unat bl then B0 else if unat (index e) < 2 * unat bl then B1 else B2)"

definition loc_of :: "u64 \<Rightarrow> xor_keyindex \<Rightarrow> nat" where
  "loc_of bl e = unat (index e) - block_no (block_of bl e) * unat bl"

definition own :: "u64 \<Rightarrow> block \<Rightarrow> xor_keyindex list \<Rightarrow> u64 multiset" where
  "own bl b stk = mset (map hash (filter (\<lambda>e. block_of bl e = b) stk))"

text \<open>
  \<open>K\<close> are the hashes of all keys, \<open>P b\<close> the peeled ones whose set in block \<open>b\<close> is not yet
  decremented. The sets of block \<open>b\<close> count the keys that are left, the pending ones and the
  ones peeled from a set of \<open>b\<close> itself.
\<close>

definition rest :: "u64 multiset \<Rightarrow> xor_keyindex list \<Rightarrow> u64 multiset" where
  "rest K stk = K - mset (map hash stk)"

definition counted :: "u64 \<Rightarrow> u64 multiset \<Rightarrow> (block \<Rightarrow> u64 multiset) \<Rightarrow> xor_keyindex list \<Rightarrow> block \<Rightarrow> u64 multiset" where
  "counted bl K P stk b = rest K stk + P b + own bl b stk"

definition set_of :: "u64 multiset \<Rightarrow> xor_xorset" where
  "set_of M = \<lparr>xormask = xor_sum M, count = of_nat (size M)\<rparr>"

definition owned :: "u64 \<Rightarrow> (block \<Rightarrow> u64 multiset) \<Rightarrow> xor_keyindex \<Rightarrow> bool" where
  "owned bl M e \<longleftrightarrow> unat (index e) = block_no (block_of bl e) * unat bl + loc_of bl e
     \<and> loc_of bl e < unat bl
     \<and> occ bl (block_of bl e) (loc_of bl e) (M (block_of bl e)) = {#hash e#}"

definition stacked :: "u64 \<Rightarrow> xor_keyindex list \<Rightarrow> bool" where
  "stacked bl stk \<longleftrightarrow> sorted_wrt (\<lambda>e e'. unat (xor_get_h (block_of bl e') (hash e) bl) \<noteq> loc_of bl e') stk"

definition queued :: "u64 \<Rightarrow> xor_xorset list \<Rightarrow> block \<Rightarrow> xor_keyindex list \<Rightarrow> xor_keyindex \<Rightarrow> bool" where
  "queued bl ss b stk ki \<longleftrightarrow> unat (index ki) < unat bl
     \<and> (count (ss ! unat (index ki)) = 0 \<or>
        count (ss ! unat (index ki)) = 1 \<and> xormask (ss ! unat (index ki)) = hash ki)
     \<and> (\<forall>e \<in> set stk. block_of bl e = b \<longrightarrow> loc_of bl e \<noteq> unat (index ki))"

definition sets_hold :: "u64 \<Rightarrow> (block \<Rightarrow> u64 multiset) \<Rightarrow> (block \<Rightarrow> xor_xorset list) \<Rightarrow> bool" where
  "sets_hold bl M ss \<longleftrightarrow> (\<forall>b. ss b = map (\<lambda>i. set_of (occ bl b i (M b))) [0..<unat bl])"

definition peel_inv :: "u64 \<Rightarrow> u64 multiset \<Rightarrow> (block \<Rightarrow> u64 multiset) \<Rightarrow> peeling \<Rightarrow> bool" where
  "peel_inv bl K P st \<longleftrightarrow>
     size K < 2 ^ 32 \<and> mset (map hash (stack st)) \<subseteq># K
     \<and> (\<forall>b. P b + own bl b (stack st) \<subseteq># mset (map hash (stack st)))
     \<and> sets_hold bl (counted bl K P (stack st)) (sets st)
     \<and> (\<forall>e \<in> set (stack st). owned bl (counted bl K P (stack st)) e)
     \<and> stacked bl (stack st)
     \<and> (\<forall>b. distinct (map index (Q st b)) \<and> (\<forall>ki \<in> set (Q st b). queued bl (sets st b) b (stack st) ki))"

lemma occ_simps [simp]:
  "occ bl b i {#} = {#}" "occ bl b i (M + N) = occ bl b i M + occ bl b i N"
  "occ bl b i (add_mset h M) = (if unat (xor_get_h b h bl) = i then add_mset h (occ bl b i M) else occ bl b i M)"
  by (simp_all add: occ_def)

lemma own_simps [simp]:
  "own bl b [] = {#}"
  "own bl b (e # stk) = (if block_of bl e = b then add_mset (hash e) (own bl b stk) else own bl b stk)"
  by (simp_all add: own_def)

lemma counted_sub: "peel_inv bl K P st \<Longrightarrow> counted bl K P (stack st) b \<subseteq># K"
proof -
  assume inv: "peel_inv bl K P st"
  have "counted bl K P (stack st) b = rest K (stack st) + (P b + own bl b (stack st))"
    by (simp add: counted_def)
  also have "\<dots> \<subseteq># rest K (stack st) + mset (map hash (stack st))"
    using inv by (simp add: peel_inv_def)
  also have "\<dots> = K" using inv by (simp add: rest_def peel_inv_def)
  finally show ?thesis .
qed

lemma occ_size: "peel_inv bl K P st \<Longrightarrow> size (occ bl b i (counted bl K P (stack st) b)) < 2 ^ 32"
proof -
  assume inv: "peel_inv bl K P st"
  have "size (occ bl b i (counted bl K P (stack st) b)) \<le> size (counted bl K P (stack st) b)"
    by (simp add: occ_def size_filter_mset_lesseq)
  also have "\<dots> \<le> size K" using counted_sub [OF inv] by (rule size_mset_mono)
  finally show ?thesis using inv by (simp add: peel_inv_def)
qed

lemma count_set_of: "size M < 2 ^ 32 \<Longrightarrow> unat (count (set_of M)) = size M"
  by (simp add: set_of_def unat_of_nat)

lemma block_of_push:
  assumes "bl_ok bl" "unat (index ki) < unat bl"
    and e_def: "e = ki\<lparr>index := ucast (ucast (index ki) + of_nat (block_no b) * bl :: u64)\<rparr>"
  shows "unat (index e) = block_no b * unat bl + unat (index ki)" "block_of bl e = b"
    "loc_of bl e = unat (index ki)" "hash e = hash ki"
proof -
  have b: "block_no b \<le> 2" by (cases b) auto
  then have "block_no b * unat bl \<le> 2 * unat bl" by simp
  then have le: "unat (index ki) + block_no b * unat bl < 2 ^ 32"
    using assms(1,2) by (cases b) (auto simp: bl_ok_def)
  have "unat (of_nat (block_no b) * bl :: u64) = block_no b * unat bl"
    using le by (cases b) (auto simp: unat_word_ariths)
  then have "unat (ucast (index ki) + of_nat (block_no b) * bl :: u64) = unat (index ki) + block_no b * unat bl"
    using le by (simp add: unat_word_ariths unat_u32_u64)
  then show idx: "unat (index e) = block_no b * unat bl + unat (index ki)"
    using le by (simp add: e_def unat_u64_u32)
  then show blk: "block_of bl e = b"
    using assms(2) by (cases b) (auto simp: block_of_def)
  show "loc_of bl e = unat (index ki)" using idx by (simp add: loc_of_def blk)
  show "hash e = hash ki" by (simp add: e_def)
qed

lemma others_neq: "b \<noteq> fst (others b)" "b \<noteq> snd (others b)" "fst (others b) \<noteq> snd (others b)"
  by (cases b; simp)+

lemma others_all: "b' = b \<or> b' = fst (others b) \<or> b' = snd (others b)"
  by (cases b; cases b'; simp)

definition pend :: "block \<Rightarrow> u64 \<Rightarrow> (block \<Rightarrow> u64 multiset) \<Rightarrow> block \<Rightarrow> u64 multiset" where
  "pend b h P = (\<lambda>b'. if b' = b then P b' else add_mset h (P b'))"

lemma counted_push:
  assumes "h \<in># rest K stk" "block_of bl e = b" "hash e = h"
  shows "counted bl K (pend b h P) (e # stk) = counted bl K P stk"
proof
  fix b'
  have "rest K stk = add_mset h (rest K (e # stk))"
  proof -
    have "rest K (e # stk) = rest K stk - {#h#}" using assms(3) by (simp add: rest_def multiset_eq_iff)
    then show ?thesis using assms(1) by simp
  qed
  then show "counted bl K (pend b h P) (e # stk) b' = counted bl K P stk b'"
    using assms by (simp add: counted_def pend_def)
qed

lemma sets_nth:
  "peel_inv bl K P st \<Longrightarrow> i < unat bl \<Longrightarrow> sets st b ! i = set_of (occ bl b i (counted bl K P (stack st) b))"
  by (simp add: peel_inv_def sets_hold_def)

lemma sets_length: "peel_inv bl K P st \<Longrightarrow> length (sets st b) = unat bl"
  by (simp add: peel_inv_def sets_hold_def)

lemma occ_own_owner:
  assumes "h \<in># own bl b stk"
  obtains e where "e \<in> set stk" "block_of bl e = b" "hash e = h"
  using assms by (auto simp: own_def)

text \<open>A set that nothing was peeled from holds none of the peeled keys of its block.\<close>

lemma occ_own_empty:
  assumes "peel_inv bl K P st" "\<And>e. e \<in> set (stack st) \<Longrightarrow> block_of bl e = b \<Longrightarrow> loc_of bl e \<noteq> i"
  shows "occ bl b i (own bl b (stack st)) = {#}"
proof -
  have "unat (xor_get_h b h bl) \<noteq> i" if "h \<in># own bl b (stack st)" for h
  proof -
    from that obtain e where e: "e \<in> set (stack st)" "block_of bl e = b" "hash e = h" by (rule occ_own_owner)
    then have "hash e \<in># occ bl b (loc_of bl e) (counted bl K P (stack st) b)"
      using assms(1) by (auto simp: peel_inv_def owned_def)
    then show ?thesis using assms(2) [OF e(1,2)] e by (auto simp: occ_def)
  qed
  then show ?thesis by (auto simp: occ_def simp flip: set_mset_eq_empty_iff)
qed

text \<open>The key in a set of one key that is not pending is left to peel.\<close>

lemma peel_one_key:
  assumes inv: "peel_inv bl K P st" and q: "queued bl (sets st b) b (stack st) ki"
    and c: "count (sets st b ! unat (index ki)) \<noteq> 0" and p: "occ bl b (unat (index ki)) (P b) = {#}"
  shows "hash ki \<in># rest K (stack st)"
    "occ bl b (unat (index ki)) (counted bl K P (stack st) b) = {#hash ki#}"
proof -
  let ?i = "unat (index ki)" and ?M = "counted bl K P (stack st) b"
  have i: "?i < unat bl" using q by (simp add: queued_def)
  have s: "count (set_of (occ bl b ?i ?M)) = 1" "xormask (set_of (occ bl b ?i ?M)) = hash ki"
    using q c sets_nth [OF inv i, of b] by (auto simp: queued_def)
  then have "size (occ bl b ?i ?M) = 1" using count_set_of [OF occ_size [OF inv]] by (metis unat_1)
  then obtain h where h: "occ bl b ?i ?M = {#h#}" using size_1_singleton_mset by blast
  then have "h = hash ki" using s(2) by (simp add: set_of_def)
  with h show occ: "occ bl b ?i ?M = {#hash ki#}" by simp
  have "occ bl b ?i (own bl b (stack st)) = {#}" using q by (intro occ_own_empty [OF inv]) (auto simp: queued_def)
  then have "occ bl b ?i (rest K (stack st)) = {#hash ki#}" using occ p by (simp add: counted_def)
  then have "hash ki \<in># occ bl b ?i (rest K (stack st))" by simp
  then show "hash ki \<in># rest K (stack st)" by (simp add: occ_def)
qed

text \<open>No set that a key was peeled from holds another key.\<close>

lemma not_owned:
  assumes inv: "peel_inv bl K P st" and e: "e \<in> set (stack st)" "block_of bl e = b"
    and h: "h \<in># rest K (stack st) + P b"
  shows "unat (xor_get_h b h bl) \<noteq> loc_of bl e"
proof
  assume eq: "unat (xor_get_h b h bl) = loc_of bl e"
  let ?i = "loc_of bl e"
  have o: "occ bl b ?i (counted bl K P (stack st) b) = {#hash e#}"
    using inv e by (auto simp: peel_inv_def owned_def)
  then have "hash e \<in># occ bl b ?i (counted bl K P (stack st) b)" by simp
  then have he: "unat (xor_get_h b (hash e) bl) = ?i" by (simp add: occ_def)
  have "hash e \<in># own bl b (stack st)" using e by (auto simp: own_def)
  then have "hash e \<in># occ bl b ?i (own bl b (stack st))" using he by (simp add: occ_def)
  moreover have "h \<in># occ bl b ?i (rest K (stack st) + P b)" using h eq by (auto simp: occ_def)
  ultimately have "2 \<le> size (occ bl b ?i (rest K (stack st) + P b) + occ bl b ?i (own bl b (stack st)))"
    by (metis One_nat_def Suc_1 Suc_leI add_mono nonempty_has_size one_add_one size_union empty_iff set_mset_empty)
  moreover have "size (occ bl b ?i (counted bl K P (stack st) b)) = 1" using o by simp
  ultimately show False by (simp add: counted_def)
qed

lemma inv_queue:
  "peel_inv bl K P st \<Longrightarrow> distinct (map index (Q st b))"
  "peel_inv bl K P st \<Longrightarrow> ki \<in> set (Q st b) \<Longrightarrow> queued bl (sets st b) b (stack st) ki"
  unfolding peel_inv_def by blast+

lemma inv_pop:
  assumes "peel_inv bl K P st" "Q st b = ki # q"
  shows "peel_inv bl K P (st\<lparr>Q := (Q st)(b := q)\<rparr>)"
proof -
  have "distinct (map index q)" "\<forall>k \<in> set q. queued bl (sets st b) b (stack st) k"
    using inv_queue [OF assms(1), where b = b] assms(2) by auto
  then show ?thesis using assms(1) unfolding peel_inv_def by simp
qed

lemma fetch_set: "peel_inv bl K P st \<Longrightarrow> i < unat bl \<Longrightarrow> fetch (sets st b) i = Inr (sets st b ! i)"
  using sets_length [of bl K P st b] by (simp add: fetch_def)

text \<open>Stacking the key of a set that holds nothing else; the set is out of its queue.\<close>

definition dequeued :: "u64 \<Rightarrow> block \<Rightarrow> xor_keyindex \<Rightarrow> peeling \<Rightarrow> bool" where
  "dequeued bl b ki st \<longleftrightarrow> queued bl (sets st b) b (stack st) ki \<and> index ki \<notin> index ` set (Q st b)"

lemma inv_dequeued:
  assumes inv: "peel_inv bl K P st" and Q: "Q st b = ki # q"
  shows "dequeued bl b ki (st\<lparr>Q := (Q st)(b := q)\<rparr>)"
  using inv_queue(1) [OF inv, of b] inv_queue(2) [OF inv, of ki b] Q by (simp add: dequeued_def)

lemma inv_stack:
  assumes ok: "bl_ok bl" and inv: "peel_inv bl K P st" and dq: "dequeued bl b ki st"
    and c: "count (sets st b ! unat (index ki)) \<noteq> 0" and p: "occ bl b (unat (index ki)) (P b) = {#}"
  defines "e \<equiv> ki\<lparr>index := ucast (ucast (index ki) + of_nat (block_no b) * bl :: u64)\<rparr>"
  shows "length (stack st) < size K"
    and "peel_inv bl K (pend b (hash ki) P) (st\<lparr>stack := e # stack st\<rparr>)"
proof -
  let ?h = "hash ki" and ?i = "unat (index ki)" and ?M = "counted bl K P (stack st)"
  have q: "queued bl (sets st b) b (stack st) ki" using dq by (simp add: dequeued_def)
  then have i: "?i < unat bl" by (simp add: queued_def)
  note e = block_of_push [OF ok i, of e b, folded e_def, OF refl]
  note key = peel_one_key [OF inv q c p]
  have M: "counted bl K (pend b ?h P) (e # stack st) = ?M"
    using counted_push [OF key(1) e(2,4)] by simp
  have sub: "mset (map hash (stack st)) \<subseteq># K" using inv by (simp add: peel_inv_def)
  have "mset (map hash (e # stack st)) = add_mset ?h (mset (map hash (stack st)))" using e(4) by simp
  also have "\<dots> \<subseteq># K"
    using key(1) sub by (auto simp: subseteq_mset_def rest_def in_diff_count Suc_le_eq)
  finally have sub': "mset (map hash (e # stack st)) \<subseteq># K" .
  from size_mset_mono [OF this] show "length (stack st) < size K" by simp
  have own: "(pend b ?h P) b' + own bl b' (e # stack st) \<subseteq># mset (map hash (e # stack st))" for b'
    using inv e(2,4) by (auto simp: peel_inv_def pend_def)
  have old: "owned bl ?M e'" if "e' \<in> set (stack st)" for e' using inv that by (simp add: peel_inv_def)
  have new: "owned bl ?M e" using e i key(2) by (simp add: owned_def)
  have st: "stacked bl (e # stack st)"
    using inv not_owned [OF inv _ refl] key(1) e(4) by (auto simp: peel_inv_def stacked_def)
  have qs: "queued bl (sets st b') b' (e # stack st) k" if k: "k \<in> set (Q st b')" for b' k
  proof -
    have "unat (index k) \<noteq> ?i" if "b' = b"
    proof -
      have "index ki \<notin> index ` set (Q st b)" "index k \<in> index ` set (Q st b)"
        using dq k that by (simp_all add: dequeued_def)
      then have "index k \<noteq> index ki" by metis
      then show ?thesis by (simp add: word_unat_eq_iff)
    qed
    then show ?thesis using inv_queue(2) [OF inv k] e(2,3) by (auto simp: queued_def)
  qed
  show "peel_inv bl K (pend b ?h P) (st\<lparr>stack := e # stack st\<rparr>)"
    using inv sub' own old new st qs M unfolding peel_inv_def by simp
qed

text \<open>Decrementing the set of a pending key.\<close>

lemma xor_sum_remove: "h \<in># M \<Longrightarrow> xor_sum (M - {#h#}) = xor_sum M XOR h"
proof -
  assume "h \<in># M"
  then obtain N where "M = add_mset h N" by (meson multi_member_split)
  then show ?thesis by (simp add: xor.commute xor.left_commute)
qed

lemma decr_set_of: "h \<in># M \<Longrightarrow> decr_set h (set_of M) = set_of (M - {#h#})"
proof -
  assume h: "h \<in># M"
  then have "size M = Suc (size (M - {#h#}))" by (simp add: size_Suc_Diff1)
  then show ?thesis using xor_sum_remove [OF h] by (simp add: decr_set_def set_of_def)
qed

lemma incr_set_of: "incr_set h (set_of M) = set_of (add_mset h M)"
  by (simp add: incr_set_def set_of_def xor.commute)

lemma counted_decr:
  "h \<in># P b \<Longrightarrow> counted bl K (P(b := P b - {#h#})) stk = (counted bl K P stk)(b := counted bl K P stk b - {#h#})"
  by (auto simp: counted_def fun_eq_iff)

lemma occ_remove: "occ bl b i (M - {#h#}) = (if unat (xor_get_h b h bl) = i then occ bl b i M - {#h#} else occ bl b i M)"
proof (cases "unat (xor_get_h b h bl) = i")
  case False
  then have "h \<notin># occ bl b i M" by (simp add: occ_def)
  then show ?thesis using False by (simp add: occ_def diff_single_trivial)
qed (simp add: occ_def)

lemma queue_room: "peel_inv bl K P st \<Longrightarrow> length (Q st b) \<le> unat bl"
proof -
  assume inv: "peel_inv bl K P st"
  have "distinct (map (\<lambda>k. unat (index k)) (Q st b))"
    using inv_queue(1) [OF inv, of b] by (auto simp: distinct_map inj_on_def word_unat_eq_iff)
  moreover have "set (map (\<lambda>k. unat (index k)) (Q st b)) \<subseteq> {..<unat bl}"
    using inv_queue(2) [OF inv] by (auto simp: queued_def)
  ultimately have "length (map (\<lambda>k. unat (index k)) (Q st b)) \<le> card {..<unat bl}"
    by (metis card_mono distinct_card finite_lessThan)
  then show ?thesis by simp
qed

lemma inv_Q:
  "peel_inv bl K P st \<Longrightarrow> (\<And>b. distinct (map index (q b))) \<Longrightarrow>
   (\<And>b ki. ki \<in> set (q b) \<Longrightarrow> queued bl (sets st b) b (stack st) ki) \<Longrightarrow> peel_inv bl K P (st\<lparr>Q := q\<rparr>)"
  by (simp add: peel_inv_def)

lemma push_Q_ok:
  assumes inv: "peel_inv bl K P st" and q: "queued bl (sets st b) b (stack st) ki"
    and new: "index ki \<notin> index ` set (Q st b)"
  shows "push_Q bl b ki st = Inr (st\<lparr>Q := (Q st)(b := ki # Q st b)\<rparr>)"
    "peel_inv bl K P (st\<lparr>Q := (Q st)(b := ki # Q st b)\<rparr>)"
proof -
  show inv': "peel_inv bl K P (st\<lparr>Q := (Q st)(b := ki # Q st b)\<rparr>)"
    using inv_queue [OF inv] q new by (intro inv_Q [OF inv]) (auto split: if_splits)
  from queue_room [OF this, of b] show "push_Q bl b ki st = Inr (st\<lparr>Q := (Q st)(b := ki # Q st b)\<rparr>)"
    by (simp add: push_Q_def)
qed

lemma decrement_ok:
  assumes ok: "bl_ok bl" and inv: "peel_inv bl K P st" and h: "h \<in># P b"
  shows "\<exists>st'. decrement bl b (xor_get_h b h bl) h st = Inr st' \<and> peel_inv bl K (P(b := P b - {#h#})) st'
    \<and> stack st' = stack st \<and> length (Q st' b) \<le> Suc (length (Q st b))
    \<and> (\<forall>b'. b' \<noteq> b \<longrightarrow> Q st' b' = Q st b')
    \<and> (\<forall>b' ki. dequeued bl b' ki st \<longrightarrow> dequeued bl b' ki st')"
proof -
  let ?x = "xor_get_h b h bl" and ?M = "counted bl K P (stack st)" and ?P = "P(b := P b - {#h#})"
  let ?i = "unat ?x"
  have i: "?i < unat bl" by (rule get_h_less [OF ok])
  have M: "counted bl K ?P (stack st) = ?M(b := ?M b - {#h#})" using h by (rule counted_decr)
  have hM: "h \<in># occ bl b ?i (?M b)" using h by (simp add: occ_def counted_def)
  define s where "s = decr_set h (sets st b ! ?i)"
  have s: "s = set_of (occ bl b ?i (?M b) - {#h#})"
    unfolding s_def sets_nth [OF inv i] by (rule decr_set_of [OF hM])
  define st1 where "st1 = put_set b ?i s st"
  have P: "?P b' + own bl b' (stack st) \<subseteq># mset (map hash (stack st))" for b'
  proof -
    have "P b' + own bl b' (stack st) \<subseteq># mset (map hash (stack st))" using inv unfolding peel_inv_def by blast
    moreover have "?P b' + own bl b' (stack st) \<subseteq># P b' + own bl b' (stack st)" by auto
    ultimately show ?thesis by (rule subset_mset.trans [rotated])
  qed
  have sets: "sets_hold bl (?M(b := ?M b - {#h#})) (sets st1)"
    using inv unfolding peel_inv_def sets_hold_def st1_def put_set_def s
    by (auto intro!: nth_equalityI simp: nth_list_update occ_remove)
  have owned: "owned bl (?M(b := ?M b - {#h#})) e" if "e \<in> set (stack st)" for e
  proof -
    have "owned bl ?M e" using inv that unfolding peel_inv_def by blast
    moreover have "?i \<noteq> loc_of bl e" if "block_of bl e = b"
      using not_owned [OF inv \<open>e \<in> set (stack st)\<close> that, of h] h by auto
    ultimately show ?thesis by (auto simp: owned_def occ_remove)
  qed
  have cnt: "unat (count (sets st b ! ?i)) = Suc (size (occ bl b ?i (?M b) - {#h#}))"
    using count_set_of [OF occ_size [OF inv, of b ?i]] hM by (simp add: sets_nth [OF inv i] size_Suc_Diff1)
  have one: "unat (count s) = size (occ bl b ?i (?M b) - {#h#})"
    using cnt unsigned_less [of "count (sets st b ! ?i)", where 'a = nat]
    unfolding s by (intro count_set_of) simp
  have queued: "queued bl (sets st1 b') b' (stack st) k" if q: "queued bl (sets st b') b' (stack st) k" for k b'
  proof (cases "b' = b \<and> unat (index k) = ?i")
    case False
    then show ?thesis using q by (auto simp: st1_def put_set_def queued_def)
  next
    case True
    then have "count (sets st b ! ?i) = 0 \<or> count (sets st b ! ?i) = 1" using q by (auto simp: queued_def)
    then have "count s = 0" using cnt one by (auto simp: unat_eq_zero [symmetric])
    then show ?thesis using q True i sets_length [OF inv, of b]
      by (auto simp: st1_def put_set_def queued_def)
  qed
  have new: "index k \<noteq> ?x" if "count s = 1" "queued bl (sets st b) b (stack st) k" for k
  proof
    assume "index k = ?x"
    then have "count (sets st b ! ?i) = 0 \<or> count (sets st b ! ?i) = 1"
      using that(2) by (auto simp: queued_def)
    then show False using cnt one that(1) by auto
  qed
  have deq: "dequeued bl b' ki st \<Longrightarrow> dequeued bl b' ki st1" for b' ki
    using queued by (simp add: dequeued_def st1_def put_set_def)
  have base: "peel_inv bl K ?P st1"
    using inv P sets owned queued inv_queue [OF inv] unfolding peel_inv_def st1_def put_set_def by (simp add: M)
  show ?thesis
  proof (cases "count s = 1")
    case False
    then have "decrement bl b ?x h st = Inr st1"
      using fetch_set [OF inv i] by (simp add: decrement_def Let_def s_def st1_def)
    then show ?thesis using base deq by (auto simp: st1_def put_set_def)
  next
    case True
    let ?ki = "\<lparr>hash = xormask s, index = ?x\<rparr>"
    let ?st = "st1\<lparr>Q := (Q st1)(b := ?ki # Q st1 b)\<rparr>"
    have "loc_of bl e \<noteq> ?i" if "e \<in> set (stack st)" "block_of bl e = b" for e
      using not_owned [OF inv that, of h] h by auto
    then have "queued bl (sets st1 b) b (stack st) ?ki"
      using True i sets_length [OF inv, of b] unfolding queued_def by (simp add: st1_def put_set_def)
    moreover have "?x \<notin> index ` set (Q st b)" using new [OF True] inv_queue(2) [OF inv] by (metis imageE)
    then have "index ?ki \<notin> index ` set (Q st1 b)" "stack st1 = stack st"
      by (simp_all add: st1_def put_set_def)
    ultimately have push: "push_Q bl b ?ki st1 = Inr ?st" and inv': "peel_inv bl K ?P ?st"
      using push_Q_ok [OF base] by auto
    have "decrement bl b ?x h st = Inr ?st"
      using fetch_set [OF inv i] True push by (simp add: decrement_def Let_def s_def st1_def)
    moreover have "dequeued bl b' ki ?st" if "dequeued bl b' ki st" for b' ki
      using deq [OF that] that new [OF True, of ki] by (auto simp: dequeued_def st1_def put_set_def)
    ultimately show ?thesis using inv' by (auto simp: st1_def put_set_def)
  qed
qed

section \<open>The peeling ends\<close>

definition work :: "u64 multiset \<Rightarrow> peeling \<Rightarrow> nat" where
  "work K st = 5 * (size K - length (stack st)) + length (Q st B0) + length (Q st B1) + length (Q st B2)"

abbreviation none :: "block \<Rightarrow> u64 multiset" where "none \<equiv> \<lambda>_. {#}"

definition queues :: "peeling \<Rightarrow> nat" where
  "queues st = length (Q st B0) + length (Q st B1) + length (Q st B2)"

lemma queues_pop: "Q st b = ki # q \<Longrightarrow> Suc (queues (st\<lparr>Q := (Q st)(b := q)\<rparr>)) = queues st"
  by (cases b) (simp_all add: queues_def)

lemma queues_grow:
  assumes "length (Q st' b) \<le> Suc (length (Q st b))" "\<forall>b'. b' \<noteq> b \<longrightarrow> Q st' b' = Q st b'"
  shows "queues st' \<le> Suc (queues st)"
  using assms by (cases b) (auto simp: queues_def)

lemma peel_one_ok:
  assumes ok: "bl_ok bl" and inv: "peel_inv bl K none st" and ne: "Q st b \<noteq> []"
  shows "\<exists>st'. peel_one bl (size K) b st = Inr st' \<and> peel_inv bl K none st' \<and> work K st' < work K st"
proof -
  obtain ki q where Q: "Q st b = ki # q" using ne by (cases "Q st b") auto
  let ?st = "st\<lparr>Q := (Q st)(b := q)\<rparr>"
  have i: "unat (index ki) < unat bl" using inv_queue(2) [OF inv, of ki b] Q by (simp add: queued_def)
  have f: "fetch (sets ?st b) (unat (index ki)) = Inr (sets st b ! unat (index ki))"
    using fetch_set [OF inv_pop [OF inv Q] i] by simp
  have w: "work K ?st < work K st" using queues_pop [OF Q] by (simp add: work_def queues_def)
  show ?thesis
  proof (cases "count (sets st b ! unat (index ki)) = 0")
    case True
    then have "peel_one bl (size K) b st = Inr ?st" using Q f by (simp add: peel_one_def Let_def)
    then show ?thesis using inv_pop [OF inv Q] w by blast
  next
    case False
    let ?h = "hash ki" and ?b1 = "fst (others b)" and ?b2 = "snd (others b)"
    define e where "e = ki\<lparr>index := ucast (ucast (index ki) + of_nat (block_no b) * bl :: u64)\<rparr>"
    let ?st1 = "?st\<lparr>stack := e # stack st\<rparr>"
    have occ: "occ bl b (unat (index ki)) (none b) = {#}" by simp
    have len: "length (stack st) < size K" and inv1: "peel_inv bl K (pend b ?h none) ?st1"
      using inv_stack [OF ok inv_pop [OF inv Q] inv_dequeued [OF inv Q] _ occ] False by (simp_all add: e_def)
    have push: "push_stack (size K) e ?st = Inr ?st1" using len by (simp add: push_stack_def)
    define P2 where "P2 = (pend b ?h none)(?b1 := (pend b ?h none) ?b1 - {#?h#})"
    have "?h \<in># (pend b ?h none) ?b1" using others_neq [of b] by (simp add: pend_def)
    from decrement_ok [OF ok inv1 this, folded P2_def] obtain st2 where st2:
      "decrement bl ?b1 (xor_get_h ?b1 ?h bl) ?h ?st1 = Inr st2" "peel_inv bl K P2 st2"
      "stack st2 = e # stack st" "queues st2 \<le> Suc (queues ?st)"
      using queues_grow [of _ ?b1 ?st1] by (auto simp: queues_def)
    have "?h \<in># P2 ?b2" using others_neq [of b] by (simp add: pend_def P2_def)
    from decrement_ok [OF ok st2(2) this] obtain st3 where st3:
      "decrement bl ?b2 (xor_get_h ?b2 ?h bl) ?h st2 = Inr st3"
      "peel_inv bl K (P2(?b2 := P2 ?b2 - {#?h#})) st3"
      "stack st3 = e # stack st" "queues st3 \<le> Suc (queues st2)"
      using queues_grow [of _ ?b2 st2] st2(3) by auto
    have "P2(?b2 := P2 ?b2 - {#?h#}) = none"
      using others_neq [of b] others_all [of _ b] by (auto simp: fun_eq_iff pend_def P2_def)
    then have inv3: "peel_inv bl K none st3" using st3(2) by simp
    moreover have "peel_one bl (size K) b st = Inr st3"
      using Q f False push st2(1) st3(1) by (simp add: peel_one_def Let_def e_def split_def)
    moreover have "work K st3 < work K st"
      using st2(4) st3(3,4) len queues_pop [OF Q] by (simp add: work_def queues_def)
    ultimately show ?thesis by blast
  qed
qed

lemma peel_block_ok:
  assumes ok: "bl_ok bl" and inv: "peel_inv bl K none st"
  shows "\<exists>st'. peel_block bl (size K) b st = Some (Inr st') \<and> peel_inv bl K none st'
    \<and> work K st' \<le> work K st \<and> (Q st b \<noteq> [] \<longrightarrow> work K st' < work K st)"
  using inv
proof (induction "work K st" arbitrary: st rule: less_induct)
  case less
  show ?case
  proof (cases "Q st b = []")
    case True
    then show ?thesis using less.prems by (subst peel_block.simps) simp
  next
    case False
    from peel_one_ok [OF ok less.prems False] obtain st1 where
      st1: "peel_one bl (size K) b st = Inr st1" "peel_inv bl K none st1" "work K st1 < work K st" by blast
    from less.hyps [OF st1(3,2)] obtain st2 where
      "peel_block bl (size K) b st1 = Some (Inr st2)" "peel_inv bl K none st2" "work K st2 \<le> work K st1" by blast
    then show ?thesis using st1 False by (subst peel_block.simps) simp
  qed
qed

lemma peel_ok:
  assumes ok: "bl_ok bl" and inv: "peel_inv bl K none st"
  shows "\<exists>st'. peel bl (size K) st = Some (Inr st') \<and> peel_inv bl K none st'"
  using inv
proof (induction "work K st" arbitrary: st rule: less_induct)
  case less
  show ?case
  proof (cases "queues st = 0")
    case True
    then show ?thesis using less.prems by (subst peel.simps) (simp add: queues_def)
  next
    case False
    obtain st0 where 0: "peel_block bl (size K) B0 st = Some (Inr st0)" "peel_inv bl K none st0"
      "work K st0 \<le> work K st" "Q st B0 \<noteq> [] \<longrightarrow> work K st0 < work K st"
      using peel_block_ok [OF ok less.prems, of B0] by blast
    obtain st1 where 1: "peel_block bl (size K) B1 st0 = Some (Inr st1)" "peel_inv bl K none st1"
      "work K st1 \<le> work K st0" "Q st0 B1 \<noteq> [] \<longrightarrow> work K st1 < work K st0"
      using peel_block_ok [OF ok 0(2), of B1] by blast
    obtain st2 where 2: "peel_block bl (size K) B2 st1 = Some (Inr st2)" "peel_inv bl K none st2"
      "work K st2 \<le> work K st1" "Q st1 B2 \<noteq> [] \<longrightarrow> work K st2 < work K st1"
      using peel_block_ok [OF ok 1(2), of B2] by blast
    have same: "Q s b = [] \<Longrightarrow> peel_block bl n b s = Some (Inr s)" for s b n
      by (subst peel_block.simps) simp
    have "work K st2 < work K st"
    proof (cases "Q st B0 = []")
      case True
      then have "st0 = st" using 0(1) same [of st B0] by simp
      moreover have "Q st B1 = [] \<Longrightarrow> st1 = st0" using 1(1) same [of st0 B1] \<open>st0 = st\<close> by simp
      moreover have "Q st B1 \<noteq> [] \<or> Q st B2 \<noteq> []" using False True by (auto simp: queues_def)
      ultimately show ?thesis using 1 2 by fastforce
    qed (use 0 1 2 in auto)
    from less.hyps [OF this 2(2)] show ?thesis
      using 0(1) 1(1) 2(1) False by (subst peel.simps) (auto simp: queues_def)
  qed
qed

section \<open>Setting up an attempt\<close>

definition hashes :: "u64 \<Rightarrow> u64 list \<Rightarrow> u64 multiset" where
  "hashes sd keys = mset (map (\<lambda>k. xor_mix_split k sd) keys)"

lemma increment_ok:
  assumes "bl_ok bl" "sets_hold bl M (sets st)"
  shows "\<exists>st'. increment b (xor_get_h b h bl) h st = Inr st'
    \<and> sets_hold bl (M(b := add_mset h (M b))) (sets st') \<and> Q st' = Q st \<and> stack st' = stack st"
proof -
  let ?i = "unat (xor_get_h b h bl)"
  have i: "?i < unat bl" by (rule get_h_less [OF assms(1)])
  have s: "sets st b = map (\<lambda>i. set_of (occ bl b i (M b))) [0..<unat bl]"
    using assms(2) by (simp add: sets_hold_def)
  have "increment b (xor_get_h b h bl) h st
      = Inr (put_set b ?i (set_of (add_mset h (occ bl b ?i (M b)))) st)"
    using i by (simp add: increment_def fetch_def s incr_set_of)
  moreover have "sets_hold bl (M(b := add_mset h (M b)))
      (sets (put_set b ?i (set_of (add_mset h (occ bl b ?i (M b)))) st))"
    using assms(2) unfolding sets_hold_def put_set_def
    by (auto intro!: nth_equalityI simp: nth_list_update)
  ultimately show ?thesis by (simp add: put_set_def)
qed

lemma add_keys_ok:
  assumes "bl_ok bl" "sets_hold bl (\<lambda>_. M) (sets st)"
  shows "\<exists>st'. add_keys sd bl keys st = Inr st' \<and> sets_hold bl (\<lambda>_. M + hashes sd keys) (sets st')
    \<and> Q st' = Q st \<and> stack st' = stack st"
  using assms(2)
proof (induction keys arbitrary: M st)
  case Nil
  then show ?case by (simp add: hashes_def)
next
  case (Cons k keys)
  let ?h = "xor_mix_split k sd"
  obtain st0 where 0: "increment B0 (xor_get_h B0 ?h bl) ?h st = Inr st0"
    "sets_hold bl ((\<lambda>_. M)(B0 := add_mset ?h M)) (sets st0)" "Q st0 = Q st" "stack st0 = stack st"
    using increment_ok [OF assms(1) Cons.prems, of B0 ?h] by auto
  obtain st1 where 1: "increment B1 (xor_get_h B1 ?h bl) ?h st0 = Inr st1"
    "sets_hold bl ((\<lambda>_. M)(B0 := add_mset ?h M, B1 := add_mset ?h M)) (sets st1)" "Q st1 = Q st" "stack st1 = stack st"
    using increment_ok [OF assms(1) 0(2), of B1 ?h] 0 by auto
  obtain st2 where 2: "increment B2 (xor_get_h B2 ?h bl) ?h st1 = Inr st2"
    "sets_hold bl ((\<lambda>_. M)(B0 := add_mset ?h M, B1 := add_mset ?h M, B2 := add_mset ?h M)) (sets st2)"
    "Q st2 = Q st" "stack st2 = stack st"
    using increment_ok [OF assms(1) 1(2), of B2 ?h] 1 by auto
  have "((\<lambda>_. M)(B0 := add_mset ?h M, B1 := add_mset ?h M, B2 := add_mset ?h M)) = (\<lambda>_. add_mset ?h M)"
  proof
    fix b show "((\<lambda>_. M)(B0 := add_mset ?h M, B1 := add_mset ?h M, B2 := add_mset ?h M)) b = add_mset ?h M"
      by (cases b) simp_all
  qed
  then have "sets_hold bl (\<lambda>_. add_mset ?h M) (sets st2)" using 2(2) by simp
  from Cons.IH [OF this] 0(1) 1(1) 2 show ?case
    by (auto simp: add_key_def Let_def hashes_def)
qed

lemma unat_index: "bl_ok bl \<Longrightarrow> i < unat bl \<Longrightarrow> unat (of_nat i :: u32) = i"
  by (simp add: unat_of_nat bl_ok_def)

lemma scan_ok:
  assumes ok: "bl_ok bl" and inv: "peel_inv bl K none st" and st: "stack st = []"
    and "distinct is" "\<And>i. i \<in> set is \<Longrightarrow> i < unat bl"
    and "\<And>ki. ki \<in> set (Q st b) \<Longrightarrow> unat (index ki) \<notin> set is"
  shows "\<exists>st'. scan bl b is st = Inr st' \<and> peel_inv bl K none st' \<and> stack st' = []
    \<and> (\<forall>b'. b' \<noteq> b \<longrightarrow> Q st' b' = Q st b')"
  using assms(2-)
proof (induction "is" arbitrary: st)
  case (Cons i "is")
  have i: "i < unat bl" using Cons.prems by simp
  have f: "fetch (sets st b) i = Inr (sets st b ! i)" using Cons.prems(1) i by (rule fetch_set)
  show ?case
  proof (cases "count (sets st b ! i) = 1")
    case False
    then show ?thesis using Cons.IH [of st] Cons.prems f by auto
  next
    case True
    let ?ki = "\<lparr>hash = xormask (sets st b ! i), index = of_nat i\<rparr>"
    let ?st = "st\<lparr>Q := (Q st)(b := ?ki # Q st b)\<rparr>"
    have u: "unat (index ?ki) = i" using unat_index [OF ok i] by simp
    have q: "queued bl (sets st b) b (stack st) ?ki"
      using True i u Cons.prems(2) unfolding queued_def by simp
    have new: "index ?ki \<notin> index ` set (Q st b)" using Cons.prems(5) u by force
    note p = push_Q_ok [OF Cons.prems(1) q new]
    have "\<exists>st'. scan bl b is ?st = Inr st' \<and> peel_inv bl K none st' \<and> stack st' = []
        \<and> (\<forall>b'. b' \<noteq> b \<longrightarrow> Q st' b' = Q ?st b')"
      using p(2) Cons.prems u by (intro Cons.IH) auto
    then show ?thesis using f True p(1) by auto
  qed
qed simp

lemma cleared_sets: "sets_hold bl none (sets (cleared bl))"
  by (simp add: sets_hold_def cleared_def set_of_def map_replicate_const)

lemma prepare_ok:
  assumes ok: "bl_ok bl" and len: "length keys < 2 ^ 32"
  shows "\<exists>st. prepare sd bl keys = Inr st \<and> peel_inv bl (hashes sd keys) none st \<and> stack st = []"
proof -
  let ?K = "hashes sd keys"
  obtain st where st: "add_keys sd bl keys (cleared bl) = Inr st" "sets_hold bl (\<lambda>_. ?K) (sets st)"
      "Q st = (\<lambda>_. [])" "stack st = []"
    using add_keys_ok [OF ok cleared_sets, of sd keys] by (auto simp: cleared_def)
  have "counted bl ?K none [] = (\<lambda>_. ?K)" by (simp add: counted_def rest_def fun_eq_iff)
  then have inv: "peel_inv bl ?K none st"
    using st len by (simp add: peel_inv_def stacked_def hashes_def)
  obtain st0 where 0: "scan bl B0 [0..<unat bl] st = Inr st0" "peel_inv bl ?K none st0" "stack st0 = []"
      "\<forall>b'. b' \<noteq> B0 \<longrightarrow> Q st0 b' = Q st b'"
    using scan_ok [OF ok inv st(4), of "[0..<unat bl]" B0] st(3) by auto
  obtain st1 where 1: "scan bl B1 [0..<unat bl] st0 = Inr st1" "peel_inv bl ?K none st1" "stack st1 = []"
      "\<forall>b'. b' \<noteq> B1 \<longrightarrow> Q st1 b' = Q st0 b'"
    using scan_ok [OF ok 0(2,3), of "[0..<unat bl]" B1] 0(4) st(3) by auto
  obtain st2 where 2: "scan bl B2 [0..<unat bl] st1 = Inr st2" "peel_inv bl ?K none st2" "stack st2 = []"
    using scan_ok [OF ok 1(2,3), of "[0..<unat bl]" B2] 0(4) 1(4) st(3) by auto
  show ?thesis using st(1) 0(1) 1(1) 2 by (simp add: prepare_def)
qed

section \<open>Assigning the fingerprints\<close>

definition pos :: "u64 \<Rightarrow> block \<Rightarrow> u64 \<Rightarrow> nat" where
  "pos bl b h = block_no b * unat bl + unat (xor_get_h b h bl)"

definition sat :: "u64 \<Rightarrow> 'f::len word list \<Rightarrow> u64 \<Rightarrow> bool" where
  "sat bl fp h \<longleftrightarrow> ucast (xor_fingerprint h) = fp ! pos bl B0 h XOR fp ! pos bl B1 h XOR fp ! pos bl B2 h"

lemma pos_less: "bl_ok bl \<Longrightarrow> pos bl b h < 3 * unat bl"
  using get_h_less [of bl b h] by (cases b) (auto simp: pos_def)

lemma pos_block: "bl_ok bl \<Longrightarrow> pos bl b h = pos bl b' h' \<Longrightarrow> b = b'"
  using get_h_less [of bl b h] get_h_less [of bl b' h'] by (cases b; cases b') (auto simp: pos_def)

lemma xor_inv3: "x XOR (y XOR z) XOR y XOR z = (x :: 'a::len word)"
  by (rule bit_word_eqI) (auto simp: bit_xor_iff)

lemma ucast_store:
  fixes x y :: "'f::len word"
  assumes "LENGTH('f) \<le> 64"
  shows "ucast (h XOR (ucast x XOR ucast y) :: u64) = ucast h XOR x XOR y"
  using assms by (intro bit_word_eqI) (auto simp: bit_xor_iff bit_unsigned_iff)

lemma block_of_cases:
  "block_of bl e = B0 \<longleftrightarrow> unat (index e) < unat bl"
  "block_of bl e = B1 \<longleftrightarrow> \<not> unat (index e) < unat bl \<and> unat (index e) < 2 * unat bl"
  by (auto simp: block_of_def)

lemma assign_one_ok:
  fixes fp :: "'f::len word list"
  assumes ok: "bl_ok bl" and w: "LENGTH('f) \<le> 64" and len: "length fp = 3 * unat bl"
    and e: "unat (index e) = pos bl (block_of bl e) (hash e)"
  shows "\<exists>v. assign_one bl e fp = Inr (fp[unat (index e) := v])
    \<and> sat bl (fp[unat (index e) := v]) (hash e)"
proof -
  let ?h = "hash e" and ?p = "\<lambda>b. pos bl b (hash e)"
  have "unat (2 * bl) = 2 * unat bl" using ok by (simp add: bl_ok_def unat_word_ariths)
  then have lt: "(ucast (index e) < bl) = (unat (index e) < unat bl)"
      "(ucast (index e) < 2 * bl) = (unat (index e) < 2 * unat bl)"
    by (simp_all add: word_less_nat_alt unat_u32_u64)
  have f: "fetch fp (unat (xor_get_h0 ?h bl)) = Inr (fp ! ?p B0)"
    "fetch fp (unat bl + unat (xor_get_h1 ?h bl)) = Inr (fp ! ?p B1)"
    "fetch fp (2 * unat bl + unat (xor_get_h2 ?h bl)) = Inr (fp ! ?p B2)"
    using pos_less [OF ok, of B0 ?h] pos_less [OF ok, of B1 ?h] pos_less [OF ok, of B2 ?h] len
    by (simp_all add: fetch_def pos_def)
  have i: "unat (index e) < length fp" using pos_less [OF ok] len by (simp add: e)
  have p: "?p b < length fp" for b using pos_less [OF ok] len by simp
  have neq: "?p B0 \<noteq> ?p B1" "?p B0 \<noteq> ?p B2" "?p B1 \<noteq> ?p B2"
    using pos_block [OF ok] by blast+
  show ?thesis
  proof (cases "block_of bl e")
    case B0
    then have "assign_one bl e fp = Inr (fp[unat (index e) := ucast (xor_fingerprint ?h) XOR fp ! ?p B1 XOR fp ! ?p B2])"
      using f i block_of_cases(1) [of bl e] by (simp add: assign_one_def Let_def lt ucast_store [OF w])
    then show ?thesis using e B0 neq p
      by (auto simp: sat_def xor.assoc intro!: exI [of _ "ucast (xor_fingerprint ?h) XOR fp ! ?p B1 XOR fp ! ?p B2"])
  next
    case B1
    then have "assign_one bl e fp = Inr (fp[unat (index e) := ucast (xor_fingerprint ?h) XOR fp ! ?p B0 XOR fp ! ?p B2])"
      using f i block_of_cases(2) [of bl e] by (simp add: assign_one_def Let_def lt ucast_store [OF w])
    then show ?thesis using e B1 neq p
      by (auto simp: sat_def xor.assoc xor.left_commute intro!: exI [of _ "ucast (xor_fingerprint ?h) XOR fp ! ?p B0 XOR fp ! ?p B2"])
  next
    case B2
    then have "\<not> unat (index e) < unat bl" "\<not> unat (index e) < 2 * unat bl"
      by (auto simp: block_of_def split: if_splits)
    then have "assign_one bl e fp = Inr (fp[unat (index e) := ucast (xor_fingerprint ?h) XOR fp ! ?p B0 XOR fp ! ?p B1])"
      using f i by (simp add: assign_one_def Let_def lt ucast_store [OF w])
    then show ?thesis using e B2 neq p
      by (auto simp: sat_def xor.assoc xor.left_commute xor.commute intro!: exI [of _ "ucast (xor_fingerprint ?h) XOR fp ! ?p B0 XOR fp ! ?p B1"])
  qed
qed

lemma sat_update: "i \<notin> {pos bl B0 h, pos bl B1 h, pos bl B2 h} \<Longrightarrow> sat bl (fp[i := v]) h = sat bl fp h"
  by (auto simp: sat_def)

text \<open>A stored fingerprint is not overwritten: the positions assigned later are of no use to it.\<close>

lemma assign_ok:
  fixes fp :: "'f::len word list"
  assumes ok: "bl_ok bl" and w: "LENGTH('f) \<le> 64" and "length fp = 3 * unat bl"
    and "\<And>e. e \<in> set stk \<Longrightarrow> unat (index e) = pos bl (block_of bl e) (hash e)"
    and "sorted_wrt (\<lambda>e e'. pos bl (block_of bl e') (hash e) \<noteq> unat (index e')) stk"
    and "\<And>h. h \<in> S \<Longrightarrow> sat bl fp h"
    and "\<And>h e. h \<in> S \<Longrightarrow> e \<in> set stk \<Longrightarrow> pos bl (block_of bl e) h \<noteq> unat (index e)"
  shows "\<exists>fp'. assign bl stk fp = Inr fp' \<and> length fp' = 3 * unat bl
    \<and> (\<forall>h \<in> S \<union> hash ` set stk. sat bl fp' h)"
  using assms(3-)
proof (induction stk arbitrary: fp S)
  case (Cons e stk)
  have e: "unat (index e) = pos bl (block_of bl e) (hash e)" using Cons.prems(2) by simp
  obtain v where v: "assign_one bl e fp = Inr (fp[unat (index e) := v])" "sat bl (fp[unat (index e) := v]) (hash e)"
    using assign_one_ok [OF ok w Cons.prems(1) e] by blast
  have keep: "unat (index e) \<noteq> pos bl b h" if "h \<in> S" for b h
    using Cons.prems(5) [OF that, of e] pos_block [OF ok, of "block_of bl e" "hash e" b h] e by auto
  have "\<exists>fp'. assign bl stk (fp[unat (index e) := v]) = Inr fp' \<and> length fp' = 3 * unat bl
      \<and> (\<forall>h \<in> insert (hash e) S \<union> hash ` set stk. sat bl fp' h)"
  proof (rule Cons.IH)
    show "sat bl (fp[unat (index e) := v]) h" if "h \<in> insert (hash e) S" for h
      using that v(2) Cons.prems(4) keep by (auto simp: sat_update)
    show "pos bl (block_of bl e') h \<noteq> unat (index e')" if "h \<in> insert (hash e) S" "e' \<in> set stk" for h e'
      using that Cons.prems(3,5) by auto
  qed (use Cons.prems in auto)
  then show ?case using v(1) by auto
qed simp

lemma inv_assign:
  fixes fp :: "'f::len word list"
  assumes ok: "bl_ok bl" and w: "LENGTH('f) \<le> 64" and len: "length fp = 3 * unat bl"
    and inv: "peel_inv bl K P st"
  shows "\<exists>fp'. assign bl (stack st) fp = Inr fp' \<and> length fp' = 3 * unat bl
    \<and> (\<forall>e \<in> set (stack st). sat bl fp' (hash e))"
proof -
  have o: "unat (index e) = block_no (block_of bl e) * unat bl + loc_of bl e"
      "unat (xor_get_h (block_of bl e) (hash e) bl) = loc_of bl e" if "e \<in> set (stack st)" for e
  proof -
    have ow: "owned bl (counted bl K P (stack st)) e" using inv that unfolding peel_inv_def by blast
    then show "unat (index e) = block_no (block_of bl e) * unat bl + loc_of bl e" by (simp add: owned_def)
    from ow have "hash e \<in># occ bl (block_of bl e) (loc_of bl e) (counted bl K P (stack st) (block_of bl e))"
      by (simp add: owned_def)
    then show "unat (xor_get_h (block_of bl e) (hash e) bl) = loc_of bl e" by (simp add: occ_def)
  qed
  have "sorted_wrt (\<lambda>e e'. unat (xor_get_h (block_of bl e') (hash e) bl) \<noteq> loc_of bl e') (stack st)"
    using inv unfolding peel_inv_def stacked_def by blast
  then have "sorted_wrt (\<lambda>e e'. pos bl (block_of bl e') (hash e) \<noteq> unat (index e')) (stack st)"
    by (rule sorted_wrt_mono_rel [rotated]) (auto simp: pos_def o(1))
  then show ?thesis using assign_ok [OF ok w len, of "stack st" "{}"] o by (auto simp: pos_def)
qed

section \<open>The constructed filter\<close>

text \<open>A filter as \<open>xor8_allocate\<close> makes it: three blocks of fingerprints.\<close>

definition filter_ok :: "'f::len word xor_filter \<Rightarrow> bool" where
  "filter_ok flt \<longleftrightarrow> bl_ok (blockLength flt) \<and> length (fingerprints flt) = 3 * unat (blockLength flt)"

lemma contain_eq:
  assumes "filter_ok flt"
  shows "xor_contain key flt = Inr (sat (blockLength flt) (fingerprints flt) (xor_mix_split key (seed flt)))"
proof -
  let ?bl = "blockLength flt" and ?h = "xor_mix_split key (seed flt)"
  have ok: "bl_ok ?bl" and len: "length (fingerprints flt) = 3 * unat ?bl"
    using assms by (simp_all add: filter_ok_def)
  have b: "3 * unat ?bl < 2 ^ 32" using ok by (simp add: bl_ok_def)
  have p: "pos ?bl b ?h < 3 * unat ?bl" for b by (rule pos_less [OF ok])
  have "unat (ucast (ucast (xor_get_h1 ?h ?bl) + ?bl) :: u32) = pos ?bl B1 ?h"
    using p [of B1] b by (simp add: unat_u64_u32 unat_word_ariths unat_u32_u64 pos_def)
  moreover have "unat (ucast (ucast (xor_get_h2 ?h ?bl) + 2 * ?bl) :: u32) = pos ?bl B2 ?h"
    using p [of B2] b by (simp add: unat_u64_u32 unat_word_ariths unat_u32_u64 pos_def)
  moreover have "unat (xor_get_h0 ?h ?bl) = pos ?bl B0 ?h" by (simp add: pos_def)
  ultimately show ?thesis using p len by (simp add: xor_contain_def Let_def fetch_def sat_def)
qed

lemma distinct_by_place:
  "sorted_wrt (\<lambda>e e'. f e' (h e) \<noteq> g e') xs \<Longrightarrow> (\<And>e. e \<in> set xs \<Longrightarrow> f e (h e) = g e) \<Longrightarrow> distinct (map h xs)"
proof (induction xs)
  case (Cons e xs)
  have "h e \<noteq> h e'" if "e' \<in> set xs" for e'
    using Cons.prems(1) Cons.prems(2) [of e'] that by force
  then show ?case using Cons by auto
qed simp

lemma stack_complete:
  assumes inv: "peel_inv bl K P st" and len: "length (stack st) = size K"
  shows "mset (map hash (stack st)) = K" "distinct (map hash (stack st))"
proof -
  have sub: "mset (map hash (stack st)) \<subseteq># K" using inv unfolding peel_inv_def by blast
  show eq: "mset (map hash (stack st)) = K"
    using sub len by (metis length_map mset_subset_size size_mset subset_mset.le_imp_less_or_eq less_irrefl)
  have own: "unat (xor_get_h (block_of bl e) (hash e) bl) = loc_of bl e" if "e \<in> set (stack st)" for e
  proof -
    have "owned bl (counted bl K P (stack st)) e" using inv that unfolding peel_inv_def by blast
    then have "hash e \<in># occ bl (block_of bl e) (loc_of bl e) (counted bl K P (stack st) (block_of bl e))"
      by (simp add: owned_def)
    then show ?thesis by (simp add: occ_def)
  qed
  have "stacked bl (stack st)" using inv unfolding peel_inv_def by blast
  then show "distinct (map hash (stack st))"
    unfolding stacked_def by (rule distinct_by_place [where f = "\<lambda>e h. unat (xor_get_h (block_of bl e) h bl)" and g = "loc_of bl", OF _ own])
qed

lemma constructed:
  assumes ok: "bl_ok (blockLength flt)" and inv: "peel_inv (blockLength flt) (hashes (seed flt) keys) P st"
    and len: "length (stack st) = length keys" and fp: "length fp = 3 * unat (blockLength flt)"
    and s: "\<forall>e \<in> set (stack st). sat (blockLength flt) fp (hash e)"
  shows "distinct keys \<and> (\<forall>k \<in> set keys. xor_contain k (flt\<lparr>fingerprints := fp\<rparr>) = Inr True)"
proof -
  let ?f = "flt\<lparr>fingerprints := fp\<rparr>" and ?K = "hashes (seed flt) keys"
  have f: "filter_ok ?f" using ok fp by (simp add: filter_ok_def)
  have mset: "mset (map hash (stack st)) = ?K" "distinct (map hash (stack st))"
    using stack_complete [OF inv] len by (auto simp: hashes_def)
  then have "distinct (map (\<lambda>k. xor_mix_split k (seed flt)) keys)"
    unfolding hashes_def by (metis mset_eq_imp_distinct_iff)
  then have "distinct keys" by (simp add: distinct_map)
  moreover have "xor_contain k ?f = Inr True" if "k \<in> set keys" for k
  proof -
    have "xor_mix_split k (seed flt) \<in># mset (map hash (stack st))"
      unfolding mset(1) hashes_def using that by auto
    then have "sat (blockLength flt) fp (xor_mix_split k (seed flt))" using s by auto
    then show ?thesis using contain_eq [OF f, of k] by simp
  qed
  ultimately show ?thesis by blast
qed

lemma attempts_ok:
  fixes flt :: "'f::len word xor_filter"
  assumes w: "LENGTH('f) \<le> 64" and "filter_ok flt" and len: "length keys < 2 ^ 32"
  shows "\<exists>r flt'. attempts n keys rng flt = Some (Inr (r, flt')) \<and> filter_ok flt'
    \<and> blockLength flt' = blockLength flt
    \<and> (r \<longrightarrow> distinct keys \<and> (\<forall>k \<in> set keys. xor_contain k flt' = Inr True))"
  using assms(2)
proof (induction n arbitrary: rng flt)
  case (Suc n)
  let ?bl = "blockLength flt" and ?K = "hashes (seed flt) keys"
  have ok: "bl_ok ?bl" and fl: "length (fingerprints flt) = 3 * unat ?bl"
    using Suc.prems by (simp_all add: filter_ok_def)
  have sz: "size ?K = length keys" by (simp add: hashes_def)
  obtain st where st: "prepare (seed flt) ?bl keys = Inr st" "peel_inv ?bl ?K none st"
    using prepare_ok [OF ok len] by blast
  obtain st' where st': "peel ?bl (length keys) st = Some (Inr st')" "peel_inv ?bl ?K none st'"
    using peel_ok [OF ok st(2)] sz by auto
  show ?case
  proof (cases "length (stack st') = length keys")
    case False
    obtain sd rng' where "xor_rng_splitmix64 rng = (sd, rng')" by fastforce
    then show ?thesis using False st(1) st'(1) Suc.IH [of "flt\<lparr>seed := sd\<rparr>" rng'] Suc.prems
      by (simp add: filter_ok_def)
  next
    case True
    obtain fp where fp: "assign ?bl (stack st') (fingerprints flt) = Inr fp" "length fp = 3 * unat ?bl"
        "\<forall>e \<in> set (stack st'). sat ?bl fp (hash e)"
      using inv_assign [OF ok w fl st'(2)] by blast
    let ?f = "flt\<lparr>fingerprints := fp\<rparr>"
    have f: "filter_ok ?f" using ok fp(2) by (simp add: filter_ok_def)
    have "distinct keys \<and> (\<forall>k \<in> set keys. xor_contain k ?f = Inr True)"
      using constructed [OF ok st'(2) True fp(2,3)] .
    then show ?thesis using True st(1) st'(1) fp(1) f
      by (intro exI [of _ True] exI [of _ ?f]) simp
  qed
qed auto

lemma round_half:
  fixes n q r k c :: nat
  assumes "n = q * k + r" "r < k" "k \<le> 2 * c"
  defines "m \<equiv> (if 2 * r > k \<or> 2 * r = k \<and> odd q then (q + 1) * k else q * k)"
  shows "n \<le> m + c" "m \<le> n + c"
  using assms by (auto simp: m_def split: if_splits)

lemma round53_bounds:
  assumes "n < 2 ^ 85"
  shows "n \<le> round53 n + 2 ^ 31" "round53 n \<le> n + 2 ^ 31"
proof -
  let ?e = "floorlog 2 n - 53"
  have "floorlog 2 n \<le> 85" using assms by (simp add: floorlog_le_iff)
  then have "2 ^ ?e \<le> (2 ^ 32 :: nat)" by (intro power_increasing) auto
  then have "(2 :: nat) ^ ?e \<le> 2 * 2 ^ 31" by simp
  note half = round_half [OF div_mult_mod_eq [symmetric, of n "2 ^ ?e"] _ this]
  show "n \<le> round53 n + 2 ^ 31" "round53 n \<le> n + 2 ^ 31"
    unfolding round53_def Let_def by (rule half, simp)+
qed

lemma capacity_bounds:
  shows "unat n + 31 \<le> capacity_of n"
    and "unat n \<le> 3000000000 \<Longrightarrow> capacity_of n < 2 ^ 32"
proof -
  let ?a = "5539427541665710 * unat n"
  let ?p = "round53 ?a"
  let ?x = "32 * 2 ^ 52 + ?p"
  have n: "unat n < 2 ^ 32" using unsigned_less [of n, where 'a = nat] by simp
  have a: "?a < 2 ^ 85" using n by simp
  note p = round53_bounds [OF a]
  have "?x < 2 ^ 85" using p(2) n by simp
  note x = round53_bounds [OF this]
  have "(unat n + 31) * 2 ^ 52 \<le> round53 ?x" using p(1) x(1) n by simp
  then show "unat n + 31 \<le> capacity_of n"
    unfolding capacity_of_def by (simp add: less_eq_div_iff_mult_less_eq)
  assume "unat n \<le> 3000000000"
  then have "round53 ?x < 2 ^ 32 * 2 ^ 52" using p(2) x(2) by simp
  then show "capacity_of n < 2 ^ 32" unfolding capacity_of_def by (simp add: less_mult_imp_div_less)
qed

lemma xor_populate_ok:
  fixes flt :: "'f::len word xor_filter"
  assumes "LENGTH('f) \<le> 64" "filter_ok flt" "length keys < 2 ^ 32"
  shows "\<exists>r flt'. xor_populate oom keys flt = Some (Inr (r, flt')) \<and> filter_ok flt'
    \<and> (r \<longrightarrow> distinct keys \<and> (\<forall>k \<in> set keys. xor_contain k flt' = Inr True))"
proof -
  obtain sd rng where "xor_rng_splitmix64 1 = (sd, rng)" by fastforce
  moreover have "filter_ok (flt\<lparr>seed := sd\<rparr>)" using assms(2) by (simp add: filter_ok_def)
  ultimately show ?thesis
    using attempts_ok [OF assms(1) _ assms(3), of "flt\<lparr>seed := sd\<rparr>" XOR_MAX_ITERATIONS rng]
    by (auto simp: xor_populate_def)
qed

lemma allocate_ok:
  assumes "xor8_allocate mem n flt = (True, flt')" "unat n \<le> 3000000000"
  shows "filter_ok flt'" "unat n < 3 * unat (blockLength flt')"
proof -
  let ?c = "capacity_of n div 3"
  obtain junk where "mem = Some junk" using assms(1) by (auto simp: xor8_allocate_def Let_def split: option.splits)
  then have f: "flt' = flt\<lparr>fingerprints := map junk [0..<?c * 3], blockLength := of_nat ?c\<rparr>"
    using assms(1) by (auto simp: xor8_allocate_def Let_def)
  have c: "unat n + 31 \<le> capacity_of n" "capacity_of n < 2 ^ 32"
    using capacity_bounds [of n] assms(2) by auto
  then have "unat (of_nat ?c :: u64) = ?c" by (simp add: unat_of_nat)
  then show "filter_ok flt'" "unat n < 3 * unat (blockLength flt')"
    using c by (auto simp: f filter_ok_def bl_ok_def)
qed

section \<open>Properties\<close>

text \<open>C23: on a filter of three blocks the construction of \<open>xor8_populate\<close> terminates without
  touching memory out of range; when it returns true the keys were distinct and the filter
  contains every one of them: there is no false negative.\<close>

theorem xor8_no_false_negative:
  assumes "filter_ok flt" "length keys < 2 ^ 32"
  shows "\<exists>r flt'. xor8_populate oom keys flt = Some (Inr (r, flt'))
    \<and> (r \<longrightarrow> distinct keys \<and> (\<forall>k \<in> set keys. xor8_contain k flt' = Inr True))"
  using xor_populate_ok [OF _ assms, of oom] by (auto simp: xor8_populate_def xor8_contain_def)

theorem xor8_no_false_negative_witness:
  "\<exists>r flt'. xor8_populate False [1, 2, 3, 7] \<lparr>seed = 0, blockLength = 10, fingerprints = replicate 30 0\<rparr>
      = Some (Inr (r, flt'))
    \<and> (r \<longrightarrow> xor8_contain 7 flt' = Inr True)"
proof -
  have "filter_ok (\<lparr>seed = 0, blockLength = 10, fingerprints = replicate 30 0\<rparr> :: xor8_t)"
    by (simp add: filter_ok_def bl_ok_def)
  from xor8_no_false_negative [OF this, of "[1, 2, 3, 7]" False] show ?thesis by auto
qed

text \<open>The same holds of the sixteen-bit filter.\<close>

theorem xor16_no_false_negative:
  assumes "filter_ok flt" "length keys < 2 ^ 32"
  shows "\<exists>r flt'. xor16_populate oom keys flt = Some (Inr (r, flt'))
    \<and> (r \<longrightarrow> distinct keys \<and> (\<forall>k \<in> set keys. xor16_contain k flt' = Inr True))"
  using xor_populate_ok [OF _ assms, of oom] by (auto simp: xor16_populate_def xor16_contain_def)

theorem xor16_no_false_negative_witness:
  "\<exists>r flt'. xor16_populate False [1, 2, 3, 7] \<lparr>seed = 0, blockLength = 10, fingerprints = replicate 30 0\<rparr>
      = Some (Inr (r, flt'))
    \<and> (r \<longrightarrow> xor16_contain 7 flt' = Inr True)"
proof -
  have "filter_ok (\<lparr>seed = 0, blockLength = 10, fingerprints = replicate 30 0\<rparr> :: xor16_t)"
    by (simp add: filter_ok_def bl_ok_def)
  from xor16_no_false_negative [OF this, of "[1, 2, 3, 7]" False] show ?thesis by auto
qed

text \<open>A successful allocation for \<open>n\<close> keys (up to three billion, so that the three blocks can be
  indexed by 32 bits) gives a filter the construction accepts, with more slots than keys, in
  spite of the capacity being computed in floating point.\<close>

theorem xor8_allocate_capacity:
  assumes "xor8_allocate mem n flt = (True, flt')" "unat n \<le> 3000000000"
  shows "filter_ok flt' \<and> unat n < 3 * unat (blockLength flt')
    \<and> length (fingerprints flt') = 3 * unat (blockLength flt')"
  using allocate_ok [OF assms] by (simp add: filter_ok_def)

theorem xor8_allocate_capacity_witness:
  "filter_ok (snd (xor8_allocate (Some (\<lambda>_. 0)) 4 \<lparr>seed = 0, blockLength = 0, fingerprints = []\<rparr>))"
proof -
  let ?f = "xor8_allocate (Some (\<lambda>_. 0)) 4 \<lparr>seed = 0, blockLength = 0, fingerprints = []\<rparr>"
  have "?f = (True, snd ?f)" by (simp add: xor8_allocate_def Let_def)
  from xor8_allocate_capacity [OF this] show ?thesis by simp
qed

end
