(* ===== verification/XorFilterBuffered.thy ===== *)
theory XorFilterBuffered
  imports XorFilter
begin

text \<open>
  The buffered construction of \<open>src/src/utils/xorfilter.h\<close> and the class \<open>Xor8\<close> of
  \<open>xorfilter_wrapper.h\<close>, which uses it. Increments and decrements of a block of sets go to a
  buffer with a slot for every \<open>2 ^ 18\<close> sets; a slot is carried out when it is full, when one of
  its sets is looked at, or when the queues run empty.

  \<open>buf_wf\<close> is the invariant of a buffer; \<open>pending\<close> are the keys it holds. A state of the
  buffered peeling refines one of \<open>XorFilter\<close> in which these decrements are pending, so the
  invariant \<open>peel_inv\<close> carries over; \<open>bw\<close> is the measure by which its loops end.
\<close>

unbundle bit_operations_syntax

section \<open>Buffers\<close>

record xor_setbuffer =
  buffer :: "xor_keyindex list"
  counts :: "u32 list"
  insignificantbits :: nat
  slotsize :: u32
  slotcount :: u32
  originalsize :: u64

text \<open>
  \<open>mem\<close> is what \<open>malloc\<close> leaves in the buffer and \<open>cmem\<close> whether the counts could be allocated.
  When an allocation fails the other one is freed, but its pointer stays in the structure:
  \<open>Inl True\<close> is a buffer left with such a pointer, \<open>Inl False\<close> one with two null pointers.
\<close>

definition xor_init_buffer :: "(nat \<Rightarrow> xor_keyindex) option \<Rightarrow> bool \<Rightarrow> u64 \<Rightarrow> bool + xor_setbuffer" where
  "xor_init_buffer mem cmem len =
    (let bits = 18;
         size1 = push_bit bits 1 :: u32;
         cnt = ucast ((len + ucast size1 - 1) div ucast size1) :: u32
     in case mem of None \<Rightarrow> Inl cmem
        | Some junk \<Rightarrow>
          if cmem then Inr \<lparr>buffer = map junk [0..<unat (cnt * size1)], counts = replicate (unat cnt) 0,
            insignificantbits = bits, slotsize = size1, slotcount = cnt, originalsize = len\<rparr>
          else Inl True)"

definition slot_of :: "xor_setbuffer \<Rightarrow> u32 \<Rightarrow> u32" where
  "slot_of buf i = drop_bit (insignificantbits buf) i"

definition add_entry :: "u32 \<Rightarrow> u64 \<Rightarrow> xor_setbuffer \<Rightarrow> xor_setbuffer res" where
  "add_entry i h buf =
    (let slot = slot_of buf i in
     and_then (fetch (counts buf) (unat slot)) (\<lambda>c.
       let addr = c + push_bit (insignificantbits buf) slot in
       if unat addr < length (buffer buf)
       then Inr (buf\<lparr>buffer := (buffer buf)[unat addr := \<lparr>hash = h, index = i\<rparr>],
                    counts := (counts buf)[unat slot := c + 1]\<rparr>)
       else Inl OutOfBounds))"

text \<open>The entries of a slot, from its offset on.\<close>

definition slot_entries :: "xor_setbuffer \<Rightarrow> u32 \<Rightarrow> xor_keyindex list res" where
  "slot_entries buf slot =
    and_then (fetch (counts buf) (unat slot)) (\<lambda>c.
      let offset = unat (push_bit (insignificantbits buf) slot) in
      if offset + unat c \<le> length (buffer buf) then Inr (take (unat c) (drop offset (buffer buf)))
      else Inl OutOfBounds)"

definition reset_slot :: "xor_setbuffer \<Rightarrow> u32 \<Rightarrow> xor_setbuffer" where
  "reset_slot buf slot = buf\<lparr>counts := (counts buf)[unat slot := 0]\<rparr>"

type_synonym buffers = "block \<Rightarrow> xor_setbuffer"

fun inc_entries :: "block \<Rightarrow> xor_keyindex list \<Rightarrow> peeling \<Rightarrow> peeling res" where
  "inc_entries b [] st = Inr st"
| "inc_entries b (ki # kis) st = and_then (increment b (index ki) (hash ki) st) (inc_entries b kis)"

fun dec_entries :: "u64 \<Rightarrow> block \<Rightarrow> xor_keyindex list \<Rightarrow> peeling \<Rightarrow> peeling res" where
  "dec_entries bl b [] st = Inr st"
| "dec_entries bl b (ki # kis) st =
    and_then (decrement bl b (index ki) (hash ki) st) (dec_entries bl b kis)"

definition flush_inc_slot :: "block \<Rightarrow> u32 \<Rightarrow> peeling \<times> buffers \<Rightarrow> (peeling \<times> buffers) res" where
  "flush_inc_slot b slot s =
    (case s of (st, bufs) \<Rightarrow>
     and_then (slot_entries (bufs b) slot) (\<lambda>kis.
     and_then (inc_entries b kis st) (\<lambda>st. Inr (st, bufs(b := reset_slot (bufs b) slot)))))"

definition flush_dec_slot :: "u64 \<Rightarrow> block \<Rightarrow> u32 \<Rightarrow> peeling \<times> buffers \<Rightarrow> (peeling \<times> buffers) res" where
  "flush_dec_slot bl b slot s =
    (case s of (st, bufs) \<Rightarrow>
     and_then (slot_entries (bufs b) slot) (\<lambda>kis.
     and_then (dec_entries bl b kis st) (\<lambda>st. Inr (st, bufs(b := reset_slot (bufs b) slot)))))"

definition xor_buffered_increment_counter ::
    "block \<Rightarrow> u32 \<Rightarrow> u64 \<Rightarrow> peeling \<times> buffers \<Rightarrow> (peeling \<times> buffers) res" where
  "xor_buffered_increment_counter b i h s =
    (case s of (st, bufs) \<Rightarrow>
     and_then (add_entry i h (bufs b)) (\<lambda>buf.
     and_then (fetch (counts buf) (unat (slot_of buf i))) (\<lambda>c.
       if c = slotsize buf then flush_inc_slot b (slot_of buf i) (st, bufs(b := buf))
       else Inr (st, bufs(b := buf)))))"

definition xor_make_buffer_current ::
    "u64 \<Rightarrow> block \<Rightarrow> u32 \<Rightarrow> peeling \<times> buffers \<Rightarrow> (peeling \<times> buffers) res" where
  "xor_make_buffer_current bl b i s =
    (let slot = slot_of (snd s b) i in
     and_then (fetch (counts (snd s b)) (unat slot)) (\<lambda>c.
       if c > 0 then flush_dec_slot bl b slot s else Inr s))"

definition xor_buffered_decrement_counter ::
    "u64 \<Rightarrow> block \<Rightarrow> u32 \<Rightarrow> u64 \<Rightarrow> peeling \<times> buffers \<Rightarrow> (peeling \<times> buffers) res" where
  "xor_buffered_decrement_counter bl b i h s =
    (case s of (st, bufs) \<Rightarrow>
     and_then (add_entry i h (bufs b)) (\<lambda>buf.
     and_then (fetch (counts buf) (unat (slot_of buf i))) (\<lambda>c.
       if c = slotsize buf then flush_dec_slot bl b (slot_of buf i) (st, bufs(b := buf))
       else Inr (st, bufs(b := buf)))))"

fun each_slot :: "(u32 \<Rightarrow> 's \<Rightarrow> 's res) \<Rightarrow> u32 list \<Rightarrow> 's \<Rightarrow> 's res" where
  "each_slot f [] s = Inr s"
| "each_slot f (slot # slots) s = and_then (f slot s) (each_slot f slots)"

definition slots :: "xor_setbuffer \<Rightarrow> u32 list" where
  "slots buf = map of_nat [0..<unat (slotcount buf)]"

definition xor_flush_increment_buffer :: "block \<Rightarrow> peeling \<times> buffers \<Rightarrow> (peeling \<times> buffers) res" where
  "xor_flush_increment_buffer b s = each_slot (flush_inc_slot b) (slots (snd s b)) s"

definition xor_flush_decrement_buffer :: "u64 \<Rightarrow> block \<Rightarrow> peeling \<times> buffers \<Rightarrow> (peeling \<times> buffers) res" where
  "xor_flush_decrement_buffer bl b s = each_slot (flush_dec_slot bl b) (slots (snd s b)) s"

text \<open>The first slot with the most entries.\<close>

fun best_slot :: "u32 list \<Rightarrow> u32 \<Rightarrow> u32 \<Rightarrow> u32 list \<Rightarrow> u32" where
  "best_slot cs best bestcount [] = best"
| "best_slot cs best bestcount (slot # ss) =
    (if cs ! unat slot > bestcount then best_slot cs slot (cs ! unat slot) ss
     else best_slot cs best bestcount ss)"

definition xor_flushone_decrement_buffer :: "u64 \<Rightarrow> block \<Rightarrow> peeling \<times> buffers \<Rightarrow> (peeling \<times> buffers) res" where
  "xor_flushone_decrement_buffer bl b s =
    (let cs = counts (snd s b) in
     and_then (fetch cs 0) (\<lambda>c.
       flush_dec_slot bl b (best_slot cs 0 c (tl (slots (snd s b)))) s))"

section \<open>Construction\<close>

definition add_key_buf :: "u64 \<Rightarrow> u64 \<Rightarrow> u64 \<Rightarrow> peeling \<times> buffers \<Rightarrow> (peeling \<times> buffers) res" where
  "add_key_buf sd bl key s =
    (let h = xor_mix_split key sd in
     and_then (xor_buffered_increment_counter B0 (xor_get_h0 h bl) h s) (\<lambda>s.
     and_then (xor_buffered_increment_counter B1 (xor_get_h1 h bl) h s) (\<lambda>s.
       xor_buffered_increment_counter B2 (xor_get_h2 h bl) h s)))"

fun add_keys_buf :: "u64 \<Rightarrow> u64 \<Rightarrow> u64 list \<Rightarrow> peeling \<times> buffers \<Rightarrow> (peeling \<times> buffers) res" where
  "add_keys_buf sd bl [] s = Inr s"
| "add_keys_buf sd bl (k # ks) s = and_then (add_key_buf sd bl k s) (add_keys_buf sd bl ks)"

definition scans :: "u64 \<Rightarrow> peeling \<times> buffers \<Rightarrow> (peeling \<times> buffers) res" where
  "scans bl s =
    and_then (scan bl B0 [0..<unat bl] (fst s)) (\<lambda>st.
    and_then (scan bl B1 [0..<unat bl] st) (\<lambda>st.
    and_then (scan bl B2 [0..<unat bl] st) (\<lambda>st. Inr (st, snd s))))"

definition prepare_buf :: "u64 \<Rightarrow> u64 \<Rightarrow> u64 list \<Rightarrow> buffers \<Rightarrow> (peeling \<times> buffers) res" where
  "prepare_buf sd bl keys bufs =
    and_then (add_keys_buf sd bl keys (cleared bl, bufs)) (\<lambda>s.
    and_then (xor_flush_increment_buffer B0 s) (\<lambda>s.
    and_then (xor_flush_increment_buffer B1 s) (\<lambda>s.
    and_then (xor_flush_increment_buffer B2 s) (scans bl))))"

definition peel_one_buf :: "u64 \<Rightarrow> nat \<Rightarrow> block \<Rightarrow> peeling \<times> buffers \<Rightarrow> (peeling \<times> buffers) res" where
  "peel_one_buf bl n_keys b s =
    (case s of (st, bufs) \<Rightarrow>
     case Q st b of [] \<Rightarrow> Inr s
     | ki # q \<Rightarrow>
       and_then (xor_make_buffer_current bl b (index ki) (st\<lparr>Q := (Q st)(b := q)\<rparr>, bufs)) (\<lambda>(st, bufs).
       and_then (fetch (sets st b) (unat (index ki))) (\<lambda>x.
         if count x = 0 then Inr (st, bufs)
         else
           let h = hash ki;
               (b1, b2) = others b;
               ki = ki\<lparr>index := ucast (ucast (index ki) + of_nat (block_no b) * bl)\<rparr>
           in and_then (push_stack n_keys ki st) (\<lambda>st.
              and_then (xor_buffered_decrement_counter bl b1 (xor_get_h b1 h bl) h (st, bufs)) (\<lambda>s.
                xor_buffered_decrement_counter bl b2 (xor_get_h b2 h bl) h s)))))"

partial_function (option) peel_block_buf ::
    "u64 \<Rightarrow> nat \<Rightarrow> block \<Rightarrow> peeling \<times> buffers \<Rightarrow> (peeling \<times> buffers) res option" where
  "peel_block_buf bl n_keys b s =
    (if Q (fst s) b = [] then Some (Inr s)
     else case peel_one_buf bl n_keys b s of Inl e \<Rightarrow> Some (Inl e)
          | Inr s \<Rightarrow> peel_block_buf bl n_keys b s)"

definition flushone_if_empty :: "u64 \<Rightarrow> block \<Rightarrow> peeling \<times> buffers \<Rightarrow> (peeling \<times> buffers) res" where
  "flushone_if_empty bl b s =
    (if Q (fst s) b = [] then xor_flushone_decrement_buffer bl b s else Inr s)"

definition flush_if_stuck :: "u64 \<Rightarrow> nat \<Rightarrow> peeling \<times> buffers \<Rightarrow> (peeling \<times> buffers) res" where
  "flush_if_stuck bl n_keys s =
    (if length (Q (fst s) B0) + length (Q (fst s) B1) + length (Q (fst s) B2) = 0
        \<and> length (stack (fst s)) < n_keys
     then and_then (xor_flush_decrement_buffer bl B0 s) (\<lambda>s.
          and_then (xor_flush_decrement_buffer bl B1 s) (xor_flush_decrement_buffer bl B2))
     else Inr s)"

text \<open>Sequencing a step that may fail behind a loop that may not end.\<close>

fun chain :: "'a res option \<Rightarrow> ('a \<Rightarrow> 'b res option) \<Rightarrow> 'b res option" where
  "chain None f = None"
| "chain (Some (Inl e)) f = Some (Inl e)"
| "chain (Some (Inr x)) f = f x"

text \<open>One round of \<open>while (Q0size + Q1size + Q2size > 0)\<close>.\<close>

definition peel_round_buf :: "u64 \<Rightarrow> nat \<Rightarrow> peeling \<times> buffers \<Rightarrow> (peeling \<times> buffers) res option" where
  "peel_round_buf bl n_keys s =
    chain (peel_block_buf bl n_keys B0 s) (\<lambda>s.
    chain (Some (flushone_if_empty bl B1 s)) (\<lambda>s.
    chain (peel_block_buf bl n_keys B1 s) (\<lambda>s.
    chain (Some (flushone_if_empty bl B2 s)) (\<lambda>s.
    chain (peel_block_buf bl n_keys B2 s) (\<lambda>s.
    chain (Some (flushone_if_empty bl B0 s)) (\<lambda>s.
      Some (flush_if_stuck bl n_keys s)))))))"

partial_function (option) peel_buf ::
    "u64 \<Rightarrow> nat \<Rightarrow> peeling \<times> buffers \<Rightarrow> (peeling \<times> buffers) res option" where
  "peel_buf bl n_keys s =
    (if length (Q (fst s) B0) + length (Q (fst s) B1) + length (Q (fst s) B2) = 0 then Some (Inr s)
     else case peel_round_buf bl n_keys s of None \<Rightarrow> None | Some (Inl e) \<Rightarrow> Some (Inl e)
          | Some (Inr s) \<Rightarrow> peel_buf bl n_keys s)"

declare peel_block_buf.simps [code] peel_buf.simps [code]

fun attempts_buf :: "nat \<Rightarrow> u64 list \<Rightarrow> u64 \<Rightarrow> 'f::len word xor_filter \<Rightarrow> buffers
    \<Rightarrow> (bool \<times> 'f word xor_filter) res option" where
  "attempts_buf 0 keys rng flt bufs = Some (Inr (False, flt))"
| "attempts_buf (Suc n) keys rng flt bufs =
    (case prepare_buf (seed flt) (blockLength flt) keys bufs of Inl e \<Rightarrow> Some (Inl e)
     | Inr s \<Rightarrow>
       (case peel_buf (blockLength flt) (length keys) s of None \<Rightarrow> None
        | Some (Inl e) \<Rightarrow> Some (Inl e)
        | Some (Inr (st, bufs)) \<Rightarrow>
          if length (stack st) = length keys then
            Some (and_then (assign (blockLength flt) (stack st) (fingerprints flt)) (\<lambda>fp.
              Inr (True, flt\<lparr>fingerprints := fp\<rparr>)))
          else (case xor_rng_splitmix64 rng of (sd, rng) \<Rightarrow>
            attempts_buf n keys rng (flt\<lparr>seed := sd\<rparr>) bufs)))"

text \<open>
  \<open>mems\<close> are the allocations of the three buffers; \<open>oom\<close>: one of the other three fails. When a
  buffer could not be initialised all three are freed, the pointers left by \<open>xor_init_buffer\<close>
  a second time.
\<close>

type_synonym allocations = "block \<Rightarrow> (nat \<Rightarrow> xor_keyindex) option \<times> bool"

definition xor_buffered_populate :: "allocations \<Rightarrow> bool \<Rightarrow> u64 list
    \<Rightarrow> 'f::len word xor_filter \<Rightarrow> (bool \<times> 'f word xor_filter) res option" where
  "xor_buffered_populate mems oom keys flt =
    (case xor_rng_splitmix64 1 of (sd, rng) \<Rightarrow>
     let flt = flt\<lparr>seed := sd\<rparr>;
         init = (\<lambda>b. xor_init_buffer (fst (mems b)) (snd (mems b)) (blockLength flt))
     in if \<exists>b \<in> {B0, B1, B2}. init b = Inl True then Some (Inl UseAfterFree)
        else case (init B0, init B1, init B2) of
          (Inr b0, Inr b1, Inr b2) \<Rightarrow>
            if oom then Some (Inr (False, flt))
            else attempts_buf XOR_MAX_ITERATIONS keys rng flt
              (\<lambda>b. case b of B0 \<Rightarrow> b0 | B1 \<Rightarrow> b1 | B2 \<Rightarrow> b2)
        | _ \<Rightarrow> Some (Inr (False, flt)))"

definition xor8_buffered_populate :: "allocations \<Rightarrow> bool \<Rightarrow> u64 list
    \<Rightarrow> xor8_t \<Rightarrow> (bool \<times> xor8_t) res option" where
  "xor8_buffered_populate = xor_buffered_populate"
definition xor16_buffered_populate :: "allocations \<Rightarrow> bool \<Rightarrow> u64 list
    \<Rightarrow> xor16_t \<Rightarrow> (bool \<times> xor16_t) res option" where
  "xor16_buffered_populate = xor_buffered_populate"

section \<open>The class Xor8\<close>

text \<open>
  The constructor throws when the allocation fails. The size is narrowed to 32 bits by the calls.
  A range outside the caller's array is an access out of bounds.
\<close>

definition Xor8_new :: "(nat \<Rightarrow> u8) option \<Rightarrow> u64 \<Rightarrow> xor8_t \<Rightarrow> xor8_t option" where
  "Xor8_new mem n_keys uninit =
    (case xor8_allocate mem (ucast n_keys) uninit of (ok, flt) \<Rightarrow> if ok then Some flt else None)"

definition Xor8_AddAll :: "allocations \<Rightarrow> bool \<Rightarrow> u64 list \<Rightarrow> u64 \<Rightarrow> u64 \<Rightarrow> xor8_t
    \<Rightarrow> (bool \<times> xor8_t) res option" where
  "Xor8_AddAll mems oom data start stop flt =
    (let n = unat (ucast (stop - start) :: u32) in
     if unat start + n \<le> length data
     then xor8_buffered_populate mems oom (take n (drop (unat start) data)) flt
     else Some (Inl OutOfBounds))"

definition Xor8_Contain :: "u64 \<Rightarrow> xor8_t \<Rightarrow> bool res" where
  "Xor8_Contain item flt = xor8_contain item flt"

definition Xor8_SizeInBytes :: "xor8_t \<Rightarrow> u64" where
  "Xor8_SizeInBytes flt = xor8_size_in_bytes flt"

text \<open>The move constructor: the new filter and the one that was moved from.\<close>

definition Xor8_move :: "xor8_t \<Rightarrow> xor8_t \<times> xor8_t" where
  "Xor8_move old = (old, old\<lparr>fingerprints := []\<rparr>)"

definition Xor8_delete :: "xor8_t \<Rightarrow> xor8_t" where
  "Xor8_delete flt = xor8_free flt"


section \<open>What a buffer holds\<close>

definition SLOT :: nat where "SLOT = 2 ^ 18"

definition entries :: "xor_setbuffer \<Rightarrow> nat \<Rightarrow> xor_keyindex list" where
  "entries buf s = take (unat (counts buf ! s)) (drop (s * SLOT) (buffer buf))"

definition pending :: "xor_setbuffer \<Rightarrow> u64 multiset" where
  "pending buf = (\<Sum>s \<in> {..<length (counts buf)}. mset (map hash (entries buf s)))"

definition buf_wf :: "u64 \<Rightarrow> block \<Rightarrow> xor_setbuffer \<Rightarrow> bool" where
  "buf_wf bl b buf \<longleftrightarrow> insignificantbits buf = 18 \<and> unat (slotsize buf) = SLOT
     \<and> unat (slotcount buf) = (unat bl + (SLOT - 1)) div SLOT
     \<and> length (counts buf) = unat (slotcount buf) \<and> length (buffer buf) = unat (slotcount buf) * SLOT
     \<and> (\<forall>s < length (counts buf). unat (counts buf ! s) \<le> SLOT
          \<and> (\<forall>ki \<in> set (entries buf s). index ki = xor_get_h b (hash ki) bl \<and> unat (index ki) div SLOT = s))"

definition room :: "xor_setbuffer \<Rightarrow> bool" where
  "room buf \<longleftrightarrow> (\<forall>s < length (counts buf). unat (counts buf ! s) < SLOT)"

lemma SLOT_pos: "0 < SLOT" by (simp add: SLOT_def)

lemma slotcount_less:
  assumes ok: "bl_ok bl" and n: "n = (unat bl + (SLOT - 1)) div SLOT"
  shows "n * SLOT < 2 ^ 32" "0 < n" "i < unat bl \<Longrightarrow> i div SLOT < n"
proof -
  have "n * SLOT \<le> unat bl + (SLOT - 1)"
    unfolding n by (rule div_times_less_eq_dividend)
  also have "\<dots> < 2 ^ 32" using ok by (simp add: bl_ok_def SLOT_def)
  finally show "n * SLOT < 2 ^ 32" .
  have "SLOT \<le> unat bl + (SLOT - 1)" using ok by (simp add: bl_ok_def SLOT_def)
  then show "0 < n" unfolding n using SLOT_pos by (simp only: div_greater_zero_iff)
  assume "i < unat bl"
  then have "i + SLOT \<le> unat bl + (SLOT - 1)" using SLOT_pos by simp
  then have "(i + SLOT) div SLOT \<le> n" unfolding n by (rule div_le_mono)
  then show "i div SLOT < n" using SLOT_pos by simp
qed

lemma slot_of_unat: "insignificantbits buf = 18 \<Longrightarrow> unat (slot_of buf i) = unat i div SLOT"
  by (simp add: slot_of_def drop_bit_eq_div unat_div_distrib SLOT_def)

lemma offset_unat:
  assumes "insignificantbits buf = 18" "unat slot * SLOT < 2 ^ 32"
  shows "unat (push_bit (insignificantbits buf) slot :: u32) = unat slot * SLOT"
  using assms by (simp add: push_bit_eq_mult unat_word_ariths SLOT_def)

lemma slot_bound:
  assumes ok: "bl_ok bl" and wf: "buf_wf bl b buf" and s: "s < length (counts buf)"
  shows "s * SLOT + SLOT \<le> length (buffer buf)" "length (buffer buf) < 2 ^ 32"
proof -
  have "(s + 1) * SLOT \<le> unat (slotcount buf) * SLOT"
    using s wf by (intro mult_right_mono) (auto simp: buf_wf_def)
  then show "s * SLOT + SLOT \<le> length (buffer buf)" using wf by (simp add: buf_wf_def)
  show "length (buffer buf) < 2 ^ 32" using slotcount_less(1) [OF ok] wf by (simp add: buf_wf_def)
qed

lemma slot_entries_eq:
  assumes ok: "bl_ok bl" and wf: "buf_wf bl b buf" and s: "unat slot < length (counts buf)"
  shows "slot_entries buf slot = Inr (entries buf (unat slot))"
proof -
  note sb = slot_bound [OF ok wf s]
  have o: "unat (push_bit (insignificantbits buf) slot) = unat slot * SLOT"
    using wf sb SLOT_pos by (intro offset_unat) (simp_all add: buf_wf_def)
  have "unat (counts buf ! unat slot) \<le> SLOT" using wf s by (simp add: buf_wf_def)
  then show ?thesis using s sb(1) by (simp add: slot_entries_def fetch_def o entries_def Let_def)
qed

lemma take_drop_update:
  "i + k < length xs \<Longrightarrow> take (k + 1) (drop i (xs[i + k := x])) = take k (drop i xs) @ [x]"
  by (simp add: drop_update_swap take_update_swap take_Suc_conv_app_nth list_update_append)

lemma take_drop_other:
  "p < j \<or> j + k \<le> p \<Longrightarrow> take k (drop j (xs[p := x])) = take k (drop j xs)"
  by (cases "p < j") (simp_all add: drop_update_swap take_update_cancel)

lemma add_entry_ok:
  assumes ok: "bl_ok bl" and wf: "buf_wf bl b buf" and rm: "room buf" and i: "i = xor_get_h b h bl"
  shows "\<exists>buf'. add_entry i h buf = Inr buf' \<and> buf_wf bl b buf' \<and> pending buf' = add_mset h (pending buf)
    \<and> length (counts buf') = length (counts buf)
    \<and> (\<forall>s < length (counts buf). s \<noteq> unat (slot_of buf i) \<longrightarrow> unat (counts buf' ! s) < SLOT)
    \<and> slotsize buf' = slotsize buf \<and> slot_of buf' i = slot_of buf i \<and> unat (slot_of buf i) < length (counts buf)"
proof -
  let ?s = "unat (slot_of buf i)" 
  let ?c = "counts buf ! ?s" and ?e = "\<lparr>hash = h, index = i\<rparr>"
  have b: "insignificantbits buf = 18" "unat (slotcount buf) = (unat bl + (SLOT - 1)) div SLOT"
    "length (counts buf) = unat (slotcount buf)" "length (buffer buf) = unat (slotcount buf) * SLOT"
    using wf by (simp_all add: buf_wf_def)
  have si: "?s = unat i div SLOT" using b(1) by (rule slot_of_unat)
  have s: "?s < length (counts buf)"
    unfolding si b(3) by (rule slotcount_less(3) [OF ok b(2)]) (simp add: i get_h_less [OF ok])
  have c: "unat ?c < SLOT" using rm s by (simp add: room_def)
  note sb = slot_bound [OF ok wf s]
  then have a: "?s * SLOT + unat ?c < length (buffer buf)" using c by simp
  then have "unat (push_bit (insignificantbits buf) (slot_of buf i)) = ?s * SLOT"
    using sb(2) b(1) by (intro offset_unat) auto
  then have addr: "unat (?c + push_bit (insignificantbits buf) (slot_of buf i)) = ?s * SLOT + unat ?c"
    using a sb(2) by (simp add: unat_word_ariths)
  define buf' where "buf' = buf\<lparr>buffer := (buffer buf)[?s * SLOT + unat ?c := ?e], counts := (counts buf)[?s := ?c + 1]\<rparr>"
  have add: "add_entry i h buf = Inr buf'"
    using s a by (simp add: add_entry_def Let_def fetch_def addr buf'_def)
  have c1: "unat (?c + 1) = unat ?c + 1" using c by (simp add: unat_word_ariths SLOT_def)
  have ent: "entries buf' s = (if s = ?s then entries buf s @ [?e] else entries buf s)" if "s < length (counts buf)" for s
  proof (cases "s = ?s")
    case True
    have "entries buf' s = take (unat ?c + 1) (drop (?s * SLOT) ((buffer buf)[?s * SLOT + unat ?c := ?e]))"
      using True s c1 by (simp add: entries_def buf'_def)
    then show ?thesis using True take_drop_update [OF a] by (simp add: entries_def)
  next
    case False
    have le: "unat (counts buf ! s) \<le> SLOT" using wf that by (simp add: buf_wf_def)
    have "?s * SLOT + unat ?c < s * SLOT \<or> s * SLOT + unat (counts buf ! s) \<le> ?s * SLOT + unat ?c"
    proof (cases "s < ?s")
      case True
      then have "(s + 1) * SLOT \<le> ?s * SLOT" by (intro mult_right_mono) auto
      then show ?thesis using le by simp
    next
      case False
      with \<open>s \<noteq> ?s\<close> have "(?s + 1) * SLOT \<le> s * SLOT" by (intro mult_right_mono) auto
      then show ?thesis using c by simp
    qed
    then show ?thesis using False by (simp add: entries_def buf'_def take_drop_other)
  qed
  have lenc: "length (counts buf') = length (counts buf)" by (simp add: buf'_def)
  have "pending buf' = (\<Sum>s < length (counts buf). mset (map hash (entries buf s)) + (if s = ?s then {#h#} else {#}))"
    unfolding pending_def lenc by (intro sum.cong) (auto simp: ent)
  also have "\<dots> = add_mset h (pending buf)" using s by (simp add: sum.distrib pending_def sum.delta)
  finally have pend: "pending buf' = add_mset h (pending buf)" .
  have cnt: "unat (counts buf' ! s) = (if s = ?s then unat ?c + 1 else unat (counts buf ! s))" if "s < length (counts buf)" for s
    using that c1 by (simp add: buf'_def nth_list_update)
  have wf': "buf_wf bl b buf'"
    unfolding buf_wf_def lenc
  proof (intro conjI allI impI ballI)
    fix s assume sl: "s < length (counts buf)"
    show "unat (counts buf' ! s) \<le> SLOT" using cnt [OF sl] c wf sl by (simp add: buf_wf_def)
    fix ki assume "ki \<in> set (entries buf' s)"
    then have "ki \<in> set (entries buf s) \<or> s = ?s \<and> ki = ?e" by (auto simp: ent [OF sl] split: if_splits)
    then show "index ki = xor_get_h b (hash ki) bl" "unat (index ki) div SLOT = s"
      using wf sl i si by (auto simp: buf_wf_def)
  qed (use wf in \<open>auto simp: buf_wf_def buf'_def\<close>)
  have "\<forall>s < length (counts buf). s \<noteq> ?s \<longrightarrow> unat (counts buf' ! s) < SLOT" using cnt rm by (simp add: room_def)
  then show ?thesis using add wf' pend lenc s by (auto simp: buf'_def slot_of_def)
qed

lemma reset_slot_ok:
  assumes ok: "bl_ok bl" and wf: "buf_wf bl b buf" and s: "unat slot < length (counts buf)"
  shows "buf_wf bl b (reset_slot buf slot)"
    "pending buf = pending (reset_slot buf slot) + mset (map hash (entries buf (unat slot)))"
    "entries (reset_slot buf slot) (unat slot) = []"
    "s < length (counts buf) \<Longrightarrow> s \<noteq> unat slot \<Longrightarrow> counts (reset_slot buf slot) ! s = counts buf ! s"
    "counts (reset_slot buf slot) ! unat slot = 0"
proof -
  let ?b = "reset_slot buf slot"
  have ent: "entries ?b s = (if s = unat slot then [] else entries buf s)" if "s < length (counts buf)" for s
    using that s by (simp add: entries_def reset_slot_def nth_list_update)
  then show "entries ?b (unat slot) = []" using s by simp
  show "s < length (counts buf) \<Longrightarrow> s \<noteq> unat slot \<Longrightarrow> counts ?b ! s = counts buf ! s" by (simp add: reset_slot_def)
  show z: "counts ?b ! unat slot = 0" using s by (simp add: reset_slot_def)
  have lenc: "length (counts ?b) = length (counts buf)" by (simp add: reset_slot_def)
  have "pending buf = (\<Sum>s < length (counts buf). mset (map hash (entries ?b s))
      + (if s = unat slot then mset (map hash (entries buf (unat slot))) else {#}))"
    unfolding pending_def by (intro sum.cong) (auto simp: ent)
  also have "\<dots> = pending ?b + mset (map hash (entries buf (unat slot)))"
    using s by (simp add: sum.distrib pending_def lenc sum.delta)
  finally show "pending buf = pending ?b + mset (map hash (entries buf (unat slot)))" .
  have "unat (counts ?b ! s) \<le> SLOT" if "s < length (counts buf)" for s
    using wf that s by (auto simp: buf_wf_def reset_slot_def nth_list_update)
  moreover have "index ki = xor_get_h b (hash ki) bl \<and> unat (index ki) div SLOT = s"
    if "s < length (counts buf)" "ki \<in> set (entries ?b s)" for s ki
  proof -
    have "ki \<in> set (entries buf s)" using that ent by (simp split: if_splits)
    then show ?thesis using wf that(1) unfolding buf_wf_def by blast
  qed
  moreover have "insignificantbits ?b = 18 \<and> unat (slotsize ?b) = SLOT
      \<and> unat (slotcount ?b) = (unat bl + (SLOT - 1)) div SLOT
      \<and> length (counts buf) = unat (slotcount ?b) \<and> length (buffer ?b) = unat (slotcount ?b) * SLOT"
    using wf by (simp add: buf_wf_def reset_slot_def)
  ultimately show "buf_wf bl b ?b" unfolding buf_wf_def lenc by blast
qed

section \<open>The invariant with buffers\<close>

text \<open>
  \<open>D\<close> are the decrements that are not yet in a buffer; what the buffers hold is pending too.
\<close>

definition brel :: "u64 \<Rightarrow> u64 multiset \<Rightarrow> (block \<Rightarrow> u64 multiset) \<Rightarrow> peeling \<times> buffers \<Rightarrow> bool" where
  "brel bl K D s \<longleftrightarrow> (\<forall>b. buf_wf bl b (snd s b)) \<and> peel_inv bl K (\<lambda>b. pending (snd s b) + D b) (fst s)"

definition roomy :: "peeling \<times> buffers \<Rightarrow> bool" where
  "roomy s \<longleftrightarrow> (\<forall>b. room (snd s b))"

definition bwork :: "u64 multiset \<Rightarrow> (block \<Rightarrow> u64 multiset) \<Rightarrow> peeling \<Rightarrow> nat" where
  "bwork K P st = 5 * (size K - length (stack st)) + 2 * (size (P B0) + size (P B1) + size (P B2)) + queues st"

abbreviation held :: "peeling \<times> buffers \<Rightarrow> block \<Rightarrow> u64 multiset" where
  "held s b \<equiv> pending (snd s b)"

lemma bwork_decr:
  assumes "h \<in># P b" "queues st' \<le> Suc (queues st)" "stack st' = stack st"
  shows "bwork K (P(b := P b - {#h#})) st' < bwork K P st"
proof -
  have "size (P b) = Suc (size (P b - {#h#}))" using assms(1) by (simp add: size_Suc_Diff1)
  then show ?thesis using assms(2,3) by (cases b) (simp_all add: bwork_def)
qed

lemma dec_entries_ok:
  assumes ok: "bl_ok bl" and "peel_inv bl K P st" "mset (map hash kis) \<subseteq># P b"
    and "\<And>ki. ki \<in> set kis \<Longrightarrow> index ki = xor_get_h b (hash ki) bl"
  shows "\<exists>st'. dec_entries bl b kis st = Inr st' \<and> peel_inv bl K (P(b := P b - mset (map hash kis))) st'
    \<and> stack st' = stack st \<and> bwork K (P(b := P b - mset (map hash kis))) st' + length kis \<le> bwork K P st
    \<and> (\<forall>b' ki. dequeued bl b' ki st \<longrightarrow> dequeued bl b' ki st')"
  using assms(2-)
proof (induction kis arbitrary: P st)
  case Nil
  then show ?case by simp
next
  case (Cons ki kis)
  have h: "hash ki \<in># P b" using Cons.prems(2) by (simp add: insert_subset_eq_iff)
  define P1 where "P1 = P(b := P b - {#hash ki#})"
  obtain st1 where 1: "decrement bl b (index ki) (hash ki) st = Inr st1" "peel_inv bl K P1 st1"
    "stack st1 = stack st" "queues st1 \<le> Suc (queues st)"
    "\<forall>b' ki. dequeued bl b' ki st \<longrightarrow> dequeued bl b' ki st1"
    using decrement_ok [OF ok Cons.prems(1) h] Cons.prems(3) [of ki] queues_grow [of _ b st]
    unfolding P1_def by force
  have w: "bwork K P1 st1 < bwork K P st" unfolding P1_def using h 1(4,3) by (rule bwork_decr)
  have sub: "mset (map hash kis) \<subseteq># P1 b"
    using Cons.prems(2) by (simp add: P1_def insert_subset_eq_iff)
  have ix: "ki \<in> set kis \<Longrightarrow> index ki = xor_get_h b (hash ki) bl" for ki using Cons.prems(3) by simp
  have P2: "P1(b := P1 b - mset (map hash kis)) = P(b := P b - mset (map hash (ki # kis)))"
    by (auto simp: fun_eq_iff multiset_eq_iff P1_def)
  from Cons.IH [OF 1(2) sub ix, unfolded P2] obtain st2 where 2:
    "dec_entries bl b kis st1 = Inr st2" "peel_inv bl K (P(b := P b - mset (map hash (ki # kis)))) st2"
    "stack st2 = stack st1" "bwork K (P(b := P b - mset (map hash (ki # kis)))) st2 + length kis \<le> bwork K P1 st1"
    "\<forall>b' ki. dequeued bl b' ki st1 \<longrightarrow> dequeued bl b' ki st2" by blast
  have "dec_entries bl b (ki # kis) st = Inr st2" using 1(1) 2(1) by simp
  moreover have "stack st2 = stack st" using 1(3) 2(3) by simp
  moreover have "bwork K (P(b := P b - mset (map hash (ki # kis)))) st2 + length (ki # kis) \<le> bwork K P st"
    using 2(4) w by simp
  ultimately show ?case using 2(2,5) 1(5) by blast
qed

definition bw :: "u64 multiset \<Rightarrow> (block \<Rightarrow> u64 multiset) \<Rightarrow> peeling \<times> buffers \<Rightarrow> nat" where
  "bw K D s = bwork K (\<lambda>b. pending (snd s b) + D b) (fst s)"

text \<open>A flush either makes progress or has nothing to do.\<close>

definition progress :: "u64 multiset \<Rightarrow> (block \<Rightarrow> u64 multiset) \<Rightarrow> peeling \<times> buffers \<Rightarrow> peeling \<times> buffers \<Rightarrow> bool" where
  "progress K D s s' \<longleftrightarrow> bw K D s' < bw K D s \<or> bw K D s' = bw K D s \<and> fst s' = fst s"

lemma progress_refl [simp, intro]: "progress K D s s" by (simp add: progress_def)

lemma progress_trans: "progress K D s s' \<Longrightarrow> progress K D s' s'' \<Longrightarrow> progress K D s s''"
  by (auto simp: progress_def)

lemma progress_le: "progress K D s s' \<Longrightarrow> bw K D s' \<le> bw K D s" by (auto simp: progress_def)

text \<open>Flushing one slot of decrements.\<close>

lemma flush_dec_slot_ok:
  assumes ok: "bl_ok bl" and r: "brel bl K D (st, bufs)" and s: "unat slot < length (counts (bufs b))"
  shows "\<exists>st'. flush_dec_slot bl b slot (st, bufs) = Inr (st', bufs(b := reset_slot (bufs b) slot))
    \<and> brel bl K D (st', bufs(b := reset_slot (bufs b) slot)) \<and> stack st' = stack st
    \<and> progress K D (st, bufs) (st', bufs(b := reset_slot (bufs b) slot))
    \<and> (\<forall>b' ki. dequeued bl b' ki st \<longrightarrow> dequeued bl b' ki st')"
proof -
  let ?P = "\<lambda>b'. pending (bufs b') + D b'" and ?kis = "entries (bufs b) (unat slot)"
  let ?bufs = "bufs(b := reset_slot (bufs b) slot)"
  have wf: "buf_wf bl b (bufs b)" and inv: "peel_inv bl K ?P st" using r by (simp_all add: brel_def)
  note rs = reset_slot_ok [OF ok wf s]
  have sub: "mset (map hash ?kis) \<subseteq># ?P b" unfolding rs(2) by (simp add: add.assoc)
  have ix: "ki \<in> set ?kis \<Longrightarrow> index ki = xor_get_h b (hash ki) bl" for ki using wf s by (simp add: buf_wf_def)
  obtain st' where st': "dec_entries bl b ?kis st = Inr st'" "peel_inv bl K (?P(b := ?P b - mset (map hash ?kis))) st'"
    "stack st' = stack st" "bwork K (?P(b := ?P b - mset (map hash ?kis))) st' + length ?kis \<le> bwork K ?P st"
    "\<forall>b' ki. dequeued bl b' ki st \<longrightarrow> dequeued bl b' ki st'"
    using dec_entries_ok [OF ok inv sub ix] by blast
  have P: "?P(b := ?P b - mset (map hash ?kis)) = (\<lambda>b'. pending (?bufs b') + D b')"
    by (auto simp: fun_eq_iff rs(2))
  have wf': "\<forall>b'. buf_wf bl b' (?bufs b')" using r rs(1) by (simp add: brel_def)
  have "brel bl K D (st', ?bufs)" using wf' st'(2) [unfolded P] unfolding brel_def by simp
  moreover have "flush_dec_slot bl b slot (st, bufs) = Inr (st', ?bufs)"
    using st'(1) slot_entries_eq [OF ok wf s] by (simp add: flush_dec_slot_def)
  moreover have "progress K D (st, bufs) (st', ?bufs)"
  proof (cases "?kis = []")
    case True
    then have "st' = st" using st'(1) by simp
    moreover have "?P = (\<lambda>b'. pending (?bufs b') + D b')" unfolding P [symmetric] True by (simp add: fun_eq_iff)
    ultimately show ?thesis by (simp add: progress_def bw_def)
  next
    case False
    then have "0 < length ?kis" by blast
    then show ?thesis using st'(4) [unfolded P] unfolding progress_def bw_def fst_conv snd_conv by linarith
  qed
  ultimately show ?thesis using st'(3,5) by blast
qed

lemma slot_in_range:
  assumes "bl_ok bl" "buf_wf bl b buf" "unat i < unat bl"
  shows "unat (slot_of buf i) < length (counts buf)" "unat (slot_of buf i) = unat i div SLOT"
proof -
  have b: "insignificantbits buf = 18" "unat (slotcount buf) = (unat bl + (SLOT - 1)) div SLOT"
    "length (counts buf) = unat (slotcount buf)"
    using assms(2) by (simp_all add: buf_wf_def)
  show "unat (slot_of buf i) = unat i div SLOT" using b(1) by (rule slot_of_unat)
  then show "unat (slot_of buf i) < length (counts buf)"
    using slotcount_less(3) [OF assms(1) b(2) assms(3)] b(3) by simp
qed

lemma no_pending:
  assumes wf: "buf_wf bl b buf" and e: "entries buf (i div SLOT) = []"
  shows "occ bl b i (pending buf) = {#}"
proof -
  have "unat (xor_get_h b h bl) \<noteq> i" if h: "h \<in># pending buf" for h
  proof
    assume i: "unat (xor_get_h b h bl) = i"
    obtain s ki where s: "s < length (counts buf)" "ki \<in> set (entries buf s)" "h = hash ki"
      using h by (auto simp: pending_def set_mset_sum)
    then have "index ki = xor_get_h b h bl" "unat (index ki) div SLOT = s"
      using wf unfolding buf_wf_def by blast+
    then show False using s i e by auto
  qed
  then have "h \<notin># occ bl b i (pending buf)" for h by (simp add: occ_def)
  then show ?thesis by blast
qed

lemma room_reset:
  assumes "unat slot < length (counts buf)"
    and "\<And>s. s < length (counts buf) \<Longrightarrow> s \<noteq> unat slot \<Longrightarrow> unat (counts buf ! s) < SLOT"
  shows "room (reset_slot buf slot)"
  using assms SLOT_pos by (auto simp: room_def reset_slot_def nth_list_update)

lemma room_unless_full:
  assumes wf: "buf_wf bl b buf" and "unat slot < length (counts buf)" "counts buf ! unat slot \<noteq> slotsize buf"
    and "\<And>s. s < length (counts buf) \<Longrightarrow> s \<noteq> unat slot \<Longrightarrow> unat (counts buf ! s) < SLOT"
  shows "room buf"
proof -
  have "unat (counts buf ! unat slot) \<le> SLOT" "unat (slotsize buf) = SLOT" using assms by (auto simp: buf_wf_def)
  then have "unat (counts buf ! unat slot) < SLOT" using assms(3) by (metis le_neq_implies_less word_unat_eq_iff)
  then show ?thesis using assms(4) unfolding room_def by metis
qed

lemma roomy_upd: "roomy (st, bufs) \<Longrightarrow> room buf \<Longrightarrow> roomy (st', bufs(b := buf))"
  by (simp add: roomy_def)

lemma brel_wf: "brel bl K D s \<Longrightarrow> buf_wf bl b (snd s b)" by (simp add: brel_def)

lemma buffered_decrement_ok:
  assumes ok: "bl_ok bl" and r: "brel bl K D s" and rm: "roomy s" and h: "h \<in># D b"
  shows "\<exists>s'. xor_buffered_decrement_counter bl b (xor_get_h b h bl) h s = Inr s'
    \<and> brel bl K (D(b := D b - {#h#})) s' \<and> roomy s' \<and> stack (fst s') = stack (fst s)
    \<and> bw K (D(b := D b - {#h#})) s' \<le> bw K D s"
proof -
  obtain st bufs where s: "s = (st, bufs)" by fastforce
  let ?i = "xor_get_h b h bl"
  define D' where "D' = D(b := D b - {#h#})"
  have wf: "buf_wf bl b (bufs b)" using r s by (simp add: brel_def)
  obtain buf where buf: "add_entry ?i h (bufs b) = Inr buf" "buf_wf bl b buf"
      "pending buf = add_mset h (pending (bufs b))" "length (counts buf) = length (counts (bufs b))"
      "\<forall>s < length (counts (bufs b)). s \<noteq> unat (slot_of (bufs b) ?i) \<longrightarrow> unat (counts buf ! s) < SLOT"
      "slotsize buf = slotsize (bufs b)" "slot_of buf ?i = slot_of (bufs b) ?i"
      "unat (slot_of (bufs b) ?i) < length (counts (bufs b))"
    using add_entry_ok [OF ok wf _ refl, of h] rm s by (auto simp: roomy_def)
  let ?bufs = "bufs(b := buf)" and ?slot = "slot_of (bufs b) ?i"
  have P: "(\<lambda>b'. pending (?bufs b') + D' b') = (\<lambda>b'. pending (bufs b') + D b')"
    using h by (auto simp: fun_eq_iff buf(3) D'_def)
  have r1: "brel bl K D' (st, ?bufs)" using r buf(2) P s by (simp add: brel_def)
  have w1: "bw K D' (st, ?bufs) = bw K D s" using P s by (simp add: bw_def)
  have f: "fetch (counts buf) (unat ?slot) = Inr (counts buf ! unat ?slot)" using buf by (simp add: fetch_def)
  have others: "\<And>s. s < length (counts buf) \<Longrightarrow> s \<noteq> unat ?slot \<Longrightarrow> unat (counts buf ! s) < SLOT"
    using buf(4,5) by simp
  show ?thesis
  proof (cases "counts buf ! unat ?slot = slotsize buf")
    case True
    have sl: "unat ?slot < length (counts (?bufs b))" using buf(4,8) by simp
    obtain st' where st': "flush_dec_slot bl b ?slot (st, ?bufs) = Inr (st', ?bufs(b := reset_slot (?bufs b) ?slot))"
      "brel bl K D' (st', ?bufs(b := reset_slot (?bufs b) ?slot))" "stack st' = stack st"
      "progress K D' (st, ?bufs) (st', ?bufs(b := reset_slot (?bufs b) ?slot))"
      using flush_dec_slot_ok [OF ok r1 sl] by blast
    have eq: "xor_buffered_decrement_counter bl b ?i h s = Inr (st', ?bufs(b := reset_slot (?bufs b) ?slot))"
      using buf(1,7) f True st'(1) by (simp add: xor_buffered_decrement_counter_def s)
    have "room (reset_slot (?bufs b) ?slot)" using sl others by (intro room_reset) auto
    then have "roomy (st', ?bufs(b := reset_slot (?bufs b) ?slot))" using rm s by (simp add: roomy_def)
    then show ?thesis unfolding D'_def [symmetric]
      using eq st'(2,3) progress_le [OF st'(4), unfolded w1] s by auto
  next
    case False
    then have eq: "xor_buffered_decrement_counter bl b ?i h s = Inr (st, ?bufs)"
      using buf(1,7) f by (simp add: xor_buffered_decrement_counter_def s)
    have "room buf" using room_unless_full [OF buf(2) _ False others] buf(4,8) by simp
    then have "roomy (st, ?bufs)" using rm s by (simp add: roomy_def)
    then show ?thesis unfolding D'_def [symmetric] using eq r1 w1 s by auto
  qed
qed

lemma flush_dec_slot_good:
  assumes ok: "bl_ok bl" and r: "brel bl K D s" "roomy s" and s: "unat slot < length (counts (snd s b))"
  shows "\<exists>s'. flush_dec_slot bl b slot s = Inr s' \<and> brel bl K D s' \<and> roomy s' \<and> stack (fst s') = stack (fst s)
    \<and> progress K D s s' \<and> (\<forall>b' ki. dequeued bl b' ki (fst s) \<longrightarrow> dequeued bl b' ki (fst s'))
    \<and> snd s' = (snd s)(b := reset_slot (snd s b) slot)"
proof -
  obtain st bufs where e: "s = (st, bufs)" by fastforce
  have "room (reset_slot (bufs b) slot)" using r s e by (intro room_reset) (auto simp: roomy_def room_def)
  then have rm: "roomy (st', bufs(b := reset_slot (bufs b) slot))" for st' using r e by (simp add: roomy_def)
  show ?thesis using flush_dec_slot_ok [OF ok r(1) [unfolded e], of slot b] s rm unfolding e by fastforce
qed

lemma make_current_ok:
  assumes ok: "bl_ok bl" and r: "brel bl K D s" "roomy s" and dq: "dequeued bl b ki (fst s)"
  shows "\<exists>s'. xor_make_buffer_current bl b (index ki) s = Inr s' \<and> brel bl K D s' \<and> roomy s'
    \<and> stack (fst s') = stack (fst s) \<and> bw K D s' \<le> bw K D s \<and> dequeued bl b ki (fst s')
    \<and> occ bl b (unat (index ki)) (pending (snd s' b)) = {#}"
proof -
  let ?slot = "slot_of (snd s b) (index ki)"
  have wf: "buf_wf bl b (snd s b)" by (rule brel_wf [OF r(1)])
  have i: "unat (index ki) < unat bl" using dq by (simp add: dequeued_def queued_def)
  note sl = slot_in_range [OF ok wf i]
  have f: "fetch (counts (snd s b)) (unat ?slot) = Inr (counts (snd s b) ! unat ?slot)" using sl by (simp add: fetch_def)
  show ?thesis
  proof (cases "counts (snd s b) ! unat ?slot = 0")
    case True
    then have "xor_make_buffer_current bl b (index ki) s = Inr s"
      using f by (simp add: xor_make_buffer_current_def Let_def)
    moreover have "entries (snd s b) (unat (index ki) div SLOT) = []" using True sl(2) by (simp add: entries_def)
    ultimately show ?thesis using no_pending [OF wf] r dq by blast
  next
    case False
    obtain s' where s': "flush_dec_slot bl b ?slot s = Inr s'" "brel bl K D s'" "roomy s'" "stack (fst s') = stack (fst s)"
      "progress K D s s'" "\<forall>b' ki. dequeued bl b' ki (fst s) \<longrightarrow> dequeued bl b' ki (fst s')"
      "snd s' = (snd s)(b := reset_slot (snd s b) ?slot)"
      using flush_dec_slot_good [OF ok r sl(1)] by blast
    have "xor_make_buffer_current bl b (index ki) s = Inr s'"
      using f False s'(1) by (simp add: xor_make_buffer_current_def Let_def word_gt_0)
    moreover have "entries (snd s' b) (unat (index ki) div SLOT) = []"
      using reset_slot_ok(3) [OF ok wf sl(1)] s'(7) sl(2) by simp
    ultimately show ?thesis
      using no_pending [OF brel_wf [OF s'(2)]] s' progress_le [OF s'(5)] dq by blast
  qed
qed

definition good :: "u64 \<Rightarrow> u64 multiset \<Rightarrow> peeling \<times> buffers \<Rightarrow> bool" where
  "good bl K s \<longleftrightarrow> brel bl K none s \<and> roomy s"

lemma peel_one_buf_ok:
  assumes ok: "bl_ok bl" and g: "good bl K s" and ne: "Q (fst s) b \<noteq> []"
  shows "\<exists>s'. peel_one_buf bl (size K) b s = Inr s' \<and> good bl K s' \<and> bw K none s' < bw K none s"
proof -
  obtain st bufs where s: "s = (st, bufs)" by fastforce
  obtain ki q where Q: "Q st b = ki # q" using ne s by (cases "Q st b") auto
  let ?st = "st\<lparr>Q := (Q st)(b := q)\<rparr>"
  have inv: "peel_inv bl K (\<lambda>b. pending (bufs b) + {#}) st" and r: "brel bl K none s" "roomy s"
    using g s by (auto simp: good_def brel_def)
  have r0: "brel bl K none (?st, bufs)" "roomy (?st, bufs)"
    using r inv_pop [OF inv Q] s by (simp_all add: brel_def roomy_def)
  have w0: "bw K none (?st, bufs) < bw K none s" using queues_pop [OF Q] s by (simp add: bw_def bwork_def)
  have "dequeued bl b ki (fst (?st, bufs))" using inv_dequeued [OF inv Q] by simp
  from make_current_ok [OF ok r0 this] obtain st1 bufs1 where
    mc: "xor_make_buffer_current bl b (index ki) (?st, bufs) = Inr (st1, bufs1)"
    and r1: "brel bl K none (st1, bufs1)" "roomy (st1, bufs1)" and w1: "bw K none (st1, bufs1) \<le> bw K none (?st, bufs)"
    and dq: "dequeued bl b ki st1" and occ: "occ bl b (unat (index ki)) (pending (bufs1 b) + {#}) = {#}"
    by fastforce
  have inv1: "peel_inv bl K (\<lambda>b. pending (bufs1 b) + {#}) st1" using r1 by (simp add: brel_def)
  have i: "unat (index ki) < unat bl" using dq by (simp add: dequeued_def queued_def)
  note f = fetch_set [OF inv1 i, of b]
  show ?thesis
  proof (cases "count (sets st1 b ! unat (index ki)) = 0")
    case True
    then have "peel_one_buf bl (size K) b s = Inr (st1, bufs1)" using Q f mc by (simp add: peel_one_buf_def s)
    then show ?thesis using r1 w0 w1 by (auto simp: good_def)
  next
    case False
    let ?h = "hash ki" and ?b1 = "fst (others b)" and ?b2 = "snd (others b)"
    define e where "e = ki\<lparr>index := ucast (ucast (index ki) + of_nat (block_no b) * bl :: u64)\<rparr>"
    define D where "D = pend b ?h none"
    define st2 where "st2 = st1\<lparr>stack := e # stack st1\<rparr>"
    have Deq: "pend b ?h (\<lambda>b. pending (bufs1 b) + {#}) = (\<lambda>b'. pending (bufs1 b') + D b')"
      by (auto simp: fun_eq_iff pend_def D_def)
    have len: "length (stack st1) < size K" and inv2: "peel_inv bl K (\<lambda>b'. pending (bufs1 b') + D b') st2"
      using inv_stack [OF ok inv1 dq False occ, unfolded Deq] by (simp_all add: e_def st2_def)
    have r2: "brel bl K D (st2, bufs1)" "roomy (st2, bufs1)" using r1 inv2 by (simp_all add: brel_def roomy_def)
    have push: "push_stack (size K) e st1 = Inr st2" using len by (simp add: push_stack_def st2_def)
    define D1 where "D1 = D(?b1 := D ?b1 - {#?h#})"
    have hb: "?h \<in># D ?b1" using others_neq [of b] by (simp add: pend_def D_def)
    obtain s3 where s3: "xor_buffered_decrement_counter bl ?b1 (xor_get_h ?b1 ?h bl) ?h (st2, bufs1) = Inr s3"
      "brel bl K D1 s3" "roomy s3" "bw K D1 s3 \<le> bw K D (st2, bufs1)"
      using buffered_decrement_ok [OF ok r2 hb, folded D1_def] by blast
    define D2 where "D2 = D1(?b2 := D1 ?b2 - {#?h#})"
    have hb2: "?h \<in># D1 ?b2" using others_neq [of b] by (simp add: pend_def D_def D1_def)
    obtain s4 where s4: "xor_buffered_decrement_counter bl ?b2 (xor_get_h ?b2 ?h bl) ?h s3 = Inr s4"
      "brel bl K D2 s4" "roomy s4" "bw K D2 s4 \<le> bw K D1 s3"
      using buffered_decrement_ok [OF ok s3(2,3) hb2, folded D2_def] by blast
    have D2: "D2 = none"
      using others_neq [of b] others_all [of _ b] by (auto simp: fun_eq_iff pend_def D_def D1_def D2_def)
    have "size (D B0) + size (D B1) + size (D B2) = 2" by (cases b) (simp_all add: D_def pend_def)
    then have "bw K D (st2, bufs1) < bw K none (st1, bufs1)"
      using len by (simp add: bw_def bwork_def st2_def queues_def)
    then have "bw K none s4 < bw K none s" using s3(4) s4(4) [unfolded D2] w0 w1 by linarith
    moreover have "peel_one_buf bl (size K) b s = Inr s4"
      using Q f mc False push s3(1) s4(1) by (simp add: peel_one_buf_def s Let_def e_def split_def)
    ultimately show ?thesis using s4(2,3) D2 by (auto simp: good_def)
  qed
qed

lemma peel_block_buf_ok:
  assumes ok: "bl_ok bl" and g: "good bl K s"
  shows "\<exists>s'. peel_block_buf bl (size K) b s = Some (Inr s') \<and> good bl K s' \<and> progress K none s s'
    \<and> (Q (fst s) b \<noteq> [] \<longrightarrow> bw K none s' < bw K none s)"
  using g
proof (induction "bw K none s" arbitrary: s rule: less_induct)
  case less
  show ?case
  proof (cases "Q (fst s) b = []")
    case True
    then show ?thesis using less.prems by (subst peel_block_buf.simps) simp
  next
    case False
    from peel_one_buf_ok [OF ok less.prems False] obtain s1 where
      s1: "peel_one_buf bl (size K) b s = Inr s1" "good bl K s1" "bw K none s1 < bw K none s" by blast
    from less.hyps [OF s1(3,2)] obtain s2 where
      s2: "peel_block_buf bl (size K) b s1 = Some (Inr s2)" "good bl K s2" "progress K none s1 s2" by blast
    have "bw K none s2 < bw K none s" using progress_le [OF s2(3)] s1(3) by linarith
    then show ?thesis using s1(1) s2 False by (subst peel_block_buf.simps) (simp add: progress_def)
  qed
qed

text \<open>Flushing the slots of a block, one after another.\<close>

lemma each_slot_dec_ok:
  assumes ok: "bl_ok bl" and g: "good bl K s" and n: "\<And>slot. slot \<in> set sl \<Longrightarrow> unat slot < length (counts (snd s b))"
  shows "\<exists>s'. each_slot (flush_dec_slot bl b) sl s = Inr s' \<and> good bl K s' \<and> progress K none s s'
    \<and> stack (fst s') = stack (fst s) \<and> (\<forall>b'. b' \<noteq> b \<longrightarrow> snd s' b' = snd s b')
    \<and> length (counts (snd s' b)) = length (counts (snd s b))
    \<and> (\<forall>i < length (counts (snd s b)). i \<in> unat ` set sl \<or> counts (snd s b) ! i = 0 \<longrightarrow> counts (snd s' b) ! i = 0)"
  using g n
proof (induction sl arbitrary: s)
  case (Cons slot sl)
  have "brel bl K none s" "roomy s" and sl: "unat slot < length (counts (snd s b))"
    using Cons.prems by (auto simp: good_def)
  from flush_dec_slot_good [OF ok this] obtain s1 where s1: "flush_dec_slot bl b slot s = Inr s1" "good bl K s1"
    "stack (fst s1) = stack (fst s)" "progress K none s s1" "snd s1 = (snd s)(b := reset_slot (snd s b) slot)"
    by (auto simp: good_def)
  have c: "counts (snd s1 b) = (counts (snd s b))[unat slot := 0]" "\<forall>b'. b' \<noteq> b \<longrightarrow> snd s1 b' = snd s b'"
    using s1(5) by (simp_all add: reset_slot_def)
  have "slot' \<in> set sl \<Longrightarrow> unat slot' < length (counts (snd s1 b))" for slot' using Cons.prems(2) c by simp
  from Cons.IH [OF s1(2) this] obtain s2 where s2: "each_slot (flush_dec_slot bl b) sl s1 = Inr s2" "good bl K s2"
    "progress K none s1 s2" "stack (fst s2) = stack (fst s1)" "\<forall>b'. b' \<noteq> b \<longrightarrow> snd s2 b' = snd s1 b'"
    "length (counts (snd s2 b)) = length (counts (snd s1 b))"
    "\<forall>i < length (counts (snd s1 b)). i \<in> unat ` set sl \<or> counts (snd s1 b) ! i = 0 \<longrightarrow> counts (snd s2 b) ! i = 0"
    by blast
  have "i \<in> unat ` set (slot # sl) \<or> counts (snd s b) ! i = 0 \<longrightarrow> counts (snd s2 b) ! i = 0"
    if "i < length (counts (snd s b))" for i
  proof -
    have "i \<in> unat ` set sl \<or> counts (snd s1 b) ! i = 0 \<longrightarrow> counts (snd s2 b) ! i = 0" using s2(7) that c(1) by simp
    moreover have "i = unat slot \<or> counts (snd s b) ! i = 0 \<Longrightarrow> counts (snd s1 b) ! i = 0"
      using that c(1) by (cases "i = unat slot") auto
    ultimately show ?thesis by auto
  qed
  then show ?case using s1(1,3) s2 c progress_trans [OF s1(4) s2(3)] by simp
qed auto

lemma slots_unat: "s \<in> set (slots buf) \<Longrightarrow> unat s < unat (slotcount buf)"
  "unat ` set (slots buf) = {..<unat (slotcount buf)}"
proof -
  have u: "unat (of_nat n :: u32) = n" if "n < unat (slotcount buf)" for n
    using that unsigned_less [of "slotcount buf", where 'a = nat] by (simp add: unat_of_nat)
  then show "s \<in> set (slots buf) \<Longrightarrow> unat s < unat (slotcount buf)" by (auto simp: slots_def)
  show "unat ` set (slots buf) = {..<unat (slotcount buf)}" using u by (force simp: slots_def image_image)
qed

definition drained :: "xor_setbuffer \<Rightarrow> bool" where
  "drained buf \<longleftrightarrow> (\<forall>i < length (counts buf). counts buf ! i = 0)"

lemma drained_pending: "drained buf \<Longrightarrow> pending buf = {#}"
  by (simp add: drained_def pending_def entries_def)

lemma drained_room: "drained buf \<Longrightarrow> room buf"
  by (simp add: drained_def room_def SLOT_pos)

lemma flush_dec_ok:
  assumes ok: "bl_ok bl" and g: "good bl K s"
  shows "\<exists>s'. xor_flush_decrement_buffer bl b s = Inr s' \<and> good bl K s' \<and> progress K none s s'
    \<and> stack (fst s') = stack (fst s) \<and> (\<forall>b'. b' \<noteq> b \<longrightarrow> snd s' b' = snd s b') \<and> drained (snd s' b)"
proof -
  have n: "unat (slotcount (snd s b)) = length (counts (snd s b))" using g by (simp add: good_def brel_def buf_wf_def)
  show ?thesis
    using each_slot_dec_ok [OF ok g, of "slots (snd s b)" b] slots_unat [where buf = "snd s b"] n
    by (auto simp: xor_flush_decrement_buffer_def drained_def)
qed

lemma best_slot_in: "best_slot cs best c ss \<in> insert best (set ss)"
proof (induction ss arbitrary: best c)
  case (Cons a ss)
  show ?case using Cons.IH [of a "cs ! unat a"] Cons.IH [of best c] by auto
qed simp

lemma flushone_ok:
  assumes ok: "bl_ok bl" and g: "good bl K s"
  shows "\<exists>s'. flushone_if_empty bl b s = Inr s' \<and> good bl K s' \<and> progress K none s s'"
proof (cases "Q (fst s) b = []")
  case True
  let ?buf = "snd s b"
  have wf: "buf_wf bl b ?buf" using g by (simp add: good_def brel_def)
  have n: "unat (slotcount ?buf) = length (counts ?buf)" "0 < length (counts ?buf)"
    using wf slotcount_less(2) [OF ok] by (simp_all add: buf_wf_def)
  let ?slot = "best_slot (counts ?buf) 0 (counts ?buf ! 0) (tl (slots ?buf))"
  have "?slot \<in> insert 0 (set (slots ?buf))"
    using best_slot_in [of "counts ?buf" 0 "counts ?buf ! 0" "tl (slots ?buf)"] list.set_sel(2) [of "slots ?buf"]
    by (cases "slots ?buf") auto
  then have sl: "unat ?slot < length (counts ?buf)" using slots_unat(1) [of ?slot ?buf] n by auto
  have "flushone_if_empty bl b s = flush_dec_slot bl b ?slot s"
    using True n by (simp add: flushone_if_empty_def xor_flushone_decrement_buffer_def fetch_def Let_def)
  moreover have "brel bl K none s" "roomy s" using g by (simp_all add: good_def)
  ultimately show ?thesis using flush_dec_slot_good [OF ok _ _ sl] unfolding good_def by metis
qed (use g in \<open>auto simp: flushone_if_empty_def\<close>)

definition settled :: "nat \<Rightarrow> peeling \<times> buffers \<Rightarrow> bool" where
  "settled n s \<longleftrightarrow> (queues (fst s) = 0 \<and> length (stack (fst s)) < n \<longrightarrow> (\<forall>b. drained (snd s b)))"

lemma flush_stuck_ok:
  assumes ok: "bl_ok bl" and g: "good bl K s"
  shows "\<exists>s'. flush_if_stuck bl (size K) s = Inr s' \<and> good bl K s' \<and> progress K none s s' \<and> settled (size K) s'"
proof (cases "queues (fst s) = 0 \<and> length (stack (fst s)) < size K")
  case True
  obtain s0 where s0: "xor_flush_decrement_buffer bl B0 s = Inr s0" "good bl K s0" "progress K none s s0"
    "drained (snd s0 B0)" using flush_dec_ok [OF ok g, of B0] by blast
  obtain s1 where s1: "xor_flush_decrement_buffer bl B1 s0 = Inr s1" "good bl K s1" "progress K none s0 s1"
    "drained (snd s1 B1)" "drained (snd s1 B0)" using flush_dec_ok [OF ok s0(2), of B1] s0(4) by auto
  obtain s2 where s2: "xor_flush_decrement_buffer bl B2 s1 = Inr s2" "good bl K s2" "progress K none s1 s2"
    "drained (snd s2 B0)" "drained (snd s2 B1)" "drained (snd s2 B2)"
    using flush_dec_ok [OF ok s1(2), of B2] s1(4,5) by auto
  have "drained (snd s2 b)" for b using s2 by (cases b) auto
  moreover have "progress K none s s2" using s0(3) s1(3) s2(3) progress_trans by blast
  ultimately show ?thesis using True s0(1) s1(1) s2 by (simp add: flush_if_stuck_def queues_def settled_def)
next
  case False
  then have "flush_if_stuck bl (size K) s = Inr s" "settled (size K) s"
    unfolding flush_if_stuck_def settled_def by (auto simp: queues_def)
  then show ?thesis using g by blast
qed

lemma peel_round_buf_ok:
  assumes ok: "bl_ok bl" and g: "good bl K s" and q: "queues (fst s) \<noteq> 0"
  shows "\<exists>s'. peel_round_buf bl (size K) s = Some (Inr s') \<and> good bl K s' \<and> bw K none s' < bw K none s
    \<and> settled (size K) s'"
proof -
  let ?n = "size K"
  obtain s0 where s0: "peel_block_buf bl ?n B0 s = Some (Inr s0)" "good bl K s0" "progress K none s s0"
    "Q (fst s) B0 \<noteq> [] \<longrightarrow> bw K none s0 < bw K none s" using peel_block_buf_ok [OF ok g] by blast
  obtain s1 where s1: "flushone_if_empty bl B1 s0 = Inr s1" "good bl K s1" "progress K none s0 s1"
    using flushone_ok [OF ok s0(2)] by blast
  obtain s2 where s2: "peel_block_buf bl ?n B1 s1 = Some (Inr s2)" "good bl K s2" "progress K none s1 s2"
    "Q (fst s1) B1 \<noteq> [] \<longrightarrow> bw K none s2 < bw K none s1" using peel_block_buf_ok [OF ok s1(2)] by blast
  obtain s3 where s3: "flushone_if_empty bl B2 s2 = Inr s3" "good bl K s3" "progress K none s2 s3"
    using flushone_ok [OF ok s2(2)] by blast
  obtain s4 where s4: "peel_block_buf bl ?n B2 s3 = Some (Inr s4)" "good bl K s4" "progress K none s3 s4"
    "Q (fst s3) B2 \<noteq> [] \<longrightarrow> bw K none s4 < bw K none s3" using peel_block_buf_ok [OF ok s3(2)] by blast
  obtain s5 where s5: "flushone_if_empty bl B0 s4 = Inr s5" "good bl K s5" "progress K none s4 s5"
    using flushone_ok [OF ok s4(2)] by blast
  obtain s6 where s6: "flush_if_stuck bl ?n s5 = Inr s6" "good bl K s6" "progress K none s5 s6" "settled ?n s6"
    using flush_stuck_ok [OF ok s5(2)] by blast
  have "bw K none s6 < bw K none s"
  proof (rule ccontr)
    assume "\<not> bw K none s6 < bw K none s"
    then have eq: "bw K none s0 = bw K none s" "bw K none s1 = bw K none s" "bw K none s2 = bw K none s"
        "bw K none s3 = bw K none s" "bw K none s4 = bw K none s"
      using s0(3) s1(3) s2(3) s3(3) s4(3) s5(3) s6(3) by (auto dest!: progress_le)
    then have "fst s0 = fst s" "fst s1 = fst s0" "fst s2 = fst s1" "fst s3 = fst s2"
      using s0(3) s1(3) s2(3) s3(3) unfolding progress_def by auto
    then have "Q (fst s) B0 = []" "Q (fst s) B1 = []" "Q (fst s) B2 = []"
      using s0(4) s2(4) s4(4) eq by auto
    then show False using q by (simp add: queues_def)
  qed
  then show ?thesis using s0(1) s1(1) s2(1) s3(1) s4(1) s5(1) s6 by (simp add: peel_round_buf_def)
qed

lemma peel_buf_ok:
  assumes ok: "bl_ok bl" and g: "good bl K s" and st: "settled (size K) s"
  shows "\<exists>s'. peel_buf bl (size K) s = Some (Inr s') \<and> good bl K s'
    \<and> (length (stack (fst s')) < size K \<longrightarrow> (\<forall>b. drained (snd s' b)))"
  using g st
proof (induction "bw K none s" arbitrary: s rule: less_induct)
  case less
  show ?case
  proof (cases "queues (fst s) = 0")
    case True
    then show ?thesis using less.prems by (subst peel_buf.simps) (simp add: queues_def settled_def)
  next
    case False
    obtain s1 where s1: "peel_round_buf bl (size K) s = Some (Inr s1)" "good bl K s1"
      "bw K none s1 < bw K none s" "settled (size K) s1"
      using peel_round_buf_ok [OF ok less.prems(1) False] by blast
    have "peel_buf bl (size K) s = peel_buf bl (size K) s1"
      using False s1(1) by (subst peel_buf.simps) (auto simp: queues_def)
    then show ?thesis using less.hyps [OF s1(3,2,4)] by simp
  qed
qed

text \<open>
  While the keys are counted the buffers hold increments: \<open>M\<close> are the keys added so far, in the
  sets or in a buffer.
\<close>

definition irel :: "u64 \<Rightarrow> (block \<Rightarrow> u64 multiset) \<Rightarrow> peeling \<times> buffers \<Rightarrow> bool" where
  "irel bl M s \<longleftrightarrow> (\<forall>b. buf_wf bl b (snd s b)) \<and> Q (fst s) = (\<lambda>_. []) \<and> stack (fst s) = []
     \<and> (\<exists>N. sets_hold bl N (sets (fst s)) \<and> (\<forall>b. M b = N b + pending (snd s b)))"

lemma inc_entries_ok:
  assumes ok: "bl_ok bl" and "sets_hold bl N (sets st)"
    and "\<And>ki. ki \<in> set kis \<Longrightarrow> index ki = xor_get_h b (hash ki) bl"
  shows "\<exists>st'. inc_entries b kis st = Inr st' \<and> sets_hold bl (N(b := N b + mset (map hash kis))) (sets st')
    \<and> Q st' = Q st \<and> stack st' = stack st"
  using assms(2,3)
proof (induction kis arbitrary: N st)
  case (Cons ki kis)
  define N1 where "N1 = N(b := add_mset (hash ki) (N b))"
  obtain st1 where st1: "increment b (index ki) (hash ki) st = Inr st1" "sets_hold bl N1 (sets st1)"
    "Q st1 = Q st" "stack st1 = stack st"
    using increment_ok [OF ok Cons.prems(1), of b "hash ki"] Cons.prems(2) [of ki] by (auto simp: N1_def)
  have ix: "ki \<in> set kis \<Longrightarrow> index ki = xor_get_h b (hash ki) bl" for ki using Cons.prems(2) by simp
  have "N1(b := N1 b + mset (map hash kis)) = N(b := N b + mset (map hash (ki # kis)))"
    by (simp add: N1_def fun_eq_iff)
  from Cons.IH [OF st1(2) ix, unfolded this] show ?case using st1(1,3,4) by auto
qed simp

lemma flush_inc_slot_ok:
  assumes ok: "bl_ok bl" and r: "irel bl M s" and sl: "unat slot < length (counts (snd s b))"
  shows "\<exists>s'. flush_inc_slot b slot s = Inr s' \<and> irel bl M s' \<and> snd s' = (snd s)(b := reset_slot (snd s b) slot)"
proof -
  obtain st bufs where s: "s = (st, bufs)" by fastforce
  let ?kis = "entries (bufs b) (unat slot)" and ?bufs = "bufs(b := reset_slot (bufs b) slot)"
  have wf: "buf_wf bl b (bufs b)" using r s by (simp add: irel_def)
  obtain N where N: "sets_hold bl N (sets st)" "\<forall>b. M b = N b + pending (bufs b)" using r s by (auto simp: irel_def)
  note rs = reset_slot_ok [OF ok wf sl [unfolded s snd_conv]]
  have ix: "ki \<in> set ?kis \<Longrightarrow> index ki = xor_get_h b (hash ki) bl" for ki
    using wf sl s by (simp add: buf_wf_def)
  define N' where "N' = N(b := N b + mset (map hash ?kis))"
  obtain st' where st': "inc_entries b ?kis st = Inr st'" "sets_hold bl N' (sets st')"
    "Q st' = Q st" "stack st' = stack st" using inc_entries_ok [OF ok N(1), of ?kis b] ix unfolding N'_def by blast
  have "\<forall>b'. M b' = N' b' + pending (?bufs b')" 
  proof
    fix b' show "M b' = N' b' + pending (?bufs b')"
      using N(2) rs(2) by (cases "b' = b") (simp_all add: N'_def)
  qed
  moreover have "\<forall>b'. buf_wf bl b' (?bufs b')" using r rs(1) s by (simp add: irel_def)
  ultimately have "irel bl M (st', ?bufs)" using r s st'(2-) unfolding irel_def fst_conv snd_conv by auto
  moreover have "flush_inc_slot b slot s = Inr (st', ?bufs)"
    using st'(1) slot_entries_eq [OF ok wf] sl s by (simp add: flush_inc_slot_def)
  ultimately show ?thesis using s by auto
qed

lemma buffered_increment_ok:
  assumes ok: "bl_ok bl" and r: "irel bl M s" and rm: "roomy s"
  shows "\<exists>s'. xor_buffered_increment_counter b (xor_get_h b h bl) h s = Inr s'
    \<and> irel bl (M(b := add_mset h (M b))) s' \<and> roomy s'"
proof -
  obtain st bufs where s: "s = (st, bufs)" by fastforce
  let ?i = "xor_get_h b h bl"
  define M' where "M' = M(b := add_mset h (M b))"
  have wf: "buf_wf bl b (bufs b)" using r s by (simp add: irel_def)
  obtain buf where buf: "add_entry ?i h (bufs b) = Inr buf" "buf_wf bl b buf"
      "pending buf = add_mset h (pending (bufs b))" "length (counts buf) = length (counts (bufs b))"
      "\<forall>s < length (counts (bufs b)). s \<noteq> unat (slot_of (bufs b) ?i) \<longrightarrow> unat (counts buf ! s) < SLOT"
      "slotsize buf = slotsize (bufs b)" "slot_of buf ?i = slot_of (bufs b) ?i"
      "unat (slot_of (bufs b) ?i) < length (counts (bufs b))"
    using add_entry_ok [OF ok wf _ refl, of h] rm s by (auto simp: roomy_def)
  let ?bufs = "bufs(b := buf)" and ?slot = "slot_of (bufs b) ?i"
  obtain N where N: "sets_hold bl N (sets st)" "\<forall>b. M b = N b + pending (bufs b)" using r s by (auto simp: irel_def)
  have "\<forall>b'. M' b' = N b' + pending (?bufs b')" using N(2) buf(3) by (simp add: M'_def)
  moreover have "\<forall>b'. buf_wf bl b' (?bufs b')" using r buf(2) s by (simp add: irel_def)
  ultimately have r1: "irel bl M' (st, ?bufs)" using r s N(1) unfolding irel_def fst_conv snd_conv by auto
  have f: "fetch (counts buf) (unat ?slot) = Inr (counts buf ! unat ?slot)" using buf by (simp add: fetch_def)
  have others: "\<And>s. s < length (counts buf) \<Longrightarrow> s \<noteq> unat ?slot \<Longrightarrow> unat (counts buf ! s) < SLOT"
    using buf(4,5) by simp
  show ?thesis
  proof (cases "counts buf ! unat ?slot = slotsize buf")
    case True
    have sl: "unat ?slot < length (counts (snd (st, ?bufs) b))" using buf(4,8) by simp
    obtain s' where s': "flush_inc_slot b ?slot (st, ?bufs) = Inr s'" "irel bl M' s'"
      "snd s' = ?bufs(b := reset_slot (?bufs b) ?slot)"
      using flush_inc_slot_ok [OF ok r1 sl] unfolding snd_conv by blast
    have "xor_buffered_increment_counter b ?i h s = Inr s'"
      using buf(1,7) f True s'(1) by (simp add: xor_buffered_increment_counter_def s)
    moreover have "room (reset_slot buf ?slot)" using sl others by (intro room_reset) auto
    then have "roomy s'" using rm s s'(3) by (simp add: roomy_def)
    ultimately show ?thesis using s'(2) by (auto simp: M'_def)
  next
    case False
    then have "xor_buffered_increment_counter b ?i h s = Inr (st, ?bufs)"
      using buf(1,7) f by (simp add: xor_buffered_increment_counter_def s)
    moreover have "room buf" using room_unless_full [OF buf(2) _ False others] buf(4,8) by simp
    then have "roomy (st, ?bufs)" using rm s by (simp add: roomy_def)
    ultimately show ?thesis using r1 by (auto simp: M'_def)
  qed
qed

lemma add_keys_buf_ok:
  assumes ok: "bl_ok bl" and "irel bl (\<lambda>_. M) s" "roomy s"
  shows "\<exists>s'. add_keys_buf sd bl keys s = Inr s' \<and> irel bl (\<lambda>_. M + hashes sd keys) s' \<and> roomy s'"
  using assms(2,3)
proof (induction keys arbitrary: M s)
  case Nil
  then show ?case by (simp add: hashes_def)
next
  case (Cons k keys)
  let ?h = "xor_mix_split k sd"
  define M0 where "M0 = (\<lambda>_. M)(B0 := add_mset ?h ((\<lambda>_. M) B0))"
  define M1 where "M1 = M0(B1 := add_mset ?h (M0 B1))"
  define M2 where "M2 = M1(B2 := add_mset ?h (M1 B2))"
  have M2: "M2 = (\<lambda>_. add_mset ?h M)"
  proof
    fix b show "M2 b = add_mset ?h M" by (cases b) (simp_all add: M0_def M1_def M2_def)
  qed
  obtain s0 where 0: "xor_buffered_increment_counter B0 (xor_get_h B0 ?h bl) ?h s = Inr s0" "irel bl M0 s0" "roomy s0"
    using buffered_increment_ok [OF ok Cons.prems, of B0 ?h, folded M0_def] by blast
  obtain s1 where 1: "xor_buffered_increment_counter B1 (xor_get_h B1 ?h bl) ?h s0 = Inr s1" "irel bl M1 s1" "roomy s1"
    using buffered_increment_ok [OF ok 0(2,3), of B1 ?h, folded M1_def] by blast
  obtain s2 where 2: "xor_buffered_increment_counter B2 (xor_get_h B2 ?h bl) ?h s1 = Inr s2" "irel bl M2 s2" "roomy s2"
    using buffered_increment_ok [OF ok 1(2,3), of B2 ?h, folded M2_def] by blast
  from Cons.IH [OF 2(2) [unfolded M2] 2(3)] 0(1) 1(1) 2(1) show ?case
    by (auto simp: add_key_buf_def Let_def hashes_def)
qed

lemma each_slot_inc_ok:
  assumes ok: "bl_ok bl" and r: "irel bl M s" and n: "\<And>slot. slot \<in> set sl \<Longrightarrow> unat slot < length (counts (snd s b))"
  shows "\<exists>s'. each_slot (flush_inc_slot b) sl s = Inr s' \<and> irel bl M s' \<and> (\<forall>b'. b' \<noteq> b \<longrightarrow> snd s' b' = snd s b')
    \<and> length (counts (snd s' b)) = length (counts (snd s b))
    \<and> (\<forall>i < length (counts (snd s b)). i \<in> unat ` set sl \<or> counts (snd s b) ! i = 0 \<longrightarrow> counts (snd s' b) ! i = 0)"
  using r n
proof (induction sl arbitrary: s)
  case (Cons slot sl)
  have sl: "unat slot < length (counts (snd s b))" using Cons.prems by auto
  from flush_inc_slot_ok [OF ok Cons.prems(1) sl] obtain s1 where s1: "flush_inc_slot b slot s = Inr s1" "irel bl M s1"
    "snd s1 = (snd s)(b := reset_slot (snd s b) slot)" by blast
  have c: "counts (snd s1 b) = (counts (snd s b))[unat slot := 0]" "\<forall>b'. b' \<noteq> b \<longrightarrow> snd s1 b' = snd s b'"
    using s1(3) by (simp_all add: reset_slot_def)
  have "slot' \<in> set sl \<Longrightarrow> unat slot' < length (counts (snd s1 b))" for slot' using Cons.prems(2) c by simp
  from Cons.IH [OF s1(2) this] obtain s2 where s2: "each_slot (flush_inc_slot b) sl s1 = Inr s2" "irel bl M s2"
    "\<forall>b'. b' \<noteq> b \<longrightarrow> snd s2 b' = snd s1 b'" "length (counts (snd s2 b)) = length (counts (snd s1 b))"
    "\<forall>i < length (counts (snd s1 b)). i \<in> unat ` set sl \<or> counts (snd s1 b) ! i = 0 \<longrightarrow> counts (snd s2 b) ! i = 0"
    by blast
  have "i \<in> unat ` set (slot # sl) \<or> counts (snd s b) ! i = 0 \<longrightarrow> counts (snd s2 b) ! i = 0"
    if "i < length (counts (snd s b))" for i
  proof -
    have "i \<in> unat ` set sl \<or> counts (snd s1 b) ! i = 0 \<longrightarrow> counts (snd s2 b) ! i = 0" using s2(5) that c(1) by simp
    moreover have "i = unat slot \<or> counts (snd s b) ! i = 0 \<Longrightarrow> counts (snd s1 b) ! i = 0"
      using that c(1) by (cases "i = unat slot") auto
    ultimately show ?thesis by auto
  qed
  then show ?case using s1(1) s2 c by simp
qed auto

lemma flush_inc_ok:
  assumes ok: "bl_ok bl" and r: "irel bl M s"
  shows "\<exists>s'. xor_flush_increment_buffer b s = Inr s' \<and> irel bl M s' \<and> (\<forall>b'. b' \<noteq> b \<longrightarrow> snd s' b' = snd s b')
    \<and> drained (snd s' b)"
proof -
  have n: "unat (slotcount (snd s b)) = length (counts (snd s b))" using r by (simp add: irel_def buf_wf_def)
  show ?thesis
    using each_slot_inc_ok [OF ok r, of "slots (snd s b)" b] slots_unat [where buf = "snd s b"] n
    by (auto simp: xor_flush_increment_buffer_def drained_def)
qed

lemma scans_ok:
  assumes ok: "bl_ok bl" and inv: "peel_inv bl K none (fst s)" and st: "stack (fst s) = []" "Q (fst s) = (\<lambda>_. [])"
  shows "\<exists>s'. scans bl s = Inr s' \<and> peel_inv bl K none (fst s') \<and> snd s' = snd s"
proof -
  obtain st0 where 0: "scan bl B0 [0..<unat bl] (fst s) = Inr st0" "peel_inv bl K none st0" "stack st0 = []"
      "\<forall>b'. b' \<noteq> B0 \<longrightarrow> Q st0 b' = []"
    using scan_ok [OF ok inv st(1), of "[0..<unat bl]" B0] st(2) by auto
  obtain st1 where 1: "scan bl B1 [0..<unat bl] st0 = Inr st1" "peel_inv bl K none st1" "stack st1 = []"
      "\<forall>b'. b' \<noteq> B1 \<longrightarrow> Q st1 b' = Q st0 b'"
    using scan_ok [OF ok 0(2,3), of "[0..<unat bl]" B1] 0(4) by auto
  obtain st2 where 2: "scan bl B2 [0..<unat bl] st1 = Inr st2" "peel_inv bl K none st2" "stack st2 = []"
    using scan_ok [OF ok 1(2,3), of "[0..<unat bl]" B2] 0(4) 1(4) by auto
  show ?thesis using 0(1) 1(1) 2 by (simp add: scans_def)
qed

lemma prepare_buf_ok:
  assumes ok: "bl_ok bl" and len: "length keys < 2 ^ 32"
    and bufs: "\<And>b. buf_wf bl b (bufs b)" "\<And>b. drained (bufs b)"
  shows "\<exists>s. prepare_buf sd bl keys bufs = Inr s \<and> good bl (hashes sd keys) s \<and> (\<forall>b. drained (snd s b))"
proof -
  let ?K = "hashes sd keys"
  have "irel bl (\<lambda>_. {#}) (cleared bl, bufs)" "roomy (cleared bl, bufs)"
    using cleared_sets [of bl] bufs drained_pending drained_room
    by (auto simp: irel_def roomy_def cleared_def intro!: exI [of _ none])
  from add_keys_buf_ok [OF ok this, of sd keys] obtain s where
    s: "add_keys_buf sd bl keys (cleared bl, bufs) = Inr s" "irel bl (\<lambda>_. ?K) s" by auto
  obtain s0 where 0: "xor_flush_increment_buffer B0 s = Inr s0" "irel bl (\<lambda>_. ?K) s0" "drained (snd s0 B0)"
    using flush_inc_ok [OF ok s(2)] by blast
  obtain s1 where 1: "xor_flush_increment_buffer B1 s0 = Inr s1" "irel bl (\<lambda>_. ?K) s1"
    "drained (snd s1 B0)" "drained (snd s1 B1)"
    using flush_inc_ok [OF ok 0(2), of B1] 0(3) by auto
  obtain s2 where 2: "xor_flush_increment_buffer B2 s1 = Inr s2" "irel bl (\<lambda>_. ?K) s2"
    "drained (snd s2 B0)" "drained (snd s2 B1)" "drained (snd s2 B2)"
    using flush_inc_ok [OF ok 1(2), of B2] 1(3,4) by auto
  have d: "drained (snd s2 b)" for b using 2 by (cases b) auto
  obtain N where N: "sets_hold bl N (sets (fst s2))" "\<forall>b. ?K = N b + pending (snd s2 b)"
    using 2(2) by (auto simp: irel_def)
  then have "N = (\<lambda>_. ?K)" using drained_pending [OF d] by (auto simp: fun_eq_iff)
  then have "sets_hold bl (\<lambda>_. ?K) (sets (fst s2))" using N(1) by simp
  moreover have c: "counted bl ?K none [] = (\<lambda>_. ?K)" by (simp add: counted_def rest_def fun_eq_iff)
  moreover have q: "stack (fst s2) = []" "Q (fst s2) = (\<lambda>_. [])" using 2(2) by (simp_all add: irel_def)
  ultimately have inv: "peel_inv bl ?K none (fst s2)" using len by (simp add: peel_inv_def stacked_def hashes_def)
  obtain s' where s': "scans bl s2 = Inr s'" "peel_inv bl ?K none (fst s')" "snd s' = snd s2"
    using scans_ok [OF ok inv q] by blast
  have "good bl ?K s'"
    using s'(2,3) 2(2) d drained_pending [OF d] drained_room by (simp add: good_def brel_def irel_def roomy_def)
  then show ?thesis using s(1) 0(1) 1(1) 2(1) s'(1,3) d by (simp add: prepare_buf_def)
qed

lemma attempts_buf_ok:
  fixes flt :: "'f::len word xor_filter"
  assumes w: "LENGTH('f) \<le> 64" and "filter_ok flt" and len: "length keys < 2 ^ 32"
    and "\<And>b. buf_wf (blockLength flt) b (bufs b)" "\<And>b. drained (bufs b)"
  shows "\<exists>r flt'. attempts_buf n keys rng flt bufs = Some (Inr (r, flt')) \<and> filter_ok flt'
    \<and> blockLength flt' = blockLength flt
    \<and> (r \<longrightarrow> distinct keys \<and> (\<forall>k \<in> set keys. xor_contain k flt' = Inr True))"
  using assms(2,4,5)
proof (induction n arbitrary: rng flt bufs)
  case (Suc n)
  let ?bl = "blockLength flt" and ?K = "hashes (seed flt) keys"
  have ok: "bl_ok ?bl" and fl: "length (fingerprints flt) = 3 * unat ?bl"
    using Suc.prems by (simp_all add: filter_ok_def)
  have sz: "size ?K = length keys" by (simp add: hashes_def)
  obtain s where s: "prepare_buf (seed flt) ?bl keys bufs = Inr s" "good ?bl ?K s" "\<forall>b. drained (snd s b)"
    using prepare_buf_ok [OF ok len Suc.prems(2,3)] by blast
  have "settled (size ?K) s" using s(3) by (simp add: settled_def)
  from peel_buf_ok [OF ok s(2) this] obtain st bufs' where
    st: "peel_buf ?bl (length keys) s = Some (Inr (st, bufs'))" "good ?bl ?K (st, bufs')"
      "length (stack st) < length keys \<Longrightarrow> \<forall>b. drained (bufs' b)" unfolding sz by auto
  define P where "P = (\<lambda>b. pending (bufs' b) + {#})"
  have inv: "peel_inv ?bl ?K P st" and wf: "\<And>b. buf_wf ?bl b (bufs' b)"
    using st(2) by (simp_all add: good_def brel_def P_def)
  show ?case
  proof (cases "length (stack st) = length keys")
    case False
    have "mset (map hash (stack st)) \<subseteq># ?K" using inv unfolding peel_inv_def by blast
    from size_mset_mono [OF this] have "length (stack st) < length keys" using False sz by simp
    note d = st(3) [OF this]
    obtain sd rng' where "xor_rng_splitmix64 rng = (sd, rng')" by fastforce
    then show ?thesis using False s(1) st(1) Suc.IH [of "flt\<lparr>seed := sd\<rparr>" bufs' rng'] Suc.prems(1) wf d
      by (simp add: filter_ok_def)
  next
    case True
    obtain fp where fp: "assign ?bl (stack st) (fingerprints flt) = Inr fp" "length fp = 3 * unat ?bl"
        "\<forall>e \<in> set (stack st). sat ?bl fp (hash e)"
      using inv_assign [OF ok w fl inv] by blast
    have "distinct keys \<and> (\<forall>k \<in> set keys. xor_contain k (flt\<lparr>fingerprints := fp\<rparr>) = Inr True)"
      using constructed [OF ok inv _ fp(2,3)] True by simp
    moreover have "filter_ok (flt\<lparr>fingerprints := fp\<rparr>)" using ok fp(2) by (simp add: filter_ok_def)
    ultimately show ?thesis using True s(1) st(1) fp(1)
      by (intro exI [of _ True] exI [of _ "flt\<lparr>fingerprints := fp\<rparr>"]) simp
  qed
qed auto

lemma init_buffer_ok:
  assumes ok: "bl_ok bl" and i: "xor_init_buffer mem cmem bl = Inr buf"
  shows "buf_wf bl b buf" "drained buf"
proof -
  obtain junk where m: "mem = Some junk" "cmem" using i by (auto simp: xor_init_buffer_def Let_def split: option.splits if_splits)
  define n where "n = (unat bl + (SLOT - 1)) div SLOT"
  note n = slotcount_less(1,2) [OF ok n_def]
  have u: "unat bl + (SLOT - 1) < 2 ^ 64" using ok by (simp add: bl_ok_def SLOT_def)
  have "unat (0x3FFFF + bl :: u64) = unat bl + (SLOT - 1)" using u by (simp add: unat_word_ariths SLOT_def)
  then have c: "unat ((0x3FFFF + bl) div 0x40000 :: u64) = n" by (simp add: n_def unat_div_distrib SLOT_def)
  have n32: "n < 2 ^ 32" using n(1) by (simp add: SLOT_def)
  define cnt where "cnt = (ucast ((0x3FFFF + bl) div 0x40000 :: u64) :: u32)"
  have cnt: "unat cnt = n" using c n32 by (simp add: cnt_def unat_u64_u32)
  have mul: "unat (cnt * 0x40000) = n * SLOT" using n(1) cnt by (simp add: unat_word_ariths SLOT_def)
  have "xor_init_buffer mem cmem bl = Inr \<lparr>buffer = map junk [0..<unat (cnt * 0x40000)], counts = replicate (unat cnt) 0,
      insignificantbits = 18, slotsize = 0x40000, slotcount = cnt, originalsize = bl\<rparr>"
    using m by (simp add: xor_init_buffer_def Let_def cnt_def)
  then have buf: "buf = \<lparr>buffer = map junk [0..<unat (cnt * 0x40000)], counts = replicate (unat cnt) 0,
      insignificantbits = 18, slotsize = 0x40000, slotcount = cnt, originalsize = bl\<rparr>"
    using i by simp
  show "drained buf" by (simp add: buf drained_def)
  have "entries buf s = []" if "s < n" for s using that cnt by (simp add: buf entries_def)
  then show "buf_wf bl b buf" using cnt mul by (simp add: buf_wf_def buf n_def SLOT_def)
qed

lemma xor_buffered_populate_ok:
  fixes flt :: "'f::len word xor_filter"
  assumes w: "LENGTH('f) \<le> 64" and f: "filter_ok flt" and len: "length keys < 2 ^ 32"
    and mem: "\<And>b. fst (mems b) \<noteq> None \<longleftrightarrow> snd (mems b)"
  shows "\<exists>r flt'. xor_buffered_populate mems oom keys flt = Some (Inr (r, flt')) \<and> filter_ok flt'
    \<and> (r \<longrightarrow> distinct keys \<and> (\<forall>k \<in> set keys. xor_contain k flt' = Inr True))"
proof -
  obtain sd rng where sd: "xor_rng_splitmix64 1 = (sd, rng)" by fastforce
  let ?f = "flt\<lparr>seed := sd\<rparr>" and ?bl = "blockLength flt"
  let ?init = "\<lambda>b. xor_init_buffer (fst (mems b)) (snd (mems b)) ?bl"
  have f': "filter_ok ?f" using f by (simp add: filter_ok_def)
  have ok: "bl_ok ?bl" using f by (simp add: filter_ok_def)
  have nt: "?init b \<noteq> Inl True" for b
    using mem [of b] by (cases "fst (mems b)") (auto simp: xor_init_buffer_def Let_def)
  show ?thesis
  proof (cases "\<exists>b0 b1 b2. ?init B0 = Inr b0 \<and> ?init B1 = Inr b1 \<and> ?init B2 = Inr b2")
    case True
    then obtain b0 b1 b2 where i: "?init B0 = Inr b0" "?init B1 = Inr b1" "?init B2 = Inr b2" by blast
    define bufs where "bufs = (\<lambda>b. case b of B0 \<Rightarrow> b0 | B1 \<Rightarrow> b1 | B2 \<Rightarrow> b2)"
    have "?init b = Inr (bufs b)" for b using i by (cases b) (simp_all add: bufs_def)
    note b = init_buffer_ok [OF ok this]
    have "xor_buffered_populate mems oom keys flt = (if oom then Some (Inr (False, ?f))
        else attempts_buf XOR_MAX_ITERATIONS keys rng ?f bufs)"
      using i nt by (simp add: xor_buffered_populate_def sd bufs_def)
    then show ?thesis using attempts_buf_ok [OF w f' len, of bufs XOR_MAX_ITERATIONS rng] b f'
      by (cases oom) auto
  next
    case False
    then have "xor_buffered_populate mems oom keys flt = Some (Inr (False, ?f))"
      using nt by (auto simp: xor_buffered_populate_def sd Let_def split: sum.splits)
    then show ?thesis using f' by auto
  qed
qed

section \<open>Properties\<close>

text \<open>C22: the buffered construction, unless an allocation fails halfway, terminates without touching
  memory out of range; when it returns true the keys were distinct and the filter contains every
  one of them.\<close>

theorem xor8_buffered_no_false_negative:
  assumes "filter_ok flt" "length keys < 2 ^ 32" "\<And>b. fst (mems b) \<noteq> None \<longleftrightarrow> snd (mems b)"
  shows "\<exists>r flt'. xor8_buffered_populate mems oom keys flt = Some (Inr (r, flt'))
    \<and> (r \<longrightarrow> distinct keys \<and> (\<forall>k \<in> set keys. xor8_contain k flt' = Inr True))"
  using assms(3) xor_buffered_populate_ok [OF _ assms(1,2), of mems oom] by (auto simp: xor8_buffered_populate_def xor8_contain_def)

theorem xor8_buffered_no_false_negative_witness:
  "\<exists>r flt'. xor8_buffered_populate (\<lambda>_. (Some (\<lambda>_. \<lparr>hash = 5, index = 9\<rparr>), True)) False [1, 2, 3, 7]
      \<lparr>seed = 0, blockLength = 10, fingerprints = replicate 30 0\<rparr> = Some (Inr (r, flt'))
    \<and> (r \<longrightarrow> xor8_contain 7 flt' = Inr True)"
proof -
  have "filter_ok (\<lparr>seed = 0, blockLength = 10, fingerprints = replicate 30 0\<rparr> :: xor8_t)"
    by (simp add: filter_ok_def bl_ok_def)
  from xor8_buffered_no_false_negative [OF this, of "[1, 2, 3, 7]" "\<lambda>_. (Some (\<lambda>_. \<lparr>hash = 5, index = 9\<rparr>), True)" False]
  show ?thesis by auto
qed

text \<open>The sixteen-bit buffered construction gives no false negatives either.\<close>

theorem xor16_buffered_no_false_negative:
  assumes "filter_ok flt" "length keys < 2 ^ 32" "\<And>b. fst (mems b) \<noteq> None \<longleftrightarrow> snd (mems b)"
  shows "\<exists>r flt'. xor16_buffered_populate mems oom keys flt = Some (Inr (r, flt'))
    \<and> (r \<longrightarrow> distinct keys \<and> (\<forall>k \<in> set keys. xor16_contain k flt' = Inr True))"
  using assms(3) xor_buffered_populate_ok [OF _ assms(1,2), of mems oom] by (auto simp: xor16_buffered_populate_def xor16_contain_def)

theorem xor16_buffered_no_false_negative_witness:
  "\<exists>r flt'. xor16_buffered_populate (\<lambda>_. (Some (\<lambda>_. \<lparr>hash = 5, index = 9\<rparr>), True)) False [1, 2, 3, 7]
      \<lparr>seed = 0, blockLength = 10, fingerprints = replicate 30 0\<rparr> = Some (Inr (r, flt'))
    \<and> (r \<longrightarrow> xor16_contain 7 flt' = Inr True)"
proof -
  have "filter_ok (\<lparr>seed = 0, blockLength = 10, fingerprints = replicate 30 0\<rparr> :: xor16_t)"
    by (simp add: filter_ok_def bl_ok_def)
  from xor16_buffered_no_false_negative [OF this, of "[1, 2, 3, 7]" "\<lambda>_. (Some (\<lambda>_. \<lparr>hash = 5, index = 9\<rparr>), True)" False]
  show ?thesis by auto
qed





end
