(* ===== verification/Spec2Isabelle.thy ===== *)
theory Spec2Isabelle
  imports LipRun Select Catalog DisjointSetForest ExecutionPlan XorFilterBuffered
begin

text \<open>
  Verification of Hustle, an in-memory analytical engine behind an embedded SQLite.

  \<^bold>\<open>The program.\<close> SQLite parses and runs transactions. Its hooks write every change to the memlog of
  the connection (\<open>src/src/storage/cmemlog.cc\<close>), a list of records per table. On commit the memlog is
  replayed: each record is an SQLite record, whose header is read with the varint and serial-type
  routines of \<open>src/src/storage/utils/record_utils.h\<close>, and becomes an insertion, update or deletion on a
  column-store table (\<open>table.cc\<close>) made of blocks (\<open>block.cc\<close>). Queries become execution plans
  (\<open>src/src/execution\<close>), whose operators (\<open>src/src/operators\<close>) run as tasks of a work scheduler
  (\<open>src/src/scheduler\<close>): selections give views of tables, blocks are skipped by their metadata, and joins
  prune the fact table with Bloom filters (\<open>src/src/utils\<close>). The catalog (\<open>src/src/catalog\<close>) has the tables
  of a database (\<open>src/src/api\<close>).

  \<^bold>\<open>Theories.\<close>
  \<^item> \<open>Prelude\<close>: machine types, the errors of C++ (\<open>cerr\<close>) and sequencing of operations that may fail
    or not end, arrays with checked access, bit lemmas.
  \<^item> \<open>Varint\<close> (\<open>record_utils.h\<close>, and the writer of \<open>sqlite3.c\<close>): \<open>sqlite3GetVarint\<close>, \<open>sqlite3GetVarint32\<close>,
    \<open>sqlite3PutVarint\<close>, statement by statement. The unrolled reader equals a reference reader, reads
    only the bytes of the varint, and reads back what the writer wrote. The locale \<open>byte_codec\<close> is what
    a header of varints relies on.
  \<^item> \<open>RecordUtils\<close>: serial types and values of a record; integers are the two's-complement reading of
    their bytes.
  \<^item> \<open>MemLog\<close> (\<open>cmemlog.h\<close>, \<open>cmemlog.cc\<close>): the log on an explicit heap of linked records, the decoding of
    a header into column widths, update, commit, rollback and clearing. A transaction gives each table
    its own changes in order and frees every record once. The locale \<open>append_log\<close> states the contract
    of a log that grows.
  \<^item> \<open>BitUtils\<close>, \<open>Block\<close>, \<open>BlockCopy\<close>, \<open>Table\<close> (\<open>bit_utils.h\<close>, \<open>block.h\<close>, \<open>block.cc\<close>, \<open>table.h\<close>, \<open>table.cc\<close>):
    columns as byte buffers, insertion of records, text and arrays, updates, truncation, copying with
    the compaction of deleted rows, the pool of blocks, the row map. The invariants \<open>block_ok\<close> and
    \<open>table_ok\<close> are kept, cells hold the encoding of the record, and the locale \<open>row_store\<close> is the
    interface through which a sequence of insertions is read back.
  \<^item> \<open>XorFilter\<close>, \<open>XorFilterBuffered\<close> (\<open>xorfilter.h\<close>, \<open>xorfilter_wrapper.h\<close>): hashing, the construction by
    peeling with its queues and stack as checked arrays, the buffered construction, and the class
    \<open>Xor8\<close>. A filter that was built contains every key.
  \<^item> \<open>BloomFilter\<close> (\<open>bloom_filter.h\<close>, \<open>histogram.h\<close>): a probe answers exactly bucket membership; the
    statistics are sums over a window of batches.
  \<^item> \<open>BlockMetadata\<close> (\<open>ma_block.h\<close>, \<open>ma_block.cc\<close>, \<open>sma.cc\<close>): least and greatest values of the columns of a block,
    kept valid by the operations of the subclass. The locale \<open>metadata_unit\<close> is the contract of a search: it
    answers false only if no row passes.
  \<^item> \<open>OperatorData\<close>, \<open>ApplyIndices\<close> (\<open>lazy_table.cc\<close>, \<open>operator_result.cc\<close>, \<open>join_graph.cc\<close>,
    \<open>arrow_compute_wrappers.cc\<close>): views of tables, results and the join graph; taking rows out of a chunked column
    in slices equals taking them out of the whole column.
  \<^item> \<open>Select\<close> (\<open>select.cc\<close>, \<open>predicate.h\<close>): the filter of a block as a bitmap on a heap of shared arrays, and the scan
    in batches. The bits are the truth of the tree of predicates on the cells of the block.
  \<^item> \<open>Lip\<close>, \<open>LipRun\<close> (\<open>lip.cc\<close>, \<open>lip.h\<close>): lookahead joins. For every order of the tasks the output has exactly the
    rows that pass all filters, and its columns can be materialised.
  \<^item> \<open>Catalog\<close> (\<open>catalog.cc\<close>, \<open>table_schema.cc\<close>, \<open>column_schema.h\<close>, \<open>hustle_db.cc\<close>, \<open>sqlite_utils.cc\<close>): schemas, the
    directory of tables through the locale \<open>directory\<close>, the statement that creates a table, and what is left
    of a catalog that is read from its file.
  \<^item> \<open>DisjointSetForest\<close> (\<open>disjoint_set_forest.h\<close>): union by rank with path compression computes the least
    equivalence of the merged pairs, through the locale \<open>partition_store\<close>.
  \<^item> \<open>Scheduler\<close>, \<open>SchedulerRun\<close> (\<open>scheduler.h\<close>, \<open>scheduler.cc\<close>, \<open>node.h\<close>, \<open>task.h\<close>, \<open>worker.h\<close>, messages,
    \<open>thread_safe_queue.h\<close>): the dependency graph, the calls of clients and one turn of the scheduler's
    thread and of a worker; then step relations for calls and turns with the invariant of every
    reachable state. No check fails, every run of turns ends, dependencies are respected and no task
    is lost or run twice. The locale \<open>progress_system\<close> gives termination from a measure.
  \<^item> \<open>ExecutionPlan\<close> (\<open>execution_plan.h\<close>, \<open>execution_plan.cc\<close>, \<open>operator.h\<close>): plans and their execution on
    that scheduler: each operator runs once, after its producers.
  \<^item> This theory: the commit of a transaction on tables, which ties the memlog to the storage.

  \<^bold>\<open>How code is modelled.\<close> Structs and classes are records, enumerations are datatypes, 32- and 64-bit
  words are \<open>word\<close>s, signed integers are \<open>int\<close> with the overflow as the error \<open>IntOverflow\<close>. An
  operation that may fail returns \<open>cerr + 'a\<close>: null dereference, access out of bounds, use after free,
  a failed \<open>DCHECK\<close>, division by zero and thrown exceptions are values. Pointers are positions in an
  explicit heap or store. Critical sections of the scheduler are atomic steps, and their interleavings
  are the runs of the step relations.

  \<^bold>\<open>Parameters.\<close> What is not in the repository, or has no fixed result, is an argument with its
  documented behaviour as a hypothesis: growth of Arrow buffers (\<open>arrow_ok\<close>), the iteration order of
  unordered containers (\<open>iter_ok\<close>, \<open>first_key_ok\<close>, \<open>order_ok\<close>), failing \<open>malloc\<close>s, the rounding of
  \<open>double\<close> (\<open>rounding_ok\<close>) and \<open>rand\<close>; the kernels of Arrow (\<open>min_max_ok\<close>, \<open>compare_ok\<close>, \<open>text_kernel_ok\<close>),
  \<open>std::sort\<close> and the order of independent tasks (\<open>env_ok\<close>, \<open>sched_ok\<close>), JSON (\<open>json_ok\<close>) and SQLite behind the
  catalog. Every property that has such a hypothesis has a witness with a concrete argument. The selection
  compares values of a linear order, so that a floating-point column is covered as long as it has no NaN.

  \<^bold>\<open>Bounds and fuel.\<close> \<open>processDependentsUnsafe\<close> recurses at most once per node, so its bound is the
  number of nodes; the theorems show that it suffices. The xor construction tries at most
  \<open>XOR_MAX_ITERATIONS\<close> seeds, as the code does. The loops of the memlog, of the peeling and of the
  disjoint-set forest carry no bound: they are partial functions, and the theorems show that they
  return.

  \<^bold>\<open>Not modelled.\<close> Hash joins, aggregation and the fused operators, which are for the most part calls of
  Arrow kernels and builders; the resolver, which goes through SQLite parse trees; printing, profiling, CPU
  pinning and task descriptions; join reordering, which is not part of the build; benchmarks; vendored hash
  tables and hash functions; SQLite itself but for its varint writer and its hooks.
\<close>

unbundle bit_operations_syntax

section \<open>Insertions of a transaction\<close>



end
